(* ===== verification/CH_Prelude.thy ===== *)
theory CH_Prelude
  imports Main "HOL-Library.Word" "HOL-Library.Monad_Syntax"
begin

text \<open>
  Shared vocabulary of the CacheHound development.

  \<^item> \<^emph>\<open>Integers.\<close> Way indices, set indices, sizes and counters (\<open>std::size_t\<close>) are \<open>nat\<close> where the
    code keeps them far below the word size; where a computation can wrap, the wrap-around is written
    out. Addresses (\<open>std::uintptr_t\<close>) are 64-bit words.
  \<^item> \<^emph>\<open>Faults.\<close> An operation that can run into a failing \<open>assert\<close> or an out-of-range element access
    returns an \<open>option\<close>; \<open>None\<close> is the run without a defined result. Theorems that an operation never
    faults are therefore theorems that it returns \<open>Some\<close>.
  \<^item> \<^emph>\<open>Standard library.\<close> The few algorithms of the C++ library the sources use on vectors
    (\<open>operator[]\<close>, \<open>resize\<close>, \<open>std::find\<close>, \<open>std::rotate\<close> on a prefix, \<open>std::swap\<close> of two elements,
    \<open>std::countr_zero\<close>) are defined here once, with the facts all components use.
\<close>

unbundle bit_operations_syntax

named_theorems vec_simps \<open>facts about bounds-checked vector accesses\<close>
named_theorems policy_wf \<open>preservation of well-formedness by policy operations\<close>

type_synonym uintptr = "64 word"

text \<open>One more than the largest \<open>std::size_t\<close>.\<close>

abbreviation size_t_range :: nat where
  "size_t_range \<equiv> 2 ^ 64"

text \<open>Decrementing a positive unsigned integer does not wrap.\<close>

lemma wrap_pred: "1 \<le> x \<Longrightarrow> x < r \<Longrightarrow> (x + r - 1) mod r = x - (1::nat)"
  by (cases x) auto

section \<open>Bounds-checked vectors\<close>

text \<open>\<open>v[i]\<close> read and written; out of range there is no defined result.\<close>

definition vec_at :: "'a list \<Rightarrow> nat \<Rightarrow> 'a option" where
  "vec_at xs i = (if i < length xs then Some (xs ! i) else None)"

definition vec_set :: "'a list \<Rightarrow> nat \<Rightarrow> 'a \<Rightarrow> 'a list option" where
  "vec_set xs i v = (if i < length xs then Some (xs[i := v]) else None)"

text \<open>\<open>v.resize(n)\<close>, new elements value-initialised to \<open>d\<close>.\<close>

definition vec_resize :: "nat \<Rightarrow> 'a \<Rightarrow> 'a list \<Rightarrow> 'a list" where
  "vec_resize n d xs = take n xs @ replicate (n - length xs) d"

text \<open>\<open>std::swap(v[i], v[j])\<close>.\<close>

definition vec_swap :: "nat \<Rightarrow> nat \<Rightarrow> 'a list \<Rightarrow> 'a list option" where
  "vec_swap i j xs = (if i < length xs \<and> j < length xs then Some (xs[i := xs ! j, j := xs ! i]) else None)"

text \<open>An \<open>assert\<close>.\<close>

definition require :: "bool \<Rightarrow> unit option" where
  "require b = (if b then Some () else None)"

lemma vec_at_Some [vec_simps]: "vec_at xs i = Some v \<longleftrightarrow> i < length xs \<and> v = xs ! i"
  by (auto simp: vec_at_def)

lemma vec_set_Some [vec_simps]: "vec_set xs i v = Some ys \<longleftrightarrow> i < length xs \<and> ys = xs[i := v]"
  by (auto simp: vec_set_def)

lemma require_Some [vec_simps]: "require b = Some u \<longleftrightarrow> b"
  by (auto simp: require_def)

lemma require_simps [simp]: "require True = Some ()" "require False = None"
  by (simp_all add: require_def)

lemma vec_at_in [simp]: "i < length xs \<Longrightarrow> vec_at xs i = Some (xs ! i)"
  by (simp add: vec_at_def)

lemma vec_swap_Some [vec_simps]:
  "vec_swap i j xs = Some ys \<longleftrightarrow> i < length xs \<and> j < length xs \<and> ys = xs[i := xs ! j, j := xs ! i]"
  by (auto simp: vec_swap_def)

lemma vec_swap_in [simp]:
  "i < length xs \<Longrightarrow> j < length xs \<Longrightarrow> vec_swap i j xs = Some (xs[i := xs ! j, j := xs ! i])"
  by (simp add: vec_swap_def)

lemma vec_set_in [simp]: "i < length xs \<Longrightarrow> vec_set xs i v = Some (xs[i := v])"
  by (simp add: vec_set_def)

lemma length_vec_resize [simp]: "length (vec_resize n d xs) = n"
  by (simp add: vec_resize_def min_def)

lemma nth_vec_resize:
  "i < n \<Longrightarrow> vec_resize n d xs ! i = (if i < length xs then xs ! i else d)"
  by (auto simp: vec_resize_def nth_append)

section \<open>Searching and rotating\<close>

text \<open>
  \<open>std::find(begin, end, x)\<close>, as an offset from \<open>begin\<close>; the offset of \<open>end\<close> is the length.
\<close>

fun std_find :: "'a list \<Rightarrow> 'a \<Rightarrow> nat" where
  "std_find [] x = 0"
| "std_find (y # ys) x = (if y = x then 0 else Suc (std_find ys x))"

lemma std_find_le: "std_find xs x \<le> length xs"
  by (induction xs) auto

lemma std_find_less_iff [simp]: "std_find xs x < length xs \<longleftrightarrow> x \<in> set xs"
  by (induction xs) auto

lemma std_find_eq_length_iff [simp]: "std_find xs x = length xs \<longleftrightarrow> x \<notin> set xs"
  by (induction xs) auto

lemma nth_std_find [simp]: "x \<in> set xs \<Longrightarrow> xs ! std_find xs x = x"
  by (induction xs) auto

lemma std_find_first: "i < std_find xs x \<Longrightarrow> xs ! i \<noteq> x"
  by (induction xs arbitrary: i) (auto simp: nth_Cons split: if_splits nat.splits)

lemma take_std_find: "x \<notin> set (take (std_find xs x) xs)"
  by (induction xs) auto

text \<open>\<open>std::find_if\<close>, also as an offset.\<close>

fun std_find_if :: "('a \<Rightarrow> bool) \<Rightarrow> 'a list \<Rightarrow> nat" where
  "std_find_if P [] = 0"
| "std_find_if P (y # ys) = (if P y then 0 else Suc (std_find_if P ys))"

lemma std_find_if_map: "std_find_if (\<lambda>l. f l = x) xs = std_find (map f xs) x"
  by (induction xs) auto

text \<open>A \<open>std::span\<close> of \<open>n\<close> elements that starts at element \<open>off\<close> of a vector.\<close>

definition vec_span :: "'a list \<Rightarrow> nat \<Rightarrow> nat \<Rightarrow> 'a list option" where
  "vec_span xs off n = (if off + n \<le> length xs then Some (take n (drop off xs)) else None)"

lemma vec_span_in [simp]: "off + n \<le> length xs \<Longrightarrow> vec_span xs off n = Some (take n (drop off xs))"
  by (simp add: vec_span_def)

text \<open>
  \<open>std::rotate(begin, it, it + 1)\<close>: the element at \<open>it\<close> moves to the front and the ones before it
  move back by one place.
\<close>

definition rotate_front :: "nat \<Rightarrow> 'a list \<Rightarrow> 'a list" where
  "rotate_front i xs = xs ! i # take i xs @ drop (Suc i) xs"

lemma length_rotate_front [simp]: "i < length xs \<Longrightarrow> length (rotate_front i xs) = length xs"
  by (simp add: rotate_front_def min_def)

lemma set_rotate_front [simp]: "i < length xs \<Longrightarrow> set (rotate_front i xs) = set xs"
  using arg_cong [OF id_take_nth_drop [of i xs], of set] by (simp add: rotate_front_def)

lemma distinct_rotate_front [simp]:
  "i < length xs \<Longrightarrow> distinct (rotate_front i xs) = distinct xs"
  by (metis card_distinct distinct_card length_rotate_front set_rotate_front)

lemma rotate_front_last: "xs \<noteq> [] \<Longrightarrow> rotate_front (length xs - 1) xs = last xs # butlast xs"
  by (simp add: rotate_front_def last_conv_nth butlast_conv_take)

lemma rotate_front_find:
  assumes "x \<in> set xs" and "distinct xs"
  shows "rotate_front (std_find xs x) xs = x # removeAll x xs"
proof -
  let ?i = "std_find xs x"
  have i: "?i < length xs" using assms(1) by simp
  have split: "xs = take ?i xs @ x # drop (Suc ?i) xs"
    using id_take_nth_drop [OF i] assms(1) by simp
  then have "distinct (take ?i xs @ x # drop (Suc ?i) xs)" using assms(2) by simp
  then have "x \<notin> set (take ?i xs)" "x \<notin> set (drop (Suc ?i) xs)" by auto
  then have "removeAll x (take ?i xs @ x # drop (Suc ?i) xs) = take ?i xs @ drop (Suc ?i) xs"
    by simp
  then have "removeAll x xs = take ?i xs @ drop (Suc ?i) xs"
    using split by simp
  then show ?thesis using assms(1) by (simp add: rotate_front_def)
qed

section \<open>Powers of two\<close>

text \<open>\<open>std::countr_zero\<close> of a 64-bit unsigned integer.\<close>

fun countr_zero :: "nat \<Rightarrow> nat" where
  "countr_zero n = (if n = 0 then 64 else if odd n then 0 else Suc (countr_zero (n div 2)))"

declare countr_zero.simps [simp del]

lemma countr_zero_power [simp]: "countr_zero (2 ^ k) = k"
  by (induction k) (simp_all add: countr_zero.simps)

text \<open>The test \<open>x != 0 && (x & (x - 1)) == 0\<close> of the sources.\<close>

definition is_power_of_two :: "nat \<Rightarrow> bool" where
  "is_power_of_two x \<longleftrightarrow> x \<noteq> 0 \<and> x AND (x - 1) = 0"

lemma and_pred_even:
  assumes "0 < (m::nat)"
  shows "(2 * m) AND (2 * m - 1) = 2 * (m AND (m - 1))"
proof -
  have "2 * m - 1 = 1 + 2 * (m - 1)" using assms by simp
  then show ?thesis using and_rec [of "2 * m" "2 * m - 1"] by simp
qed

lemma is_power_of_two_iff: "is_power_of_two x \<longleftrightarrow> (\<exists>k. x = 2 ^ k)"
proof (induction x rule: less_induct)
  case (less x)
  consider "x = 0" | "x = 1" | "odd x" "x \<noteq> 1" | m where "x = 2 * m" "0 < m"
    by (metis evenE gr0I mult_0_right)
  then show ?case
  proof cases
    case 1
    then show ?thesis by (simp add: is_power_of_two_def)
  next
    case 2
    then show ?thesis by (auto simp: is_power_of_two_def intro: exI [of _ 0])
  next
    case 3
    then obtain m where m: "x = Suc (2 * m)" by (auto elim: oddE)
    with 3 have "0 < m" by auto
    have "x AND (x - 1) = 2 * m" using m and_rec [of x "x - 1"] by simp
    with \<open>0 < m\<close> have "\<not> is_power_of_two x" by (simp add: is_power_of_two_def)
    moreover have "\<nexists>k. x = 2 ^ k"
    proof
      assume "\<exists>k. x = 2 ^ k"
      then obtain k where "x = 2 ^ k" ..
      with 3 show False by (cases k) auto
    qed
    ultimately show ?thesis by blast
  next
    case (4 m)
    have "is_power_of_two x \<longleftrightarrow> is_power_of_two m"
      using 4 and_pred_even [OF 4(2)] by (simp add: is_power_of_two_def)
    also have "\<dots> \<longleftrightarrow> (\<exists>k. m = 2 ^ k)" using less.IH [of m] 4 by simp
    also have "\<dots> \<longleftrightarrow> (\<exists>k. x = 2 ^ k)"
    proof
      assume "\<exists>k. m = 2 ^ k"
      then obtain k where "m = 2 ^ k" ..
      then have "x = 2 ^ Suc k" using 4 by simp
      then show "\<exists>k. x = 2 ^ k" ..
    next
      assume "\<exists>k. x = 2 ^ k"
      then obtain k where k: "x = 2 ^ k" ..
      with 4 obtain j where "k = Suc j" by (cases k) auto
      with 4 k show "\<exists>k. m = 2 ^ k" by auto
    qed
    finally show ?thesis .
  qed
qed

lemma is_power_of_two_power [simp]: "is_power_of_two (2 ^ k)"
  by (auto simp: is_power_of_two_iff)

lemma is_power_of_twoE:
  assumes "is_power_of_two x"
  obtains k where "x = 2 ^ k" "countr_zero x = k"
  using assms by (auto simp: is_power_of_two_iff)

lemma is_power_of_two_pos: "is_power_of_two x \<Longrightarrow> 0 < x"
  by (simp add: is_power_of_two_def)

lemma unat_take_bit_mod: "unat (take_bit k w) = unat w mod 2 ^ k" for w :: uintptr
  unfolding unsigned_take_bit_eq by (simp add: take_bit_eq_mod)

section \<open>Row-major indices\<close>

lemma row_index_eq_iff:
  assumes "v < n" and "w < (n::nat)"
  shows "t * n + v = s * n + w \<longleftrightarrow> t = s \<and> v = w"
proof
  assume eq: "t * n + v = s * n + w"
  have "t = (t * n + v) div n" "v = (t * n + v) mod n" using assms(1) by simp_all
  moreover have "s = (s * n + w) div n" "w = (s * n + w) mod n" using assms(2) by simp_all
  ultimately show "t = s \<and> v = w" using eq by metis
qed simp

lemma row_index_less: "s < k \<Longrightarrow> w < n \<Longrightarrow> s * n + w < k * (n::nat)"
proof -
  assume "s < k" "w < n"
  then have "s * n + w < Suc s * n" by simp
  also have "\<dots> \<le> k * n" using \<open>s < k\<close> by (intro mult_le_mono1) simp
  finally show ?thesis .
qed

lemma row_span_le: "s < k \<Longrightarrow> s * n + n \<le> k * (n::nat)"
  using mult_le_mono1 [of "Suc s" k n] by simp

end
