(* ===== verification/CH_Replacement.thy ===== *)
theory CH_Replacement
  imports CH_Prelude
begin

text \<open>
  The replacement-policy interface (\<open>lib/include/cachehound/concepts/replacement_policy.hpp\<close>), the
  test \<open>check_cyclic_eviction\<close> of \<open>util/replacement_policy.hpp\<close> that works on any policy, and the two
  policies that keep an explicit order of ways: FIFO and LRU.

  A policy has three operations. \<open>ways\<close> is the associativity, \<open>hit w\<close> records a hit in way \<open>w\<close>, and
  \<open>miss\<close> chooses the way to fill. The locale \<open>replacement_policy\<close> states what every client relies on:
  on well-formed policies no operation faults, the associativity never changes, a chosen way is in
  range, and every way that was once filled may later be reported as hit. The set \<open>filled\<close> makes the
  last point precise; for most policies it is the set of all ways, for the policies that fill the
  ways linearly at first (\<open>linear_init_replacement_policy\<close>) it is the part filled so far.
\<close>

section \<open>The interface\<close>

locale replacement_policy =
  fixes ways :: "'p \<Rightarrow> nat"
    and hit :: "nat \<Rightarrow> 'p \<Rightarrow> 'p option"
    and miss :: "'p \<Rightarrow> (nat \<times> 'p) option"
    and invar :: "'p \<Rightarrow> bool"
    and filled :: "'p \<Rightarrow> nat set"
  assumes filled_ways: "invar p \<Longrightarrow> filled p \<subseteq> {..<ways p}"
    and hit_total: "invar p \<Longrightarrow> w \<in> filled p \<Longrightarrow> \<exists>p'. hit w p = Some p'"
    and hit_wf: "invar p \<Longrightarrow> w \<in> filled p \<Longrightarrow> hit w p = Some p' \<Longrightarrow>
          invar p' \<and> ways p' = ways p \<and> filled p \<subseteq> filled p'"
    and miss_total: "invar p \<Longrightarrow> \<exists>w p'. miss p = Some (w, p')"
    and miss_wf: "invar p \<Longrightarrow> miss p = Some (w, p') \<Longrightarrow>
          invar p' \<and> ways p' = ways p \<and> insert w (filled p) \<subseteq> filled p'"
begin

lemma miss_way_less: "invar p \<Longrightarrow> miss p = Some (w, p') \<Longrightarrow> w < ways p"
  using miss_wf filled_ways by fastforce

lemma ways_pos: "invar p \<Longrightarrow> 0 < ways p"
  using miss_total miss_way_less by fastforce

lemma hit_ok: "invar p \<Longrightarrow> w \<in> filled p \<Longrightarrow>
    \<exists>q. hit w p = Some q \<and> invar q \<and> ways q = ways p \<and> filled p \<subseteq> filled q"
  using hit_total hit_wf by meson

lemma miss_ok: "invar p \<Longrightarrow>
    \<exists>w q. miss p = Some (w, q) \<and> w < ways p \<and> invar q \<and> ways q = ways p \<and> insert w (filled p) \<subseteq> filled q"
  using miss_total miss_wf miss_way_less by meson

lemma hit_way_less: "invar p \<Longrightarrow> w \<in> filled p \<Longrightarrow> w < ways p"
  using filled_ways by blast

end

section \<open>Sequences of operations\<close>

text \<open>
  A policy used over time sees hits and misses; \<open>policy_run\<close> performs them and returns the ways that
  were touched (the way of a hit, the chosen way of a miss), oldest first.
\<close>

datatype policy_event = Hit nat | Miss

fun policy_run :: "(nat \<Rightarrow> 'p \<Rightarrow> 'p option) \<Rightarrow> ('p \<Rightarrow> (nat \<times> 'p) option) \<Rightarrow>
    policy_event list \<Rightarrow> 'p \<Rightarrow> (nat list \<times> 'p) option" where
  "policy_run hit miss [] p = Some ([], p)"
| "policy_run hit miss (Hit w # es) p =
     do { p' \<leftarrow> hit w p; (ws, q) \<leftarrow> policy_run hit miss es p'; Some (w # ws, q) }"
| "policy_run hit miss (Miss # es) p =
     do { (w, p') \<leftarrow> miss p; (ws, q) \<leftarrow> policy_run hit miss es p'; Some (w # ws, q) }"

abbreviation run_misses :: "('p \<Rightarrow> (nat \<times> 'p) option) \<Rightarrow> nat \<Rightarrow> 'p \<Rightarrow> (nat list \<times> 'p) option" where
  "run_misses miss n \<equiv> policy_run (\<lambda>_ _. None) miss (replicate n Miss)"

text \<open>
  \<open>check_cyclic_eviction\<close>: as many misses as there are ways, collecting the chosen ways in a set; the
  policy argument is a reference, so the changed policy is returned as well.
\<close>

definition check_cyclic_eviction ::
    "('p \<Rightarrow> nat) \<Rightarrow> ('p \<Rightarrow> (nat \<times> 'p) option) \<Rightarrow> 'p \<Rightarrow> (bool \<times> 'p) option" where
  "check_cyclic_eviction ways miss p =
     (let associativity = ways p
      in do { (evicted_ways, p') \<leftarrow> run_misses miss associativity p;
              Some (card (set evicted_ways) = associativity, p') })"

lemma run_misses_Suc:
  "run_misses miss (Suc n) p =
     do { (w, p') \<leftarrow> miss p; (ws, q) \<leftarrow> run_misses miss n p'; Some (w # ws, q) }"
  by simp

lemma length_policy_run:
  "policy_run hit miss es p = Some (ws, q) \<Longrightarrow> length ws = length es"
  by (induction hit miss es p arbitrary: ws rule: policy_run.induct)
    (auto simp: bind_eq_Some_conv)

text \<open>The test succeeds exactly when no way is chosen twice.\<close>

lemma check_cyclic_eviction_distinct:
  assumes "run_misses miss (ways p) p = Some (ws, p')"
  shows "check_cyclic_eviction ways miss p = Some (distinct ws, p')"
proof -
  have "length ws = ways p" using length_policy_run [OF assms] by simp
  then have "card (set ws) = ways p \<longleftrightarrow> distinct ws"
    using card_distinct distinct_card by metis
  with assms show ?thesis by (simp add: check_cyclic_eviction_def)
qed

context replacement_policy
begin

lemma run_misses_total: "invar p \<Longrightarrow> \<exists>ws p'. run_misses miss n p = Some (ws, p')"
proof (induction n arbitrary: p)
  case 0
  then show ?case by simp
next
  case (Suc n)
  from miss_total [OF Suc.prems] obtain w p' where m: "miss p = Some (w, p')" by blast
  with miss_wf [OF Suc.prems m] Suc.IH [of p'] show ?case by auto
qed

lemma run_misses_wf:
  "invar p \<Longrightarrow> run_misses miss n p = Some (ws, p') \<Longrightarrow> invar p' \<and> ways p' = ways p \<and> set ws \<subseteq> {..<ways p}"
proof (induction n arbitrary: p ws)
  case 0
  then show ?case by simp
next
  case (Suc n)
  from Suc.prems(2) obtain w q vs where m: "miss p = Some (w, q)"
    and r: "run_misses miss n q = Some (vs, p')" and ws: "ws = w # vs"
    by (auto simp: bind_eq_Some_conv)
  from miss_wf [OF Suc.prems(1) m] have "invar q" "ways q = ways p" by auto
  with Suc.IH [OF _ r] miss_way_less [OF Suc.prems(1) m] ws show ?case by auto
qed

lemma check_cyclic_eviction_total: "invar p \<Longrightarrow> \<exists>b p'. check_cyclic_eviction ways miss p = Some (b, p')"
  using run_misses_total [of p "ways p"] check_cyclic_eviction_distinct [of miss ways p] by metis

end

text \<open>Policies that fill the ways in ascending order: \<open>d\<close> counts the ways filled so far.\<close>

lemma fill_misses:
  assumes "\<And>p. J p \<Longrightarrow> d p < n \<Longrightarrow> \<exists>q. miss p = Some (d p, q) \<and> J q \<and> d q = Suc (d p)"
    and "J p" and "d p + k \<le> n"
  shows "\<exists>q. run_misses miss k p = Some ([d p..<d p + k], q)"
  using assms(2,3)
proof (induction k arbitrary: p)
  case 0
  then show ?case by simp
next
  case (Suc k)
  from assms(1) [OF Suc.prems(1)] Suc.prems(2) obtain q
    where q: "miss p = Some (d p, q)" "J q" "d q = Suc (d p)" by auto
  with Suc.IH [OF q(2)] Suc.prems(2) obtain r
    where "run_misses miss k q = Some ([Suc (d p)..<d p + Suc k], r)" by auto
  with q(1) show ?case by (simp add: upt_rec [of "d p"] del: upt_Suc)
qed

lemma fill_misses_cyclic:
  assumes "run_misses miss (ways p) p = Some ([m..<k], q)"
  shows "check_cyclic_eviction ways miss p = Some (True, q)"
  using check_cyclic_eviction_distinct [of miss ways p "[m..<k]" q] assms by simp

section \<open>FIFO\<close>

record fifo_replacement_policy =
  fifo_order :: "nat list"

definition fifo_init :: "nat \<Rightarrow> fifo_replacement_policy option" where
  "fifo_init ways = do { require (ways > 0); Some \<lparr>fifo_order = [0..<ways]\<rparr> }"

definition fifo_ways :: "fifo_replacement_policy \<Rightarrow> nat" where
  "fifo_ways p = length (fifo_order p)"

definition fifo_hit :: "nat \<Rightarrow> fifo_replacement_policy \<Rightarrow> fifo_replacement_policy option" where
  "fifo_hit way p = Some p"

definition fifo_hit_it :: "nat \<Rightarrow> fifo_replacement_policy \<Rightarrow> fifo_replacement_policy option" where
  "fifo_hit_it it p = do {
     require (it < length (fifo_order p));
     Some (p\<lparr>fifo_order := rotate_front it (fifo_order p)\<rparr>) }"

definition fifo_miss :: "fifo_replacement_policy \<Rightarrow> (nat \<times> fifo_replacement_policy) option" where
  "fifo_miss p = do {
     p' \<leftarrow> fifo_hit_it (length (fifo_order p) - 1) p;
     way \<leftarrow> vec_at (fifo_order p') 0;
     Some (way, p') }"

section \<open>LRU\<close>

record lru_replacement_policy =
  lru_order :: "nat list"

definition lru_init :: "nat \<Rightarrow> lru_replacement_policy option" where
  "lru_init ways = do { require (ways > 0); Some \<lparr>lru_order = [0..<ways]\<rparr> }"

definition lru_ways :: "lru_replacement_policy \<Rightarrow> nat" where
  "lru_ways p = length (lru_order p)"

definition lru_hit_it :: "nat \<Rightarrow> lru_replacement_policy \<Rightarrow> lru_replacement_policy option" where
  "lru_hit_it it p = do {
     require (it < length (lru_order p));
     Some (p\<lparr>lru_order := rotate_front it (lru_order p)\<rparr>) }"

definition lru_hit :: "nat \<Rightarrow> lru_replacement_policy \<Rightarrow> lru_replacement_policy option" where
  "lru_hit way p = (let it = std_find (lru_order p) way in do {
     require (it \<noteq> length (lru_order p));
     lru_hit_it it p })"

definition lru_miss :: "lru_replacement_policy \<Rightarrow> (nat \<times> lru_replacement_policy) option" where
  "lru_miss p = do {
     p' \<leftarrow> lru_hit_it (length (lru_order p) - 1) p;
     way \<leftarrow> vec_at (lru_order p') 0;
     Some (way, p') }"

subsection \<open>Well-formedness and closed forms\<close>

text \<open>\<open>order_\<close> is a permutation of the ways.\<close>

definition order_wf :: "nat list \<Rightarrow> bool" where
  "order_wf xs \<longleftrightarrow> xs \<noteq> [] \<and> distinct xs \<and> set xs = {..<length xs}"

definition fifo_wf :: "fifo_replacement_policy \<Rightarrow> bool" where
  "fifo_wf p \<longleftrightarrow> order_wf (fifo_order p)"

definition lru_wf :: "lru_replacement_policy \<Rightarrow> bool" where
  "lru_wf p \<longleftrightarrow> order_wf (lru_order p)"

lemma order_wf_upt: "0 < n \<Longrightarrow> order_wf [0..<n]"
  by (auto simp: order_wf_def)

lemma order_wf_rotate_front: "order_wf xs \<Longrightarrow> i < length xs \<Longrightarrow> order_wf (rotate_front i xs)"
  by (simp add: order_wf_def) (simp add: rotate_front_def)

lemma order_wf_in_set: "order_wf xs \<Longrightarrow> w \<in> set xs \<longleftrightarrow> w < length xs"
  by (auto simp: order_wf_def)

lemma order_wf_last: "order_wf xs \<Longrightarrow> last xs < length xs"
  using last_in_set [of xs] by (auto simp: order_wf_def)

text \<open>On a well-formed order the operations never fault; these are their results.\<close>

lemma fifo_miss_eq:
  "fifo_wf p \<Longrightarrow> fifo_miss p =
     Some (last (fifo_order p), p\<lparr>fifo_order := last (fifo_order p) # butlast (fifo_order p)\<rparr>)"
  using rotate_front_last [of "fifo_order p"]
  by (auto simp: fifo_miss_def fifo_hit_it_def fifo_wf_def order_wf_def vec_at_def)

lemma lru_miss_eq:
  "lru_wf p \<Longrightarrow> lru_miss p =
     Some (last (lru_order p), p\<lparr>lru_order := last (lru_order p) # butlast (lru_order p)\<rparr>)"
  using rotate_front_last [of "lru_order p"]
  by (auto simp: lru_miss_def lru_hit_it_def lru_wf_def order_wf_def vec_at_def)

lemma lru_hit_eq:
  "lru_wf p \<Longrightarrow> w < lru_ways p \<Longrightarrow>
     lru_hit w p = Some (p\<lparr>lru_order := w # removeAll w (lru_order p)\<rparr>)"
  using rotate_front_find [of w "lru_order p"]
  by (auto simp: lru_hit_def lru_hit_it_def lru_wf_def lru_ways_def order_wf_def Let_def)

lemma lru_hit_fault: "lru_wf p \<Longrightarrow> \<not> w < lru_ways p \<Longrightarrow> lru_hit w p = None"
  using std_find_eq_length_iff [of "lru_order p" w]
  by (auto simp: lru_hit_def lru_wf_def lru_ways_def order_wf_def)

lemma order_wf_miss:
  assumes "order_wf xs"
  shows "order_wf (last xs # butlast xs)"
proof -
  from assms have ne: "xs \<noteq> []" by (simp add: order_wf_def)
  then have "order_wf (rotate_front (length xs - 1) xs)"
    by (intro order_wf_rotate_front assms) simp
  then show ?thesis by (simp only: rotate_front_last [OF ne])
qed

lemma order_wf_hit: "order_wf xs \<Longrightarrow> w < length xs \<Longrightarrow> order_wf (w # removeAll w xs)"
  using order_wf_rotate_front [of xs "std_find xs w"] rotate_front_find [of w xs]
  by (simp add: order_wf_def)

lemma length_miss_order: "xs \<noteq> [] \<Longrightarrow> Suc (length (butlast xs)) = length xs"
  by (cases xs rule: rev_cases) auto

lemma order_hit_length: "order_wf xs \<Longrightarrow> w < length xs \<Longrightarrow> Suc (length (removeAll w xs)) = length xs"
  using rotate_front_find [of w xs] length_rotate_front [of "std_find xs w" xs]
  by (simp add: order_wf_def)

interpretation fifo: replacement_policy fifo_ways fifo_hit fifo_miss fifo_wf "\<lambda>p. {..<fifo_ways p}"
proof
  fix p assume invar: "fifo_wf p"
  then have ne: "fifo_order p \<noteq> []" by (simp add: fifo_wf_def order_wf_def)
  show "\<exists>w p'. fifo_miss p = Some (w, p')" using fifo_miss_eq [OF invar] by simp
  fix w p' assume m: "fifo_miss p = Some (w, p')"
  show "fifo_wf p' \<and> fifo_ways p' = fifo_ways p \<and> insert w {..<fifo_ways p} \<subseteq> {..<fifo_ways p'}"
    using m fifo_miss_eq [OF invar] invar order_wf_miss order_wf_last length_miss_order [OF ne]
    by (auto simp: fifo_wf_def fifo_ways_def)
qed (auto simp: fifo_hit_def)

interpretation lru: replacement_policy lru_ways lru_hit lru_miss lru_wf "\<lambda>p. {..<lru_ways p}"
proof
  fix p w p' assume invar: "lru_wf p" and w: "w \<in> {..<lru_ways p}"
  show "\<exists>p'. lru_hit w p = Some p'" using lru_hit_eq [OF invar] w by simp
  assume "lru_hit w p = Some p'"
  with lru_hit_eq [OF invar] w order_wf_hit order_hit_length invar
  show "lru_wf p' \<and> lru_ways p' = lru_ways p \<and> {..<lru_ways p} \<subseteq> {..<lru_ways p'}"
    by (auto simp: lru_wf_def lru_ways_def)
next
  fix p assume invar: "lru_wf p"
  then have ne: "lru_order p \<noteq> []" by (simp add: lru_wf_def order_wf_def)
  show "\<exists>w p'. lru_miss p = Some (w, p')" using lru_miss_eq [OF invar] by simp
  fix w p' assume m: "lru_miss p = Some (w, p')"
  show "lru_wf p' \<and> lru_ways p' = lru_ways p \<and> insert w {..<lru_ways p} \<subseteq> {..<lru_ways p'}"
    using m lru_miss_eq [OF invar] invar order_wf_miss order_wf_last length_miss_order [OF ne]
    by (auto simp: lru_wf_def lru_ways_def)
qed simp

lemma fifo_init_wf: "0 < n \<Longrightarrow> \<exists>p. fifo_init n = Some p \<and> fifo_wf p \<and> fifo_ways p = n"
  by (auto simp: fifo_init_def fifo_wf_def fifo_ways_def order_wf_upt)

lemma lru_init_wf: "0 < n \<Longrightarrow> \<exists>p. lru_init n = Some p \<and> lru_wf p \<and> lru_ways p = n"
  by (auto simp: lru_init_def lru_wf_def lru_ways_def order_wf_upt)

subsection \<open>LRU keeps the ways in order of last use\<close>

lemma lru_run_order:
  assumes "lru_wf p" and "\<forall>w. Hit w \<in> set es \<longrightarrow> w < lru_ways p"
  shows "\<exists>ws q. policy_run lru_hit lru_miss es p = Some (ws, q) \<and> lru_wf q \<and> lru_ways q = lru_ways p \<and>
           lru_order q = rev (remdups ws) @ filter (\<lambda>w. w \<notin> set ws) (lru_order p)"
  using assms
proof (induction es arbitrary: p)
  case Nil
  then show ?case by simp
next
  case (Cons e es)
  let ?step = "\<lambda>w. p\<lparr>lru_order := w # removeAll w (lru_order p)\<rparr>"
  have dist: "distinct (lru_order p)" and ne: "lru_order p \<noteq> []"
    using Cons.prems(1) by (auto simp: lru_wf_def order_wf_def)
  obtain w where w: "w < lru_ways p"
    and run: "policy_run lru_hit lru_miss (e # es) p =
      do { (ws, q) \<leftarrow> policy_run lru_hit lru_miss es (?step w); Some (w # ws, q) }"
  proof (cases e)
    case (Hit v)
    then have "v < lru_ways p" using Cons.prems(2) by simp
    then show ?thesis using that [of v] Hit lru_hit_eq [OF Cons.prems(1)] by simp
  next
    case Miss
    have "removeAll (last (lru_order p)) (lru_order p) = butlast (lru_order p)"
      using dist ne by (cases "lru_order p" rule: rev_cases) auto
    moreover have "last (lru_order p) < lru_ways p"
      using Cons.prems(1) order_wf_last by (simp add: lru_wf_def lru_ways_def)
    ultimately show ?thesis using that [of "last (lru_order p)"] Miss lru_miss_eq [OF Cons.prems(1)]
      by simp
  qed
  have "lru_wf (?step w)" and len: "lru_ways (?step w) = lru_ways p"
    using lru.hit_wf [OF Cons.prems(1) _ lru_hit_eq [OF Cons.prems(1) w]] w by auto
  then obtain ws q where r: "policy_run lru_hit lru_miss es (?step w) = Some (ws, q)"
    and q: "lru_wf q" "lru_ways q = lru_ways p"
    and o: "lru_order q = rev (remdups ws) @ filter (\<lambda>x. x \<notin> set ws) (w # removeAll w (lru_order p))"
    using Cons.IH [of "?step w"] Cons.prems(2) by auto
  have "filter (\<lambda>x. x \<notin> set ws) (removeAll w xs) = filter (\<lambda>x. x \<noteq> w \<and> x \<notin> set ws) xs" for xs
    by (induction xs) auto
  with o have "lru_order q = rev (remdups (w # ws)) @ filter (\<lambda>x. x \<notin> set (w # ws)) (lru_order p)"
    by simp
  with run r q show ?case by auto
qed

subsection \<open>Cyclic eviction of the ordered policies\<close>

lemma order_misses:
  assumes "\<And>p. invar p \<Longrightarrow> miss p = Some (last (ord p), upd p (last (ord p) # butlast (ord p)))"
    and "\<And>p. invar p \<Longrightarrow> ord p \<noteq> [] \<and> invar (upd p (last (ord p) # butlast (ord p)))"
    and "\<And>p xs. ord (upd p xs) = xs"
    and "invar p" and "n \<le> length (ord p)"
  shows "\<exists>q. run_misses miss n p = Some (rev (drop (length (ord p) - n) (ord p)), q)"
  using assms(4,5)
proof (induction n arbitrary: p)
  case 0
  then show ?case by simp
next
  case (Suc n)
  from Suc.prems(1) assms(2) obtain xs x where o: "ord p = xs @ [x]"
    by (metis append_butlast_last_id)
  let ?q = "upd p (x # xs)"
  have invar: "invar ?q" using assms(2) [OF Suc.prems(1)] o by simp
  have oq: "ord ?q = x # xs" by (rule assms(3))
  from Suc.IH [OF invar] Suc.prems(2) oq o
  obtain q where "run_misses miss n ?q = Some (rev (drop (Suc (length xs) - n) (x # xs)), q)"
    by auto
  moreover have "drop (Suc (length xs) - n) (x # xs) = drop (length xs - n) xs"
    using Suc.prems(2) o by (simp add: Suc_diff_le)
  moreover have "miss p = Some (x, ?q)" using assms(1) [OF Suc.prems(1)] o by simp
  ultimately show ?case using o by simp
qed

lemma fifo_misses_cyclic: "fifo_wf p \<Longrightarrow> \<exists>q. run_misses fifo_miss (fifo_ways p) p = Some (rev (fifo_order p), q)"
  using order_misses [of fifo_wf fifo_miss fifo_order "\<lambda>p xs. p\<lparr>fifo_order := xs\<rparr>" p "fifo_ways p"]
    fifo_miss_eq order_wf_miss
  by (simp add: fifo_ways_def fifo_wf_def order_wf_def)

lemma lru_misses_cyclic: "lru_wf p \<Longrightarrow> \<exists>q. run_misses lru_miss (lru_ways p) p = Some (rev (lru_order p), q)"
  using order_misses [of lru_wf lru_miss lru_order "\<lambda>p xs. p\<lparr>lru_order := xs\<rparr>" p "lru_ways p"]
    lru_miss_eq order_wf_miss
  by (simp add: lru_ways_def lru_wf_def order_wf_def)

subsection \<open>FIFO ignores hits\<close>

text \<open>The ways chosen by the misses of a run, without the ways of its hits.\<close>

fun miss_ways :: "policy_event list \<Rightarrow> nat list \<Rightarrow> nat list" where
  "miss_ways (Miss # es) (w # ws) = w # miss_ways es ws"
| "miss_ways (Hit v # es) (w # ws) = miss_ways es ws"
| "miss_ways _ _ = []"

lemma rotated_nth:
  assumes "xs \<noteq> []"
  shows "(last xs # butlast xs) ! (length xs - 1 - j mod length xs) =
           xs ! (length xs - 1 - Suc j mod length xs)"
proof -
  have j: "j mod length xs < length xs" using assms by simp
  show ?thesis
  proof (cases "Suc (j mod length xs) = length xs")
    case True
    then have "Suc j mod length xs = 0" by (simp add: mod_Suc)
    with True assms show ?thesis by (simp add: last_conv_nth)
  next
    case False
    then have "Suc j mod length xs = Suc (j mod length xs)" by (simp add: mod_Suc)
    moreover have "length xs - 1 - j mod length xs = Suc (length xs - 1 - Suc (j mod length xs))"
      using False j by linarith
    ultimately show ?thesis using False j by (simp add: nth_butlast)
  qed
qed

lemma fifo_run_ways:
  assumes "fifo_wf p"
  shows "\<exists>ws q. policy_run fifo_hit fifo_miss es p = Some (ws, q) \<and> fifo_wf q \<and>
           miss_ways es ws = map (\<lambda>j. fifo_order p ! (fifo_ways p - 1 - j mod fifo_ways p))
             [0..<length (filter (\<lambda>e. e = Miss) es)]"
  using assms
proof (induction es arbitrary: p)
  case Nil
  then show ?case by simp
next
  case (Cons e es)
  show ?case
  proof (cases e)
    case (Hit v)
    with Cons.IH [OF Cons.prems] show ?thesis by (auto simp: fifo_hit_def)
  next
    case Miss
    let ?q = "p\<lparr>fifo_order := last (fifo_order p) # butlast (fifo_order p)\<rparr>"
    have ne: "fifo_order p \<noteq> []" using Cons.prems by (simp add: fifo_wf_def order_wf_def)
    have m: "fifo_miss p = Some (last (fifo_order p), ?q)" by (rule fifo_miss_eq [OF Cons.prems])
    then have q: "fifo_wf ?q" "fifo_ways ?q = fifo_ways p"
      using fifo.miss_wf [OF Cons.prems m] by auto
    have shift: "fifo_order ?q ! (fifo_ways p - 1 - j mod fifo_ways p) =
        fifo_order p ! (fifo_ways p - 1 - Suc j mod fifo_ways p)" for j
      using rotated_nth [OF ne, of j] by (simp add: fifo_ways_def)
    have "last (fifo_order p) = fifo_order p ! (fifo_ways p - 1 - 0 mod fifo_ways p)"
      using ne by (simp add: last_conv_nth fifo_ways_def)
    with Cons.IH [OF q(1)] m q(2) Miss shift show ?thesis
      by (auto simp: map_upt_Suc simp del: upt_Suc)
  qed
qed

section \<open>Properties\<close>

text \<open>
  LRU evicts the least recently used way. After any sequence of hits and misses on a new LRU
  policy of \<open>n\<close> ways, no operation has faulted, the ways stand in \<open>order_\<close> by their last use (most
  recent first, the ways never used last, in ascending order), and the next miss takes the last one.
\<close>

theorem lru_order_by_last_use:
  assumes "0 < n" and "\<forall>w. Hit w \<in> set es \<longrightarrow> w < n"
  shows "\<exists>p ws q. lru_init n = Some p \<and> policy_run lru_hit lru_miss es p = Some (ws, q) \<and>
           lru_order q = rev (remdups ws) @ filter (\<lambda>w. w \<notin> set ws) [0..<n] \<and>
           map_option fst (lru_miss q) = Some (last (rev (remdups ws) @ filter (\<lambda>w. w \<notin> set ws) [0..<n]))"
proof -
  let ?p = "\<lparr>lru_order = [0..<n]\<rparr>"
  have "lru_wf ?p" "lru_ways ?p = n" using assms(1) by (auto simp: lru_wf_def lru_ways_def order_wf_upt)
  with lru_run_order [of ?p es] assms(2) obtain ws q
    where q: "policy_run lru_hit lru_miss es ?p = Some (ws, q)" "lru_wf q"
      "lru_order q = rev (remdups ws) @ filter (\<lambda>w. w \<notin> set ws) [0..<n]" by auto
  moreover have "lru_init n = Some ?p" using assms(1) by (simp add: lru_init_def)
  ultimately show ?thesis using lru_miss_eq [OF q(2)] by auto
qed

theorem lru_order_by_last_use_witness:
  "\<exists>p ws q. lru_init 3 = Some p \<and> policy_run lru_hit lru_miss [Miss, Miss, Hit 2] p = Some (ws, q) \<and>
     lru_order q = rev (remdups ws) @ filter (\<lambda>w. w \<notin> set ws) [0..<3] \<and>
     map_option fst (lru_miss q) = Some (last (rev (remdups ws) @ filter (\<lambda>w. w \<notin> set ws) [0..<3]))"
proof -
  have "(0::nat) < 3" and "\<forall>w. Hit w \<in> set [Miss, Miss, Hit 2] \<longrightarrow> w < 3" by auto
  then show ?thesis by (rule lru_order_by_last_use)
qed

text \<open>
  FIFO replacement ignores hits and fills the ways in descending cyclic order: in any run of a new
  policy of \<open>n\<close> ways, the \<open>j\<close>-th miss (counted from 0) chooses way \<open>n - 1 - j mod n\<close>, whatever hits
  happen between the misses.
\<close>

theorem fifo_victims_cyclic_order:
  assumes "0 < n"
  shows "\<exists>p ws q. fifo_init n = Some p \<and> policy_run fifo_hit fifo_miss es p = Some (ws, q) \<and>
           miss_ways es ws = map (\<lambda>j. n - 1 - j mod n) [0..<length (filter (\<lambda>e. e = Miss) es)]"
proof -
  let ?p = "\<lparr>fifo_order = [0..<n]\<rparr>"
  have wf: "fifo_wf ?p" "fifo_ways ?p = n"
    using assms(1) by (auto simp: fifo_wf_def fifo_ways_def order_wf_upt)
  have "n - 1 - j mod n < n" for j using assms by linarith
  then have "fifo_order ?p ! (n - 1 - j mod n) = n - 1 - j mod n" for j by simp
  moreover have "fifo_init n = Some ?p" using assms(1) by (simp add: fifo_init_def)
  ultimately show ?thesis using fifo_run_ways [OF wf(1), of es] wf(2) by auto
qed

theorem fifo_victims_cyclic_order_witness:
  "\<exists>p ws q. fifo_init 2 = Some p \<and> policy_run fifo_hit fifo_miss [Miss, Hit 1, Miss, Miss] p = Some (ws, q) \<and>
     miss_ways [Miss, Hit 1, Miss, Miss] ws =
       map (\<lambda>j. 2 - 1 - j mod 2) [0..<length (filter (\<lambda>e. e = Miss) [Miss, Hit 1, Miss, Miss])]"
  by (rule fifo_victims_cyclic_order) simp

end
