(* ===== verification/CH_Plru.thy ===== *)
theory CH_Plru
  imports CH_Replacement
begin

text \<open>
  Tree-based pseudo-LRU (\<open>policies/replacement/plru_replacement_policy.hpp\<close>).

  The code keeps the inner nodes of a complete binary tree in a bit vector, the children of node \<open>i\<close>
  at \<open>2i + 1\<close> and \<open>2i + 2\<close>. \<open>hit\<close> makes every bit on the path to a way point to it, \<open>miss\<close> descends
  against the bits and flips them. The first part translates the two loops; the second part relates
  the vector to a recursive tree (\<open>tree_of\<close>) and shows that both loops implement the recursive
  operations \<open>t_hit\<close> and \<open>t_miss\<close>; the last part shows on the trees that the misses are cyclic and
  that a way that was just used is evicted last.
\<close>

section \<open>The policy\<close>

record plru_replacement_policy =
  plru_tree_height :: nat
  plru_tree_bits :: "bool list"

definition plru_init :: "nat \<Rightarrow> plru_replacement_policy option" where
  "plru_init ways = do {
     require (ways \<noteq> 0 \<and> ways AND (ways - 1) = 0);
     Some \<lparr>plru_tree_height = countr_zero ways, plru_tree_bits = replicate (ways - 1) False\<rparr> }"

text \<open>
  \<open>1 << tree_height_\<close> is an \<open>int\<close> shift whose result is converted to \<open>std::size_t\<close>, so a height of 31 gives a
  negative number and a huge one after the conversion. Wider shifts are undefined. The mask in \<open>hit\<close> is an \<open>int\<close> shift by less than the
  height, and exact for heights up to 31.
\<close>

definition plru_ways :: "plru_replacement_policy \<Rightarrow> nat" where
  "plru_ways p = nat (signed_take_bit 31 (push_bit (plru_tree_height p) 1 :: int) mod int size_t_range)"

text \<open>
  The loops count \<open>level\<close> from 0 to \<open>tree_height_\<close>; the first argument is the number of levels still to
  come, so the bit tested at a level is the one of that number minus one.
\<close>

fun plru_hit_loop :: "nat \<Rightarrow> nat \<Rightarrow> nat \<Rightarrow> bool list \<Rightarrow> bool list option" where
  "plru_hit_loop 0 way tree_index tree_bits = Some tree_bits"
| "plru_hit_loop (Suc levels) way tree_index tree_bits =
     (let rhs = bit way levels in do {
        require (tree_index < length tree_bits);
        plru_hit_loop levels way (2 * tree_index + 1 + of_bool rhs) (tree_bits[tree_index := rhs]) })"

definition plru_hit :: "nat \<Rightarrow> plru_replacement_policy \<Rightarrow> plru_replacement_policy option" where
  "plru_hit way p = do {
     bits \<leftarrow> plru_hit_loop (plru_tree_height p) way 0 (plru_tree_bits p);
     Some (p\<lparr>plru_tree_bits := bits\<rparr>) }"

fun plru_miss_loop :: "nat \<Rightarrow> nat \<Rightarrow> nat \<Rightarrow> bool list \<Rightarrow> (nat \<times> bool list) option" where
  "plru_miss_loop 0 tree_index way tree_bits = Some (way, tree_bits)"
| "plru_miss_loop (Suc levels) tree_index way tree_bits = do {
     b \<leftarrow> vec_at tree_bits tree_index;
     let rhs = (\<not> b);
     plru_miss_loop levels (2 * tree_index + 1 + of_bool rhs) (push_bit 1 way OR of_bool rhs)
       (tree_bits[tree_index := rhs]) }"

definition plru_miss :: "plru_replacement_policy \<Rightarrow> (nat \<times> plru_replacement_policy) option" where
  "plru_miss p = do {
     (way, bits) \<leftarrow> plru_miss_loop (plru_tree_height p) 0 0 (plru_tree_bits p);
     Some (way, p\<lparr>plru_tree_bits := bits\<rparr>) }"

definition plru_wf :: "plru_replacement_policy \<Rightarrow> bool" where
  "plru_wf p \<longleftrightarrow> plru_tree_height p < 31 \<and> length (plru_tree_bits p) = 2 ^ plru_tree_height p - 1"

lemma plru_ways_power:
  assumes "plru_tree_height p < 31"
  shows "plru_ways p = 2 ^ plru_tree_height p"
proof -
  let ?x = "2 ^ plru_tree_height p :: int"
  have x: "?x < 2 ^ 31" using assms by (rule power_strict_increasing) simp
  then have "signed_take_bit 31 ?x = ?x" by (intro signed_take_bit_int_eq_self) (simp_all add: order.trans [of _ 0])
  moreover have "?x mod int size_t_range = ?x" using x by (intro mod_pos_pos_trivial) simp_all
  ultimately show ?thesis by (simp add: plru_ways_def push_bit_eq_mult nat_power_eq)
qed

lemma plru_ways_eq: "plru_wf p \<Longrightarrow> plru_ways p = 2 ^ plru_tree_height p"
  by (simp add: plru_wf_def plru_ways_power)

text \<open>A policy of \<open>2 ^ 31\<close> ways says that it has more.\<close>

lemma plru_ways_31: "plru_tree_height p = 31 \<Longrightarrow> plru_ways p = 2 ^ 64 - 2 ^ 31"
  by (simp add: plru_ways_def push_bit_eq_mult signed_take_bit_eq_take_bit_minus take_bit_eq_mod bit_iff_odd)

lemma plru_init_wf:
  assumes "is_power_of_two n" and "n < 2 ^ 31"
  shows "\<exists>p. plru_init n = Some p \<and> plru_wf p \<and> plru_ways p = n"
proof -
  from assms(1) obtain k where k: "n = 2 ^ k" "countr_zero n = k" by (rule is_power_of_twoE)
  have "k < 31" using assms(2) unfolding k(1) by (rule power_less_imp_less_exp [rotated]) simp
  with k assms(1) show ?thesis
    by (auto simp: plru_init_def plru_wf_def plru_ways_power is_power_of_two_def)
qed

lemma plru_init_fault: "\<not> is_power_of_two n \<Longrightarrow> plru_init n = None"
  by (auto simp: plru_init_def is_power_of_two_def)

section \<open>The bit vector as a tree\<close>

datatype ptree = Leaf | Node bool ptree ptree

fun tree_of :: "nat \<Rightarrow> nat \<Rightarrow> bool list \<Rightarrow> ptree" where
  "tree_of 0 i bs = Leaf"
| "tree_of (Suc h) i bs = Node (bs ! i) (tree_of h (2 * i + 1) bs) (tree_of h (2 * i + 2) bs)"

text \<open>The indices of the nodes below node \<open>i\<close>; sibling subtrees do not share any.\<close>

fun nodes :: "nat \<Rightarrow> nat \<Rightarrow> nat set" where
  "nodes 0 i = {}"
| "nodes (Suc h) i = insert i (nodes h (2 * i + 1) \<union> nodes h (2 * i + 2))"

lemma nodes_ancestor: "j \<in> nodes h i \<Longrightarrow> \<exists>d. Suc j div 2 ^ d = Suc i"
proof (induction h arbitrary: i)
  case 0
  then show ?case by simp
next
  case (Suc h)
  from Suc.prems consider "j = i" | c where "j \<in> nodes h c" "Suc c div 2 = Suc i"
    by auto
  then show ?case
  proof cases
    case 1
    then show ?thesis by (auto intro: exI [of _ 0])
  next
    case (2 c)
    from Suc.IH [OF 2(1)] obtain d where "Suc j div 2 ^ d = Suc c" ..
    then have "Suc j div 2 ^ Suc d = Suc i"
      using 2(2) by (simp add: div_mult2_eq mult.commute [of 2])
    then show ?thesis by blast
  qed
qed

lemma nodes_ge: "j \<in> nodes h i \<Longrightarrow> i \<le> j"
  by (induction h arbitrary: i) fastforce+

lemma nodes_siblings:
  assumes "j \<in> nodes h (2 * i + 1)" and "j \<in> nodes h' (2 * i + 2)"
  shows False
proof -
  from nodes_ancestor [OF assms(1)] obtain d where d: "Suc j div 2 ^ d = 2 * i + 2" by auto
  from nodes_ancestor [OF assms(2)] obtain e where e: "Suc j div 2 ^ e = 2 * i + 3"
    by (auto simp: numeral_3_eq_3)
  have half: "m div 2 ^ Suc k \<le> m div 2" for m k :: nat
    by (simp add: div_mult2_eq div_le_mono)
  consider "d = e" | k where "e = d + Suc k" | k where "d = e + Suc k"
    using less_natE linorder_less_linear by (metis add_Suc_right)
  then show False
  proof cases
    case 1
    with d e show False by simp
  next
    case (2 k)
    then have "Suc j div 2 ^ e = (Suc j div 2 ^ d) div 2 ^ Suc k"
      by (simp only: power_add div_mult2_eq)
    with d e half [of "2 * i + 2" k] show False by simp
  next
    case (3 k)
    then have "Suc j div 2 ^ d = (Suc j div 2 ^ e) div 2 ^ Suc k"
      by (simp only: power_add div_mult2_eq)
    with d e half [of "2 * i + 3" k] show False by simp
  qed
qed

lemma tree_of_cong: "(\<And>j. j \<in> nodes h i \<Longrightarrow> bs ! j = cs ! j) \<Longrightarrow> tree_of h i bs = tree_of h i cs"
  by (induction h arbitrary: i) auto

fun t_hit :: "nat \<Rightarrow> nat \<Rightarrow> ptree \<Rightarrow> ptree" where
  "t_hit (Suc h) way (Node b l r) =
     (if bit way h then Node True l (t_hit h way r) else Node False (t_hit h way l) r)"
| "t_hit _ way t = t"

fun t_miss :: "nat \<Rightarrow> ptree \<Rightarrow> nat \<times> ptree" where
  "t_miss (Suc h) (Node b l r) =
     (if b then (let (w, l') = t_miss h l in (w, Node False l' r))
      else (let (w, r') = t_miss h r in (2 ^ h + w, Node True l r')))"
| "t_miss _ t = (0, t)"

lemma path_bound:
  "(i + 2) * 2 ^ Suc h \<le> 2 * Suc n \<Longrightarrow> i < n \<and> (2 * i + 1 + of_bool b + 2) * 2 ^ h \<le> 2 * Suc n"
proof
  assume a: "(i + 2) * 2 ^ Suc h \<le> 2 * Suc n"
  have "(i + 2) * 1 \<le> (i + 2) * 2 ^ h" by (intro mult_le_mono2) simp
  with a show "i < n" by simp
  have "(2 * i + 1 + of_bool b + 2) * 2 ^ h \<le> (2 * (i + 2)) * 2 ^ h"
    by (intro mult_right_mono) auto
  also have "\<dots> = (i + 2) * 2 ^ Suc h" by simp
  finally show "(2 * i + 1 + of_bool b + 2) * 2 ^ h \<le> 2 * Suc n" using a by linarith
qed

lemma plru_hit_loop_tree:
  assumes "(i + 2) * 2 ^ h \<le> 2 * Suc (length bs)"
  shows "\<exists>cs. plru_hit_loop h way i bs = Some cs \<and> length cs = length bs \<and>
           tree_of h i cs = t_hit h way (tree_of h i bs) \<and> (\<forall>j. j \<notin> nodes h i \<longrightarrow> cs ! j = bs ! j)"
  using assms
proof (induction h arbitrary: i bs)
  case 0
  then show ?case by simp
next
  case (Suc h)
  let ?b = "bit way h" and ?c = "2 * i + 1 + of_bool (bit way h)"
  let ?bs = "bs[i := ?b]"
  have i: "i < length bs" and c: "(?c + 2) * 2 ^ h \<le> 2 * Suc (length ?bs)"
    using path_bound [OF Suc.prems, of ?b] by auto
  from Suc.IH [OF c] obtain cs where cs: "plru_hit_loop h way ?c ?bs = Some cs"
    "length cs = length bs" "tree_of h ?c cs = t_hit h way (tree_of h ?c ?bs)"
    "\<And>j. j \<notin> nodes h ?c \<Longrightarrow> cs ! j = ?bs ! j" by auto
  have root: "cs ! i = ?b" using cs(4) [of i] i nodes_ge [of i h ?c] by auto
  have upd: "tree_of h (2 * i + 1 + of_bool x) ?bs = tree_of h (2 * i + 1 + of_bool x) bs" for x
    by (rule tree_of_cong) (use nodes_ge in \<open>force simp: nth_list_update\<close>)
  have other: "tree_of h (2 * i + 1 + of_bool (\<not> ?b)) cs = tree_of h (2 * i + 1 + of_bool (\<not> ?b)) ?bs"
    by (rule tree_of_cong, rule cs(4)) (use nodes_siblings [of _ h i h] in \<open>auto split: if_splits\<close>)
  have "tree_of (Suc h) i cs = t_hit (Suc h) way (tree_of (Suc h) i bs)"
    using root upd [of True] upd [of False] other cs(3) by (cases ?b) simp_all
  moreover have "\<forall>j. j \<notin> nodes (Suc h) i \<longrightarrow> cs ! j = bs ! j"
    using cs(4) by (auto split: if_splits)
  ultimately show ?case using cs(1,2) i by (auto simp: Let_def)
qed

lemma plru_miss_loop_tree:
  assumes "(i + 2) * 2 ^ h \<le> 2 * Suc (length bs)"
  shows "\<exists>cs. plru_miss_loop h i way bs = Some (way * 2 ^ h + fst (t_miss h (tree_of h i bs)), cs) \<and>
           length cs = length bs \<and>
           tree_of h i cs = snd (t_miss h (tree_of h i bs)) \<and> (\<forall>j. j \<notin> nodes h i \<longrightarrow> cs ! j = bs ! j)"
  using assms
proof (induction h arbitrary: i bs way)
  case 0
  then show ?case by simp
next
  case (Suc h)
  let ?b = "\<not> bs ! i" and ?c = "2 * i + 1 + of_bool (\<not> bs ! i)"
  let ?bs = "bs[i := ?b]" and ?w = "push_bit 1 way OR of_bool (\<not> bs ! i)"
  have w: "?w = 2 * way + of_bool ?b"
    using or_rec [of "push_bit 1 way" "of_bool ?b"] by (cases ?b) (simp_all add: push_bit_eq_mult)
  have i: "i < length bs" and c: "(?c + 2) * 2 ^ h \<le> 2 * Suc (length ?bs)"
    using path_bound [OF Suc.prems, of ?b] by auto
  from Suc.IH [OF c, of ?w] obtain cs where
    cs: "plru_miss_loop h ?c ?w ?bs = Some (?w * 2 ^ h + fst (t_miss h (tree_of h ?c ?bs)), cs)"
    "length cs = length bs" "tree_of h ?c cs = snd (t_miss h (tree_of h ?c ?bs))"
    "\<And>j. j \<notin> nodes h ?c \<Longrightarrow> cs ! j = ?bs ! j" by auto
  have root: "cs ! i = ?b" using cs(4) [of i] i nodes_ge [of i h ?c] by auto
  have upd: "tree_of h (2 * i + 1 + of_bool x) ?bs = tree_of h (2 * i + 1 + of_bool x) bs" for x
    by (rule tree_of_cong) (use nodes_ge in \<open>force simp: nth_list_update\<close>)
  have other: "tree_of h (2 * i + 1 + of_bool (\<not> ?b)) cs = tree_of h (2 * i + 1 + of_bool (\<not> ?b)) ?bs"
    by (rule tree_of_cong, rule cs(4)) (use nodes_siblings [of _ h i h] in \<open>auto split: if_splits\<close>)
  have "tree_of (Suc h) i cs = snd (t_miss (Suc h) (tree_of (Suc h) i bs))"
    using root upd [of True] upd [of False] other cs(3)
    by (cases ?b) (simp_all add: split_beta)
  moreover have "?w * 2 ^ h + fst (t_miss h (tree_of h ?c ?bs)) =
      way * 2 ^ Suc h + fst (t_miss (Suc h) (tree_of (Suc h) i bs))"
    using w upd [of True] upd [of False] by (cases ?b) (simp_all add: split_beta algebra_simps)
  moreover have "\<forall>j. j \<notin> nodes (Suc h) i \<longrightarrow> cs ! j = bs ! j"
    using cs(4) by (auto split: if_splits)
  ultimately show ?case using cs(1,2) i by (auto simp: Let_def)
qed

text \<open>The tree of a policy; both operations act on it as the recursive ones do.\<close>

definition plru_tree :: "plru_replacement_policy \<Rightarrow> ptree" where
  "plru_tree p = tree_of (plru_tree_height p) 0 (plru_tree_bits p)"

lemma plru_path_start: "plru_wf p \<Longrightarrow> (0 + 2) * 2 ^ plru_tree_height p \<le> 2 * Suc (length (plru_tree_bits p))"
  by (simp add: plru_wf_def)

lemma plru_hit_tree:
  assumes "plru_wf p"
  shows "\<exists>q. plru_hit way p = Some q \<and> plru_wf q \<and> plru_tree_height q = plru_tree_height p \<and>
           plru_tree q = t_hit (plru_tree_height p) way (plru_tree p)"
  using plru_hit_loop_tree [OF plru_path_start [OF assms], of way] assms
  by (auto simp: plru_hit_def plru_tree_def plru_wf_def)

lemma plru_miss_tree:
  assumes "plru_wf p"
  shows "\<exists>q. plru_miss p = Some (fst (t_miss (plru_tree_height p) (plru_tree p)), q) \<and> plru_wf q \<and>
           plru_tree_height q = plru_tree_height p \<and>
           plru_tree q = snd (t_miss (plru_tree_height p) (plru_tree p))"
  using plru_miss_loop_tree [OF plru_path_start [OF assms], of 0] assms
  by (auto simp: plru_miss_def plru_tree_def plru_wf_def)

section \<open>Runs of misses on a tree\<close>

fun complete :: "nat \<Rightarrow> ptree \<Rightarrow> bool" where
  "complete 0 t \<longleftrightarrow> t = Leaf"
| "complete (Suc h) t \<longleftrightarrow> (\<exists>b l r. t = Node b l r \<and> complete h l \<and> complete h r)"

lemma complete_tree_of: "complete h (tree_of h i bs)"
  by (induction h arbitrary: i) auto

lemma complete_t_hit: "complete h t \<Longrightarrow> complete h (t_hit h way t)"
  by (induction h arbitrary: t) auto

lemma t_miss_complete: "complete h t \<Longrightarrow> fst (t_miss h t) < 2 ^ h \<and> complete h (snd (t_miss h t))"
proof (induction h arbitrary: t)
  case 0
  then show ?case by simp
next
  case (Suc h)
  then obtain b l r where "t = Node b l r" "complete h l" "complete h r" by auto
  with Suc.IH [of l] Suc.IH [of r] show ?case by (auto simp: split_beta)
qed

fun t_misses :: "nat \<Rightarrow> nat \<Rightarrow> ptree \<Rightarrow> nat list \<times> ptree" where
  "t_misses h 0 t = ([], t)"
| "t_misses h (Suc n) t =
     (let (w, t') = t_miss h t; (ws, t'') = t_misses h n t' in (w # ws, t''))"

lemma t_misses_complete:
  "complete h t \<Longrightarrow> length (fst (t_misses h n t)) = n \<and> complete h (snd (t_misses h n t)) \<and>
     set (fst (t_misses h n t)) \<subseteq> {..<2 ^ h}"
proof (induction n arbitrary: t)
  case 0
  then show ?case by simp
next
  case (Suc n)
  with t_miss_complete [OF Suc.prems] Suc.IH [of "snd (t_miss h t)"] show ?case
    by (simp add: split_beta)
qed

text \<open>
  The misses alternate between the two subtrees of the root. After an even number of them each
  subtree has seen half of them and the root is as before.
\<close>

fun alternate :: "'a list \<Rightarrow> 'a list \<Rightarrow> 'a list" where
  "alternate (x # xs) (y # ys) = x # y # alternate xs ys"
| "alternate _ _ = []"

lemma set_alternate: "length xs = length ys \<Longrightarrow> set (alternate xs ys) = set xs \<union> set ys"
  by (induction rule: list_induct2) auto

lemma distinct_alternate:
  "length xs = length ys \<Longrightarrow> distinct (alternate xs ys) \<longleftrightarrow> distinct xs \<and> distinct ys \<and> set xs \<inter> set ys = {}"
  by (induction rule: list_induct2) (auto simp: set_alternate)

lemma last_alternate: "length xs = length ys \<Longrightarrow> ys \<noteq> [] \<Longrightarrow> last (alternate xs ys) = last ys"
proof (induction rule: list_induct2)
  case Nil
  then show ?case by simp
next
  case (Cons x xs y ys)
  then show ?case by (cases xs; cases ys) auto
qed

lemma t_misses_alternate:
  "t_misses (Suc h) (2 * n) (Node b l r) =
     (let (ls, l') = t_misses h n l; (rs, r') = t_misses h n r; rs' = map ((+) (2 ^ h)) rs
      in (if b then alternate ls rs' else alternate rs' ls, Node b l' r'))"
proof (induction n arbitrary: l r)
  case 0
  then show ?case by simp
next
  case (Suc n)
  then show ?case by (cases b) (simp_all add: split_beta Let_def)
qed

lemma t_misses_distinct:
  "complete h t \<Longrightarrow> distinct (fst (t_misses h (2 ^ h) t))"
proof (induction h arbitrary: t)
  case 0
  then show ?case by simp
next
  case (Suc h)
  then obtain b l r where t: "t = Node b l r" "complete h l" "complete h r" by auto
  note l = t_misses_complete [OF t(2), of "2 ^ h"] and r = t_misses_complete [OF t(3), of "2 ^ h"]
  let ?ls = "fst (t_misses h (2 ^ h) l)" and ?rs = "map ((+) (2 ^ h)) (fst (t_misses h (2 ^ h) r))"
  have "set ?ls \<inter> set ?rs = {}" using l by fastforce
  moreover have "distinct ?ls" "distinct ?rs"
    using Suc.IH [OF t(2)] Suc.IH [OF t(3)] by (auto simp: distinct_map)
  ultimately show ?case
    using t(1) l r t_misses_alternate [of h "2 ^ h" b l r]
    by (auto simp: split_beta Let_def distinct_alternate)
qed

lemma mod_power_bit: "(w::nat) mod 2 ^ Suc h = (if bit w h then 2 ^ h else 0) + w mod 2 ^ h"
  using take_bit_Suc_from_most [of h w]
  by (simp add: take_bit_eq_mod mult.commute)

lemma t_hit_evicted_last:
  "complete h t \<Longrightarrow> last (fst (t_misses h (2 ^ h) (t_hit h way t))) = way mod 2 ^ h"
proof (induction h arbitrary: t)
  case 0
  then show ?case by simp
next
  case (Suc h)
  then obtain b l r where t: "t = Node b l r" "complete h l" "complete h r" by auto
  let ?l = "if bit way h then l else t_hit h way l" and ?r = "if bit way h then t_hit h way r else r"
  let ?ls = "fst (t_misses h (2 ^ h) ?l)" and ?rs = "fst (t_misses h (2 ^ h) ?r)"
  have len: "length ?ls = 2 ^ h" "length ?rs = 2 ^ h"
    using t t_misses_complete complete_t_hit by (metis (full_types))+
  then have ne: "?ls \<noteq> []" "?rs \<noteq> []" by auto
  have "t_hit (Suc h) way t = Node (bit way h) ?l ?r" using t by simp
  then have "fst (t_misses (Suc h) (2 * 2 ^ h) (t_hit (Suc h) way t)) =
      (if bit way h then alternate ?ls (map ((+) (2 ^ h)) ?rs) else alternate (map ((+) (2 ^ h)) ?rs) ?ls)"
    by (simp only: t_misses_alternate) (simp add: split_beta Let_def)
  then have "last (fst (t_misses (Suc h) (2 ^ Suc h) (t_hit (Suc h) way t))) =
      (if bit way h then 2 ^ h + last ?rs else last ?ls)"
    using len ne by (cases "bit way h") (simp_all add: last_alternate last_map)
  also have "\<dots> = (if bit way h then 2 ^ h else 0) + way mod 2 ^ h"
    using Suc.IH [OF t(2)] Suc.IH [OF t(3)] by simp
  finally show ?case by (simp only: mod_power_bit)
qed

section \<open>The policy on the interface, and runs of misses of the policy\<close>

interpretation plru: replacement_policy plru_ways plru_hit plru_miss plru_wf "\<lambda>p. {..<plru_ways p}"
proof
  fix p w p' assume wf: "plru_wf p"
  show "\<exists>p'. plru_hit w p = Some p'" using plru_hit_tree [OF wf, of w] by blast
  assume "plru_hit w p = Some p'"
  with plru_hit_tree [OF wf, of w] wf
  show "plru_wf p' \<and> plru_ways p' = plru_ways p \<and> {..<plru_ways p} \<subseteq> {..<plru_ways p'}"
    by (auto simp: plru_ways_eq)
next
  fix p assume wf: "plru_wf p"
  show "\<exists>w p'. plru_miss p = Some (w, p')" using plru_miss_tree [OF wf] by blast
  fix w p' assume "plru_miss p = Some (w, p')"
  with plru_miss_tree [OF wf] t_miss_complete [OF complete_tree_of, of "plru_tree_height p" 0 "plru_tree_bits p"] wf
  show "plru_wf p' \<and> plru_ways p' = plru_ways p \<and> insert w {..<plru_ways p} \<subseteq> {..<plru_ways p'}"
    by (auto simp: plru_ways_eq plru_tree_def)
qed simp

lemma plru_misses_tree:
  assumes "plru_wf p"
  shows "\<exists>q. run_misses plru_miss n p = Some (fst (t_misses (plru_tree_height p) n (plru_tree p)), q) \<and>
           plru_wf q \<and> plru_tree_height q = plru_tree_height p"
  using assms
proof (induction n arbitrary: p)
  case 0
  then show ?case by simp
next
  case (Suc n)
  from plru_miss_tree [OF Suc.prems] obtain q where
    q: "plru_miss p = Some (fst (t_miss (plru_tree_height p) (plru_tree p)), q)" "plru_wf q"
      "plru_tree_height q = plru_tree_height p"
      "plru_tree q = snd (t_miss (plru_tree_height p) (plru_tree p))" by blast
  with Suc.IH [of q] show ?case by (auto simp: split_beta)
qed

lemma plru_misses_distinct:
  assumes "plru_wf p" and "run_misses plru_miss (plru_ways p) p = Some (ws, q)"
  shows "distinct ws"
  using plru_misses_tree [OF assms(1), of "plru_ways p"] assms(2)
    t_misses_distinct [OF complete_tree_of, of "plru_tree_height p" 0 "plru_tree_bits p"]
  by (auto simp: plru_ways_eq [OF assms(1)] plru_tree_def)

text \<open>
  Pseudo-LRU protects the way used last: after a hit in way \<open>w\<close> of a well-formed policy with \<open>n\<close>
  ways, the next \<open>n\<close> misses choose every way exactly once, and \<open>w\<close> is the last of them. No assertion
  of the two loops fails on the way.
\<close>

theorem plru_hit_evicted_last:
  assumes "plru_wf p" and "w < plru_ways p"
  shows "\<exists>p' ws q. plru_hit w p = Some p' \<and> run_misses plru_miss (plru_ways p) p' = Some (ws, q) \<and>
           distinct ws \<and> set ws = {..<plru_ways p} \<and> last ws = w"
proof -
  let ?h = "plru_tree_height p"
  from plru_hit_tree [OF assms(1), of w] obtain p' where p': "plru_hit w p = Some p'" "plru_wf p'"
    "plru_tree_height p' = ?h" "plru_tree p' = t_hit ?h w (plru_tree p)" by blast
  from plru_misses_tree [OF p'(2), of "2 ^ ?h"] p'(3,4) obtain q where
    q: "run_misses plru_miss (plru_ways p) p' = Some (fst (t_misses ?h (2 ^ ?h) (t_hit ?h w (plru_tree p))), q)"
    by (auto simp: plru_ways_eq [OF assms(1)])
  let ?ws = "fst (t_misses ?h (2 ^ ?h) (t_hit ?h w (plru_tree p)))"
  have c: "complete ?h (plru_tree p)" by (simp add: plru_tree_def complete_tree_of)
  have "distinct ?ws" by (rule t_misses_distinct [OF complete_t_hit [OF c]])
  moreover have "last ?ws = w" using t_hit_evicted_last [OF c, of w] assms(2) by (simp add: plru_ways_eq [OF assms(1)])
  moreover have "set ?ws = {..<plru_ways p}"
    using t_misses_complete [OF complete_t_hit [OF c], of "2 ^ ?h" w] \<open>distinct ?ws\<close>
    by (intro card_subset_eq) (auto simp: distinct_card plru_ways_eq [OF assms(1)])
  ultimately show ?thesis using p'(1) q by blast
qed

theorem plru_hit_evicted_last_witness:
  "\<exists>p p' ws q. plru_init 4 = Some p \<and> plru_hit 2 p = Some p' \<and>
     run_misses plru_miss (plru_ways p) p' = Some (ws, q) \<and>
     distinct ws \<and> set ws = {..<plru_ways p} \<and> last ws = 2"
proof -
  let ?p = "\<lparr>plru_tree_height = 2, plru_tree_bits = [False, False, False]\<rparr>"
  have "plru_init 4 = Some ?p"
    by code_simp
  moreover have "plru_wf ?p" "2 < plru_ways ?p" by (simp_all add: plru_wf_def plru_ways_eq)
  then have "\<exists>p' ws q. plru_hit 2 ?p = Some p' \<and> run_misses plru_miss (plru_ways ?p) p' = Some (ws, q) \<and>
      distinct ws \<and> set ws = {..<plru_ways ?p} \<and> last ws = 2"
    by (rule plru_hit_evicted_last)
  ultimately show ?thesis by blast
qed

end
