(* ===== verification/CH_Composite.thy ===== *)
theory CH_Composite
  imports CH_Plru
begin

text \<open>
  The policies built on top of another policy: \<open>linear_init_replacement_policy\<close>, which fills the ways
  in ascending order before it asks the nested policy, and \<open>lru_wrapped_replacement_policy\<close>, an LRU
  over groups of ways with one nested policy per group, with its instance \<open>lru_plru_replacement_policy\<close>.

  The template argument is a parameter of the operations. The locale \<open>nested_policy\<close> is the contract a
  nested policy has to meet, namely the replacement-policy interface with every way open to hits; the
  two sublocale relations show that each wrapper then meets the interface again.
\<close>

section \<open>linear_init_replacement_policy\<close>

record 'n linear_init_replacement_policy =
  li_nested :: 'n
  li_dirty_idx :: nat

definition linear_init_init :: "'n \<Rightarrow> 'n linear_init_replacement_policy" where
  "linear_init_init nested = \<lparr>li_nested = nested, li_dirty_idx = 0\<rparr>"

definition linear_init_ways :: "('n \<Rightarrow> nat) \<Rightarrow> 'n linear_init_replacement_policy \<Rightarrow> nat" where
  "linear_init_ways nways p = nways (li_nested p)"

definition linear_init_hit :: "(nat \<Rightarrow> 'n \<Rightarrow> 'n option) \<Rightarrow>
    nat \<Rightarrow> 'n linear_init_replacement_policy \<Rightarrow> 'n linear_init_replacement_policy option" where
  "linear_init_hit nhit way p = do {
     require (way < li_dirty_idx p);
     n \<leftarrow> nhit way (li_nested p);
     Some (p\<lparr>li_nested := n\<rparr>) }"

definition linear_init_miss :: "('n \<Rightarrow> nat) \<Rightarrow> (nat \<Rightarrow> 'n \<Rightarrow> 'n option) \<Rightarrow> ('n \<Rightarrow> (nat \<times> 'n) option) \<Rightarrow>
    'n linear_init_replacement_policy \<Rightarrow> (nat \<times> 'n linear_init_replacement_policy) option" where
  "linear_init_miss nways nhit nmiss p =
     (if li_dirty_idx p < linear_init_ways nways p
      then (let way = li_dirty_idx p; p' = p\<lparr>li_dirty_idx := Suc way\<rparr> in do {
              n \<leftarrow> nhit way (li_nested p');
              Some (way, p'\<lparr>li_nested := n\<rparr>) })
      else do { (way, n) \<leftarrow> nmiss (li_nested p); Some (way, p\<lparr>li_nested := n\<rparr>) })"

section \<open>lru_wrapped_replacement_policy\<close>

text \<open>\<open>lw_lru\<close> is the base-class part of the object.\<close>

record 'n lru_wrapped_replacement_policy =
  lw_lru :: lru_replacement_policy
  lw_nested :: "'n list"
  lw_dirty_idx :: nat

definition lru_wrapped_init :: "nat \<Rightarrow> 'n \<Rightarrow> 'n lru_wrapped_replacement_policy option" where
  "lru_wrapped_init lw_ways nested = do {
     lru \<leftarrow> lru_init lw_ways;
     Some \<lparr>lw_lru = lru, lw_nested = replicate lw_ways nested, lw_dirty_idx = 0\<rparr> }"

definition lru_wrapped_nested_ways :: "('n \<Rightarrow> nat) \<Rightarrow> 'n lru_wrapped_replacement_policy \<Rightarrow> nat" where
  "lru_wrapped_nested_ways nways p = (case lw_nested p of [] \<Rightarrow> 0 | n # _ \<Rightarrow> nways n)"

definition lru_wrapped_ways :: "('n \<Rightarrow> nat) \<Rightarrow> 'n lru_wrapped_replacement_policy \<Rightarrow> nat" where
  "lru_wrapped_ways nways p = lru_ways (lw_lru p) * lru_wrapped_nested_ways nways p"

definition lru_wrapped_hit :: "('n \<Rightarrow> nat) \<Rightarrow> (nat \<Rightarrow> 'n \<Rightarrow> 'n option) \<Rightarrow>
    nat \<Rightarrow> 'n lru_wrapped_replacement_policy \<Rightarrow> 'n lru_wrapped_replacement_policy option" where
  "lru_wrapped_hit nways nhit way p = do {
     require (lw_nested p \<noteq> [] \<and> lru_wrapped_nested_ways nways p \<noteq> 0);
     let lru_way = way div lru_wrapped_nested_ways nways p;
     let nested_way = way mod lru_wrapped_nested_ways nways p;
     lru \<leftarrow> lru_hit lru_way (lw_lru p);
     n \<leftarrow> vec_at (lw_nested p) lru_way;
     n' \<leftarrow> nhit nested_way n;
     Some (p\<lparr>lw_lru := lru, lw_nested := (lw_nested p)[lru_way := n']\<rparr>) }"

definition lru_wrapped_miss :: "('n \<Rightarrow> nat) \<Rightarrow> (nat \<Rightarrow> 'n \<Rightarrow> 'n option) \<Rightarrow> ('n \<Rightarrow> (nat \<times> 'n) option) \<Rightarrow>
    'n lru_wrapped_replacement_policy \<Rightarrow> (nat \<times> 'n lru_wrapped_replacement_policy) option" where
  "lru_wrapped_miss nways nhit nmiss p =
     (if lw_dirty_idx p < lru_wrapped_ways nways p
      then (let way = lw_dirty_idx p in do {
              p' \<leftarrow> lru_wrapped_hit nways nhit way (p\<lparr>lw_dirty_idx := Suc way\<rparr>);
              Some (way, p') })
      else do {
        (lru_way, lru) \<leftarrow> lru_miss (lw_lru p);
        n \<leftarrow> vec_at (lw_nested p) lru_way;
        (nested_way, n') \<leftarrow> nmiss n;
        let p' = p\<lparr>lw_lru := lru, lw_nested := (lw_nested p)[lru_way := n']\<rparr>;
        Some (lru_way * lru_wrapped_nested_ways nways p' + nested_way, p') })"

text \<open>\<open>lru_plru_replacement_policy\<close> (\<open>policies/replacement/lru_plru_replacement_policy.hpp\<close>).\<close>

type_synonym lru_plru_replacement_policy = "plru_replacement_policy lru_wrapped_replacement_policy"

definition lru_plru_init :: "nat \<Rightarrow> nat \<Rightarrow> lru_plru_replacement_policy option" where
  "lru_plru_init lw_ways pl_ways = do { n \<leftarrow> plru_init pl_ways; lru_wrapped_init lw_ways n }"

section \<open>Well-formedness\<close>

definition linear_init_wf :: "('n \<Rightarrow> nat) \<Rightarrow> ('n \<Rightarrow> bool) \<Rightarrow> 'n linear_init_replacement_policy \<Rightarrow> bool" where
  "linear_init_wf nways ninvar p \<longleftrightarrow> ninvar (li_nested p) \<and> li_dirty_idx p \<le> nways (li_nested p)"

text \<open>One nested policy per LRU way, all of the same associativity.\<close>

definition lru_wrapped_wf :: "('n \<Rightarrow> nat) \<Rightarrow> ('n \<Rightarrow> bool) \<Rightarrow> 'n lru_wrapped_replacement_policy \<Rightarrow> bool" where
  "lru_wrapped_wf nways ninvar p \<longleftrightarrow>
     lru_wf (lw_lru p) \<and> length (lw_nested p) = lru_ways (lw_lru p) \<and>
     (\<forall>n \<in> set (lw_nested p). ninvar n \<and> nways n = lru_wrapped_nested_ways nways p) \<and>
     lw_dirty_idx p \<le> lru_wrapped_ways nways p"

locale nested_policy =
  replacement_policy nways nhit nmiss ninvar "\<lambda>n. {..<nways n}"
  for nways :: "'n \<Rightarrow> nat"
    and nhit :: "nat \<Rightarrow> 'n \<Rightarrow> 'n option"
    and nmiss :: "'n \<Rightarrow> (nat \<times> 'n) option"
    and ninvar :: "'n \<Rightarrow> bool"
begin

lemma linear_init_hit_ok:
  assumes "linear_init_wf nways ninvar p" and "w < li_dirty_idx p"
  shows "\<exists>q. linear_init_hit nhit w p = Some q \<and> linear_init_wf nways ninvar q \<and>
           linear_init_ways nways q = linear_init_ways nways p \<and> li_dirty_idx q = li_dirty_idx p"
proof -
  have n: "ninvar (li_nested p)" and w: "w \<in> {..<nways (li_nested p)}"
    using assms by (auto simp: linear_init_wf_def)
  from hit_total [OF n w] obtain m where m: "nhit w (li_nested p) = Some m" ..
  from hit_wf [OF n w m] show ?thesis
    using assms m by (auto simp: linear_init_hit_def linear_init_wf_def linear_init_ways_def)
qed

lemma linear_init_miss_fill:
  assumes "linear_init_wf nways ninvar p" and "li_dirty_idx p < linear_init_ways nways p"
  shows "\<exists>q. linear_init_miss nways nhit nmiss p = Some (li_dirty_idx p, q) \<and>
           linear_init_wf nways ninvar q \<and> linear_init_ways nways q = linear_init_ways nways p \<and>
           li_dirty_idx q = Suc (li_dirty_idx p)"
proof -
  have n: "ninvar (li_nested p)" and w: "li_dirty_idx p \<in> {..<nways (li_nested p)}"
    using assms by (auto simp: linear_init_wf_def linear_init_ways_def)
  from hit_total [OF n w] obtain m where m: "nhit (li_dirty_idx p) (li_nested p) = Some m" ..
  from hit_wf [OF n w m] show ?thesis
    using assms m by (auto simp: linear_init_miss_def linear_init_wf_def linear_init_ways_def Let_def)
qed

lemma linear_init_miss_full:
  assumes "linear_init_wf nways ninvar p" and "\<not> li_dirty_idx p < linear_init_ways nways p"
  shows "\<exists>w q. linear_init_miss nways nhit nmiss p = Some (w, q) \<and> w < li_dirty_idx p \<and>
           linear_init_wf nways ninvar q \<and> linear_init_ways nways q = linear_init_ways nways p \<and>
           li_dirty_idx q = li_dirty_idx p"
proof -
  have n: "ninvar (li_nested p)" using assms by (simp add: linear_init_wf_def)
  from miss_total [OF n] obtain w m where m: "nmiss (li_nested p) = Some (w, m)" by blast
  from miss_wf [OF n m] miss_way_less [OF n m] show ?thesis
    using assms m by (auto simp: linear_init_miss_def linear_init_wf_def linear_init_ways_def)
qed

end

sublocale nested_policy \<subseteq> linear_init:
  replacement_policy "linear_init_ways nways" "linear_init_hit nhit" "linear_init_miss nways nhit nmiss"
    "linear_init_wf nways ninvar" "\<lambda>p. {..<li_dirty_idx p}"
proof
  fix p w p' assume wf: "linear_init_wf nways ninvar p"
  show "{..<li_dirty_idx p} \<subseteq> {..<linear_init_ways nways p}"
    using wf by (simp add: linear_init_wf_def linear_init_ways_def)
  assume w: "w \<in> {..<li_dirty_idx p}"
  show "\<exists>p'. linear_init_hit nhit w p = Some p'" using linear_init_hit_ok [OF wf, of w] w by auto
  assume "linear_init_hit nhit w p = Some p'"
  then show "linear_init_wf nways ninvar p' \<and> linear_init_ways nways p' = linear_init_ways nways p \<and>
      {..<li_dirty_idx p} \<subseteq> {..<li_dirty_idx p'}"
    using linear_init_hit_ok [OF wf, of w] w by auto
next
  fix p w p' assume wf: "linear_init_wf nways ninvar p"
  show "\<exists>w p'. linear_init_miss nways nhit nmiss p = Some (w, p')"
    using linear_init_miss_fill [OF wf] linear_init_miss_full [OF wf] by blast
  assume "linear_init_miss nways nhit nmiss p = Some (w, p')"
  then show "linear_init_wf nways ninvar p' \<and> linear_init_ways nways p' = linear_init_ways nways p \<and>
      insert w {..<li_dirty_idx p} \<subseteq> {..<li_dirty_idx p'}"
    using linear_init_miss_fill [OF wf] linear_init_miss_full [OF wf]
    by (cases "li_dirty_idx p < linear_init_ways nways p") fastforce+
qed

context nested_policy
begin

lemma lru_wrapped_nested_ways_pos:
  assumes "lru_wrapped_wf nways ninvar p"
  shows "lw_nested p \<noteq> [] \<and> 0 < lru_wrapped_nested_ways nways p"
proof -
  have "0 < length (lw_nested p)"
    using assms lru.ways_pos by (simp add: lru_wrapped_wf_def)
  then show ?thesis using assms ways_pos
    by (cases "lw_nested p") (auto simp: lru_wrapped_wf_def lru_wrapped_nested_ways_def)
qed

text \<open>Replacing one nested policy by one of the same associativity keeps the invariant.\<close>

lemma lru_wrapped_update:
  assumes wf: "lru_wrapped_wf nways ninvar p" and g: "g < length (lw_nested p)"
    and n: "ninvar n" "nways n = lru_wrapped_nested_ways nways p"
    and l: "lru_wf l" "lru_ways l = lru_ways (lw_lru p)"
    and d: "d \<le> lru_wrapped_ways nways p"
  defines "q \<equiv> p\<lparr>lw_lru := l, lw_nested := (lw_nested p)[g := n], lw_dirty_idx := d\<rparr>"
  shows "lru_wrapped_wf nways ninvar q \<and> lru_wrapped_ways nways q = lru_wrapped_ways nways p \<and>
           lru_wrapped_nested_ways nways q = lru_wrapped_nested_ways nways p \<and> lw_dirty_idx q = d"
proof -
  have nw: "lru_wrapped_nested_ways nways q = lru_wrapped_nested_ways nways p"
    using g n(2) by (cases "lw_nested p"; cases g) (auto simp: q_def lru_wrapped_nested_ways_def)
  then have w: "lru_wrapped_ways nways q = lru_wrapped_ways nways p"
    using l(2) by (simp add: lru_wrapped_ways_def q_def)
  have "lru_wrapped_wf nways ninvar q"
    using wf n l d nw w
    by (auto simp: lru_wrapped_wf_def q_def dest!: set_update_subset_insert [THEN subsetD])
  with nw w show ?thesis by (simp add: q_def)
qed

lemma lru_wrapped_hit_ok:
  assumes wf: "lru_wrapped_wf nways ninvar p" and w: "w < lru_wrapped_ways nways p"
  shows "\<exists>q. lru_wrapped_hit nways nhit w p = Some q \<and> lru_wrapped_wf nways ninvar q \<and>
           lru_wrapped_ways nways q = lru_wrapped_ways nways p \<and> lw_dirty_idx q = lw_dirty_idx p"
proof -
  let ?nw = "lru_wrapped_nested_ways nways p"
  let ?g = "w div ?nw"
  have pos: "lw_nested p \<noteq> []" "0 < ?nw" using lru_wrapped_nested_ways_pos [OF wf] by auto
  have g: "?g < lru_ways (lw_lru p)" using w pos
    by (simp add: lru_wrapped_ways_def less_mult_imp_div_less)
  then have gl: "?g < length (lw_nested p)" using wf by (simp add: lru_wrapped_wf_def)
  have lw: "lru_wf (lw_lru p)" using wf by (simp add: lru_wrapped_wf_def)
  from lru.hit_total [OF lw] g obtain l where l: "lru_hit ?g (lw_lru p) = Some l" by auto
  with lru.hit_wf [OF lw _ l] g have l': "lru_wf l" "lru_ways l = lru_ways (lw_lru p)" by auto
  let ?n = "lw_nested p ! ?g"
  have n: "ninvar ?n" "nways ?n = ?nw" using wf gl by (auto simp: lru_wrapped_wf_def)
  have v: "w mod ?nw \<in> {..<nways ?n}" using pos n by simp
  from hit_total [OF n(1) v] obtain m where m: "nhit (w mod ?nw) ?n = Some m" ..
  with hit_wf [OF n(1) v m] n have m': "ninvar m" "nways m = ?nw" by auto
  have d: "lw_dirty_idx p \<le> lru_wrapped_ways nways p" using wf by (simp add: lru_wrapped_wf_def)
  show ?thesis
    using lru_wrapped_update [OF wf gl m' l' d] pos l m gl
    by (simp add: lru_wrapped_hit_def Let_def)
qed

lemma lru_wrapped_miss_fill:
  assumes wf: "lru_wrapped_wf nways ninvar p" and d: "lw_dirty_idx p < lru_wrapped_ways nways p"
  shows "\<exists>q. lru_wrapped_miss nways nhit nmiss p = Some (lw_dirty_idx p, q) \<and>
           lru_wrapped_wf nways ninvar q \<and> lru_wrapped_ways nways q = lru_wrapped_ways nways p \<and>
           lw_dirty_idx q = Suc (lw_dirty_idx p)"
proof -
  let ?p = "p\<lparr>lw_dirty_idx := Suc (lw_dirty_idx p)\<rparr>"
  have "lru_wrapped_nested_ways nways ?p = lru_wrapped_nested_ways nways p"
    by (simp add: lru_wrapped_nested_ways_def)
  then have "lru_wrapped_wf nways ninvar ?p" "lru_wrapped_ways nways ?p = lru_wrapped_ways nways p"
    using wf d by (auto simp: lru_wrapped_wf_def lru_wrapped_ways_def)
  with lru_wrapped_hit_ok [of ?p "lw_dirty_idx p"] d show ?thesis
    by (auto simp: lru_wrapped_miss_def Let_def)
qed

lemma lru_wrapped_miss_full:
  assumes wf: "lru_wrapped_wf nways ninvar p" and d: "\<not> lw_dirty_idx p < lru_wrapped_ways nways p"
  shows "\<exists>w q. lru_wrapped_miss nways nhit nmiss p = Some (w, q) \<and> w < lru_wrapped_ways nways p \<and>
           lru_wrapped_wf nways ninvar q \<and> lru_wrapped_ways nways q = lru_wrapped_ways nways p \<and>
           lw_dirty_idx q = lw_dirty_idx p"
proof -
  let ?nw = "lru_wrapped_nested_ways nways p"
  have lw: "lru_wf (lw_lru p)" using wf by (simp add: lru_wrapped_wf_def)
  from lru.miss_total [OF lw] obtain g l where l: "lru_miss (lw_lru p) = Some (g, l)" by auto
  with lru.miss_wf [OF lw l] have l': "lru_wf l" "lru_ways l = lru_ways (lw_lru p)" by auto
  have g: "g < lru_ways (lw_lru p)" using lru.miss_way_less [OF lw l] .
  then have gl: "g < length (lw_nested p)" using wf by (simp add: lru_wrapped_wf_def)
  let ?n = "lw_nested p ! g"
  have n: "ninvar ?n" "nways ?n = ?nw" using wf gl by (auto simp: lru_wrapped_wf_def)
  from miss_total [OF n(1)] obtain v m where m: "nmiss ?n = Some (v, m)" by blast
  with miss_wf [OF n(1) m] miss_way_less [OF n(1) m] n
  have m': "ninvar m" "nways m = ?nw" and v: "v < ?nw" by auto
  have "g * ?nw + v < Suc g * ?nw" using v by simp
  also have "\<dots> \<le> lru_wrapped_ways nways p"
    using g unfolding lru_wrapped_ways_def by (intro mult_right_mono) auto
  finally have w: "g * ?nw + v < lru_wrapped_ways nways p" .
  let ?q = "p\<lparr>lw_lru := l, lw_nested := (lw_nested p)[g := m]\<rparr>"
  have dd: "lw_dirty_idx p \<le> lru_wrapped_ways nways p" using wf by (simp add: lru_wrapped_wf_def)
  have upd: "lru_wrapped_wf nways ninvar ?q \<and> lru_wrapped_ways nways ?q = lru_wrapped_ways nways p \<and>
      lru_wrapped_nested_ways nways ?q = ?nw"
    using lru_wrapped_update [OF wf gl m' l' dd] by simp
  then have "lru_wrapped_miss nways nhit nmiss p = Some (g * ?nw + v, ?q)"
    using d l gl m by (simp add: lru_wrapped_miss_def Let_def)
  with upd w show ?thesis by auto
qed

end

sublocale nested_policy \<subseteq> lru_wrapped:
  replacement_policy "lru_wrapped_ways nways" "lru_wrapped_hit nways nhit"
    "lru_wrapped_miss nways nhit nmiss" "lru_wrapped_wf nways ninvar" "\<lambda>p. {..<lru_wrapped_ways nways p}"
proof
  fix p w p' assume wf: "lru_wrapped_wf nways ninvar p" and w: "w \<in> {..<lru_wrapped_ways nways p}"
  show "\<exists>p'. lru_wrapped_hit nways nhit w p = Some p'" using lru_wrapped_hit_ok [OF wf, of w] w by auto
  assume "lru_wrapped_hit nways nhit w p = Some p'"
  then show "lru_wrapped_wf nways ninvar p' \<and> lru_wrapped_ways nways p' = lru_wrapped_ways nways p \<and>
      {..<lru_wrapped_ways nways p} \<subseteq> {..<lru_wrapped_ways nways p'}"
    using lru_wrapped_hit_ok [OF wf, of w] w by auto
next
  fix p w p' assume wf: "lru_wrapped_wf nways ninvar p"
  show "\<exists>w p'. lru_wrapped_miss nways nhit nmiss p = Some (w, p')"
    using lru_wrapped_miss_fill [OF wf] lru_wrapped_miss_full [OF wf] by blast
  assume "lru_wrapped_miss nways nhit nmiss p = Some (w, p')"
  then show "lru_wrapped_wf nways ninvar p' \<and> lru_wrapped_ways nways p' = lru_wrapped_ways nways p \<and>
      insert w {..<lru_wrapped_ways nways p} \<subseteq> {..<lru_wrapped_ways nways p'}"
    using lru_wrapped_miss_fill [OF wf] lru_wrapped_miss_full [OF wf]
    by (cases "lw_dirty_idx p < lru_wrapped_ways nways p") fastforce+
qed simp

interpretation plru_nested: nested_policy plru_ways plru_hit plru_miss plru_wf
  by (rule nested_policy.intro) (rule plru.replacement_policy_axioms)

interpretation lru_nested: nested_policy lru_ways lru_hit lru_miss lru_wf
  by (rule nested_policy.intro) (rule lru.replacement_policy_axioms)

text \<open>The operations of \<open>lru_plru_replacement_policy\<close>, all inherited.\<close>

abbreviation lru_plru_ways :: "lru_plru_replacement_policy \<Rightarrow> nat" where
  "lru_plru_ways \<equiv> lru_wrapped_ways plru_ways"

abbreviation lru_plru_hit :: "nat \<Rightarrow> lru_plru_replacement_policy \<Rightarrow> lru_plru_replacement_policy option" where
  "lru_plru_hit \<equiv> lru_wrapped_hit plru_ways plru_hit"

abbreviation lru_plru_miss :: "lru_plru_replacement_policy \<Rightarrow> (nat \<times> lru_plru_replacement_policy) option" where
  "lru_plru_miss \<equiv> lru_wrapped_miss plru_ways plru_hit plru_miss"

abbreviation lru_plru_wf :: "lru_plru_replacement_policy \<Rightarrow> bool" where
  "lru_plru_wf \<equiv> lru_wrapped_wf plru_ways plru_wf"

lemma lru_plru_init_wf:
  assumes "0 < l" and "is_power_of_two n" and "n < 2 ^ 31"
  shows "\<exists>p. lru_plru_init l n = Some p \<and> lru_plru_wf p \<and> lru_plru_ways p = l * n \<and> lw_dirty_idx p = 0"
proof -
  from plru_init_wf [OF assms(2,3)] obtain m where m: "plru_init n = Some m" "plru_wf m" "plru_ways m = n" by blast
  from lru_init_wf [OF assms(1)] obtain q where q: "lru_init l = Some q" "lru_wf q" "lru_ways q = l" by blast
  let ?p = "\<lparr>lw_lru = q, lw_nested = replicate l m, lw_dirty_idx = 0\<rparr>"
  have "lru_wrapped_nested_ways plru_ways ?p = n"
    using assms(1) m by (cases l) (auto simp: lru_wrapped_nested_ways_def)
  then show ?thesis using m q
    by (auto simp: lru_plru_init_def lru_wrapped_init_def lru_wrapped_wf_def lru_wrapped_ways_def)
qed

lemma lru_plru_fill:
  assumes "lru_plru_wf p" and "lw_dirty_idx p + k \<le> lru_plru_ways p"
  shows "\<exists>q. run_misses lru_plru_miss k p = Some ([lw_dirty_idx p..<lw_dirty_idx p + k], q)"
proof (rule fill_misses [where n = "lru_plru_ways p" and
      J = "\<lambda>q. lru_plru_wf q \<and> lru_plru_ways q = lru_plru_ways p"])
  fix q assume q: "lru_plru_wf q \<and> lru_plru_ways q = lru_plru_ways p" "lw_dirty_idx q < lru_plru_ways p"
  then have "lru_plru_wf q" "lw_dirty_idx q < lru_plru_ways q" by auto
  from plru_nested.lru_wrapped_miss_fill [OF this] q
  show "\<exists>r. lru_plru_miss q = Some (lw_dirty_idx q, r) \<and>
      (lru_plru_wf r \<and> lru_plru_ways r = lru_plru_ways p) \<and> lw_dirty_idx r = Suc (lw_dirty_idx q)" by auto
qed (use assms in auto)

end
