(* ===== verification/CH_Srrip.thy ===== *)
theory CH_Srrip
  imports CH_Replacement
begin

text \<open>
  Static re-reference interval prediction (\<open>policies/replacement/srrip_replacement_policy.hpp\<close>) and its
  two aliases \<open>mru_replacement_policy\<close> (one bit) and \<open>qlru_replacement_policy\<close> (two bits).

  The template arguments \<open>Bits\<close> and \<open>HitPromotionPolicy\<close> of the class are the arguments \<open>bits\<close> and
  \<open>promote\<close> of the operations. The search loop of \<open>miss\<close> has no bound in the source; it is a
  \<^theory_text>\<open>partial_function\<close> whose result \<open>None\<close> means that it never returns, and
  \<open>srrip_miss_eq\<close> shows that it returns on every well-formed policy, with the result in closed form.
\<close>

section \<open>The policy\<close>

definition hit_priority :: "nat \<Rightarrow> nat" where
  "hit_priority x = 0"

definition frequency_priority :: "nat \<Rightarrow> nat" where
  "frequency_priority x = (if x = 0 then 0 else x - 1)"

record srrip_replacement_policy =
  srrip_entries :: "nat list"

definition distant_future :: "nat \<Rightarrow> nat" where
  "distant_future bits = (push_bit bits 1 mod size_t_range + size_t_range - 1) mod size_t_range"

definition long_interval :: "nat \<Rightarrow> nat" where
  "long_interval bits = (distant_future bits + size_t_range - 1) mod size_t_range"

definition srrip_init :: "nat \<Rightarrow> nat \<Rightarrow> srrip_replacement_policy option" where
  "srrip_init bits ways = do {
     require (ways > 0);
     Some \<lparr>srrip_entries = replicate ways (distant_future bits)\<rparr> }"

definition srrip_ways :: "srrip_replacement_policy \<Rightarrow> nat" where
  "srrip_ways p = length (srrip_entries p)"

definition srrip_hit :: "(nat \<Rightarrow> nat) \<Rightarrow> nat \<Rightarrow> srrip_replacement_policy \<Rightarrow> srrip_replacement_policy option" where
  "srrip_hit promote way p = do {
     e \<leftarrow> vec_at (srrip_entries p) way;
     Some (p\<lparr>srrip_entries := (srrip_entries p)[way := promote e]\<rparr>) }"

partial_function (option) srrip_miss_loop :: "nat \<Rightarrow> nat list \<Rightarrow> (nat \<times> nat list) option" where
  "srrip_miss_loop bits entries =
     (let it = std_find entries (distant_future bits)
      in if it \<noteq> length entries then Some (it, entries[it := long_interval bits])
         else srrip_miss_loop bits (map (\<lambda>entry. (entry + 1) mod size_t_range) entries))"

declare srrip_miss_loop.simps [code]

definition srrip_miss :: "nat \<Rightarrow> srrip_replacement_policy \<Rightarrow> (nat \<times> srrip_replacement_policy) option" where
  "srrip_miss bits p = do {
     (way, entries) \<leftarrow> srrip_miss_loop bits (srrip_entries p);
     Some (way, p\<lparr>srrip_entries := entries\<rparr>) }"

text \<open>The aliases.\<close>

definition mru_init :: "nat \<Rightarrow> srrip_replacement_policy option" where
  "mru_init = srrip_init 1"

definition mru_hit :: "nat \<Rightarrow> srrip_replacement_policy \<Rightarrow> srrip_replacement_policy option" where
  "mru_hit = srrip_hit hit_priority"

definition mru_miss :: "srrip_replacement_policy \<Rightarrow> (nat \<times> srrip_replacement_policy) option" where
  "mru_miss = srrip_miss 1"

definition qlru_init :: "nat \<Rightarrow> srrip_replacement_policy option" where
  "qlru_init = srrip_init 2"

definition qlru_hit :: "(nat \<Rightarrow> nat) \<Rightarrow> nat \<Rightarrow> srrip_replacement_policy \<Rightarrow> srrip_replacement_policy option" where
  "qlru_hit promote = srrip_hit promote"

definition qlru_miss :: "srrip_replacement_policy \<Rightarrow> (nat \<times> srrip_replacement_policy) option" where
  "qlru_miss = srrip_miss 2"

section \<open>Well-formedness and the search loop\<close>

text \<open>The predictions stay within the range of \<open>bits\<close> bits, so no increment wraps.\<close>

definition srrip_wf :: "nat \<Rightarrow> srrip_replacement_policy \<Rightarrow> bool" where
  "srrip_wf bits p \<longleftrightarrow> 1 \<le> bits \<and> bits < 64 \<and> srrip_entries p \<noteq> [] \<and>
     (\<forall>e \<in> set (srrip_entries p). e < 2 ^ bits)"

lemma power_less_size_t: "bits < 64 \<Longrightarrow> (2::nat) ^ bits < size_t_range"
  by (rule power_strict_increasing) auto

lemma distant_future_eq: "bits < 64 \<Longrightarrow> distant_future bits = 2 ^ bits - 1"
  using power_less_size_t [of bits]
  by (simp only: distant_future_def push_bit_eq_mult mult_1 mod_less wrap_pred one_le_power one_le_numeral)

lemma long_interval_eq:
  assumes "1 \<le> bits" and "bits < 64"
  shows "long_interval bits = 2 ^ bits - 2"
proof -
  have "(2::nat) \<le> 2 ^ bits" using assms(1) power_increasing [of 1 bits "2::nat"] by simp
  then have "(1::nat) \<le> 2 ^ bits - 1" by linarith
  moreover have "(2::nat) ^ bits - 1 < size_t_range" using power_less_size_t [OF assms(2)] by linarith
  ultimately have "long_interval bits = 2 ^ bits - 1 - 1"
    by (simp only: long_interval_def distant_future_eq [OF assms(2)] wrap_pred)
  then show ?thesis by simp
qed

lemma std_find_map_Suc: "std_find (map Suc xs) (Suc m) = std_find xs m"
  by (induction xs) auto

lemma srrip_miss_loop_eq:
  assumes "bits < 64" and "xs \<noteq> []" and "\<forall>e \<in> set xs. e < 2 ^ bits"
  shows "srrip_miss_loop bits xs =
     Some (std_find xs (Max (set xs)),
           (map (\<lambda>e. e + (2 ^ bits - 1 - Max (set xs))) xs)
             [std_find xs (Max (set xs)) := long_interval bits])"
  using assms(2,3)
proof (induction "2 ^ bits - 1 - Max (set xs)" arbitrary: xs)
  case 0
  have mem: "Max (set xs) \<in> set xs" using 0(2) by simp
  with 0(1,3) have max: "Max (set xs) = 2 ^ bits - 1" by fastforce
  with mem have "std_find xs (2 ^ bits - 1) \<noteq> length xs" by simp
  with max assms(1) show ?case
    by (subst srrip_miss_loop.simps) (simp add: distant_future_eq Let_def del: std_find_eq_length_iff)
next
  case (Suc d)
  have mem: "Max (set xs) \<in> set xs" using Suc(3) by simp
  have lt: "Max (set xs) < 2 ^ bits - 1" using Suc(2) by simp
  then have small: "\<forall>e \<in> set xs. e < 2 ^ bits - 1"
    using Max_ge [of "set xs"] by (meson List.finite_set order_le_less_trans)
  then have notin: "2 ^ bits - 1 \<notin> set xs" by auto
  have step: "map (\<lambda>e. (e + 1) mod size_t_range) xs = map Suc xs"
    using small power_less_size_t [OF assms(1)] by (intro map_cong) auto
  have max: "Max (set (map Suc xs)) = Suc (Max (set xs))"
    using Suc(3) by (simp add: mono_Max_commute [symmetric] mono_def)
  have "std_find xs (distant_future bits) = length xs"
    using assms(1) notin by (simp add: distant_future_eq)
  then have "srrip_miss_loop bits xs = srrip_miss_loop bits (map Suc xs)"
    by (subst srrip_miss_loop.simps) (simp only: Let_def step simp_thms if_False)
  also have "\<dots> = Some (std_find xs (Max (set xs)),
      (map (\<lambda>e. e + (2 ^ bits - 1 - Suc (Max (set xs)))) (map Suc xs))
        [std_find xs (Max (set xs)) := long_interval bits])"
  proof -
    have "d = 2 ^ bits - 1 - Max (set (map Suc xs))" using Suc(2) max by simp
    moreover have "\<forall>e \<in> set (map Suc xs). e < 2 ^ bits" using small by auto
    ultimately show ?thesis using Suc(1) [of "map Suc xs"] Suc(3) max
      by (simp only: std_find_map_Suc map_is_Nil_conv simp_thms)
  qed
  also have "map (\<lambda>e. e + (2 ^ bits - 1 - Suc (Max (set xs)))) (map Suc xs) =
      map (\<lambda>e. e + (2 ^ bits - 1 - Max (set xs))) xs"
    using lt by simp
  finally show ?case .
qed

lemma srrip_miss_eq:
  assumes "srrip_wf bits p"
  defines "m \<equiv> Max (set (srrip_entries p))" and "w \<equiv> std_find (srrip_entries p) (Max (set (srrip_entries p)))"
  shows "srrip_miss bits p = Some (w, p\<lparr>srrip_entries :=
           (map (\<lambda>e. e + (2 ^ bits - 1 - m)) (srrip_entries p))[w := 2 ^ bits - 2]\<rparr>)"
  using assms srrip_miss_loop_eq [of bits "srrip_entries p"]
  by (simp add: srrip_miss_def srrip_wf_def long_interval_eq)

lemma srrip_init_wf:
  "1 \<le> bits \<Longrightarrow> bits < 64 \<Longrightarrow> 0 < n \<Longrightarrow> \<exists>p. srrip_init bits n = Some p \<and> srrip_wf bits p \<and> srrip_ways p = n"
  by (auto simp: srrip_init_def srrip_wf_def srrip_ways_def distant_future_eq)

text \<open>Every promotion that keeps the range gives a policy.\<close>

lemma srrip_policy:
  assumes "\<And>x. x < 2 ^ bits \<Longrightarrow> promote x < 2 ^ bits"
  shows "replacement_policy srrip_ways (srrip_hit promote) (srrip_miss bits) (srrip_wf bits)
           (\<lambda>p. {..<srrip_ways p})"
proof
  fix p w p' assume wf: "srrip_wf bits p" and w: "w \<in> {..<srrip_ways p}"
  then have i: "w < length (srrip_entries p)" by (simp add: srrip_ways_def)
  then show "\<exists>p'. srrip_hit promote w p = Some p'" by (simp add: srrip_hit_def)
  assume "srrip_hit promote w p = Some p'"
  with wf i assms show "srrip_wf bits p' \<and> srrip_ways p' = srrip_ways p \<and> {..<srrip_ways p} \<subseteq> {..<srrip_ways p'}"
    by (auto simp: srrip_hit_def srrip_wf_def srrip_ways_def dest!: set_update_subset_insert [THEN subsetD])
next
  fix p assume wf: "srrip_wf bits p"
  show "\<exists>w p'. srrip_miss bits p = Some (w, p')" using srrip_miss_eq [OF wf] by blast
  fix w p' assume m: "srrip_miss bits p = Some (w, p')"
  let ?M = "Max (set (srrip_entries p))"
  have mem: "?M \<in> set (srrip_entries p)" using wf by (simp add: srrip_wf_def)
  have w: "w = std_find (srrip_entries p) ?M"
    and p': "srrip_entries p' = (map (\<lambda>e. e + (2 ^ bits - 1 - ?M)) (srrip_entries p))[w := 2 ^ bits - 2]"
    using m srrip_miss_eq [OF wf] by auto
  have "w < length (srrip_entries p)" using w mem by simp
  moreover have "e + (2 ^ bits - 1 - ?M) < 2 ^ bits" if "e \<in> set (srrip_entries p)" for e
  proof -
    have "e \<le> ?M" using that by simp
    moreover have "?M < 2 ^ bits" using mem wf by (simp add: srrip_wf_def)
    ultimately show ?thesis by linarith
  qed
  moreover have "(2::nat) ^ bits - 2 < 2 ^ bits" by simp
  ultimately show "srrip_wf bits p' \<and> srrip_ways p' = srrip_ways p \<and>
      insert w {..<srrip_ways p} \<subseteq> {..<srrip_ways p'}"
    using wf p' by (auto simp: srrip_wf_def srrip_ways_def dest!: set_update_subset_insert [THEN subsetD])
qed simp

lemma hit_priority_range: "x < 2 ^ bits \<Longrightarrow> hit_priority x < 2 ^ bits"
  by (simp add: hit_priority_def)

lemma frequency_priority_range: "x < 2 ^ bits \<Longrightarrow> frequency_priority x < 2 ^ bits"
  by (auto simp: frequency_priority_def)

interpretation srrip: replacement_policy srrip_ways "srrip_hit hit_priority" "srrip_miss bits"
  "srrip_wf bits" "\<lambda>p. {..<srrip_ways p}" for bits
  by (rule srrip_policy) (rule hit_priority_range)

interpretation srrip_fp: replacement_policy srrip_ways "srrip_hit frequency_priority" "srrip_miss bits"
  "srrip_wf bits" "\<lambda>p. {..<srrip_ways p}" for bits
  by (rule srrip_policy) (rule frequency_priority_range)

interpretation mru: replacement_policy srrip_ways mru_hit mru_miss "srrip_wf 1" "\<lambda>p. {..<srrip_ways p}"
  unfolding mru_hit_def mru_miss_def by (rule srrip.replacement_policy_axioms)

interpretation qlru: replacement_policy srrip_ways "qlru_hit hit_priority" qlru_miss "srrip_wf 2"
  "\<lambda>p. {..<srrip_ways p}"
  unfolding qlru_hit_def qlru_miss_def by (rule srrip.replacement_policy_axioms)

section \<open>A new policy fills the ways in ascending order\<close>

text \<open>After \<open>k\<close> misses on a new policy of \<open>n\<close> ways: \<open>k\<close> long intervals, then the distant future.\<close>

definition srrip_filled :: "nat \<Rightarrow> nat \<Rightarrow> nat \<Rightarrow> srrip_replacement_policy" where
  "srrip_filled bits n k = \<lparr>srrip_entries = replicate k (2 ^ bits - 2) @ replicate (n - k) (2 ^ bits - 1)\<rparr>"

lemma srrip_filled_miss:
  assumes "1 \<le> bits" and "bits < 64" and "k < n"
  shows "srrip_miss bits (srrip_filled bits n k) = Some (k, srrip_filled bits n (Suc k))"
proof -
  have two: "(2::nat) \<le> 2 ^ bits" using assms(1) power_increasing [of 1 bits "2::nat"] by simp
  have find: "std_find (replicate k a @ replicate (Suc j) b) b = k" if "a \<noteq> b" for a b :: nat and j
    using that by (induction k) auto
  obtain j where j: "n - k = Suc j" using assms(3) by (metis Suc_diff_Suc)
  let ?xs = "replicate k (2 ^ bits - 2) @ replicate (Suc j) (2 ^ bits - 1::nat)"
  have it: "std_find ?xs (distant_future bits) = k"
    using find [of "2 ^ bits - 2" "2 ^ bits - 1" j] two assms(2) by (simp add: distant_future_eq)
  have "srrip_miss_loop bits ?xs = Some (k, ?xs[k := 2 ^ bits - 2])"
    by (subst srrip_miss_loop.simps, simp only: Let_def it) (simp add: long_interval_eq [OF assms(1,2)])
  moreover have "?xs[k := 2 ^ bits - 2] = replicate (Suc k) (2 ^ bits - 2) @ replicate j (2 ^ bits - 1)"
    by (simp add: list_update_append replicate_append_same flip: replicate_Suc)
      (simp add: replicate_app_Cons_same)
  moreover have "n - Suc k = j" using j by simp
  ultimately show ?thesis using j by (simp add: srrip_miss_def srrip_filled_def)
qed

lemma srrip_initial_misses:
  assumes "1 \<le> bits" and "bits < 64" and "srrip_init bits n = Some p"
  shows "\<exists>q. run_misses (srrip_miss bits) n p = Some ([0..<n], q)"
proof -
  have run: "\<exists>q. run_misses (srrip_miss bits) j (srrip_filled bits n k) = Some ([k..<k + j], q)"
    if "k + j \<le> n" for j k
    using that
  proof (induction j arbitrary: k)
    case 0
    then show ?case by simp
  next
    case (Suc j)
    from Suc.IH [of "Suc k"] Suc.prems obtain q
      where "run_misses (srrip_miss bits) j (srrip_filled bits n (Suc k)) = Some ([Suc k..<k + Suc j], q)" by auto
    with srrip_filled_miss [OF assms(1,2), of k n] Suc.prems show ?case
      by (simp add: upt_rec [of k] del: upt_Suc)
  qed
  have "p = srrip_filled bits n 0"
    using assms by (auto simp: srrip_init_def srrip_filled_def distant_future_eq bind_eq_Some_conv vec_simps)
  with run [of 0 n] show ?thesis by simp
qed

section \<open>Properties\<close>

text \<open>
  C34. SRRIP victim selection. On a well-formed policy the unbounded search loop of \<open>miss\<close> returns; the
  victim is the first way whose prediction is the largest one, all other predictions age by the
  distance of that largest one to the distant future, and the filled way gets the long interval.
\<close>

theorem srrip_miss_victim:
  assumes "srrip_wf bits p"
  shows "\<exists>w q. srrip_miss bits p = Some (w, q) \<and> w < srrip_ways p \<and>
           (\<forall>v < srrip_ways p. srrip_entries p ! v \<le> srrip_entries p ! w) \<and>
           (\<forall>v < w. srrip_entries p ! v < srrip_entries p ! w) \<and>
           srrip_entries q ! w = 2 ^ bits - 2 \<and>
           (\<forall>v < srrip_ways p. v \<noteq> w \<longrightarrow>
              srrip_entries q ! v = srrip_entries p ! v + (2 ^ bits - 1 - srrip_entries p ! w))"
proof -
  let ?xs = "srrip_entries p" and ?m = "Max (set (srrip_entries p))"
  let ?w = "std_find ?xs ?m"
  have mem: "?m \<in> set ?xs" using assms by (simp add: srrip_wf_def)
  have w: "?w < length ?xs" "?xs ! ?w = ?m" using mem by simp_all
  have le: "?xs ! v \<le> ?m" if "v < length ?xs" for v using that by simp
  have lt: "?xs ! v < ?m" if "v < ?w" for v
    using le [of v] that w(1) std_find_first [OF that] by linarith
  show ?thesis
    using srrip_miss_eq [OF assms] w le lt by (auto simp: srrip_ways_def)
qed

theorem srrip_miss_victim_witness:
  "\<exists>w q. srrip_miss 2 \<lparr>srrip_entries = [0, 2, 1, 2]\<rparr> = Some (w, q) \<and>
     w < srrip_ways \<lparr>srrip_entries = [0, 2, 1, 2]\<rparr> \<and>
     (\<forall>v < srrip_ways \<lparr>srrip_entries = [0, 2, 1, 2]\<rparr>. [0, 2, 1, 2] ! v \<le> [0, 2, 1, 2::nat] ! w) \<and>
     srrip_entries q ! w = 2"
proof -
  have "srrip_wf 2 \<lparr>srrip_entries = [0, 2, 1, 2]\<rparr>" by (simp add: srrip_wf_def)
  from srrip_miss_victim [OF this] show ?thesis by auto
qed

end
