(* ===== verification/CH_Registry.thy ===== *)
theory CH_Registry
  imports CH_Composite CH_Srrip
begin

text \<open>
  The type-erased policy \<open>any_replacement_policy\<close> (\<open>util/any_replacement_policy.hpp\<close>) and the table of
  policies by name (\<open>util/replacement_policy.hpp\<close>): \<open>get_replacement_policies\<close> lists the candidates for
  an associativity and \<open>make_replacement_policy\<close> builds one from its name.

  The erased type is a sum over the policies the program puts into it; the virtual calls dispatch on
  the constructor, and \<open>copy\<close> is the identity on values. The properties show that every listed
  candidate can be built, with the requested associativity, and which candidates evict cyclically.
\<close>

section \<open>any_replacement_policy\<close>

datatype any_replacement_policy =
    Any_Fifo fifo_replacement_policy
  | Any_Lru lru_replacement_policy
  | Any_Mru srrip_replacement_policy
  | Any_Plru plru_replacement_policy
  | Any_Lru_Plru lru_plru_replacement_policy
  | Any_Srrip srrip_replacement_policy

fun any_ways :: "any_replacement_policy \<Rightarrow> nat" where
  "any_ways (Any_Fifo p) = fifo_ways p"
| "any_ways (Any_Lru p) = lru_ways p"
| "any_ways (Any_Mru p) = srrip_ways p"
| "any_ways (Any_Plru p) = plru_ways p"
| "any_ways (Any_Lru_Plru p) = lru_plru_ways p"
| "any_ways (Any_Srrip p) = srrip_ways p"

fun any_hit :: "nat \<Rightarrow> any_replacement_policy \<Rightarrow> any_replacement_policy option" where
  "any_hit way (Any_Fifo p) = map_option Any_Fifo (fifo_hit way p)"
| "any_hit way (Any_Lru p) = map_option Any_Lru (lru_hit way p)"
| "any_hit way (Any_Mru p) = map_option Any_Mru (mru_hit way p)"
| "any_hit way (Any_Plru p) = map_option Any_Plru (plru_hit way p)"
| "any_hit way (Any_Lru_Plru p) = map_option Any_Lru_Plru (lru_plru_hit way p)"
| "any_hit way (Any_Srrip p) = map_option Any_Srrip (srrip_hit hit_priority way p)"

fun any_miss :: "any_replacement_policy \<Rightarrow> (nat \<times> any_replacement_policy) option" where
  "any_miss (Any_Fifo p) = map_option (apsnd Any_Fifo) (fifo_miss p)"
| "any_miss (Any_Lru p) = map_option (apsnd Any_Lru) (lru_miss p)"
| "any_miss (Any_Mru p) = map_option (apsnd Any_Mru) (mru_miss p)"
| "any_miss (Any_Plru p) = map_option (apsnd Any_Plru) (plru_miss p)"
| "any_miss (Any_Lru_Plru p) = map_option (apsnd Any_Lru_Plru) (lru_plru_miss p)"
| "any_miss (Any_Srrip p) = map_option (apsnd Any_Srrip) (srrip_miss 2 p)"

fun any_wf :: "any_replacement_policy \<Rightarrow> bool" where
  "any_wf (Any_Fifo p) = fifo_wf p"
| "any_wf (Any_Lru p) = lru_wf p"
| "any_wf (Any_Mru p) = srrip_wf 1 p"
| "any_wf (Any_Plru p) = plru_wf p"
| "any_wf (Any_Lru_Plru p) = lru_plru_wf p"
| "any_wf (Any_Srrip p) = srrip_wf 2 p"

text \<open>Each dispatch keeps the contract of the policy it dispatches to.\<close>

lemma any_hit_ok:
  assumes "any_wf p" and "w < any_ways p"
  shows "\<exists>q. any_hit w p = Some q \<and> any_wf q \<and> any_ways q = any_ways p"
proof (cases p)
  case (Any_Fifo x)
  with fifo.hit_ok [of x w] assms obtain y
    where "fifo_hit w x = Some y" "fifo_wf y" "fifo_ways y = fifo_ways x" by auto
  with Any_Fifo show ?thesis by simp
next
  case (Any_Lru x)
  with lru.hit_ok [of x w] assms obtain y
    where "lru_hit w x = Some y" "lru_wf y" "lru_ways y = lru_ways x" by auto
  with Any_Lru show ?thesis by simp
next
  case (Any_Mru x)
  with mru.hit_ok [of x w] assms obtain y
    where "mru_hit w x = Some y" "srrip_wf 1 y" "srrip_ways y = srrip_ways x" by auto
  with Any_Mru show ?thesis by simp
next
  case (Any_Plru x)
  with plru.hit_ok [of x w] assms obtain y
    where "plru_hit w x = Some y" "plru_wf y" "plru_ways y = plru_ways x" by auto
  with Any_Plru show ?thesis by simp
next
  case (Any_Lru_Plru x)
  with plru_nested.lru_wrapped.hit_ok [of x w] assms obtain y
    where "lru_plru_hit w x = Some y" "lru_plru_wf y" "lru_plru_ways y = lru_plru_ways x" by auto
  with Any_Lru_Plru show ?thesis by simp
next
  case (Any_Srrip x)
  with srrip.hit_ok [of 2 x w] assms obtain y
    where "srrip_hit hit_priority w x = Some y" "srrip_wf 2 y" "srrip_ways y = srrip_ways x" by auto
  with Any_Srrip show ?thesis by simp
qed

lemma any_miss_ok:
  assumes "any_wf p"
  shows "\<exists>w q. any_miss p = Some (w, q) \<and> w < any_ways p \<and> any_wf q \<and> any_ways q = any_ways p"
proof (cases p)
  case (Any_Fifo x)
  with fifo.miss_ok [of x] assms obtain w y
    where "fifo_miss x = Some (w, y)" "w < fifo_ways x" "fifo_wf y" "fifo_ways y = fifo_ways x" by auto
  with Any_Fifo show ?thesis by simp
next
  case (Any_Lru x)
  with lru.miss_ok [of x] assms obtain w y
    where "lru_miss x = Some (w, y)" "w < lru_ways x" "lru_wf y" "lru_ways y = lru_ways x" by auto
  with Any_Lru show ?thesis by simp
next
  case (Any_Mru x)
  with mru.miss_ok [of x] assms obtain w y
    where "mru_miss x = Some (w, y)" "w < srrip_ways x" "srrip_wf 1 y" "srrip_ways y = srrip_ways x" by auto
  with Any_Mru show ?thesis by simp
next
  case (Any_Plru x)
  with plru.miss_ok [of x] assms obtain w y
    where "plru_miss x = Some (w, y)" "w < plru_ways x" "plru_wf y" "plru_ways y = plru_ways x" by auto
  with Any_Plru show ?thesis by simp
next
  case (Any_Lru_Plru x)
  with plru_nested.lru_wrapped.miss_ok [of x] assms obtain w y
    where "lru_plru_miss x = Some (w, y)" "w < lru_plru_ways x" "lru_plru_wf y" "lru_plru_ways y = lru_plru_ways x" by auto
  with Any_Lru_Plru show ?thesis by simp
next
  case (Any_Srrip x)
  with srrip.miss_ok [of 2 x] assms obtain w y
    where "srrip_miss 2 x = Some (w, y)" "w < srrip_ways x" "srrip_wf 2 y" "srrip_ways y = srrip_ways x" by auto
  with Any_Srrip show ?thesis by simp
qed

interpretation any: replacement_policy any_ways any_hit any_miss any_wf "\<lambda>p. {..<any_ways p}"
proof
  fix p w p' assume p: "any_wf p" and w: "w \<in> {..<any_ways p}"
  show "\<exists>p'. any_hit w p = Some p'" using any_hit_ok [OF p, of w] w by auto
  assume "any_hit w p = Some p'"
  then show "any_wf p' \<and> any_ways p' = any_ways p \<and> {..<any_ways p} \<subseteq> {..<any_ways p'}"
    using any_hit_ok [OF p, of w] w by auto
next
  fix p w p' assume p: "any_wf p"
  show "\<exists>w p'. any_miss p = Some (w, p')" using any_miss_ok [OF p] by auto
  assume "any_miss p = Some (w, p')"
  then show "any_wf p' \<and> any_ways p' = any_ways p \<and> insert w {..<any_ways p} \<subseteq> {..<any_ways p'}"
    using any_miss_ok [OF p] by auto
qed simp

section \<open>Decimal numbers\<close>

text \<open>\<open>std::to_string\<close> of an unsigned integer.\<close>

fun nat_to_string :: "nat \<Rightarrow> string" where
  "nat_to_string n = (if n < 10 then [char_of (48 + n)] else nat_to_string (n div 10) @ [char_of (48 + n mod 10)])"

declare nat_to_string.simps [simp del]

definition is_digit :: "char \<Rightarrow> bool" where
  "is_digit c \<longleftrightarrow> 48 \<le> (of_char c :: nat) \<and> (of_char c :: nat) \<le> 57"

definition digits_value :: "string \<Rightarrow> nat" where
  "digits_value s = foldl (\<lambda>acc c. acc * 10 + (of_char c - 48)) 0 s"

definition is_space :: "char \<Rightarrow> bool" where
  "is_space c \<longleftrightarrow> (of_char c :: nat) \<in> {32, 9, 10, 11, 12, 13}"

text \<open>
  \<open>std::stoi\<close>: leading white space, an optional sign, then the longest run of digits; it throws (here
  \<open>None\<close>) when there is no digit or the value does not fit an \<open>int\<close>.
\<close>

definition stoi :: "string \<Rightarrow> int option" where
  "stoi s =
     (let t = dropWhile is_space s;
          neg = (t \<noteq> [] \<and> hd t = CHR ''-'');
          u = (if t \<noteq> [] \<and> (hd t = CHR ''-'' \<or> hd t = CHR ''+'') then tl t else t);
          ds = takeWhile is_digit u;
          v = (if neg then - int (digits_value ds) else int (digits_value ds))
      in if ds = [] \<or> v < - (2 ^ 31) \<or> v \<ge> 2 ^ 31 then None else Some v)"

section \<open>The table of policies\<close>

text \<open>The loop of \<open>get_replacement_policies\<close>; its counter is \<open>2 ^ k\<close>, starting at 4.\<close>

function lru_plru_names :: "nat \<Rightarrow> nat \<Rightarrow> string list" where
  "lru_plru_names associativity k =
     (if 2 ^ k < associativity
      then (if associativity mod 2 ^ k \<noteq> 0 then [] else [''LRU'' @ ''_PLRU'' @ nat_to_string (2 ^ k)]) @
           lru_plru_names associativity (Suc k)
      else [])"
  by pat_completeness auto
termination
proof (relation "measure (\<lambda>(a, k). a - k)")
  fix a k :: nat assume "2 ^ k < a"
  with less_exp [of k] have "k < a" by (rule less_trans)
  then show "((a, Suc k), a, k) \<in> measure (\<lambda>(a, k). a - k)" by simp
qed simp

declare lru_plru_names.simps [simp del]

definition get_replacement_policies :: "nat \<Rightarrow> string list option" where
  "get_replacement_policies associativity = do {
     require (associativity > 0);
     Some ([''FIFO'', ''LRU''] @
       (if associativity AND (associativity - 1) = 0 then [''PLRU'', ''PLRUl''] else []) @
       lru_plru_names associativity 2 @ [''SRRIP'']) }"

definition starts_with :: "string \<Rightarrow> string \<Rightarrow> bool" where
  "starts_with s pre \<longleftrightarrow> take (length pre) s = pre"

text \<open>
  \<open>make_replacement_policy\<close>: the outer \<open>None\<close> is a failed assertion of a constructor, an exception of
  \<open>std::stoi\<close> or the division by zero, the inner one the empty \<open>std::optional\<close> of an unknown name.
\<close>

definition make_replacement_policy :: "string \<Rightarrow> nat \<Rightarrow> any_replacement_policy option option" where
  "make_replacement_policy name associativity =
     (if name = ''FIFO'' then map_option (Some \<circ> Any_Fifo) (fifo_init associativity)
      else if name = ''LRU'' then map_option (Some \<circ> Any_Lru) (lru_init associativity)
      else if name = ''NRU'' then map_option (Some \<circ> Any_Mru) (mru_init associativity)
      else if (name = ''PLRU'' \<or> name = ''PLRUl'') \<and>
              (associativity \<noteq> 0 \<and> (associativity - 1) AND associativity = 0)
      then map_option (Some \<circ> Any_Plru) (plru_init associativity)
      else if starts_with name ''LRU_PLRU''
      then do {
        v \<leftarrow> stoi (drop 8 name);
        let n = nat (v mod int size_t_range);
        require (n \<noteq> 0);
        p \<leftarrow> lru_plru_init (associativity div n) n;
        Some (Some (Any_Lru_Plru p)) }
      else if name = ''SRRIP'' then map_option (Some \<circ> Any_Srrip) (srrip_init 2 associativity)
      else Some None)"

subsection \<open>Printing and reading numbers\<close>

lemma nat_to_string_digits: "\<forall>c \<in> set (nat_to_string n). is_digit c"
proof (induction n rule: nat_to_string.induct)
  case (1 n)
  then show ?case by (subst nat_to_string.simps) (auto simp: is_digit_def of_char_of)
qed

lemma digits_value_append: "digits_value (s @ [c]) = digits_value s * 10 + (of_char c - 48)"
  by (simp add: digits_value_def)

lemma digits_value_nat_to_string: "digits_value (nat_to_string n) = n"
proof (induction n rule: nat_to_string.induct)
  case (1 n)
  show ?case
  proof (cases "n < 10")
    case True
    then show ?thesis by (subst nat_to_string.simps) (simp add: digits_value_def of_char_of)
  next
    case False
    then have "digits_value (nat_to_string n) = n div 10 * 10 + n mod 10"
      using 1 by (subst nat_to_string.simps) (simp add: digits_value_append of_char_of)
    then show ?thesis by simp
  qed
qed

lemma nat_to_string_nonempty: "nat_to_string n \<noteq> []"
  by (subst nat_to_string.simps) simp

lemma stoi_digits:
  assumes "\<forall>c \<in> set s. is_digit c" and "s \<noteq> []" and "digits_value s < 2 ^ 31"
  shows "stoi s = Some (int (digits_value s))"
proof -
  have hd: "is_digit (hd s)" using assms(1,2) by simp
  then have no_sign: "hd s \<noteq> CHR ''-''" "hd s \<noteq> CHR ''+''" "\<not> is_space (hd s)"
    by (auto simp: is_digit_def is_space_def)
  have "dropWhile is_space s = s" using no_sign(3) assms(2) by (cases s) auto
  moreover have "takeWhile is_digit s = s" using assms(1) by simp
  moreover have "int (digits_value s) < int (2 ^ 31)" using assms(3) by (simp only: of_nat_less_iff)
  ultimately show ?thesis using no_sign assms(2)
    by (simp add: stoi_def Let_def del: takeWhile_eq_all_conv)
qed

lemma stoi_nat_to_string: "n < 2 ^ 31 \<Longrightarrow> stoi (nat_to_string n) = Some (int n)"
  using stoi_digits [of "nat_to_string n"] nat_to_string_digits nat_to_string_nonempty
    digits_value_nat_to_string by simp

subsection \<open>Every candidate can be built\<close>

lemma lru_plru_names_elem:
  "name \<in> set (lru_plru_names a k) \<Longrightarrow>
     \<exists>j \<ge> k. 2 ^ j < a \<and> a mod 2 ^ j = 0 \<and> name = ''LRU_PLRU'' @ nat_to_string (2 ^ j)"
proof (induction a k rule: lru_plru_names.induct)
  case (1 a k)
  then show ?case
    by (subst (asm) (2) lru_plru_names.simps) (fastforce split: if_splits dest: Suc_leD)
qed

lemma make_lru_plru:
  assumes "2 ^ k < a" and "a mod 2 ^ k = 0" and "a < 2 ^ 31"
  shows "\<exists>p. make_replacement_policy (''LRU_PLRU'' @ nat_to_string (2 ^ k)) a = Some (Some (Any_Lru_Plru p)) \<and>
           lru_plru_wf p \<and> lru_plru_ways p = a \<and> lw_dirty_idx p = 0"
proof -
  let ?n = "2 ^ k :: nat"
  have n: "?n < 2 ^ 31" using assms(1,3) by linarith
  then have "?n mod size_t_range = ?n" by (intro mod_less) simp
  then have "nat (int ?n mod int size_t_range) = ?n" by (simp only: zmod_int [symmetric] nat_int)
  moreover have "0 < a div ?n" using assms(1) by (simp add: div_greater_zero_iff)
  then obtain p where "lru_plru_init (a div ?n) ?n = Some p" "lru_plru_wf p"
    "lru_plru_ways p = a div ?n * ?n" "lw_dirty_idx p = 0"
    using lru_plru_init_wf [of "a div ?n" ?n, OF _ _ n] by auto
  moreover have "a div ?n * ?n = a" using assms(2) by (simp add: mod_eq_0_iff_dvd)
  ultimately show ?thesis
    using stoi_nat_to_string [OF n]
    by (simp add: make_replacement_policy_def starts_with_def Let_def nat_power_eq del: of_nat_power)
qed

lemma run_misses_lift:
  assumes "\<And>x. miss (C x) = map_option (apsnd C) (m x)"
  shows "run_misses miss n (C x) = map_option (apsnd C) (run_misses m n x)"
proof (induction n arbitrary: x)
  case 0
  then show ?case by simp
next
  case (Suc n)
  show ?case using Suc.IH by (cases "m x") (auto simp: assms split: option.splits prod.splits bind_splits)
qed

lemmas any_run_misses =
  run_misses_lift [of any_miss Any_Fifo fifo_miss] run_misses_lift [of any_miss Any_Lru lru_miss]
  run_misses_lift [of any_miss Any_Plru plru_miss] run_misses_lift [of any_miss Any_Lru_Plru lru_plru_miss]
  run_misses_lift [of any_miss Any_Srrip "srrip_miss 2"]

text \<open>The policies whose misses are cyclic from every well-formed state.\<close>

fun always_cyclic :: "any_replacement_policy \<Rightarrow> bool" where
  "always_cyclic (Any_Fifo _) = True"
| "always_cyclic (Any_Lru _) = True"
| "always_cyclic (Any_Plru _) = True"
| "always_cyclic _ = False"

lemma always_cyclic_misses:
  assumes "any_wf p" and "always_cyclic p"
  shows "\<exists>ws q. run_misses any_miss (any_ways p) p = Some (ws, q) \<and> distinct ws"
proof (cases p)
  case (Any_Fifo x)
  with fifo_misses_cyclic [of x] assms show ?thesis
    by (auto simp: any_run_misses fifo_wf_def order_wf_def)
next
  case (Any_Lru x)
  with lru_misses_cyclic [of x] assms show ?thesis
    by (auto simp: any_run_misses lru_wf_def order_wf_def)
next
  case (Any_Plru x)
  with plru.run_misses_total [of x "plru_ways x"] plru_misses_distinct [of x] assms show ?thesis
    by (force simp: any_run_misses)
qed (use assms in auto)

lemma make_candidate:
  assumes "0 < a" and "a < 2 ^ 31" and "get_replacement_policies a = Some cs" and "name \<in> set cs"
  shows "\<exists>p. make_replacement_policy name a = Some (Some p) \<and> any_wf p \<and> any_ways p = a \<and>
           (\<exists>ws q. run_misses any_miss a p = Some (ws, q) \<and> distinct ws)"
proof -
  from assms(1,3,4) consider "name = ''FIFO''" | "name = ''LRU''"
    | "name = ''PLRU'' \<or> name = ''PLRUl''" "is_power_of_two a"
    | "name = ''SRRIP''" | "name \<in> set (lru_plru_names a 2)"
    by (auto simp: get_replacement_policies_def is_power_of_two_def split: if_splits)
  then show ?thesis
  proof cases
    case 1
    from fifo_init_wf [OF assms(1)] obtain p where "fifo_init a = Some p" "fifo_wf p" "fifo_ways p = a" by blast
    with 1 always_cyclic_misses [of "Any_Fifo p"] show ?thesis by (simp add: make_replacement_policy_def)
  next
    case 2
    from lru_init_wf [OF assms(1)] obtain p where "lru_init a = Some p" "lru_wf p" "lru_ways p = a" by blast
    with 2 always_cyclic_misses [of "Any_Lru p"] show ?thesis by (simp add: make_replacement_policy_def)
  next
    case 3
    from plru_init_wf [OF 3(2) assms(2)] obtain p where "plru_init a = Some p" "plru_wf p" "plru_ways p = a" by blast
    moreover have "a \<noteq> 0 \<and> (a - 1) AND a = 0"
      using 3(2) and.commute [of a "a - 1"] by (simp add: is_power_of_two_def)
    ultimately show ?thesis using 3(1) always_cyclic_misses [of "Any_Plru p"]
      by (auto simp: make_replacement_policy_def)
  next
    case 4
    from srrip_init_wf [of 2 a] assms(1) obtain p
      where p: "srrip_init 2 a = Some p" "srrip_wf 2 p" "srrip_ways p = a" by auto
    with srrip_initial_misses [of 2 a p] obtain q where "run_misses (srrip_miss 2) a p = Some ([0..<a], q)" by auto
    with 4 p show ?thesis by (simp add: make_replacement_policy_def starts_with_def any_run_misses)
  next
    case 5
    from lru_plru_names_elem [OF this] obtain k where
      k: "2 ^ k < a" "a mod 2 ^ k = 0" "name = ''LRU_PLRU'' @ nat_to_string (2 ^ k)" by (elim exE conjE) (rule that)
    from make_lru_plru [OF k(1,2) assms(2)] obtain p where
      p: "make_replacement_policy name a = Some (Some (Any_Lru_Plru p))" "lru_plru_wf p"
      "lru_plru_ways p = a" "lw_dirty_idx p = 0" unfolding k(3) by blast
    with lru_plru_fill [of p a] obtain q where "run_misses lru_plru_miss a p = Some ([0..<a], q)" by auto
    with p have "run_misses any_miss a (Any_Lru_Plru p) = Some ([0..<a], Any_Lru_Plru q)"
      by (simp add: any_run_misses)
    with p(1-3) show ?thesis by (intro exI [of _ "Any_Lru_Plru p"]) simp
  qed
qed

section \<open>Properties\<close>

text \<open>
  C33. Every candidate that \<open>get_replacement_policies\<close> lists for an associativity below \<open>2 ^ 31\<close>, the
  range of \<open>int\<close> for \<open>std::stoi\<close> and for the shift in the \<open>ways()\<close> of tree-PLRU, is built by \<open>make_replacement_policy\<close> without an assertion failure or an
  exception, is well-formed and has exactly the requested number of ways.
\<close>

theorem candidates_constructible:
  assumes "0 < a" and "a < 2 ^ 31"
  shows "\<exists>cs. get_replacement_policies a = Some cs \<and>
           (\<forall>name \<in> set cs. \<exists>p. make_replacement_policy name a = Some (Some p) \<and> any_wf p \<and> any_ways p = a)"
proof -
  obtain cs where cs: "get_replacement_policies a = Some cs"
    using assms(1) by (simp add: get_replacement_policies_def)
  with make_candidate [OF assms cs] show ?thesis by blast
qed

theorem candidates_constructible_witness:
  "\<exists>cs. get_replacement_policies 12 = Some cs \<and>
     (\<forall>name \<in> set cs. \<exists>p. make_replacement_policy name 12 = Some (Some p) \<and> any_wf p \<and> any_ways p = 12)"
  by (rule candidates_constructible) simp_all

text \<open>
  The first part of \<open>cycle-test\<close>: \<open>check_cyclic_eviction\<close> reports every newly built candidate as
  cyclically evicting (the first \<open>n\<close> misses of an \<open>n\<close>-way policy choose pairwise different ways).
\<close>

theorem candidates_initially_cyclic:
  assumes "0 < a" and "a < 2 ^ 31" and "get_replacement_policies a = Some cs" and "name \<in> set cs"
  shows "\<exists>p q. make_replacement_policy name a = Some (Some p) \<and>
           check_cyclic_eviction any_ways any_miss p = Some (True, q)"
proof -
  from make_candidate [OF assms] obtain p ws q where p: "make_replacement_policy name a = Some (Some p)"
    "any_ways p = a" "run_misses any_miss a p = Some (ws, q)" "distinct ws" by blast
  then have "check_cyclic_eviction any_ways any_miss p = Some (True, q)"
    using check_cyclic_eviction_distinct [of any_miss any_ways p ws q] by simp
  with p(1) show ?thesis by blast
qed

theorem candidates_initially_cyclic_witness:
  "\<exists>cs p q. get_replacement_policies 8 = Some cs \<and> make_replacement_policy ''SRRIP'' 8 = Some (Some p) \<and>
     check_cyclic_eviction any_ways any_miss p = Some (True, q)"
proof -
  obtain cs where cs: "get_replacement_policies 8 = Some cs" "''SRRIP'' \<in> set cs"
    by (simp add: get_replacement_policies_def)
  from candidates_initially_cyclic [of 8 cs "''SRRIP''"] cs show ?thesis by auto
qed

text \<open>
  The second part of \<open>cycle-test\<close>: FIFO, LRU and tree-PLRU evict cyclically from every well-formed
  state, in particular after any sequence of accesses.
\<close>

theorem ordered_policies_always_cyclic:
  assumes "any_wf p" and "always_cyclic p"
  shows "\<exists>q. check_cyclic_eviction any_ways any_miss p = Some (True, q)"
proof -
  from always_cyclic_misses [OF assms] obtain ws q
    where "run_misses any_miss (any_ways p) p = Some (ws, q)" "distinct ws" by blast
  then show ?thesis using check_cyclic_eviction_distinct [of any_miss any_ways p ws q] by auto
qed

theorem ordered_policies_always_cyclic_witness:
  "\<exists>q. check_cyclic_eviction any_ways any_miss (Any_Lru \<lparr>lru_order = [2, 0, 1]\<rparr>) = Some (True, q)"
  by (rule ordered_policies_always_cyclic) (auto simp: lru_wf_def order_wf_def)

text \<open>
  SRRIP is not cyclically evicting in general: after two misses and a hit in way 0, the next two
  misses of a two-way SRRIP policy both evict way 1, and \<open>check_cyclic_eviction\<close> reports it.
\<close>

theorem srrip_not_always_cyclic:
  "\<exists>p ws q r. make_replacement_policy ''SRRIP'' 2 = Some (Some p) \<and>
     policy_run any_hit any_miss [Miss, Miss, Hit 0] p = Some (ws, q) \<and>
     check_cyclic_eviction any_ways any_miss q = Some (False, r)"
proof -
  have "make_replacement_policy ''SRRIP'' 2 = Some (Some (Any_Srrip \<lparr>srrip_entries = [3, 3]\<rparr>))"
    by (simp add: make_replacement_policy_def starts_with_def srrip_init_def distant_future_eq numeral_2_eq_2)
  moreover have "policy_run any_hit any_miss [Miss, Miss, Hit 0] (Any_Srrip \<lparr>srrip_entries = [3, 3]\<rparr>) =
      Some ([0, 1, 0], Any_Srrip \<lparr>srrip_entries = [0, 2]\<rparr>)"
    by (simp add: srrip_miss_eq srrip_wf_def srrip_hit_def hit_priority_def)
  moreover have "check_cyclic_eviction any_ways any_miss (Any_Srrip \<lparr>srrip_entries = [0, 2]\<rparr>) =
      Some (False, Any_Srrip \<lparr>srrip_entries = [2, 2]\<rparr>)"
    by (simp add: check_cyclic_eviction_def srrip_ways_def srrip_miss_eq srrip_wf_def numeral_2_eq_2)
  ultimately show ?thesis by blast
qed

end
