(* ===== verification/CH_Sequence.thy ===== *)
theory CH_Sequence
  imports CH_Registry "HOL-Library.Multiset"
begin

text \<open>
  Simulation of access sequences on one cache set (\<open>algo/simulate_sequence.hpp\<close>) and the selection of
  replacement-policy candidates by their simulated hit counters (\<open>util/sequence.hpp\<close>).

  \<open>simulate_sequence\<close> is the optimised routine of the library: it keeps an inverse table \<open>addr_way\<close>
  from addresses to ways, so that no search over the ways is needed. The reference \<open>ref_run\<close> is the
  plain definition of a cache set (look the address up among the ways, report a hit, otherwise let the
  policy choose a way and fill it); the locale lemma \<open>simulate_sequence_ref\<close> shows that both agree for
  every policy that meets the replacement-policy interface.
\<close>

section \<open>simulate_sequence\<close>

record 'p sim_state =
  sq_seen :: "bool list"
  sq_addr_way :: "nat list"
  sq_way_addr :: "nat list"
  sq_hit_counter :: nat
  sq_policy :: 'p

text \<open>The value of \<open>std::numeric_limits<std::size_t>::max()\<close> marks a way that holds no address.\<close>

definition dirty :: nat where
  "dirty = size_t_range - 1"

lemma next_size: "a < dirty \<Longrightarrow> Suc a mod 18446744073709551616 = Suc a"
  by (simp add: dirty_def)

text \<open>The body of the loop for one address.\<close>

definition simulate_step :: "(nat \<Rightarrow> 'p \<Rightarrow> 'p option) \<Rightarrow> ('p \<Rightarrow> (nat \<times> 'p) option) \<Rightarrow>
    nat \<Rightarrow> 'p sim_state \<Rightarrow> 'p sim_state option" where
  "simulate_step hit miss addr s0 =
     (let n = (1 + addr) mod size_t_range;
          s = (if addr \<ge> length (sq_seen s0)
               then s0\<lparr>sq_seen := vec_resize n False (sq_seen s0),
                       sq_addr_way := vec_resize n 0 (sq_addr_way s0)\<rparr>
               else s0)
      in do {
        way \<leftarrow> vec_at (sq_addr_way s) addr;
        tag \<leftarrow> vec_at (sq_way_addr s) way;
        let is_hit = (tag = addr);
        s' \<leftarrow> (if is_hit
               then do { p \<leftarrow> hit way (sq_policy s); Some (s\<lparr>sq_policy := p\<rparr>) }
               else do {
                 (w, p) \<leftarrow> miss (sq_policy s);
                 aw \<leftarrow> vec_set (sq_addr_way s) addr w;
                 wa \<leftarrow> vec_set (sq_way_addr s) w addr;
                 Some (s\<lparr>sq_policy := p, sq_addr_way := aw, sq_way_addr := wa\<rparr>) });
        sn \<leftarrow> vec_at (sq_seen s') addr;
        if sn then Some (s'\<lparr>sq_hit_counter := sq_hit_counter s' + of_bool is_hit\<rparr>)
        else Some (s'\<lparr>sq_seen := (sq_seen s')[addr := True]\<rparr>) })"

fun simulate_loop :: "(nat \<Rightarrow> 'p \<Rightarrow> 'p option) \<Rightarrow> ('p \<Rightarrow> (nat \<times> 'p) option) \<Rightarrow>
    nat list \<Rightarrow> 'p sim_state \<Rightarrow> 'p sim_state option" where
  "simulate_loop hit miss [] s = Some s"
| "simulate_loop hit miss (addr # seq) s =
     do { s' \<leftarrow> simulate_step hit miss addr s; simulate_loop hit miss seq s' }"

text \<open>The policy is taken by reference; the changed policy is returned with the hit counter.\<close>

definition simulate_sequence :: "('p \<Rightarrow> nat) \<Rightarrow> (nat \<Rightarrow> 'p \<Rightarrow> 'p option) \<Rightarrow> ('p \<Rightarrow> (nat \<times> 'p) option) \<Rightarrow>
    nat list \<Rightarrow> 'p \<Rightarrow> (nat \<times> 'p) option" where
  "simulate_sequence ways hit miss seq p = do {
     s \<leftarrow> simulate_loop hit miss seq
       \<lparr>sq_seen = [], sq_addr_way = [], sq_way_addr = replicate (ways p) dirty,
        sq_hit_counter = 0, sq_policy = p\<rparr>;
     Some (sq_hit_counter s, sq_policy s) }"

section \<open>Generating sequences and selecting candidates\<close>

text \<open>
  \<open>generate_sequence\<close>. A draw of \<open>std::uniform_int_distribution{lo, hi}\<close> from the caller's generator
  is the parameter \<open>draw lo hi g\<close>, which returns the number and the advanced generator; what is known
  of it is that the number lies between \<open>lo\<close> and \<open>hi\<close>.
\<close>

fun generate_loop :: "(nat \<Rightarrow> nat \<Rightarrow> 'g \<Rightarrow> nat \<times> 'g) \<Rightarrow> nat \<Rightarrow> nat \<Rightarrow> nat list \<Rightarrow> 'g \<Rightarrow> nat list \<times> 'g" where
  "generate_loop draw mx 0 out g = (out, g)"
| "generate_loop draw mx (Suc n) out g =
     (let (x, g') = draw 0 (mx - 1) g in generate_loop draw mx n (out @ [x]) g')"

definition generate_sequence ::
    "(nat \<Rightarrow> nat \<Rightarrow> 'g \<Rightarrow> nat \<times> 'g) \<Rightarrow> nat \<Rightarrow> nat \<Rightarrow> 'g \<Rightarrow> (nat list \<times> 'g) option" where
  "generate_sequence draw n mx g = do { require (mx > 0); Some (generate_loop draw mx n [] g) }"

text \<open>
  The overload of \<open>simulate_sequence\<close> that takes the name of a policy; \<open>Inl\<close> is the thrown
  \<open>std::invalid_argument\<close>. \<open>filter_replacement_policies\<close> partitions the range of names in place and
  returns the end of the kept part.
\<close>

definition simulate_sequence_named :: "nat list \<Rightarrow> string \<Rightarrow> nat \<Rightarrow> (string + nat) option" where
  "simulate_sequence_named seq policy_name associativity = do {
     policy \<leftarrow> make_replacement_policy policy_name associativity;
     case policy of
       None \<Rightarrow> Some (Inl policy_name)
     | Some p \<Rightarrow> do {
         (hits, _) \<leftarrow> simulate_sequence any_ways any_hit any_miss seq p;
         Some (Inr hits) } }"

function filter_loop :: "nat list \<Rightarrow> nat \<Rightarrow> nat \<Rightarrow> nat \<Rightarrow> nat \<Rightarrow> string list \<Rightarrow>
    (string + (nat \<times> string list)) option" where
  "filter_loop seq measured_hit_counter associativity first out names =
     (if first < length names then do {
        policy_name \<leftarrow> vec_at names first;
        r \<leftarrow> simulate_sequence_named seq policy_name associativity;
        case r of
          Inl e \<Rightarrow> Some (Inl e)
        | Inr hit_counter \<Rightarrow>
            if hit_counter = measured_hit_counter then do {
              names' \<leftarrow> vec_swap out first names;
              filter_loop seq measured_hit_counter associativity (Suc first) (Suc out) names' }
            else filter_loop seq measured_hit_counter associativity (Suc first) out names }
      else Some (Inr (out, names)))"
  by pat_completeness auto
termination
  by (relation "measure (\<lambda>(_, _, _, first, _, names). length names - first)")
    (auto simp: vec_simps)

declare filter_loop.simps [simp del]

definition filter_replacement_policies :: "string list \<Rightarrow> nat list \<Rightarrow> nat \<Rightarrow> nat \<Rightarrow>
    (string + (nat \<times> string list)) option" where
  "filter_replacement_policies names seq measured_hit_counter associativity =
     filter_loop seq measured_hit_counter associativity 0 0 names"

section \<open>The reference: one cache set\<close>

text \<open>
  \<open>c\<close> holds the tag of every way, \<open>None\<close> for an empty one. The result of a step says whether the
  access was a hit.
\<close>

definition ref_step :: "(nat \<Rightarrow> 'p \<Rightarrow> 'p option) \<Rightarrow> ('p \<Rightarrow> (nat \<times> 'p) option) \<Rightarrow>
    'a \<Rightarrow> 'a option list \<Rightarrow> 'p \<Rightarrow> (bool \<times> 'a option list \<times> 'p) option" where
  "ref_step hit miss a c p =
     (let w = std_find c (Some a)
      in if w < length c then do { p' \<leftarrow> hit w p; Some (True, c, p') }
         else do { (w, p') \<leftarrow> miss p; Some (False, c[w := Some a], p') })"

fun ref_run :: "(nat \<Rightarrow> 'p \<Rightarrow> 'p option) \<Rightarrow> ('p \<Rightarrow> (nat \<times> 'p) option) \<Rightarrow>
    'a list \<Rightarrow> 'a option list \<Rightarrow> 'p \<Rightarrow> (bool list \<times> 'a option list \<times> 'p) option" where
  "ref_run hit miss [] c p = Some ([], c, p)"
| "ref_run hit miss (a # as) c p = do {
     (h, c', p') \<leftarrow> ref_step hit miss a c p;
     (hs, c'', p'') \<leftarrow> ref_run hit miss as c' p';
     Some (h # hs, c'', p'') }"

abbreviation hit_count :: "bool list \<Rightarrow> nat" where
  "hit_count hs \<equiv> length (filter (\<lambda>h. h) hs)"

context replacement_policy
begin

text \<open>
  Well-formedness of a set: one entry per way, no address in two ways, and every way that holds an
  address may be reported to the policy.
\<close>

definition set_wf :: "'a option list \<Rightarrow> 'p \<Rightarrow> bool" where
  "set_wf c p \<longleftrightarrow> invar p \<and> length c = ways p \<and> distinct (filter (\<lambda>x. x \<noteq> None) c) \<and>
     (\<forall>w < length c. c ! w \<noteq> None \<longrightarrow> w \<in> filled p)"

lemma set_wf_empty: "invar p \<Longrightarrow> set_wf (replicate (ways p) None) p"
  by (simp add: set_wf_def)

end

lemma distinct_filter_update:
  assumes "distinct (filter (\<lambda>x. x \<noteq> None) c)" and "Some a \<notin> set c"
  shows "distinct (filter (\<lambda>x. x \<noteq> None) (c[w := Some a]))"
  using assms
proof (induction c arbitrary: w)
  case Nil
  then show ?case by simp
next
  case (Cons x c)
  show ?case
  proof (cases w)
    case 0
    with Cons.prems show ?thesis by (auto split: if_splits)
  next
    case (Suc v)
    have "set (c[v := Some a]) \<subseteq> insert (Some a) (set c)" by (rule set_update_subset_insert)
    with Cons Suc show ?thesis by (auto split: if_splits)
  qed
qed

context replacement_policy
begin

lemma ref_step_ok:
  assumes "set_wf c p"
  shows "\<exists>h c' p'. ref_step hit miss a c p = Some (h, c', p') \<and> set_wf c' p' \<and> ways p' = ways p \<and>
           (h \<longleftrightarrow> Some a \<in> set c) \<and> Some a \<in> set c' \<and> (h \<longrightarrow> c' = c)"
proof (cases "Some a \<in> set c")
  case True
  let ?w = "std_find c (Some a)"
  have w: "?w < length c" "c ! ?w = Some a" using True by simp_all
  with assms have "?w \<in> filled p" "invar p" by (auto simp: set_wf_def)
  from hit_ok [OF this(2,1)] obtain q where q: "hit ?w p = Some q" "invar q" "ways q = ways p"
    "filled p \<subseteq> filled q" by blast
  have "ref_step hit miss a c p = Some (True, c, q)" using q(1) w(1) by (simp add: ref_step_def)
  moreover have "set_wf c q" using assms q by (auto simp: set_wf_def)
  ultimately show ?thesis using True q(3) by blast
next
  case False
  have p: "invar p" using assms by (simp add: set_wf_def)
  from miss_ok [OF p] obtain w q where q: "miss p = Some (w, q)" "w < ways p" "invar q"
    "ways q = ways p" "insert w (filled p) \<subseteq> filled q" by blast
  have "set_wf (c[w := Some a]) q"
    using assms q False distinct_filter_update [of c a w]
    by (auto simp: set_wf_def nth_list_update)
  moreover have "ref_step hit miss a c p = Some (False, c[w := Some a], q)"
    using q(1) False by (simp add: ref_step_def)
  moreover have "Some a \<in> set (c[w := Some a])"
    using q(2) assms by (intro set_update_memI) (simp add: set_wf_def)
  ultimately show ?thesis using False q(4) by blast
qed

lemma ref_run_ok:
  assumes "set_wf c p"
  shows "\<exists>hs c' p'. ref_run hit miss as c p = Some (hs, c', p') \<and> set_wf c' p' \<and> ways p' = ways p \<and>
           length hs = length as"
  using assms
proof (induction as arbitrary: c p)
  case Nil
  then show ?case by simp
next
  case (Cons a as)
  from ref_step_ok [OF Cons.prems, of a] obtain h c' p'
    where s: "ref_step hit miss a c p = Some (h, c', p')" "set_wf c' p'" "ways p' = ways p" by blast
  with Cons.IH [OF s(2)] show ?case by auto
qed

text \<open>
  The simulation relation between the tables of \<open>simulate_sequence\<close> and the reference set: \<open>way_addr\<close>
  lists the contents of the ways, and \<open>addr_way\<close> is right for every address that is cached.
\<close>

definition sim_rel :: "nat option list \<Rightarrow> 'p sim_state \<Rightarrow> bool" where
  "sim_rel c s \<longleftrightarrow> set_wf c (sq_policy s) \<and>
     sq_way_addr s = map (\<lambda>x. case x of None \<Rightarrow> dirty | Some a \<Rightarrow> a) c \<and>
     length (sq_seen s) = length (sq_addr_way s) \<and>
     (\<forall>v \<in> set (sq_addr_way s). v < length c) \<and>
     (\<forall>w < length c. \<forall>a. c ! w = Some a \<longrightarrow>
        a < length (sq_seen s) \<and> sq_addr_way s ! a = w \<and> sq_seen s ! a)"

lemma sim_rel_init:
  "invar p \<Longrightarrow> sim_rel (replicate (ways p) None)
     \<lparr>sq_seen = [], sq_addr_way = [], sq_way_addr = replicate (ways p) dirty,
      sq_hit_counter = 0, sq_policy = p\<rparr>"
  by (auto simp: sim_rel_def set_wf_empty map_replicate_const)

text \<open>Growing the tables changes nothing.\<close>

lemma sim_rel_grow:
  assumes "sim_rel c s" and "length (sq_seen s) \<le> n"
  shows "sim_rel c (s\<lparr>sq_seen := vec_resize n False (sq_seen s),
                      sq_addr_way := vec_resize n 0 (sq_addr_way s)\<rparr>)"
proof -
  have "0 < length c" using assms(1) ways_pos by (simp add: sim_rel_def set_wf_def)
  moreover have "v \<in> set (sq_addr_way s) \<or> v = 0" if "v \<in> set (vec_resize n 0 (sq_addr_way s))" for v
    using that by (auto simp: vec_resize_def dest: in_set_takeD)
  ultimately show ?thesis using assms
    by (fastforce simp: sim_rel_def nth_vec_resize)
qed

lemma sim_rel_lookup:
  assumes "sim_rel c s" and "a < length (sq_seen s)" and "a < dirty"
  shows "sq_addr_way s ! a < length c"
    and "(sq_way_addr s ! (sq_addr_way s ! a) = a) \<longleftrightarrow> Some a \<in> set c"
    and "Some a \<in> set c \<Longrightarrow> std_find c (Some a) = sq_addr_way s ! a"
    and "Some a \<in> set c \<Longrightarrow> sq_seen s ! a"
proof -
  show l: "sq_addr_way s ! a < length c" using assms(1,2) by (simp add: sim_rel_def)
  have found: "c ! w = Some a \<Longrightarrow> w < length c \<Longrightarrow> sq_addr_way s ! a = w \<and> sq_seen s ! a" for w
    using assms(1) by (simp add: sim_rel_def)
  have "sq_way_addr s ! (sq_addr_way s ! a) =
      (case c ! (sq_addr_way s ! a) of None \<Rightarrow> dirty | Some b \<Rightarrow> b)"
    using l assms(1) by (simp add: sim_rel_def)
  then have "(sq_way_addr s ! (sq_addr_way s ! a) = a) \<longleftrightarrow> c ! (sq_addr_way s ! a) = Some a"
    using assms(3) by (auto split: option.splits)
  also have "\<dots> \<longleftrightarrow> Some a \<in> set c"
    using l found by (metis in_set_conv_nth)
  finally show "(sq_way_addr s ! (sq_addr_way s ! a) = a) \<longleftrightarrow> Some a \<in> set c" .
  assume "Some a \<in> set c"
  with found [of "std_find c (Some a)"]
  show "std_find c (Some a) = sq_addr_way s ! a" "sq_seen s ! a" by simp_all
qed

text \<open>One iteration on tables that are large enough.\<close>

lemma sim_rel_step:
  assumes rel: "sim_rel c s" and a: "a < length (sq_seen s)" "a < dirty"
  shows "\<exists>h c' s'. ref_step hit miss a c (sq_policy s) = Some (h, c', sq_policy s') \<and>
     simulate_step hit miss a s = Some s' \<and> sim_rel c' s' \<and>
     sq_hit_counter s' = sq_hit_counter s + of_bool h"
proof (cases "Some a \<in> set c")
  case True
  note look = sim_rel_lookup [OF rel a]
  have "set_wf c (sq_policy s)" using rel by (simp add: sim_rel_def)
  from ref_step_ok [OF this, of a] True obtain q where
    q: "ref_step hit miss a c (sq_policy s) = Some (True, c, q)" "set_wf c q" by auto
  then have h: "hit (sq_addr_way s ! a) (sq_policy s) = Some q"
    using True look(1,3) by (simp add: ref_step_def Let_def bind_eq_Some_conv)
  have l: "length (sq_way_addr s) = length c" "length (sq_seen s) = length (sq_addr_way s)"
    using rel by (simp_all add: sim_rel_def)
  have "simulate_step hit miss a s =
      Some (s\<lparr>sq_policy := q, sq_hit_counter := sq_hit_counter s + 1\<rparr>)"
    using a(1) l look(1) look(2,4) h True by (simp add: simulate_step_def)
  moreover have "sim_rel c (s\<lparr>sq_policy := q, sq_hit_counter := sq_hit_counter s + 1\<rparr>)"
    using rel q(2) by (auto simp: sim_rel_def)
  ultimately show ?thesis using q(1) by fastforce
next
  case False
  note look = sim_rel_lookup [OF rel a]
  have wfp: "set_wf c (sq_policy s)" using rel by (simp add: sim_rel_def)
  then have "invar (sq_policy s)" by (simp add: set_wf_def)
  from miss_ok [OF this] obtain w q where m: "miss (sq_policy s) = Some (w, q)" "w < length c"
    using wfp by (auto simp: set_wf_def)
  have r: "ref_step hit miss a c (sq_policy s) = Some (False, c[w := Some a], q)"
    using m(1) False by (simp add: ref_step_def)
  with ref_step_ok [OF wfp, of a] have wfq: "set_wf (c[w := Some a]) q" by auto
  let ?s = "s\<lparr>sq_policy := q, sq_addr_way := (sq_addr_way s)[a := w],
              sq_way_addr := (sq_way_addr s)[w := a], sq_seen := (sq_seen s)[a := True]\<rparr>"
  have l: "length (sq_way_addr s) = length c" "length (sq_seen s) = length (sq_addr_way s)"
    using rel by (simp_all add: sim_rel_def)
  have seen: "sq_seen s ! a \<Longrightarrow> (sq_seen s)[a := True] = sq_seen s"
    using list_update_id [of "sq_seen s" a] by simp
  have "simulate_step hit miss a s = Some ?s"
    using a l look(1,2) m False by (cases "sq_seen s ! a") (simp_all add: simulate_step_def seen)
  moreover have "sim_rel (c[w := Some a]) ?s"
  proof -
    have "\<forall>v \<in> set ((sq_addr_way s)[a := w]). v < length c"
      using rel m(2) set_update_subset_insert [of "sq_addr_way s" a w] by (auto simp: sim_rel_def)
    moreover have "c ! v = Some b \<Longrightarrow> v < length c \<Longrightarrow> b \<noteq> a" for v b
      using False by (metis nth_mem)
    ultimately show ?thesis using rel wfq a m(2)
      by (auto simp: sim_rel_def map_update nth_list_update)
  qed
  ultimately show ?thesis using r by fastforce
qed

lemma simulate_step_grow:
  "length (sq_seen s) \<le> a \<Longrightarrow> a < dirty \<Longrightarrow> length (sq_seen s) = length (sq_addr_way s) \<Longrightarrow>
   simulate_step hit miss a s = simulate_step hit miss a
     (s\<lparr>sq_seen := vec_resize (Suc a) False (sq_seen s),
        sq_addr_way := vec_resize (Suc a) 0 (sq_addr_way s)\<rparr>)"
  by (simp add: simulate_step_def next_size)

lemma sim_rel_any_step:
  assumes "sim_rel c s" and "a < dirty"
  shows "\<exists>h c' s'. ref_step hit miss a c (sq_policy s) = Some (h, c', sq_policy s') \<and>
     simulate_step hit miss a s = Some s' \<and> sim_rel c' s' \<and>
     sq_hit_counter s' = sq_hit_counter s + of_bool h"
proof (cases "a < length (sq_seen s)")
  case True
  with assms show ?thesis by (intro sim_rel_step)
next
  case False
  with assms have "length (sq_seen s) = length (sq_addr_way s)" by (simp add: sim_rel_def)
  with False assms sim_rel_grow [OF assms(1), of "Suc a"] show ?thesis
    using sim_rel_step [of c "s\<lparr>sq_seen := vec_resize (Suc a) False (sq_seen s),
        sq_addr_way := vec_resize (Suc a) 0 (sq_addr_way s)\<rparr>" a] simulate_step_grow [of s a]
    by simp
qed

lemma simulate_loop_ref:
  assumes "sim_rel c s" and "\<forall>a \<in> set as. a < dirty"
  shows "\<exists>hs c' s'. ref_run hit miss as c (sq_policy s) = Some (hs, c', sq_policy s') \<and>
     simulate_loop hit miss as s = Some s' \<and> sq_hit_counter s' = sq_hit_counter s + hit_count hs"
  using assms
proof (induction as arbitrary: c s)
  case Nil
  then show ?case by simp
next
  case (Cons a as)
  from sim_rel_any_step [OF Cons.prems(1), of a] Cons.prems(2) obtain h c' s'
    where s: "ref_step hit miss a c (sq_policy s) = Some (h, c', sq_policy s')"
      "simulate_step hit miss a s = Some s'" "sim_rel c' s'"
      "sq_hit_counter s' = sq_hit_counter s + of_bool h" by auto
  with Cons.IH [OF s(3)] Cons.prems(2) obtain hs c'' s''
    where "ref_run hit miss as c' (sq_policy s') = Some (hs, c'', sq_policy s'')"
      "simulate_loop hit miss as s' = Some s''" "sq_hit_counter s'' = sq_hit_counter s' + hit_count hs"
    by auto
  with s show ?case by (cases h) auto
qed

text \<open>\<open>simulate_sequence\<close> counts the hits of the reference set that starts empty.\<close>

lemma simulate_sequence_ref:
  assumes "invar p" and "\<forall>a \<in> set as. a < dirty"
  shows "\<exists>hs c q. ref_run hit miss as (replicate (ways p) None) p = Some (hs, c, q) \<and>
     simulate_sequence ways hit miss as p = Some (hit_count hs, q)"
  using simulate_loop_ref [OF sim_rel_init [OF assms(1)] assms(2)]
  by (auto simp: simulate_sequence_def)

end

section \<open>Selection of candidates\<close>

lemma generate_loop_set:
  assumes "\<And>lo hi g. lo \<le> hi \<Longrightarrow> lo \<le> fst (draw lo hi g) \<and> fst (draw lo hi g) \<le> hi" and "0 < mx"
    and "set out \<subseteq> {..<mx}"
  shows "length (fst (generate_loop draw mx n out g)) = length out + n \<and>
         set (fst (generate_loop draw mx n out g)) \<subseteq> {..<mx}"
  using assms(3)
proof (induction n arbitrary: out g)
  case 0
  then show ?case by simp
next
  case (Suc n)
  obtain x g' where d: "draw 0 (mx - 1) g = (x, g')" by fastforce
  with assms(1) [of 0 "mx - 1" g] assms(2) have "x < mx" by auto
  with Suc.IH [of "out @ [x]" g'] Suc.prems d show ?case by simp
qed

text \<open>
  One step of the partition: \<open>names\<close> arose from \<open>names0\<close> by swaps that left the part from \<open>first\<close> on
  alone and collected the kept names, in their order, at the front.
\<close>

definition partition_inv :: "(string \<Rightarrow> bool) \<Rightarrow> string list \<Rightarrow> nat \<Rightarrow> nat \<Rightarrow> string list \<Rightarrow> bool" where
  "partition_inv P names0 first out names \<longleftrightarrow>
     out \<le> first \<and> first \<le> length names0 \<and> mset names = mset names0 \<and>
     take out names = filter P (take first names0) \<and> drop first names = drop first names0"

lemma partition_inv_keep:
  assumes "partition_inv P names0 first out names" and "first < length names" and "P (names ! first)"
  shows "partition_inv P names0 (Suc first) (Suc out) (names[out := names ! first, first := names ! out])"
proof -
  let ?names = "names[out := names ! first, first := names ! out]"
  note inv = assms(1) [unfolded partition_inv_def]
  have len: "length names = length names0" using inv by (metis size_mset)
  have lt: "out < length names" using inv assms(2) by simp
  have "names ! first = names0 ! first"
    using inv assms(2) len by (metis hd_drop_conv_nth)
  then have f: "filter P (take (Suc first) names0) = take out names @ [names ! first]"
    using inv assms(2,3) len by (simp add: take_Suc_conv_app_nth)
  moreover have "take (Suc out) ?names = take out names @ [names ! first]"
    using lt inv by (cases "out = first") (simp_all add: take_Suc_conv_app_nth nth_list_update)
  moreover have "drop (Suc first) ?names = drop (Suc first) names0"
    using inv by (simp add: drop_Suc flip: tl_drop) (metis drop_Suc tl_drop drop_update_cancel lessI less_Suc_eq_le)
  moreover have "mset ?names = mset names0"
    using inv mset_swap [of first names out] lt assms(2) by simp
  ultimately show ?thesis using inv assms(2) len by (simp add: partition_inv_def)
qed

lemma partition_inv_skip:
  assumes "partition_inv P names0 first out names" and "first < length names" and "\<not> P (names ! first)"
  shows "partition_inv P names0 (Suc first) out names"
proof -
  note inv = assms(1) [unfolded partition_inv_def]
  have len: "length names = length names0" using inv by (metis size_mset)
  have "names ! first = names0 ! first"
    using inv assms(2) len by (metis hd_drop_conv_nth)
  with inv assms(2,3) len show ?thesis
    by (simp add: partition_inv_def take_Suc_conv_app_nth) (metis drop_Suc tl_drop)
qed

lemma filter_loop_partition:
  assumes "\<And>name. name \<in> set names0 \<Longrightarrow> simulate_sequence_named seq name a = Some (Inr (h name))"
    and "partition_inv (\<lambda>name. h name = m) names0 first out names"
  shows "\<exists>out' names'. filter_loop seq m a first out names = Some (Inr (out', names')) \<and>
           partition_inv (\<lambda>name. h name = m) names0 (length names0) out' names'"
  using assms(2)
proof (induction "length names0 - first" arbitrary: first out names rule: less_induct)
  case less
  let ?P = "\<lambda>name. h name = m"
  have ms: "mset names = mset names0" and le: "first \<le> length names0" "out \<le> first"
    using less.prems by (simp_all add: partition_inv_def)
  then have len: "length names = length names0" by (metis size_mset)
  show ?case
  proof (cases "first < length names")
    case False
    with less.prems le len show ?thesis by (auto simp: filter_loop.simps)
  next
    case True
    then have "names ! first \<in> set names0" using ms by (metis mset_eq_setD nth_mem)
    then have sim: "simulate_sequence_named seq (names ! first) a = Some (Inr (h (names ! first)))"
      by (rule assms(1))
    show ?thesis
    proof (cases "?P (names ! first)")
      case P: True
      from less.hyps [OF _ partition_inv_keep [OF less.prems True P]] True len P sim le
      show ?thesis by (subst filter_loop.simps) simp
    next
      case P: False
      from less.hyps [OF _ partition_inv_skip [OF less.prems True P]] True len P sim
      show ?thesis by (subst filter_loop.simps) simp
    qed
  qed
qed

lemma simulate_candidate:
  assumes "0 < a" and "a < 2 ^ 31" and "get_replacement_policies a = Some cs" and "name \<in> set cs"
    and "\<forall>x \<in> set seq. x < dirty"
  shows "\<exists>n. simulate_sequence_named seq name a = Some (Inr n)"
proof -
  from make_candidate [OF assms(1-4)] obtain p
    where p: "make_replacement_policy name a = Some (Some p)" "any_wf p" by blast
  from any.simulate_sequence_ref [OF p(2) assms(5)] p(1) show ?thesis
    by (auto simp: simulate_sequence_named_def)
qed

lemma filter_policies_matching:
  assumes "0 < a" and "a < 2 ^ 31" and "get_replacement_policies a = Some cs"
    and "set names \<subseteq> set cs" and "\<forall>x \<in> set seq. x < dirty"
  shows "\<exists>out names'. filter_replacement_policies names seq m a = Some (Inr (out, names')) \<and>
           mset names' = mset names \<and>
           take out names' = filter (\<lambda>name. simulate_sequence_named seq name a = Some (Inr m)) names"
proof -
  have "\<forall>name \<in> set names. \<exists>n. simulate_sequence_named seq name a = Some (Inr n)"
    using simulate_candidate [OF assms(1-3) _ assms(5)] assms(4) by blast
  then obtain h where h: "\<And>name. name \<in> set names \<Longrightarrow> simulate_sequence_named seq name a = Some (Inr (h name))"
    by metis
  have "partition_inv (\<lambda>name. h name = m) names 0 0 names" by (simp add: partition_inv_def)
  from filter_loop_partition [OF h this] obtain out names'
    where r: "filter_loop seq m a 0 0 names = Some (Inr (out, names'))"
      and i: "partition_inv (\<lambda>name. h name = m) names (length names) out names'" by blast
  have "filter (\<lambda>name. h name = m) names =
      filter (\<lambda>name. simulate_sequence_named seq name a = Some (Inr m)) names"
    using h by (intro filter_cong) simp_all
  with r i show ?thesis by (simp add: partition_inv_def filter_replacement_policies_def)
qed

section \<open>Properties\<close>

text \<open>
  C2. The table-driven \<open>simulate_sequence\<close> agrees with the plain cache set for every policy the library
  can build: it never runs out of the bounds of its tables or into an assertion of the policy, its
  result is the number of accesses whose address was found in some way, and it leaves the policy in the
  same state.
\<close>

theorem simulate_sequence_counts_hits:
  assumes "any_wf p" and "\<forall>a \<in> set seq. a < dirty"
  shows "\<exists>hs c q. ref_run any_hit any_miss seq (replicate (any_ways p) None) p = Some (hs, c, q) \<and>
           simulate_sequence any_ways any_hit any_miss seq p = Some (hit_count hs, q)"
  using assms by (rule any.simulate_sequence_ref)

theorem simulate_sequence_counts_hits_witness:
  "\<exists>hs c q. ref_run any_hit any_miss [0, 1, 0, 2, 1 :: nat] (replicate 2 None) (Any_Lru \<lparr>lru_order = [0, 1]\<rparr>) =
       Some (hs, c, q) \<and>
     simulate_sequence any_ways any_hit any_miss [0, 1, 0, 2, 1] (Any_Lru \<lparr>lru_order = [0, 1]\<rparr>) =
       Some (hit_count hs, q)"
proof -
  have "any_wf (Any_Lru \<lparr>lru_order = [0, 1]\<rparr>)" by (auto simp: lru_wf_def order_wf_def)
  moreover have "\<forall>a \<in> set [0, 1, 0, 2, 1]. a < dirty" by (simp add: dirty_def)
  moreover have "any_ways (Any_Lru \<lparr>lru_order = [0, 1]\<rparr>) = 2" by (simp add: lru_ways_def)
  ultimately show ?thesis using simulate_sequence_counts_hits by metis
qed

text \<open>
  C8. One round of the replacement-policy reversal: \<open>filter_replacement_policies\<close> only permutes the
  candidates, and the part before the returned iterator consists of exactly those candidates, in their
  old order, whose simulated hit counter is the measured one. In particular the policy that produced
  the measurement is never eliminated.
\<close>

theorem filter_policies_keeps_matching:
  assumes "0 < a" and "a < 2 ^ 31" and "get_replacement_policies a = Some cs"
    and "set names \<subseteq> set cs" and "\<forall>x \<in> set seq. x < dirty"
  shows "\<exists>out names'. filter_replacement_policies names seq m a = Some (Inr (out, names')) \<and>
           mset names' = mset names \<and>
           take out names' = filter (\<lambda>name. simulate_sequence_named seq name a = Some (Inr m)) names"
  using assms by (rule filter_policies_matching)

theorem filter_policies_keeps_matching_witness:
  "\<exists>out names'. filter_replacement_policies [''FIFO'', ''SRRIP'', ''LRU''] [0, 1, 0, 2, 0] 1 2 = Some (Inr (out, names')) \<and>
     mset names' = mset [''FIFO'', ''SRRIP'', ''LRU''] \<and>
     take out names' = filter (\<lambda>name. simulate_sequence_named [0, 1, 0, 2, 0] name 2 = Some (Inr 1))
       [''FIFO'', ''SRRIP'', ''LRU'']"
proof -
  obtain cs where "get_replacement_policies 2 = Some cs" "set [''FIFO'', ''SRRIP'', ''LRU''] \<subseteq> set cs"
    by (simp add: get_replacement_policies_def)
  then show ?thesis
    using filter_policies_keeps_matching [of 2 cs "[''FIFO'', ''SRRIP'', ''LRU'']" "[0, 1, 0, 2, 0]" 1]
    by (simp add: dirty_def)
qed

end
