(* ===== verification/CH_Lru_Stack.thy ===== *)
theory CH_Lru_Stack
  imports CH_Sequence
begin

text \<open>
  The stack-distance characterisation of LRU. The LRU stack of an access sequence lists the addresses
  by their last use, most recent first. An \<open>n\<close>-way LRU set holds exactly the first \<open>n\<close> entries of that
  stack, so \<open>simulate_sequence\<close> with \<open>lru_replacement_policy\<close> counts the accesses whose stack distance is
  below the associativity; more ways never lose a hit.
\<close>

section \<open>Stack distance\<close>

fun lru_stack_hits :: "nat \<Rightarrow> 'a list \<Rightarrow> 'a list \<Rightarrow> bool list" where
  "lru_stack_hits n [] stk = []"
| "lru_stack_hits n (a # as) stk = (a \<in> set (take n stk)) # lru_stack_hits n as (a # removeAll a stk)"

lemma take_removeAll_in:
  assumes "distinct xs" and "a \<in> set (take (Suc n) xs)"
  shows "take n (removeAll a xs) = removeAll a (take (Suc n) xs)"
  using assms
proof (induction xs arbitrary: n)
  case Nil
  then show ?case by simp
next
  case (Cons x xs)
  show ?case
  proof (cases "x = a")
    case True
    with Cons.prems have "a \<notin> set xs" by simp
    moreover from this have "a \<notin> set (take n xs)" by (auto dest: in_set_takeD)
    ultimately show ?thesis using True by simp
  next
    case False
    with Cons.prems obtain m where "n = Suc m" "a \<in> set (take (Suc m) xs)" by (cases n) auto
    with Cons False show ?thesis by simp
  qed
qed

lemma take_removeAll_notin: "a \<notin> set (take (Suc n) xs) \<Longrightarrow> take n (removeAll a xs) = take n xs"
proof (induction xs arbitrary: n)
  case Nil
  then show ?case by simp
next
  case (Cons x xs)
  then show ?case by (cases n) auto
qed

text \<open>The stack after an access, cut to the associativity.\<close>

lemma stack_take_hit:
  assumes "distinct stk" and "a \<in> set (take n stk)"
  shows "take n (a # removeAll a stk) = a # removeAll a (take n stk)"
    and "length (removeAll a stk) = length stk - 1"
proof -
  obtain m where "n = Suc m" using assms(2) by (cases n) auto
  then show "take n (a # removeAll a stk) = a # removeAll a (take n stk)"
    using take_removeAll_in assms by simp
  have "a \<in> set stk" using assms(2) by (rule in_set_takeD)
  then show "length (removeAll a stk) = length stk - 1"
    using assms(1) by (simp add: distinct_remove1_removeAll [symmetric] length_remove1)
qed

lemma stack_take_miss:
  assumes "a \<notin> set (take (Suc n) stk)"
  shows "take (Suc n) (a # removeAll a stk) = a # take n stk"
  using take_removeAll_notin [OF assms] by simp

text \<open>
  The contents of an LRU set read in LRU order. A hit moves the entry to the front, a miss puts the new
  entry in front and drops the last one.
\<close>

definition lru_contents :: "'a option list \<Rightarrow> lru_replacement_policy \<Rightarrow> 'a option list" where
  "lru_contents c p = map (\<lambda>w. c ! w) (lru_order p)"

text \<open>A set with one entry per way and no address twice.\<close>

definition tags_once :: "'a option list \<Rightarrow> bool" where
  "tags_once c \<longleftrightarrow> (\<forall>v < length c. \<forall>w < length c. \<forall>a. c ! v = Some a \<longrightarrow> c ! w = Some a \<longrightarrow> v = w)"

lemma tags_once_unique: "tags_once c \<Longrightarrow> v < length c \<Longrightarrow> w < length c \<Longrightarrow> c ! v = Some a \<Longrightarrow> c ! w = Some a \<Longrightarrow> v = w"
  unfolding tags_once_def by blast

lemma tags_once_update:
  assumes "tags_once c" and "Some a \<notin> set c"
  shows "tags_once (c[u := Some a])"
proof -
  have na: "c ! v \<noteq> Some a" if "v < length c" for v using assms(2) that by (metis nth_mem)
  have "v = w" if "v < length c" "w < length c" "c[u := Some a] ! v = Some b" "c[u := Some a] ! w = Some b" for v w b
    using that tags_once_unique [OF assms(1), of v w b] na [of v] na [of w]
    by (cases "u < length c") (auto simp: nth_list_update split: if_splits)
  then show ?thesis unfolding tags_once_def by simp
qed

definition lru_set_wf :: "nat \<Rightarrow> 'a option list \<Rightarrow> lru_replacement_policy \<Rightarrow> bool" where
  "lru_set_wf n c p \<longleftrightarrow> lru_wf p \<and> lru_ways p = n \<and> length c = n \<and> tags_once c"

lemma lru_set_wfD:
  assumes "lru_set_wf n c p"
  shows "lru_wf p" and "lru_ways p = n" and "length c = n" and "set (lru_order p) = {..<n}"
    and "length (lru_order p) = n" and "0 < n" and "distinct (lru_order p)" and "tags_once c"
  using assms by (auto simp: lru_set_wf_def lru_wf_def order_wf_def lru_ways_def)

lemma length_lru_contents: "lru_set_wf n c p \<Longrightarrow> length (lru_contents c p) = n"
  by (simp add: lru_contents_def lru_set_wfD)

lemma set_lru_contents: "lru_set_wf n c p \<Longrightarrow> set (lru_contents c p) = set c"
  using nth_image [of n c] by (simp add: lru_contents_def lru_set_wfD lessThan_atLeast0)

lemma lru_contents_hit:
  assumes wf: "lru_set_wf n c p" and a: "Some a \<in> set c"
  shows "\<exists>q. lru_hit (std_find c (Some a)) p = Some q \<and> lru_set_wf n c q \<and>
     lru_contents c q = Some a # removeAll (Some a) (lru_contents c p)"
proof -
  let ?w = "std_find c (Some a)" and ?q = "p\<lparr>lru_order := std_find c (Some a) # removeAll (std_find c (Some a)) (lru_order p)\<rparr>"
  note d = lru_set_wfD [OF wf]
  have w: "?w < n" "c ! ?w = Some a" using a d(3) std_find_less_iff [of c "Some a"] by simp_all
  have q: "lru_hit ?w p = Some ?q" using lru_hit_eq [OF d(1)] w d(2) by simp
  have "removeAll ?w (lru_order p) = filter (\<lambda>v. Some a \<noteq> c ! v) (lru_order p)"
    unfolding removeAll_filter_not_eq
  proof (intro filter_cong refl)
    fix v assume "v \<in> set (lru_order p)"
    then have "v < n" using d(4) by simp
    then show "(?w \<noteq> v) = (Some a \<noteq> c ! v)" using w tags_once_unique [OF d(8), of v ?w a] d(3) by auto
  qed
  then have "lru_contents c ?q = Some a # removeAll (Some a) (lru_contents c p)"
    using w(2) by (simp add: lru_contents_def removeAll_filter_not_eq filter_map comp_def)
  moreover have "lru_set_wf n c ?q"
    using lru.hit_wf [OF d(1) _ q] w(1) d(2) wf by (simp add: lru_set_wf_def)
  ultimately show ?thesis using q by blast
qed

lemma lru_contents_miss:
  assumes wf: "lru_set_wf n c p" and a: "Some a \<notin> set c"
  shows "\<exists>w q. lru_miss p = Some (w, q) \<and> lru_set_wf n (c[w := Some a]) q \<and>
     lru_contents (c[w := Some a]) q = Some a # butlast (lru_contents c p)"
proof -
  let ?xs = "lru_order p"
  let ?w = "last ?xs" and ?q = "p\<lparr>lru_order := last ?xs # butlast ?xs\<rparr>"
  note d = lru_set_wfD [OF wf]
  have q: "lru_miss p = Some (?w, ?q)" using lru_miss_eq [OF d(1)] .
  have ne: "?xs \<noteq> []" using d(5,6) by auto
  have w: "?w < n" using lru.miss_way_less [OF d(1) q] d(2) by simp
  have "distinct (butlast ?xs @ [?w])" using ne d(7) by simp
  then have "?w \<notin> set (butlast ?xs)" unfolding distinct_append by simp
  then have "map (\<lambda>v. c[?w := Some a] ! v) (butlast ?xs) = map (\<lambda>v. c ! v) (butlast ?xs)"
    by (intro map_cong refl nth_list_update_neq) blast
  then have "lru_contents (c[?w := Some a]) ?q = Some a # butlast (lru_contents c p)"
    using w d(3) by (simp add: lru_contents_def map_butlast)
  moreover have "lru_set_wf n (c[?w := Some a]) ?q"
    using lru.miss_wf [OF d(1) q] d(2,3) tags_once_update [OF d(8) a] by (simp add: lru_set_wf_def)
  ultimately show ?thesis using q by blast
qed

text \<open>
  The relation between an \<open>n\<close>-way LRU set and the stack: read in LRU order, the ways hold the first
  \<open>n\<close> entries of the stack, followed by empty ways.
\<close>

definition stack_rel :: "nat \<Rightarrow> 'a list \<Rightarrow> 'a option list \<Rightarrow> lru_replacement_policy \<Rightarrow> bool" where
  "stack_rel n stk c p \<longleftrightarrow> lru_set_wf n c p \<and> distinct stk \<and>
     lru_contents c p = map Some (take n stk) @ replicate (n - length stk) None"

lemma stack_rel_init: "lru_wf p \<Longrightarrow> stack_rel (lru_ways p) [] (replicate (lru_ways p) None) p"
proof -
  assume "lru_wf p"
  then have "map (\<lambda>w. replicate (lru_ways p) None ! w) (lru_order p) = map (\<lambda>_. None) (lru_order p)"
    by (intro map_cong refl) (simp add: lru_wf_def lru_ways_def order_wf_in_set)
  with \<open>lru_wf p\<close> show ?thesis
    by (simp add: stack_rel_def lru_set_wf_def lru_contents_def map_replicate_const lru_ways_def
        tags_once_def)
qed

lemma stack_rel_mem:
  assumes "stack_rel n stk c p"
  shows "Some a \<in> set c \<longleftrightarrow> a \<in> set (take n stk)"
  using assms set_lru_contents [of n c p] by (auto simp: stack_rel_def)

lemma stack_rel_hit:
  assumes rel: "stack_rel n stk c p" and a: "Some a \<in> set c"
  shows "\<exists>q. lru_hit (std_find c (Some a)) p = Some q \<and> stack_rel n (a # removeAll a stk) c q"
proof -
  have d: "distinct stk" using rel by (simp add: stack_rel_def)
  from lru_contents_hit [of n c p a] rel a obtain q where
    q: "lru_hit (std_find c (Some a)) p = Some q" "lru_set_wf n c q"
    "lru_contents c q = Some a # removeAll (Some a) (lru_contents c p)" by (auto simp: stack_rel_def)
  have "removeAll (Some a) (lru_contents c p) =
      map Some (removeAll a (take n stk)) @ replicate (n - length stk) None"
    using rel by (simp add: stack_rel_def removeAll_filter_not_eq filter_map comp_def)
  moreover have a': "a \<in> set (take n stk)" using a stack_rel_mem [OF rel] by simp
  moreover from this have "0 < length stk" by (cases stk) auto
  ultimately have "lru_contents c q =
      map Some (take n (a # removeAll a stk)) @ replicate (n - length (a # removeAll a stk)) None"
    using q(3) stack_take_hit [OF d a'] by simp
  then have "stack_rel n (a # removeAll a stk) c q"
    using q(2) d by (simp add: stack_rel_def distinct_removeAll)
  with q(1) show ?thesis by blast
qed

lemma stack_rel_miss:
  assumes rel: "stack_rel n stk c p" and a: "Some a \<notin> set c"
  shows "\<exists>w q. lru_miss p = Some (w, q) \<and> stack_rel n (a # removeAll a stk) (c[w := Some a]) q"
proof -
  have d: "distinct stk" and wf: "lru_set_wf n c p" using rel by (simp_all add: stack_rel_def)
  from lru_contents_miss [OF wf a] obtain w q where
    q: "lru_miss p = Some (w, q)" "lru_set_wf n (c[w := Some a]) q"
    "lru_contents (c[w := Some a]) q = Some a # butlast (lru_contents c p)" by blast
  obtain k where k: "n = Suc k" using lru_set_wfD(6) [OF wf] by (cases n) auto
  have "butlast (lru_contents c p) = butlast (map Some (take n stk) @ replicate (n - length stk) None)"
    using rel by (simp add: stack_rel_def)
  also have "\<dots> = map Some (take k stk) @ replicate (k - length stk) None"
    by (rule nth_equalityI) (auto simp: k nth_append nth_butlast min_def)
  finally have bl: "butlast (lru_contents c p) = map Some (take k stk) @ replicate (k - length stk) None" .
  have na: "a \<notin> set (take n stk)" using a stack_rel_mem [OF rel] by simp
  have "k - length stk = n - length (a # removeAll a stk)"
  proof (cases "a \<in> set stk")
    case True
    then have "length (removeAll a stk) = length stk - 1"
      using d by (simp add: distinct_remove1_removeAll [symmetric] length_remove1)
    moreover have "n < length stk" using True na by (metis not_le take_all)
    ultimately show ?thesis using k by simp
  qed (simp add: k)
  then have "lru_contents (c[w := Some a]) q =
      map Some (take n (a # removeAll a stk)) @ replicate (n - length (a # removeAll a stk)) None"
    using q(3) bl na stack_take_miss [of a k stk] k by simp
  then have "stack_rel n (a # removeAll a stk) (c[w := Some a]) q"
    using q(2) d by (simp add: stack_rel_def distinct_removeAll)
  with q(1) show ?thesis by blast
qed

lemma stack_rel_run:
  assumes "stack_rel n stk c p"
  shows "\<exists>c' q. ref_run lru_hit lru_miss as c p = Some (lru_stack_hits n as stk, c', q)"
  using assms
proof (induction as arbitrary: stk c p)
  case Nil
  then show ?case by simp
next
  case (Cons a as)
  have "\<exists>c' q. ref_step lru_hit lru_miss a c p = Some (a \<in> set (take n stk), c', q) \<and>
      stack_rel n (a # removeAll a stk) c' q"
  proof (cases "Some a \<in> set c")
    case True
    with stack_rel_hit [OF Cons.prems True] stack_rel_mem [OF Cons.prems] show ?thesis
      by (auto simp: ref_step_def)
  next
    case False
    with stack_rel_miss [OF Cons.prems False] stack_rel_mem [OF Cons.prems] show ?thesis
      by (auto simp: ref_step_def)
  qed
  with Cons.IH show ?case by fastforce
qed

lemma lru_stack_hits_mono:
  "n \<le> m \<Longrightarrow> list_all2 (\<lambda>x y. x \<longrightarrow> y) (lru_stack_hits n as stk) (lru_stack_hits m as stk)"
proof (induction as arbitrary: stk)
  case Nil
  then show ?case by simp
next
  case (Cons a as)
  moreover have "set (take n stk) \<subseteq> set (take m stk)" using Cons.prems by (rule set_take_subset_set_take)
  ultimately show ?case by auto
qed

lemma hit_count_mono: "list_all2 (\<lambda>x y. x \<longrightarrow> y) hs hs' \<Longrightarrow> hit_count hs \<le> hit_count hs'"
  by (induction rule: list_all2_induct) auto

lemma lru_simulation:
  assumes "lru_wf p" and "\<forall>a \<in> set seq. a < dirty"
  shows "\<exists>q. simulate_sequence lru_ways lru_hit lru_miss seq p =
           Some (hit_count (lru_stack_hits (lru_ways p) seq []), q)"
  using lru.simulate_sequence_ref [OF assms] stack_rel_run [OF stack_rel_init [OF assms(1)], of seq] by auto

section \<open>Properties\<close>

text \<open>
  C32. Simulating a sequence on \<open>lru_replacement_policy\<close> counts exactly the accesses whose LRU stack
  distance is smaller than the number of ways, from whatever order the policy starts.
\<close>

theorem lru_hits_by_stack_distance:
  assumes "lru_wf p" and "\<forall>a \<in> set seq. a < dirty"
  shows "map_option fst (simulate_sequence lru_ways lru_hit lru_miss seq p) =
           Some (hit_count (lru_stack_hits (lru_ways p) seq []))"
  using lru_simulation [OF assms] by auto

theorem lru_hits_by_stack_distance_witness:
  "map_option fst (simulate_sequence lru_ways lru_hit lru_miss [0, 1, 0, 2, 1] \<lparr>lru_order = [0, 1]\<rparr>) = Some 1"
proof -
  have "lru_wf \<lparr>lru_order = [0, 1]\<rparr>" by (auto simp: lru_wf_def order_wf_def)
  moreover have "\<forall>a \<in> set [0, 1, 0, 2, 1]. a < dirty" by (simp add: dirty_def)
  ultimately show ?thesis
    using lru_hits_by_stack_distance [of "\<lparr>lru_order = [0, 1]\<rparr>" "[0, 1, 0, 2, 1]"]
    by (simp add: lru_ways_def numeral_2_eq_2)
qed

text \<open>
  Inclusion: on every sequence an LRU set with more ways has at least as many hits.
\<close>

theorem lru_hits_monotone_in_ways:
  assumes "0 < n" and "n \<le> m" and "\<forall>a \<in> set seq. a < dirty"
  shows "\<exists>p q h h' p' q'. lru_init n = Some p \<and> lru_init m = Some q \<and>
           simulate_sequence lru_ways lru_hit lru_miss seq p = Some (h, p') \<and>
           simulate_sequence lru_ways lru_hit lru_miss seq q = Some (h', q') \<and> h \<le> h'"
proof -
  from lru_init_wf assms(1,2) obtain p q where p: "lru_init n = Some p" "lru_wf p" "lru_ways p = n"
    and q: "lru_init m = Some q" "lru_wf q" "lru_ways q = m" by (metis less_le_trans)
  have "hit_count (lru_stack_hits n seq []) \<le> hit_count (lru_stack_hits m seq [])"
    by (intro hit_count_mono lru_stack_hits_mono assms(2))
  with lru_simulation [OF p(2) assms(3)] lru_simulation [OF q(2) assms(3)] p q show ?thesis by auto
qed

theorem lru_hits_monotone_in_ways_witness:
  "\<exists>p q h h' p' q'. lru_init 2 = Some p \<and> lru_init 4 = Some q \<and>
     simulate_sequence lru_ways lru_hit lru_miss [0, 1, 2, 0] p = Some (h, p') \<and>
     simulate_sequence lru_ways lru_hit lru_miss [0, 1, 2, 0] q = Some (h', q') \<and> h \<le> h'"
  by (rule lru_hits_monotone_in_ways) (simp_all add: dirty_def)

end
