(* ===== verification/CH_Placement.thy ===== *)
theory CH_Placement
  imports CH_Prelude
begin

text \<open>
  Placement policies (\<open>policies/placement\<close>, \<open>util/any_placement_policy.hpp\<close> and the A64FX function of
  the command line tool): functions from addresses to set indices.

  The locale \<open>placement_policy\<close> states what a cache relies on: the set index is below the number of
  sets that \<open>index_bits\<close> announces. It is interpreted on the modular and the affine policy and on the
  type-erased policy; the A64FX function does not meet it with the number of sets it declares.
\<close>

locale placement_policy =
  fixes index_bits :: "'q \<Rightarrow> nat"
    and place :: "'q \<Rightarrow> uintptr \<Rightarrow> nat"
    and invar :: "'q \<Rightarrow> bool"
  assumes place_less: "invar q \<Longrightarrow> place q a < 2 ^ index_bits q"
begin

text \<open>Among more addresses than there are sets, two share a set.\<close>

lemma place_collision:
  assumes "invar q" and "finite A" and "2 ^ index_bits q < card A"
  shows "\<exists>a \<in> A. \<exists>b \<in> A. a \<noteq> b \<and> place q a = place q b"
proof (rule ccontr)
  assume "\<not> ?thesis"
  then have "inj_on (place q) A" by (auto simp: inj_on_def)
  then have "card (place q ` A) = card A" by (rule card_image)
  moreover have "place q ` A \<subseteq> {..<2 ^ index_bits q}" using place_less [OF assms(1)] by auto
  ultimately show False
    using assms(3) card_mono [of "{..<2 ^ index_bits q}" "place q ` A"] by simp
qed

end

section \<open>The policies\<close>

record modular_placement_policy =
  mp_offset_bits :: nat
  mp_sets :: nat

definition modular_init :: "nat \<Rightarrow> nat \<Rightarrow> modular_placement_policy option" where
  "modular_init offset_bits sets = do {
     require (sets \<noteq> 0 \<and> sets AND (sets - 1) = 0);
     Some \<lparr>mp_offset_bits = offset_bits, mp_sets = sets\<rparr> }"

definition modular_index_bits :: "modular_placement_policy \<Rightarrow> nat" where
  "modular_index_bits q = countr_zero (mp_sets q)"

definition modular_place :: "modular_placement_policy \<Rightarrow> uintptr \<Rightarrow> nat" where
  "modular_place q address = unat (drop_bit (mp_offset_bits q) address) mod mp_sets q"

text \<open>\<open>std::popcount\<close> of a 64-bit word.\<close>

definition popcount :: "uintptr \<Rightarrow> nat" where
  "popcount w = length (filter (bit w) [0..<64])"

record affine_placement_policy =
  ap_matrix :: "uintptr list"
  ap_vector :: uintptr
  ap_offset_bits :: nat

text \<open>
  The constructor: \<open>1 << matrix_.size()\<close> is an \<open>int\<close> shift, so the assertion has a defined value only
  for fewer than 31 rows.
\<close>

definition affine_init :: "uintptr list \<Rightarrow> uintptr \<Rightarrow> nat \<Rightarrow> affine_placement_policy option" where
  "affine_init matrix v offset_bits = do {
     require (length matrix < 31);
     require (v = v AND (push_bit (length matrix) 1 - 1));
     Some \<lparr>ap_matrix = matrix, ap_vector = v, ap_offset_bits = offset_bits\<rparr> }"

text \<open>The difference is converted to \<open>std::uint8_t\<close>.\<close>

definition affine_index_bits :: "affine_placement_policy \<Rightarrow> nat" where
  "affine_index_bits q = nat ((int (length (ap_matrix q)) - int (ap_offset_bits q)) mod 256)"

fun affine_loop :: "uintptr list \<Rightarrow> uintptr \<Rightarrow> uintptr \<Rightarrow> uintptr" where
  "affine_loop [] aligned_address s = s"
| "affine_loop (row # rows) aligned_address s =
     affine_loop rows aligned_address
       (push_bit 1 s OR of_nat (popcount (row AND aligned_address) mod 2))"

definition affine_place :: "affine_placement_policy \<Rightarrow> uintptr \<Rightarrow> nat" where
  "affine_place q aligned_address =
     unat (drop_bit (ap_offset_bits q) (affine_loop (ap_matrix q) aligned_address 0 XOR ap_vector q))"

record generic_placement_policy =
  gp_sets :: nat
  gp_func :: "uintptr \<Rightarrow> nat"

definition generic_init :: "nat \<Rightarrow> (uintptr \<Rightarrow> nat) \<Rightarrow> generic_placement_policy" where
  "generic_init sets f = \<lparr>gp_sets = sets, gp_func = f\<rparr>"

text \<open>\<open>generic_placement_policy\<close> checks its number of sets only when it is asked for the index bits.\<close>

definition generic_index_bits :: "generic_placement_policy \<Rightarrow> nat option" where
  "generic_index_bits q = do {
     require (gp_sets q \<noteq> 0 \<and> gp_sets q AND (gp_sets q - 1) = 0);
     Some (countr_zero (gp_sets q)) }"

definition generic_place :: "generic_placement_policy \<Rightarrow> uintptr \<Rightarrow> nat" where
  "generic_place q address = gp_func q address"

definition a64fx_index :: "uintptr \<Rightarrow> nat" where
  "a64fx_index a =
     unat (push_bit 8 ((drop_bit 34 a AND 0b111) XOR (drop_bit 30 a AND 0b111) XOR
             (drop_bit 29 a AND 0b111) XOR (drop_bit 25 a AND 0b111) XOR (drop_bit 21 a AND 0b111))
           XOR (drop_bit 8 a AND 0b11111111111))"

definition make_a64fx_placement_policy :: generic_placement_policy where
  "make_a64fx_placement_policy = generic_init (2 ^ 10) a64fx_index"

text \<open>The type-erased policy holds one of the three.\<close>

datatype any_placement_policy =
    Any_Modular modular_placement_policy
  | Any_Affine affine_placement_policy
  | Any_Generic generic_placement_policy

fun any_index_bits :: "any_placement_policy \<Rightarrow> nat option" where
  "any_index_bits (Any_Modular q) = Some (modular_index_bits q)"
| "any_index_bits (Any_Affine q) = Some (affine_index_bits q)"
| "any_index_bits (Any_Generic q) = generic_index_bits q"

fun any_place :: "any_placement_policy \<Rightarrow> uintptr \<Rightarrow> nat" where
  "any_place (Any_Modular q) a = modular_place q a"
| "any_place (Any_Affine q) a = affine_place q a"
| "any_place (Any_Generic q) a = generic_place q a"

section \<open>Well-formed policies\<close>

definition modular_wf :: "modular_placement_policy \<Rightarrow> bool" where
  "modular_wf q \<longleftrightarrow> mp_offset_bits q < 64 \<and> is_power_of_two (mp_sets q)"

definition affine_wf :: "affine_placement_policy \<Rightarrow> bool" where
  "affine_wf q \<longleftrightarrow> length (ap_matrix q) < 31 \<and> ap_offset_bits q \<le> length (ap_matrix q) \<and>
     ap_vector q = ap_vector q AND (push_bit (length (ap_matrix q)) 1 - 1)"

lemma modular_init_wf:
  "modular_init offset_bits sets = Some q \<Longrightarrow> offset_bits < 64 \<Longrightarrow> modular_wf q"
  by (auto simp: modular_init_def modular_wf_def is_power_of_two_def bind_eq_Some_conv vec_simps)

lemma affine_init_wf:
  "affine_init matrix v offset_bits = Some q \<Longrightarrow> offset_bits \<le> length matrix \<Longrightarrow> affine_wf q"
  by (auto simp: affine_init_def affine_wf_def bind_eq_Some_conv vec_simps)

interpretation modular: placement_policy modular_index_bits modular_place modular_wf
proof
  fix q a assume "modular_wf q"
  then obtain k where "mp_sets q = 2 ^ k" "countr_zero (mp_sets q) = k"
    by (auto simp: modular_wf_def elim: is_power_of_twoE)
  then show "modular_place q a < 2 ^ modular_index_bits q"
    by (simp add: modular_place_def modular_index_bits_def)
qed

section \<open>Parity and the affine policy\<close>

lemma popcount_card: "popcount w = card {n. n < 64 \<and> bit w n}"
proof -
  have "card (set (filter (bit w) [0..<64])) = length (filter (bit w) [0..<64])"
    by (rule distinct_card) simp
  moreover have "set (filter (bit w) [0..<64]) = {n. n < 64 \<and> bit w n}" by auto
  ultimately show ?thesis by (simp add: popcount_def)
qed

lemma odd_filter_xor:
  "odd (length (filter (\<lambda>n. P n \<noteq> Q n) xs)) \<longleftrightarrow>
     odd (length (filter P xs)) \<noteq> odd (length (filter Q xs))"
  by (induction xs) auto

lemma odd_popcount_xor: "odd (popcount (v XOR w)) \<longleftrightarrow> odd (popcount v) \<noteq> odd (popcount w)"
proof -
  have "bit (v XOR w) = (\<lambda>n. bit v n \<noteq> bit w n)" by (simp add: fun_eq_iff bit_xor_iff)
  then show ?thesis by (simp only: popcount_def odd_filter_xor)
qed

lemma shift_in_bit:
  "bit (push_bit 1 s OR of_nat (b mod 2) :: uintptr) k \<longleftrightarrow> (if k = 0 then odd b else k < 64 \<and> bit s (k - 1))"
  unfolding bit_or_iff bit_push_bit_iff by (auto simp: mod2_eq_if bit_1_iff)

text \<open>The result of the loop, bit by bit: the last row is the lowest bit.\<close>

lemma affine_loop_bit:
  "bit (affine_loop rows a s) n \<longleftrightarrow>
     (if n < length rows then n < 64 \<and> odd (popcount (rows ! (length rows - 1 - n) AND a))
      else n < 64 \<and> bit s (n - length rows))"
proof (induction rows arbitrary: s)
  case Nil
  then show ?case by (auto dest: bit_imp_le_length)
next
  case (Cons row rows)
  show ?case unfolding affine_loop.simps Cons.IH shift_in_bit
    by (auto simp: nth_Cons' less_Suc_eq not_less)
qed

lemma and_xor_word: "(r :: uintptr) AND (a XOR b) = (r AND a) XOR (r AND b)"
  by (rule bit_eqI) (auto simp: bit_and_iff bit_xor_iff)

lemma affine_loop_affine:
  "affine_loop rows (a XOR b) 0 = affine_loop rows a 0 XOR affine_loop rows b 0"
  by (rule bit_eqI)
    (auto simp: bit_xor_iff affine_loop_bit and_xor_word odd_popcount_xor)

lemma bits_below_mask:
  fixes w :: uintptr
  assumes "\<And>n. bit w n \<Longrightarrow> n < k"
  shows "unat w < 2 ^ k"
proof -
  have "take_bit k w = w" by (rule bit_eqI) (auto simp: bit_take_bit_iff dest: assms)
  then have "unat w = take_bit k (unat w)" by (metis unsigned_take_bit_eq)
  then show ?thesis by (metis take_bit_nat_less_exp)
qed

lemma push_bit_1_minus_1_mask: "push_bit n (1::uintptr) - 1 = mask n"
  by (simp add: mask_eq_exp_minus_1 push_bit_eq_mult)

lemma affine_wf_vector_bit: "affine_wf q \<Longrightarrow> bit (ap_vector q) n \<Longrightarrow> n < length (ap_matrix q)"
  unfolding affine_wf_def push_bit_1_minus_1_mask by (metis bit_and_iff bit_mask_iff)

interpretation affine: placement_policy affine_index_bits affine_place affine_wf
proof
  fix q a assume wf: "affine_wf q"
  let ?r = "drop_bit (ap_offset_bits q) (affine_loop (ap_matrix q) a 0 XOR ap_vector q)"
  have ib: "affine_index_bits q = length (ap_matrix q) - ap_offset_bits q"
    using wf by (simp add: affine_index_bits_def affine_wf_def)
  have "n < affine_index_bits q" if "bit ?r n" for n
  proof -
    from that have "ap_offset_bits q + n < length (ap_matrix q)"
      using affine_wf_vector_bit [OF wf] by (auto simp: bit_simps affine_loop_bit split: if_splits)
    then show ?thesis using ib by simp
  qed
  then show "affine_place q a < 2 ^ affine_index_bits q"
    unfolding affine_place_def by (rule bits_below_mask)
qed

text \<open>
  The type-erased policy meets the interface when the policy it holds does. The constructor of a generic policy does not check what its
  function returns, so for it well-formedness is a condition on the function.
\<close>

fun any_placement_wf :: "any_placement_policy \<Rightarrow> bool" where
  "any_placement_wf (Any_Modular q) = modular_wf q"
| "any_placement_wf (Any_Affine q) = affine_wf q"
| "any_placement_wf (Any_Generic q) = (is_power_of_two (gp_sets q) \<and> (\<forall>a. gp_func q a < gp_sets q))"

abbreviation any_sets_bits :: "any_placement_policy \<Rightarrow> nat" where
  "any_sets_bits q \<equiv> the (any_index_bits q)"

lemma any_index_bits_total: "any_placement_wf q \<Longrightarrow> any_index_bits q = Some (any_sets_bits q)"
  by (cases q) (auto simp: generic_index_bits_def is_power_of_two_def)

interpretation anyp: placement_policy any_sets_bits any_place any_placement_wf
proof
  fix q a assume wf: "any_placement_wf q"
  show "any_place q a < 2 ^ any_sets_bits q"
  proof (cases q)
    case (Any_Modular x)
    with wf modular.place_less show ?thesis by simp
  next
    case (Any_Affine x)
    with wf affine.place_less show ?thesis by simp
  next
    case (Any_Generic x)
    with wf obtain k where k: "gp_sets x = 2 ^ k" "countr_zero (gp_sets x) = k"
      by (auto elim: is_power_of_twoE)
    with wf Any_Generic have "any_place q a < 2 ^ k" by (simp add: generic_place_def)
    moreover have "generic_index_bits x = Some k"
      using wf Any_Generic k(2) by (simp add: generic_index_bits_def is_power_of_two_def)
    ultimately show ?thesis using Any_Generic by simp
  qed
qed

lemma a64fx_bit:
  "bit (push_bit 8 ((drop_bit 34 a AND 0b111) XOR (drop_bit 30 a AND 0b111) XOR
             (drop_bit 29 a AND 0b111) XOR (drop_bit 25 a AND 0b111) XOR (drop_bit 21 a AND 0b111))
           XOR (drop_bit 8 a AND 0b11111111111) :: uintptr) n \<Longrightarrow> n < 11"
proof -
  have m: "(0b111 :: uintptr) = mask 3" "(0b11111111111 :: uintptr) = mask 11"
    by (simp_all add: mask_eq_exp_minus_1)
  assume "bit (push_bit 8 ((drop_bit 34 a AND 0b111) XOR (drop_bit 30 a AND 0b111) XOR
             (drop_bit 29 a AND 0b111) XOR (drop_bit 25 a AND 0b111) XOR (drop_bit 21 a AND 0b111))
           XOR (drop_bit 8 a AND 0b11111111111) :: uintptr) n"
  then show ?thesis
    unfolding m by (auto simp: bit_xor_iff bit_push_bit_iff bit_and_iff bit_mask_iff)
qed

lemma a64fx_bits: "generic_index_bits make_a64fx_placement_policy = Some 10"
  using is_power_of_two_power [of 10] countr_zero_power [of 10]
  by (simp add: generic_index_bits_def make_a64fx_placement_policy_def generic_init_def is_power_of_two_def)

lemma a64fx_place: "generic_place make_a64fx_placement_policy 0x40000 = 1024"
  by (simp add: generic_place_def make_a64fx_placement_policy_def generic_init_def a64fx_index_def)

text \<open>So the A64FX policy is not well-formed, and what is shown of caches with well-formed policies does not hold for it.\<close>

lemma a64fx_not_wf: "\<not> any_placement_wf (Any_Generic make_a64fx_placement_policy)"
  using anyp.place_less [where q = "Any_Generic make_a64fx_placement_policy" and a = "0x40000"]
  by (auto simp: a64fx_bits a64fx_place)

section \<open>Properties\<close>

text \<open>
  The affine policy computes an affine map over the two-element field: the index of the sum
  (exclusive or) of three addresses is the sum of their indices.
\<close>

theorem affine_place_affine:
  "of_nat (affine_place q (a XOR b XOR c)) =
     (of_nat (affine_place q a) XOR of_nat (affine_place q b) XOR of_nat (affine_place q c) :: uintptr)"
proof -
  have "drop_bit k (affine_loop rows (a XOR b XOR c) 0 XOR v) =
      drop_bit k (affine_loop rows a 0 XOR v) XOR drop_bit k (affine_loop rows b 0 XOR v) XOR
      drop_bit k (affine_loop rows c 0 XOR v)" for k rows and v :: uintptr
    unfolding affine_loop_affine by (rule bit_eqI) (auto simp: bit_drop_bit_eq bit_xor_iff)
  then show ?thesis by (simp add: affine_place_def)
qed



text \<open>
  The A64FX policy announces \<open>1 << 10\<close> sets, but its function computes the 11 index bits of the
  documentation: its indices are below \<open>2 ^ 11\<close>, and some of them are not below the number of sets.
\<close>

theorem a64fx_index_exceeds_sets:
  "generic_index_bits make_a64fx_placement_policy = Some 10 \<and>
   (\<forall>a. generic_place make_a64fx_placement_policy a < 2 ^ 11) \<and>
   generic_place make_a64fx_placement_policy 0x40000 = 2 ^ 10"
proof (intro conjI allI)
  show "generic_index_bits make_a64fx_placement_policy = Some 10" by (rule a64fx_bits)
  show "generic_place make_a64fx_placement_policy a < 2 ^ 11" for a
    unfolding generic_place_def make_a64fx_placement_policy_def generic_init_def a64fx_index_def
      generic_placement_policy.simps
    by (rule bits_below_mask) (rule a64fx_bit)
  show "generic_place make_a64fx_placement_policy 0x40000 = 2 ^ 10" by (simp add: a64fx_place)
qed

end
