(* ===== verification/CH_Cache.thy ===== *)
theory CH_Cache
  imports CH_Placement CH_Sequence
begin

text \<open>
  The simulated set-associative cache: \<open>sim/policy/basic_set_associative_policy.hpp\<close>,
  \<open>sim/util/any_set_associative_policy.hpp\<close> and \<open>sim/cache/set_associative_cache.hpp\<close>.

  A handle (\<open>const void*\<close> to a cache line) is the offset of the line in \<open>data_\<close>; \<open>None\<close> is the null
  pointer. Reading a set goes through a span of \<open>data_\<close>, which has no defined result when the set index
  is not below the number of sets.

  The abstraction \<open>cache_set c s\<close> lists the tags of the ways of set \<open>s\<close>. The refinement lemmas show that
  lookup, hit and fill act on the set of the address exactly as the reference set \<open>ref_step\<close> does and
  leave every other set alone.
\<close>

section \<open>Set-associative policies\<close>

record basic_set_associative_policy =
  sap_placement :: any_placement_policy
  sap_replacement_template :: any_replacement_policy
  sap_replacement :: "any_replacement_policy list"

text \<open>\<open>1 << index_bits\<close> is an \<open>int\<close> shift.\<close>

definition basic_sap_init :: "nat \<Rightarrow> any_placement_policy \<Rightarrow> any_replacement_policy \<Rightarrow>
    basic_set_associative_policy option" where
  "basic_sap_init index_bits placement replacement = do {
     require (index_bits < 31);
     Some \<lparr>sap_placement = placement, sap_replacement_template = replacement,
           sap_replacement = replicate (2 ^ index_bits) replacement\<rparr> }"

definition basic_sap_index_bits :: "basic_set_associative_policy \<Rightarrow> nat option" where
  "basic_sap_index_bits p = any_index_bits (sap_placement p)"

definition basic_sap_ways :: "basic_set_associative_policy \<Rightarrow> nat" where
  "basic_sap_ways p = any_ways (sap_replacement_template p)"

definition basic_sap_get_set :: "basic_set_associative_policy \<Rightarrow> uintptr \<Rightarrow> nat" where
  "basic_sap_get_set p address = any_place (sap_placement p) address"

definition basic_sap_register_hit :: "nat \<Rightarrow> nat \<Rightarrow> basic_set_associative_policy \<Rightarrow>
    basic_set_associative_policy option" where
  "basic_sap_register_hit set_index way_index p = do {
     r \<leftarrow> vec_at (sap_replacement p) set_index;
     r' \<leftarrow> any_hit way_index r;
     Some (p\<lparr>sap_replacement := (sap_replacement p)[set_index := r']\<rparr>) }"

definition basic_sap_register_miss :: "nat \<Rightarrow> basic_set_associative_policy \<Rightarrow>
    (nat \<times> basic_set_associative_policy) option" where
  "basic_sap_register_miss set_index p = do {
     r \<leftarrow> vec_at (sap_replacement p) set_index;
     (way, r') \<leftarrow> any_miss r;
     Some (way, p\<lparr>sap_replacement := (sap_replacement p)[set_index := r']\<rparr>) }"

text \<open>The type-erased policy; \<open>basic_set_associative_policy\<close> is the one implementation there is.\<close>

datatype any_set_associative_policy = Any_Basic (any_sap: basic_set_associative_policy)

fun any_sap_index_bits :: "any_set_associative_policy \<Rightarrow> nat option" where
  "any_sap_index_bits (Any_Basic p) = basic_sap_index_bits p"

fun any_sap_ways :: "any_set_associative_policy \<Rightarrow> nat" where
  "any_sap_ways (Any_Basic p) = basic_sap_ways p"

fun any_sap_get_set :: "any_set_associative_policy \<Rightarrow> uintptr \<Rightarrow> nat" where
  "any_sap_get_set (Any_Basic p) address = basic_sap_get_set p address"

fun any_sap_register_hit :: "nat \<Rightarrow> nat \<Rightarrow> any_set_associative_policy \<Rightarrow>
    any_set_associative_policy option" where
  "any_sap_register_hit s w (Any_Basic p) = map_option Any_Basic (basic_sap_register_hit s w p)"

fun any_sap_register_miss :: "nat \<Rightarrow> any_set_associative_policy \<Rightarrow>
    (nat \<times> any_set_associative_policy) option" where
  "any_sap_register_miss s (Any_Basic p) = map_option (apsnd Any_Basic) (basic_sap_register_miss s p)"

section \<open>The cache\<close>

record cache_line =
  line_valid :: bool
  line_tag :: uintptr

record set_associative_cache =
  sac_policy :: any_set_associative_policy
  sac_data :: "cache_line list"

definition sac_ways :: "set_associative_cache \<Rightarrow> nat" where
  "sac_ways c = any_sap_ways (sac_policy c)"

definition sac_sets :: "set_associative_cache \<Rightarrow> nat option" where
  "sac_sets c = do { k \<leftarrow> any_sap_index_bits (sac_policy c); require (k < 31); Some (2 ^ k) }"

definition sac_init :: "any_set_associative_policy \<Rightarrow> set_associative_cache option" where
  "sac_init policy = do {
     sets \<leftarrow> sac_sets \<lparr>sac_policy = policy, sac_data = []\<rparr>;
     Some \<lparr>sac_policy = policy,
           sac_data = replicate (sets * any_sap_ways policy) \<lparr>line_valid = False, line_tag = 0\<rparr>\<rparr> }"

definition sac_get_set_index :: "set_associative_cache \<Rightarrow> uintptr \<Rightarrow> nat" where
  "sac_get_set_index c aligned_address = any_sap_get_set (sac_policy c) aligned_address"

definition get_cache_line_set_way :: "set_associative_cache \<Rightarrow> nat \<Rightarrow> nat \<times> nat" where
  "get_cache_line_set_way c line = (line div sac_ways c, line mod sac_ways c)"

definition sac_lookup :: "set_associative_cache \<Rightarrow> uintptr \<Rightarrow> nat option option" where
  "sac_lookup c aligned_address =
     (let set_index = sac_get_set_index c aligned_address
      in do {
        lines \<leftarrow> vec_span (sac_data c) (set_index * sac_ways c) (sac_ways c);
        let way_index = std_find_if (\<lambda>l. line_valid l \<and> line_tag l = aligned_address) lines;
        Some (if way_index = sac_ways c then None else Some (set_index * sac_ways c + way_index)) })"

definition sac_hit :: "nat option \<Rightarrow> set_associative_cache \<Rightarrow> set_associative_cache option" where
  "sac_hit handle c = do {
     h \<leftarrow> handle;
     line \<leftarrow> vec_at (sac_data c) h;
     require (line_valid line);
     let (s, w) = get_cache_line_set_way c h;
     p \<leftarrow> any_sap_register_hit s w (sac_policy c);
     Some (c\<lparr>sac_policy := p\<rparr>) }"

definition sac_invalidate :: "nat option \<Rightarrow> set_associative_cache \<Rightarrow> set_associative_cache option" where
  "sac_invalidate handle c = do {
     h \<leftarrow> handle;
     line \<leftarrow> vec_at (sac_data c) h;
     require (line_valid line);
     let (s, w) = get_cache_line_set_way c h;
     l \<leftarrow> vec_at (sac_data c) (s * sac_ways c + w);
     Some (c\<lparr>sac_data := (sac_data c)[s * sac_ways c + w := l\<lparr>line_valid := False\<rparr>]\<rparr>) }"

definition sac_fill :: "uintptr \<Rightarrow> set_associative_cache \<Rightarrow> (uintptr option \<times> set_associative_cache) option" where
  "sac_fill aligned_address c = do {
     handle \<leftarrow> sac_lookup c aligned_address;
     case handle of
       Some _ \<Rightarrow> Some (None, c)
     | None \<Rightarrow> do {
         let set_index = sac_get_set_index c aligned_address;
         lines \<leftarrow> vec_span (sac_data c) (set_index * sac_ways c) (sac_ways c);
         (victim_way, p) \<leftarrow> any_sap_register_miss set_index (sac_policy c);
         old \<leftarrow> vec_at lines victim_way;
         Some (if line_valid old then Some (line_tag old) else None,
               c\<lparr>sac_policy := p,
                 sac_data := (sac_data c)[set_index * sac_ways c + victim_way :=
                   \<lparr>line_valid = True, line_tag = aligned_address\<rparr>]\<rparr>) } }"

section \<open>Abstraction to sets\<close>

definition line_content :: "cache_line \<Rightarrow> uintptr option" where
  "line_content l = (if line_valid l then Some (line_tag l) else None)"

definition cache_set :: "set_associative_cache \<Rightarrow> nat \<Rightarrow> uintptr option list" where
  "cache_set c s = map line_content (take (sac_ways c) (drop (s * sac_ways c) (sac_data c)))"

abbreviation cache_policies :: "set_associative_cache \<Rightarrow> any_replacement_policy list" where
  "cache_policies c \<equiv> sap_replacement (any_sap (sac_policy c))"

abbreviation cache_place :: "set_associative_cache \<Rightarrow> uintptr \<Rightarrow> nat" where
  "cache_place c \<equiv> any_place (sap_placement (any_sap (sac_policy c)))"

abbreviation cache_nsets :: "set_associative_cache \<Rightarrow> nat" where
  "cache_nsets c \<equiv> length (cache_policies c)"

definition cached :: "set_associative_cache \<Rightarrow> uintptr \<Rightarrow> bool" where
  "cached c a \<longleftrightarrow> Some a \<in> set (cache_set c (cache_place c a))"

text \<open>
  Well-formedness: as many policies as the placement has sets, one line per set and way, in every set
  no tag twice and only tags placed there.
\<close>

definition cache_wf :: "set_associative_cache \<Rightarrow> bool" where
  "cache_wf c \<longleftrightarrow>
     any_placement_wf (sap_placement (any_sap (sac_policy c))) \<and>
     (\<exists>k < 31. any_index_bits (sap_placement (any_sap (sac_policy c))) = Some k \<and> cache_nsets c = 2 ^ k) \<and>
     length (sac_data c) = cache_nsets c * sac_ways c \<and>
     (\<forall>s < cache_nsets c. any.set_wf (cache_set c s) (cache_policies c ! s) \<and>
        any_ways (cache_policies c ! s) = sac_ways c \<and>
        (\<forall>a. Some a \<in> set (cache_set c s) \<longrightarrow> cache_place c a = s))"

lemma cache_wf_set:
  assumes "cache_wf c" and "s < cache_nsets c"
  shows "any.set_wf (cache_set c s) (cache_policies c ! s)" and "any_wf (cache_policies c ! s)"
    and "any_ways (cache_policies c ! s) = sac_ways c" and "length (cache_set c s) = sac_ways c"
    and "s * sac_ways c + sac_ways c \<le> length (sac_data c)"
    and "Some a \<in> set (cache_set c s) \<Longrightarrow> cache_place c a = s"
  using assms row_span_le [of s "cache_nsets c" "sac_ways c"]
  by (auto simp: cache_wf_def any.set_wf_def)

lemma cache_wf_place: "cache_wf c \<Longrightarrow> cache_place c a < cache_nsets c"
  using anyp.place_less [of "sap_placement (any_sap (sac_policy c))" a] by (auto simp: cache_wf_def)

lemma cache_set_nth:
  "cache_wf c \<Longrightarrow> s < cache_nsets c \<Longrightarrow> w < sac_ways c \<Longrightarrow>
     cache_set c s ! w = line_content (sac_data c ! (s * sac_ways c + w))"
  using cache_wf_set(5) [of c s] by (simp add: cache_set_def)

text \<open>Writing one line changes one entry of one set.\<close>

lemma cache_set_update:
  assumes "cache_wf c" and "s < cache_nsets c" and "w < sac_ways c" and "t < cache_nsets c"
    and "sac_ways c' = sac_ways c" and "sac_data c' = (sac_data c)[s * sac_ways c + w := l]"
  shows "cache_set c' t = (if t = s then (cache_set c s)[w := line_content l] else cache_set c t)"
proof (rule nth_equalityI)
  have le: "t * sac_ways c + sac_ways c \<le> length (sac_data c)" using cache_wf_set(5) [OF assms(1,4)] .
  have len: "length (sac_data c) = cache_nsets c * sac_ways c" using assms(1) by (simp add: cache_wf_def)
  show "length (cache_set c' t) = length (if t = s then (cache_set c s)[w := line_content l] else cache_set c t)"
    using le assms by (auto simp: cache_set_def)
  fix v assume "v < length (cache_set c' t)"
  then have v: "v < sac_ways c" using assms(5) by (simp add: cache_set_def)
  have "cache_set c' t ! v = line_content (sac_data c' ! (t * sac_ways c + v))"
    using v le assms(5,6) by (simp add: cache_set_def)
  also have "\<dots> = (if t * sac_ways c + v = s * sac_ways c + w then line_content l
      else line_content (sac_data c ! (t * sac_ways c + v)))"
    using row_index_less [OF assms(2,3)] len assms(6) by (simp add: nth_list_update)
  also have "\<dots> = (if t = s \<and> v = w then line_content l else cache_set c t ! v)"
    using row_index_eq_iff [OF v assms(3), of t s] cache_set_nth [OF assms(1,4) v] by simp
  finally show "cache_set c' t ! v = (if t = s then (cache_set c s)[w := line_content l] else cache_set c t) ! v"
    using v cache_wf_set(4) [OF assms(1,2)] by (auto simp: nth_list_update)
qed

lemma distinct_filter_update_None:
  "distinct (filter (\<lambda>x. x \<noteq> None) c) \<Longrightarrow> distinct (filter (\<lambda>x. x \<noteq> None) (c[w := None]))"
proof (induction c arbitrary: w)
  case Nil
  then show ?case by simp
next
  case (Cons x c)
  have "set (c[v := None]) \<subseteq> insert None (set c)" for v by (rule set_update_subset_insert)
  with Cons show ?case by (cases w) (auto split: if_splits)
qed

lemma filter_distinct_nth:
  assumes "distinct (filter P xs)" and "v < length xs" and "w < length xs" and "P (xs ! v)" and "xs ! v = xs ! w"
  shows "v = w"
  using assms
proof (induction xs arbitrary: v w)
  case Nil
  then show ?case by simp
next
  case (Cons x xs)
  have notin: "P x \<Longrightarrow> u < length xs \<Longrightarrow> xs ! u \<noteq> x" for u using Cons.prems(1) by auto
  have "distinct (filter P xs)" using Cons.prems(1) by (auto split: if_splits)
  with Cons notin show ?case by (cases v; cases w) (auto simp: dest: sym)
qed

text \<open>
  \<open>set_changed c s ts r c'\<close>: set \<open>s\<close> has the tags \<open>ts\<close> and the policy \<open>r\<close> in \<open>c'\<close>, and everything else is
  as in \<open>c\<close>.
\<close>

definition set_changed :: "set_associative_cache \<Rightarrow> nat \<Rightarrow> uintptr option list \<Rightarrow>
    any_replacement_policy \<Rightarrow> set_associative_cache \<Rightarrow> bool" where
  "set_changed c s ts r c' \<longleftrightarrow> cache_wf c' \<and> sac_ways c' = sac_ways c \<and>
     sap_placement (any_sap (sac_policy c')) = sap_placement (any_sap (sac_policy c)) \<and>
     cache_nsets c' = cache_nsets c \<and> cache_set c' s = ts \<and> cache_policies c' ! s = r \<and>
     (\<forall>t < cache_nsets c. t \<noteq> s \<longrightarrow> cache_set c' t = cache_set c t \<and> cache_policies c' ! t = cache_policies c ! t)"

lemma set_changedI:
  assumes c: "cache_wf c" and s: "s < cache_nsets c"
    and ok: "any.set_wf ts r" "any_ways r = sac_ways c" "\<And>a. Some a \<in> set ts \<Longrightarrow> cache_place c a = s"
    and p: "sap_placement (any_sap (sac_policy c')) = sap_placement (any_sap (sac_policy c))"
      "cache_policies c' = (cache_policies c)[s := r]" "sac_ways c' = sac_ways c"
    and d: "length (sac_data c') = length (sac_data c)"
      "\<And>t. t < cache_nsets c \<Longrightarrow> cache_set c' t = (if t = s then ts else cache_set c t)"
  shows "set_changed c s ts r c'"
proof -
  have "any.set_wf (cache_set c' t) (cache_policies c' ! t) \<and> any_ways (cache_policies c' ! t) = sac_ways c \<and>
      (\<forall>a. Some a \<in> set (cache_set c' t) \<longrightarrow> cache_place c a = t)" if "t < cache_nsets c" for t
    using cache_wf_set [OF c that] ok p(2) d(2) [OF that] that by (cases "t = s") auto
  then have "cache_wf c'" using c p d(1) by (simp add: cache_wf_def)
  then show ?thesis using p d(2) s by (simp add: set_changed_def)
qed

lemma sac_lookup_set:
  assumes "cache_wf c"
  shows "sac_lookup c a = Some (if cached c a
     then Some (cache_place c a * sac_ways c + std_find (cache_set c (cache_place c a)) (Some a)) else None)"
proof -
  let ?s = "cache_place c a"
  have s: "?s < cache_nsets c" using cache_wf_place [OF assms] .
  have gs: "sac_get_set_index c a = ?s"
    by (cases "sac_policy c") (simp add: sac_get_set_index_def basic_sap_get_set_def)
  have "(\<lambda>l. line_valid l \<and> line_tag l = a) = (\<lambda>l. line_content l = Some a)"
    by (auto simp: line_content_def fun_eq_iff)
  then have f: "std_find_if (\<lambda>l. line_valid l \<and> line_tag l = a)
      (take (sac_ways c) (drop (?s * sac_ways c) (sac_data c))) = std_find (cache_set c ?s) (Some a)"
    by (simp only: std_find_if_map cache_set_def)
  have "std_find (cache_set c ?s) (Some a) = sac_ways c \<longleftrightarrow> \<not> cached c a"
    using cache_wf_set(4) [OF assms s] std_find_eq_length_iff [of "cache_set c ?s" "Some a"]
    by (simp add: cached_def)
  then show ?thesis using cache_wf_set(5) [OF assms s] by (simp add: sac_lookup_def gs f Let_def)
qed

lemma sac_hit_set:
  assumes "cache_wf c" and "cached c a"
  shows "\<exists>h r c'. sac_lookup c a = Some (Some h) \<and> sac_hit (Some h) c = Some c' \<and>
     ref_step any_hit any_miss a (cache_set c (cache_place c a)) (cache_policies c ! cache_place c a) =
       Some (True, cache_set c (cache_place c a), r) \<and>
     set_changed c (cache_place c a) (cache_set c (cache_place c a)) r c'"
proof -
  let ?s = "cache_place c a" and ?w = "std_find (cache_set c (cache_place c a)) (Some a)"
  have s: "?s < cache_nsets c" using cache_wf_place [OF assms(1)] .
  note st = cache_wf_set [OF assms(1) s]
  have w: "?w < sac_ways c" using assms(2) st(4) std_find_less_iff [of "cache_set c ?s" "Some a"]
    by (simp add: cached_def)
  from any.ref_step_ok [OF st(1), of a] assms(2) obtain r
    where r: "ref_step any_hit any_miss a (cache_set c ?s) (cache_policies c ! ?s) = Some (True, cache_set c ?s, r)"
      "any.set_wf (cache_set c ?s) r" "any_ways r = sac_ways c" using st(3) by (auto simp: cached_def)
  then have h: "any_hit ?w (cache_policies c ! ?s) = Some r"
    using w st(4) by (simp add: ref_step_def Let_def bind_eq_Some_conv)
  obtain p where p: "sac_policy c = Any_Basic p" by (cases "sac_policy c")
  let ?c = "c\<lparr>sac_policy := Any_Basic (p\<lparr>sap_replacement := (sap_replacement p)[?s := r]\<rparr>)\<rparr>"
  have len: "?s * sac_ways c + ?w < length (sac_data c)" using st(5) w by simp
  have "cache_set c ?s ! ?w = Some a" using assms(2) by (simp add: cached_def)
  then have "line_valid (sac_data c ! (?s * sac_ways c + ?w))"
    using cache_set_nth [OF assms(1) s w] by (auto simp: line_content_def split: if_splits)
  then have "sac_hit (Some (?s * sac_ways c + ?w)) c = Some ?c"
    using len w h s p
    by (simp add: sac_hit_def get_cache_line_set_way_def basic_sap_register_hit_def)
  moreover have "set_changed c ?s (cache_set c ?s) r ?c"
  proof (rule set_changedI [OF assms(1) s r(2,3)])
    show "Some b \<in> set (cache_set c ?s) \<Longrightarrow> cache_place c b = ?s" for b using st(6) by blast
    show "sac_ways ?c = sac_ways c" by (simp add: sac_ways_def p basic_sap_ways_def)
    then show "cache_set ?c t = (if t = ?s then cache_set c ?s else cache_set c t)" for t
      by (simp add: cache_set_def)
  qed (simp_all add: p)
  moreover have "sac_lookup c a = Some (Some (?s * sac_ways c + ?w))"
    using sac_lookup_set [OF assms(1), of a] assms(2) by simp
  ultimately show ?thesis using r(1) by blast
qed

lemma sac_fill_set:
  assumes "cache_wf c" and "\<not> cached c a"
  shows "\<exists>w r c'. sac_fill a c = Some (cache_set c (cache_place c a) ! w, c') \<and> w < sac_ways c \<and>
     any_miss (cache_policies c ! cache_place c a) = Some (w, r) \<and>
     ref_step any_hit any_miss a (cache_set c (cache_place c a)) (cache_policies c ! cache_place c a) =
       Some (False, (cache_set c (cache_place c a))[w := Some a], r) \<and>
     set_changed c (cache_place c a) ((cache_set c (cache_place c a))[w := Some a]) r c'"
proof -
  let ?s = "cache_place c a"
  have s: "?s < cache_nsets c" using cache_wf_place [OF assms(1)] .
  note st = cache_wf_set [OF assms(1) s]
  from any.miss_ok [OF st(2)] obtain w r
    where m: "any_miss (cache_policies c ! ?s) = Some (w, r)" and w: "w < sac_ways c"
    using st(3) by auto
  have na: "Some a \<notin> set (cache_set c ?s)" using assms(2) by (simp add: cached_def)
  have rs: "ref_step any_hit any_miss a (cache_set c ?s) (cache_policies c ! ?s) =
      Some (False, (cache_set c ?s)[w := Some a], r)"
    using m na by (simp add: ref_step_def)
  from any.ref_step_ok [OF st(1), of a] rs
  have r: "any.set_wf ((cache_set c ?s)[w := Some a]) r" "any_ways r = sac_ways c" using st(3) by auto
  obtain p where p: "sac_policy c = Any_Basic p" by (cases "sac_policy c")
  let ?c = "c\<lparr>sac_policy := Any_Basic (p\<lparr>sap_replacement := (sap_replacement p)[?s := r]\<rparr>),
     sac_data := (sac_data c)[?s * sac_ways c + w := \<lparr>line_valid = True, line_tag = a\<rparr>]\<rparr>"
  have gs: "sac_get_set_index c a = ?s" by (simp add: p sac_get_set_index_def basic_sap_get_set_def)
  have "sac_lookup c a = Some None" using sac_lookup_set [OF assms(1), of a] assms(2) by simp
  then have "sac_fill a c = Some (cache_set c ?s ! w, ?c)"
    using st(5) w m s p cache_set_nth [OF assms(1) s w]
    by (simp add: sac_fill_def gs basic_sap_register_miss_def line_content_def Let_def)
  moreover have "set_changed c ?s ((cache_set c ?s)[w := Some a]) r ?c"
  proof (rule set_changedI [OF assms(1) s r])
    show "Some b \<in> set ((cache_set c ?s)[w := Some a]) \<Longrightarrow> cache_place c b = ?s" for b
      using st(6) set_update_subset_insert [of "cache_set c ?s" w "Some a"] by auto
    show ways: "sac_ways ?c = sac_ways c" by (simp add: sac_ways_def p basic_sap_ways_def)
    show "cache_set ?c t = (if t = ?s then (cache_set c ?s)[w := Some a] else cache_set c t)"
      if "t < cache_nsets c" for t
      using cache_set_update [OF assms(1) s w that ways] by (simp add: line_content_def)
  qed (simp_all add: p)
  ultimately show ?thesis using w m rs by blast
qed

lemma sac_fill_present: "cache_wf c \<Longrightarrow> cached c a \<Longrightarrow> sac_fill a c = Some (None, c)"
  using sac_lookup_set [of c a] by (simp add: sac_fill_def)

lemma sac_invalidate_set:
  assumes "cache_wf c" and "cached c a"
  shows "\<exists>h c'. sac_lookup c a = Some (Some h) \<and> sac_invalidate (Some h) c = Some c' \<and>
     set_changed c (cache_place c a)
       ((cache_set c (cache_place c a))[std_find (cache_set c (cache_place c a)) (Some a) := None])
       (cache_policies c ! cache_place c a) c'"
proof -
  let ?s = "cache_place c a" and ?w = "std_find (cache_set c (cache_place c a)) (Some a)"
  have s: "?s < cache_nsets c" using cache_wf_place [OF assms(1)] .
  note st = cache_wf_set [OF assms(1) s]
  have w: "?w < sac_ways c" using assms(2) st(4) std_find_less_iff [of "cache_set c ?s" "Some a"]
    by (simp add: cached_def)
  let ?l = "sac_data c ! (?s * sac_ways c + ?w)"
  let ?c = "c\<lparr>sac_data := (sac_data c)[?s * sac_ways c + ?w := ?l\<lparr>line_valid := False\<rparr>]\<rparr>"
  have len: "?s * sac_ways c + ?w < length (sac_data c)" using st(5) w by simp
  have "cache_set c ?s ! ?w = Some a" using assms(2) by (simp add: cached_def)
  then have "line_valid ?l"
    using cache_set_nth [OF assms(1) s w] by (auto simp: line_content_def split: if_splits)
  then have "sac_invalidate (Some (?s * sac_ways c + ?w)) c = Some ?c"
    using len w by (simp add: sac_invalidate_def get_cache_line_set_way_def)
  moreover have "set_changed c ?s ((cache_set c ?s)[?w := None]) (cache_policies c ! ?s) ?c"
  proof (rule set_changedI [OF assms(1) s])
    have sub: "set ((cache_set c ?s)[?w := None]) \<subseteq> insert None (set (cache_set c ?s))"
      by (rule set_update_subset_insert)
    then show "Some b \<in> set ((cache_set c ?s)[?w := None]) \<Longrightarrow> cache_place c b = ?s" for b
      using st(6) by auto
    show "any.set_wf ((cache_set c ?s)[?w := None]) (cache_policies c ! ?s)"
      using st(1) distinct_filter_update_None [of "cache_set c ?s" ?w]
      by (auto simp: any.set_wf_def nth_list_update)
    show ways: "sac_ways ?c = sac_ways c" by (simp add: sac_ways_def)
    show "cache_set ?c t = (if t = ?s then (cache_set c ?s)[?w := None] else cache_set c t)"
      if "t < cache_nsets c" for t
      using cache_set_update [OF assms(1) s w that ways] by (simp add: line_content_def)
  qed (simp_all add: st(3))
  moreover have "sac_lookup c a = Some (Some (?s * sac_ways c + ?w))"
    using sac_lookup_set [OF assms(1), of a] assms(2) by simp
  ultimately show ?thesis by blast
qed

text \<open>A new cache is well-formed and empty.\<close>

lemma sac_init_wf:
  assumes "any_placement_wf q" and "any_index_bits q = Some k" and "k < 31" and "any_wf r"
  shows "\<exists>p c. basic_sap_init k q r = Some p \<and> sac_init (Any_Basic p) = Some c \<and> cache_wf c \<and>
     sac_ways c = any_ways r \<and> cache_nsets c = 2 ^ k \<and> cache_place c = any_place q \<and>
     (\<forall>s < 2 ^ k. cache_set c s = replicate (any_ways r) None \<and> cache_policies c ! s = r)"
proof -
  let ?p = "\<lparr>sap_placement = q, sap_replacement_template = r, sap_replacement = replicate (2 ^ k) r\<rparr>"
  let ?n = "any_ways r"
  let ?c = "\<lparr>sac_policy = Any_Basic ?p, sac_data = replicate (2 ^ k * ?n) \<lparr>line_valid = False, line_tag = 0\<rparr>\<rparr>"
  have i: "sac_init (Any_Basic ?p) = Some ?c"
    using assms(2,3) by (simp add: sac_init_def sac_sets_def basic_sap_index_bits_def basic_sap_ways_def)
  have ways: "sac_ways ?c = ?n" by (simp add: sac_ways_def basic_sap_ways_def)
  have sets: "cache_set ?c s = replicate ?n None" if "s < 2 ^ k" for s
  proof -
    have "s * ?n + ?n \<le> 2 ^ k * ?n" by (rule row_span_le [OF that])
    then have "min (2 ^ k * ?n - s * ?n) ?n = ?n" by simp
    then show ?thesis
      using ways by (simp add: cache_set_def line_content_def del: mult_eq_if flip: diff_mult_distrib)
  qed
  have "cache_wf ?c"
    using assms sets any.set_wf_empty [OF assms(4)] ways by (auto simp: cache_wf_def)
  with i sets ways show ?thesis by (simp add: basic_sap_init_def assms(3))
qed

section \<open>What a fill does to the cached addresses\<close>

lemma set_changed_cached:
  assumes "set_changed c s ts r c'" and "cache_wf c"
  shows "cached c' b \<longleftrightarrow> (if cache_place c b = s then Some b \<in> set ts else cached c b)"
proof -
  have "cache_place c' b = cache_place c b" using assms(1) by (simp add: set_changed_def)
  moreover have "cache_place c b < cache_nsets c" using cache_wf_place [OF assms(2)] .
  ultimately show ?thesis using assms(1) by (simp add: set_changed_def cached_def)
qed

lemma set_update_distinct:
  assumes "any.set_wf ts r" and "w < length ts" and "Some a \<notin> set ts"
  shows "Some b \<in> set (ts[w := Some a]) \<longleftrightarrow> b = a \<or> (Some b \<in> set ts \<and> ts ! w \<noteq> Some b)"
proof -
  have "ts ! v \<noteq> Some b" if "ts ! w = Some b" "v \<noteq> w" "v < length ts" for v
    using assms(1) that filter_distinct_nth [of "\<lambda>x. x \<noteq> None" ts w v] assms(2) by (auto simp: any.set_wf_def)
  then show ?thesis using assms(2,3) by (auto simp: in_set_conv_nth nth_list_update)
qed

lemma sac_fill_effect:
  assumes "cache_wf c" and "\<not> cached c a"
  shows "\<exists>v c'. sac_fill a c = Some (v, c') \<and> cache_wf c' \<and> cache_place c' = cache_place c \<and>
     sac_ways c' = sac_ways c \<and>
     (\<forall>b. cached c' b \<longleftrightarrow> b = a \<or> (cached c b \<and> v \<noteq> Some b)) \<and>
     (\<forall>b. v = Some b \<longrightarrow> cached c b \<and> cache_place c b = cache_place c a)"
proof -
  let ?s = "cache_place c a"
  have s: "?s < cache_nsets c" using cache_wf_place [OF assms(1)] .
  note st = cache_wf_set [OF assms(1) s]
  from sac_fill_set [OF assms] obtain w r c' where
    f: "sac_fill a c = Some (cache_set c ?s ! w, c')" "w < sac_ways c"
    and ch: "set_changed c ?s ((cache_set c ?s)[w := Some a]) r c'" by blast
  have na: "Some a \<notin> set (cache_set c ?s)" using assms(2) by (simp add: cached_def)
  have mem: "Some b \<in> set ((cache_set c ?s)[w := Some a]) \<longleftrightarrow>
      b = a \<or> (Some b \<in> set (cache_set c ?s) \<and> cache_set c ?s ! w \<noteq> Some b)" for b
    using set_update_distinct [OF st(1) _ na] f(2) st(4) by simp
  have v: "cached c b \<and> cache_place c b = ?s" if "cache_set c ?s ! w = Some b" for b
  proof -
    have "Some b \<in> set (cache_set c ?s)" using that f(2) st(4) by (metis nth_mem)
    then show ?thesis using st(6) by (simp add: cached_def)
  qed
  have "cached c' b \<longleftrightarrow> b = a \<or> (cached c b \<and> cache_set c ?s ! w \<noteq> Some b)" for b
    using set_changed_cached [OF ch assms(1), of b] mem [of b] v [of b] by (auto simp: cached_def)
  moreover have "cache_wf c' \<and> sac_ways c' = sac_ways c \<and> cache_place c' = cache_place c"
    using ch by (simp add: set_changed_def)
  ultimately show ?thesis using f(1) v by blast
qed

section \<open>Properties\<close>

text \<open>
  Filling an address that is not cached never faults and keeps the cache well-formed. Afterwards
  exactly the filled address and the previously cached addresses except the returned victim are cached,
  and a victim was cached and belongs to the same set.
\<close>

theorem cache_fill_replaces_victim:
  assumes "cache_wf c" and "\<not> cached c a"
  shows "\<exists>v c'. sac_fill a c = Some (v, c') \<and> cache_wf c' \<and>
     (\<forall>b. cached c' b \<longleftrightarrow> b = a \<or> (cached c b \<and> v \<noteq> Some b)) \<and>
     (\<forall>b. v = Some b \<longrightarrow> cached c b \<and> cache_place c b = cache_place c a)"
  using sac_fill_effect [OF assms] by blast

text \<open>
  C28. The set-associative cache refines a family of independent reference sets: a lookup finds an
  address exactly when it is in its set; on a hit \<open>hit\<close>, on a miss \<open>fill\<close> performs the step of the
  reference set on the set of the address and leaves the tags and the replacement state of every other
  set unchanged.
\<close>

theorem cache_access_refines_set:
  assumes "cache_wf c"
  shows "\<exists>h ts r c'. sac_lookup c a = Some h \<and> (h \<noteq> None \<longleftrightarrow> cached c a) \<and>
     (if h \<noteq> None then sac_hit h c = Some c' else map_option snd (sac_fill a c) = Some c') \<and>
     ref_step any_hit any_miss a (cache_set c (cache_place c a)) (cache_policies c ! cache_place c a) =
       Some (cached c a, ts, r) \<and>
     set_changed c (cache_place c a) ts r c'"
proof (cases "cached c a")
  case True
  with sac_hit_set [OF assms True] show ?thesis by fastforce
next
  case False
  with sac_fill_set [OF assms False] sac_lookup_set [OF assms, of a] show ?thesis by fastforce
qed

text \<open>A two-set, two-way LRU cache for the witnesses.\<close>

lemma small_cache:
  "\<exists>c. cache_wf c \<and> \<not> cached c 0x40 \<and> cache_nsets c = 2"
proof -
  let ?q = "Any_Modular \<lparr>mp_offset_bits = 6, mp_sets = 2\<rparr>"
  have p2: "is_power_of_two 2" and z: "countr_zero 2 = 1"
    using is_power_of_two_power [of 1] countr_zero_power [of 1] by simp_all
  have "any_placement_wf ?q" using p2 by (simp add: modular_wf_def)
  moreover have "any_index_bits ?q = Some 1" using z by (simp add: modular_index_bits_def)
  moreover have "any_wf (Any_Lru \<lparr>lru_order = [0, 1]\<rparr>)" by (auto simp: lru_wf_def order_wf_def)
  ultimately obtain c where c: "cache_wf c" "cache_nsets c = 2 ^ 1"
    "\<forall>s < 2 ^ 1. cache_set c s = replicate (any_ways (Any_Lru \<lparr>lru_order = [0, 1]\<rparr>)) None"
    using sac_init_wf [of ?q 1 "Any_Lru \<lparr>lru_order = [0, 1]\<rparr>"] by auto
  then have "\<not> cached c 0x40" using cache_wf_place [OF c(1), of "0x40"] by (simp add: cached_def)
  with c show ?thesis by auto
qed

theorem cache_fill_replaces_victim_witness:
  "\<exists>c v c'. cache_wf c \<and> \<not> cached c 0x40 \<and> sac_fill 0x40 c = Some (v, c') \<and> cache_wf c' \<and> cached c' 0x40"
proof -
  from small_cache obtain c where c: "cache_wf c" "\<not> cached c 0x40" by blast
  with cache_fill_replaces_victim [OF c] show ?thesis by blast
qed

theorem cache_access_refines_set_witness:
  "\<exists>c h ts r c'. cache_wf c \<and> sac_lookup c 0x40 = Some h \<and>
     ref_step any_hit any_miss 0x40 (cache_set c (cache_place c 0x40)) (cache_policies c ! cache_place c 0x40) =
       Some (cached c 0x40, ts, r) \<and>
     set_changed c (cache_place c 0x40) ts r c'"
proof -
  from small_cache obtain c where c: "cache_wf c" by blast
  with cache_access_refines_set [OF c, of "0x40"] show ?thesis by blast
qed

end
