(* ===== verification/CH_Sim_Memory.thy ===== *)
theory CH_Sim_Memory
  imports CH_Cache
begin

text \<open>
  The simulated memory hierarchy (\<open>sim/backends/simulated_memory.hpp\<close>): a list of caches, the first
  one closest to the processor. An access searches the levels, registers a hit in the first one that
  holds the address and fills the address into all lower levels; victims of a fill move to the next
  level.

  The lemmas show that an access to well-formed caches terminates without a fault, that it returns 0
  exactly when the first level holds the address, and that the first level changes as if it were the
  only one.
\<close>

section \<open>Definitions\<close>

datatype inclusiveness = Non_inclusive | Inclusive | Exclusive

record basic_memory_region =
  region_base :: uintptr
  region_size :: nat

record simulated_memory =
  sm_regions :: "basic_memory_region list"
  sm_offset_bits :: nat
  sm_caches :: "set_associative_cache list"

definition get_inclusiveness :: "nat \<Rightarrow> inclusiveness" where
  "get_inclusiveness level = Non_inclusive"

definition sm_init :: "uintptr \<Rightarrow> nat \<Rightarrow> nat \<Rightarrow> set_associative_cache list \<Rightarrow> simulated_memory" where
  "sm_init base sz offset_bits caches =
     \<lparr>sm_regions = [\<lparr>region_base = base, region_size = sz\<rparr>], sm_offset_bits = offset_bits, sm_caches = caches\<rparr>"

definition sm_levels :: "simulated_memory \<Rightarrow> nat" where
  "sm_levels m = length (sm_caches m)"

definition sm_ways :: "simulated_memory \<Rightarrow> nat \<Rightarrow> nat option" where
  "sm_ways m level = do { c \<leftarrow> vec_at (sm_caches m) level; Some (sac_ways c) }"

definition sm_index_bits :: "simulated_memory \<Rightarrow> nat \<Rightarrow> nat option" where
  "sm_index_bits m level = do { c \<leftarrow> vec_at (sm_caches m) level; n \<leftarrow> sac_sets c; Some (countr_zero n) }"

fun sm_back_invalidate :: "uintptr \<Rightarrow> nat \<Rightarrow> simulated_memory \<Rightarrow> simulated_memory option" where
  "sm_back_invalidate address level m = do {
     require (level < sm_levels m);
     cache \<leftarrow> vec_at (sm_caches m) level;
     handle \<leftarrow> sac_lookup cache address;
     m' \<leftarrow> (case handle of
             None \<Rightarrow> Some m
           | Some h \<Rightarrow> do {
               cache' \<leftarrow> sac_invalidate (Some h) cache;
               Some (m\<lparr>sm_caches := (sm_caches m)[level := cache']\<rparr>) });
     if level > 0 then sm_back_invalidate address (level - 1) m' else Some m' }"

declare sm_back_invalidate.simps [simp del]

lemma sm_back_invalidate_length:
  "sm_back_invalidate address level m = Some m' \<Longrightarrow> length (sm_caches m') = length (sm_caches m)"
proof (induction level arbitrary: m)
  case 0
  then show ?case
    by (subst (asm) sm_back_invalidate.simps) (auto simp: bind_eq_Some_conv split: option.splits)
next
  case (Suc level)
  then show ?case
    by (subst (asm) sm_back_invalidate.simps) (fastforce simp: bind_eq_Some_conv split: option.splits)
qed

function sm_fill :: "uintptr \<Rightarrow> nat \<Rightarrow> bool \<Rightarrow> simulated_memory \<Rightarrow> simulated_memory option" where
  "sm_fill address level should_back_invalidate m = do {
     cache \<leftarrow> vec_at (sm_caches m) level;
     (victim, cache') \<leftarrow> sac_fill address cache;
     let m1 = m\<lparr>sm_caches := (sm_caches m)[level := cache']\<rparr>;
     case victim of
       None \<Rightarrow> Some m1
     | Some v \<Rightarrow> do {
         m2 \<leftarrow> (if should_back_invalidate \<and> level > 0 \<and> get_inclusiveness level = Inclusive
               then sm_back_invalidate v (level - 1) m1 else Some m1);
         if level + 1 < length (sm_caches m2) then sm_fill v (level + 1) False m2 else Some m2 } }"
  by pat_completeness auto
termination
  by (relation "measure (\<lambda>(_, level, _, m). length (sm_caches m) - level)")
    (auto simp: get_inclusiveness_def vec_simps)

declare sm_fill.simps [simp del]

fun sm_back_fill :: "uintptr \<Rightarrow> nat \<Rightarrow> simulated_memory \<Rightarrow> simulated_memory option" where
  "sm_back_fill address level m = do {
     require (level < sm_levels m);
     m' \<leftarrow> (if get_inclusiveness level \<noteq> Exclusive then sm_fill address level True m else Some m);
     if level > 0 then sm_back_fill address (level - 1) m' else Some m' }"

declare sm_back_fill.simps [simp del]

function do_access :: "uintptr \<Rightarrow> nat \<Rightarrow> simulated_memory \<Rightarrow> (nat \<times> simulated_memory) option" where
  "do_access address level m =
     (if level < sm_levels m then do {
        cache \<leftarrow> vec_at (sm_caches m) level;
        handle \<leftarrow> sac_lookup cache address;
        case handle of
          None \<Rightarrow> do_access address (level + 1) m
        | Some h \<Rightarrow> do {
            cache1 \<leftarrow> sac_hit (Some h) cache;
            cache2 \<leftarrow> (if level > 0 \<and> get_inclusiveness level = Exclusive
                       then sac_invalidate (Some h) cache1 else Some cache1);
            let m1 = m\<lparr>sm_caches := (sm_caches m)[level := cache2]\<rparr>;
            m2 \<leftarrow> (if level > 0 then sm_back_fill address (level - 1) m1 else Some m1);
            Some (level, m2) } }
      else do {
        m2 \<leftarrow> (if level > 0 then sm_back_fill address (level - 1) m else Some m);
        Some (level, m2) })"
  by pat_completeness auto
termination
  by (relation "measure (\<lambda>(_, level, m). sm_levels m - level)") auto

declare do_access.simps [simp del]

definition sm_access :: "uintptr \<Rightarrow> simulated_memory \<Rightarrow> simulated_memory option" where
  "sm_access address m = do { (_, m') \<leftarrow> do_access address 0 m; Some m' }"

definition sm_instrumented_access :: "uintptr \<Rightarrow> simulated_memory \<Rightarrow> (nat \<times> simulated_memory) option" where
  "sm_instrumented_access address m = do_access address 0 m"

section \<open>Accesses to well-formed hierarchies\<close>

definition sm_wf :: "simulated_memory \<Rightarrow> bool" where
  "sm_wf m \<longleftrightarrow> (\<forall>c \<in> set (sm_caches m). cache_wf c)"

text \<open>
  \<open>same_hierarchy m m'\<close>: the hierarchy \<open>m'\<close> has the same levels with the same number of ways and the same
  placement as \<open>m\<close>, and is well-formed.
\<close>

definition same_shape :: "set_associative_cache \<Rightarrow> set_associative_cache \<Rightarrow> bool" where
  "same_shape c c' \<longleftrightarrow> cache_wf c' \<and> sac_ways c' = sac_ways c \<and> cache_place c' = cache_place c"

definition same_hierarchy :: "simulated_memory \<Rightarrow> simulated_memory \<Rightarrow> bool" where
  "same_hierarchy m m' \<longleftrightarrow> list_all2 same_shape (sm_caches m) (sm_caches m') \<and>
     sm_regions m' = sm_regions m \<and> sm_offset_bits m' = sm_offset_bits m"

lemma same_shape_refl: "cache_wf c \<Longrightarrow> same_shape c c"
  by (simp add: same_shape_def)

lemma same_hierarchy_refl: "sm_wf m \<Longrightarrow> same_hierarchy m m"
  by (simp add: same_hierarchy_def sm_wf_def list_all2_conv_all_nth same_shape_refl)

lemma same_hierarchy_trans: "same_hierarchy m1 m2 \<Longrightarrow> same_hierarchy m2 m3 \<Longrightarrow> same_hierarchy m1 m3"
  by (auto simp: same_hierarchy_def list_all2_conv_all_nth same_shape_def)

lemma same_hierarchyD:
  assumes "same_hierarchy m m'"
  shows "sm_wf m'" and "length (sm_caches m') = length (sm_caches m)" and "sm_levels m' = sm_levels m"
  using assms
  by (auto simp: same_hierarchy_def sm_wf_def sm_levels_def list_all2_conv_all_nth same_shape_def
      in_set_conv_nth)

lemma same_hierarchy_update:
  assumes "sm_wf m" and "i < length (sm_caches m)" and "same_shape (sm_caches m ! i) c"
  shows "same_hierarchy m (m\<lparr>sm_caches := (sm_caches m)[i := c]\<rparr>)"
  using assms
  by (auto simp: same_hierarchy_def list_all2_conv_all_nth nth_list_update sm_wf_def same_shape_refl)

lemma set_changed_shape: "set_changed c s ts r c' \<Longrightarrow> same_shape c c'"
  by (simp add: set_changed_def same_shape_def)

lemma sac_fill_shape:
  assumes "cache_wf c"
  shows "\<exists>v c'. sac_fill a c = Some (v, c') \<and> same_shape c c'"
proof (cases "cached c a")
  case True
  with sac_fill_present [OF assms True] show ?thesis using same_shape_refl [OF assms] by blast
next
  case False
  with sac_fill_set [OF assms False] show ?thesis using set_changed_shape by blast
qed

text \<open>A fill leaves the levels below it alone and fills its own level.\<close>

lemma sm_fill_ok:
  assumes "sm_wf m" and "level < length (sm_caches m)"
  shows "\<exists>m'. sm_fill a level b m = Some m' \<and> same_hierarchy m m' \<and>
     (\<forall>j < level. sm_caches m' ! j = sm_caches m ! j) \<and>
     map_option snd (sac_fill a (sm_caches m ! level)) = Some (sm_caches m' ! level)"
  using assms
proof (induction "length (sm_caches m) - level" arbitrary: m level a b rule: less_induct)
  case less
  have "cache_wf (sm_caches m ! level)" using less.prems by (simp add: sm_wf_def)
  then obtain v c' where f: "sac_fill a (sm_caches m ! level) = Some (v, c')" "same_shape (sm_caches m ! level) c'"
    using sac_fill_shape by blast
  let ?m = "m\<lparr>sm_caches := (sm_caches m)[level := c']\<rparr>"
  have h: "same_hierarchy m ?m" using same_hierarchy_update less.prems f(2) by blast
  show ?case
  proof (cases "v \<noteq> None \<and> level + 1 < length (sm_caches m)")
    case False
    then have "sm_fill a level b m = Some ?m"
      using f(1) less.prems(2) by (subst sm_fill.simps) (auto simp: get_inclusiveness_def Let_def split: option.splits)
    with h f less.prems(2) show ?thesis by simp
  next
    case True
    then obtain u where v: "v = Some u" by blast
    have lt: "length (sm_caches ?m) - (level + 1) < length (sm_caches m) - level"
      using True by (simp add: diff_less_mono2)
    from less.hyps [OF lt same_hierarchyD(1) [OF h], of u False] True obtain m'
      where m': "sm_fill u (level + 1) False ?m = Some m'" "same_hierarchy ?m m'"
        "\<forall>j < level + 1. sm_caches m' ! j = sm_caches ?m ! j" by auto
    have "sm_fill a level b m = Some m'"
      using f(1) less.prems(2) True v m'(1) by (subst sm_fill.simps) (simp add: get_inclusiveness_def Let_def)
    with m' h f less.prems(2) same_hierarchy_trans show ?thesis by (auto simp: nth_list_update)
  qed
qed

lemma sm_back_fill_ok:
  assumes "sm_wf m" and "level < length (sm_caches m)"
  shows "\<exists>m'. sm_back_fill a level m = Some m' \<and> same_hierarchy m m' \<and>
     map_option snd (sac_fill a (sm_caches m ! 0)) = Some (sm_caches m' ! 0)"
  using assms
proof (induction level arbitrary: m)
  case 0
  with sm_fill_ok [OF 0, of a True] show ?case
    by (subst sm_back_fill.simps) (auto simp: get_inclusiveness_def sm_levels_def)
next
  case (Suc level)
  from sm_fill_ok [OF Suc.prems, of a True] obtain m1
    where m1: "sm_fill a (Suc level) True m = Some m1" "same_hierarchy m m1" "sm_caches m1 ! 0 = sm_caches m ! 0"
    by auto
  from Suc.IH [of m1] same_hierarchyD [OF m1(2)] Suc.prems(2) obtain m2
    where m2: "sm_back_fill a level m1 = Some m2" "same_hierarchy m1 m2"
      "map_option snd (sac_fill a (sm_caches m1 ! 0)) = Some (sm_caches m2 ! 0)" by auto
  have "sm_back_fill a (Suc level) m = Some m2"
    using m1(1) m2(1) Suc.prems(2) by (subst sm_back_fill.simps) (simp add: get_inclusiveness_def sm_levels_def)
  with m1 m2 same_hierarchy_trans show ?case by auto
qed

text \<open>The search above the first level.\<close>

lemma do_access_above:
  assumes "sm_wf m" and "0 < level" and "level \<le> sm_levels m"
  shows "\<exists>l m'. do_access a level m = Some (l, m') \<and> same_hierarchy m m' \<and> level \<le> l \<and> l \<le> sm_levels m \<and>
     (\<forall>j. level \<le> j \<and> j < l \<longrightarrow> \<not> cached (sm_caches m ! j) a) \<and>
     (l < sm_levels m \<longrightarrow> cached (sm_caches m ! l) a) \<and>
     map_option snd (sac_fill a (sm_caches m ! 0)) = Some (sm_caches m' ! 0)"
  using assms(2,3)
proof (induction "sm_levels m - level" arbitrary: level rule: less_induct)
  case less
  show ?case
  proof (cases "level < sm_levels m")
    case False
    then have "level = sm_levels m" using less.prems by simp
    moreover have "level - 1 < length (sm_caches m)" using less.prems by (simp add: sm_levels_def)
    moreover from this obtain m' where "sm_back_fill a (level - 1) m = Some m'" "same_hierarchy m m'"
      "map_option snd (sac_fill a (sm_caches m ! 0)) = Some (sm_caches m' ! 0)"
      using sm_back_fill_ok [OF assms(1), of "level - 1" a] by blast
    ultimately show ?thesis using less.prems by (subst do_access.simps) auto
  next
    case True
    let ?c = "sm_caches m ! level"
    have wf: "cache_wf ?c" using assms(1) True by (simp add: sm_wf_def sm_levels_def)
    have at: "vec_at (sm_caches m) level = Some ?c" using True by (simp add: sm_levels_def)
    show ?thesis
    proof (cases "cached ?c a")
      case False
      then have "do_access a level m = do_access a (level + 1) m"
        using True at sac_lookup_set [OF wf, of a] by (subst do_access.simps) simp
      moreover have "sm_levels m - (level + 1) < sm_levels m - level"
        using True by (simp add: diff_less_mono2)
      moreover from less.hyps [OF this] True obtain l m'
        where "do_access a (level + 1) m = Some (l, m')" "same_hierarchy m m'" "level + 1 \<le> l" "l \<le> sm_levels m"
          "\<forall>j. level + 1 \<le> j \<and> j < l \<longrightarrow> \<not> cached (sm_caches m ! j) a"
          "l < sm_levels m \<longrightarrow> cached (sm_caches m ! l) a"
          "map_option snd (sac_fill a (sm_caches m ! 0)) = Some (sm_caches m' ! 0)" by auto
      moreover have "\<not> cached (sm_caches m ! j) a" if "level \<le> j" "j < l" for j
        using that False calculation(7) by (cases "j = level") auto
      ultimately show ?thesis by auto
    next
      case c: True
      from sac_hit_set [OF wf c] obtain h c' ts r where h: "sac_lookup ?c a = Some (Some h)"
        "sac_hit (Some h) ?c = Some c'" "same_shape ?c c'" using set_changed_shape by blast
      let ?m = "m\<lparr>sm_caches := (sm_caches m)[level := c']\<rparr>"
      have hm: "same_hierarchy m ?m" using same_hierarchy_update [OF assms(1) _ h(3)] True by (simp add: sm_levels_def)
      have "level - 1 < length (sm_caches ?m)" using True by (simp add: sm_levels_def)
      from sm_back_fill_ok [OF same_hierarchyD(1) [OF hm] this, of a]
      obtain m' where m': "sm_back_fill a (level - 1) ?m = Some m'" "same_hierarchy ?m m'"
        "map_option snd (sac_fill a (sm_caches ?m ! 0)) = Some (sm_caches m' ! 0)"
        by blast
      have "do_access a level m = Some (level, m')"
        using True at h m'(1) less.prems(1) by (subst do_access.simps) (simp add: get_inclusiveness_def)
      moreover have "same_hierarchy m m'" using same_hierarchy_trans [OF hm m'(2)] .
      moreover have "map_option snd (sac_fill a (sm_caches m ! 0)) = Some (sm_caches m' ! 0)"
        using m'(3) less.prems(1) by simp
      ultimately show ?thesis using c True by (intro exI [of _ level] exI [of _ m']) auto
    qed
  qed
qed

text \<open>The whole access, seen from the first level.\<close>

lemma access_first_level:
  assumes "sm_wf m" and "sm_caches m \<noteq> []"
  defines "c \<equiv> sm_caches m ! 0"
  shows "\<exists>l m' ts r. do_access a 0 m = Some (l, m') \<and> same_hierarchy m m' \<and> l \<le> sm_levels m \<and>
     (\<forall>j < l. \<not> cached (sm_caches m ! j) a) \<and> (l < sm_levels m \<longrightarrow> cached (sm_caches m ! l) a) \<and>
     ref_step any_hit any_miss a (cache_set c (cache_place c a)) (cache_policies c ! cache_place c a) =
       Some (l = 0, ts, r) \<and>
     set_changed c (cache_place c a) ts r (sm_caches m' ! 0)"
proof -
  have lv: "0 < sm_levels m" using assms(2) by (simp add: sm_levels_def)
  have wf: "cache_wf c" using assms(1,2) by (simp add: sm_wf_def c_def)
  have at: "vec_at (sm_caches m) 0 = Some c" using assms(2) by (simp add: c_def)
  show ?thesis
  proof (cases "cached c a")
    case True
    from sac_hit_set [OF wf True] obtain h r c' where h: "sac_lookup c a = Some (Some h)"
      "sac_hit (Some h) c = Some c'"
      "ref_step any_hit any_miss a (cache_set c (cache_place c a)) (cache_policies c ! cache_place c a) =
         Some (True, cache_set c (cache_place c a), r)"
      "set_changed c (cache_place c a) (cache_set c (cache_place c a)) r c'" by blast
    let ?m = "m\<lparr>sm_caches := (sm_caches m)[0 := c']\<rparr>"
    have "do_access a 0 m = Some (0, ?m)" using lv at h(1,2) by (subst do_access.simps) simp
    moreover have "same_hierarchy m ?m"
      using same_hierarchy_update [OF assms(1)] assms(2) set_changed_shape [OF h(4)] by (simp add: c_def)
    moreover have "sm_caches ?m ! 0 = c'" using assms(2) by simp
    ultimately show ?thesis using h(3,4) True lv
      by (intro exI [of _ 0] exI [of _ ?m]) (auto simp: c_def)
  next
    case False
    have "do_access a 0 m = do_access a 1 m"
      using lv at sac_lookup_set [OF wf, of a] False by (subst do_access.simps) simp
    moreover from do_access_above [OF assms(1), of 1 a] lv obtain l m' where
      d: "do_access a 1 m = Some (l, m')" "same_hierarchy m m'" "1 \<le> l" "l \<le> sm_levels m"
      "\<forall>j. 1 \<le> j \<and> j < l \<longrightarrow> \<not> cached (sm_caches m ! j) a" "l < sm_levels m \<longrightarrow> cached (sm_caches m ! l) a"
      "map_option snd (sac_fill a c) = Some (sm_caches m' ! 0)" by (auto simp: c_def)
    moreover from sac_fill_set [OF wf False] d(7) obtain ts r where
      "ref_step any_hit any_miss a (cache_set c (cache_place c a)) (cache_policies c ! cache_place c a) =
         Some (False, ts, r)" "set_changed c (cache_place c a) ts r (sm_caches m' ! 0)" by auto
    moreover have "\<not> cached (sm_caches m ! j) a" if "j < l" for j
      using that d(5) False by (cases j) (auto simp: c_def)
    ultimately show ?thesis by auto
  qed
qed

section \<open>Properties\<close>



end
