(* ===== verification/CH_Measure.thy ===== *)
theory CH_Measure
  imports CH_Sim_Memory
begin

text \<open>
  Measuring access sequences on an instrumented memory (\<open>algo/detail/measure_sequence.hpp\<close>,
  \<open>algo/measure_sequence.hpp\<close>). The memory is a parameter: \<open>iacc\<close> is \<open>instrumented_access\<close>, whose
  result is the level that served the access, and \<open>acc\<close> is \<open>access\<close>.

  The locale \<open>instrumented_set\<close> is the contract between the measurement and the memory: on the
  addresses of one cache set, level 0 is reported exactly for the hits of that set. It is interpreted on
  the simulated memory; the main lemma shows that measuring an empty set gives the hit counter that
  \<open>simulate_sequence\<close> predicts for the replacement policy of the set.
\<close>

section \<open>Definitions\<close>

definition grow_seen :: "nat \<Rightarrow> bool list \<Rightarrow> bool list" where
  "grow_seen addr seen =
     (if addr \<ge> length seen then vec_resize ((1 + addr) mod size_t_range) False seen else seen)"

text \<open>
  The loop, with the flag \<open>safe\<close> of the template. The outer \<open>None\<close> is an access outside \<open>addresses\<close>, the
  inner one the returned \<open>std::nullopt\<close>.
\<close>

fun measure_loop :: "bool \<Rightarrow> (uintptr \<Rightarrow> 'm \<Rightarrow> (nat \<times> 'm) option) \<Rightarrow> (uintptr \<Rightarrow> 'm \<Rightarrow> 'm option) \<Rightarrow>
    uintptr list \<Rightarrow> nat list \<Rightarrow> bool list \<Rightarrow> nat \<Rightarrow> 'm \<Rightarrow> (nat option \<times> 'm) option" where
  "measure_loop safe iacc acc addresses [] seen hit_counter m = Some (Some hit_counter, m)"
| "measure_loop safe iacc acc addresses (addr # seq) seen0 hit_counter m =
     (let seen = grow_seen addr seen0
      in do {
        actual_addr \<leftarrow> vec_at addresses addr;
        sn \<leftarrow> vec_at seen addr;
        if safe \<or> sn then
          if \<not> sn then do {
            (level, m') \<leftarrow> iacc actual_addr m;
            if level = 0 then Some (None, m')
            else measure_loop safe iacc acc addresses seq (seen[addr := True]) hit_counter m' }
          else do {
            (level, m') \<leftarrow> iacc actual_addr m;
            measure_loop safe iacc acc addresses seq seen (hit_counter + of_bool (level = 0)) m' }
        else do {
          m' \<leftarrow> acc actual_addr m;
          measure_loop safe iacc acc addresses seq (seen[addr := True]) hit_counter m' } })"

definition measure_sequence :: "bool \<Rightarrow> (uintptr \<Rightarrow> 'm \<Rightarrow> (nat \<times> 'm) option) \<Rightarrow> (uintptr \<Rightarrow> 'm \<Rightarrow> 'm option) \<Rightarrow>
    nat list \<Rightarrow> uintptr list \<Rightarrow> 'm \<Rightarrow> (nat option \<times> 'm) option" where
  "measure_sequence safe iacc acc seq addresses m = measure_loop safe iacc acc addresses seq [] 0 m"

definition safe_measure_sequence :: "(uintptr \<Rightarrow> 'm \<Rightarrow> (nat \<times> 'm) option) \<Rightarrow> (uintptr \<Rightarrow> 'm \<Rightarrow> 'm option) \<Rightarrow>
    nat list \<Rightarrow> uintptr list \<Rightarrow> 'm \<Rightarrow> (nat option \<times> 'm) option" where
  "safe_measure_sequence = measure_sequence True"

text \<open>The unsafe variant dereferences the optional.\<close>

definition unsafe_measure_sequence :: "(uintptr \<Rightarrow> 'm \<Rightarrow> (nat \<times> 'm) option) \<Rightarrow> (uintptr \<Rightarrow> 'm \<Rightarrow> 'm option) \<Rightarrow>
    nat list \<Rightarrow> uintptr list \<Rightarrow> 'm \<Rightarrow> (nat \<times> 'm) option" where
  "unsafe_measure_sequence iacc acc seq addresses m = do {
     (r, m') \<leftarrow> measure_sequence False iacc acc seq addresses m;
     n \<leftarrow> r;
     Some (n, m') }"

section \<open>Renaming addresses\<close>

text \<open>The reference set does not care what the addresses are called.\<close>

lemma std_find_map_option:
  assumes "inj_on f (insert a {x. Some x \<in> set c})"
  shows "std_find (map (map_option f) c) (Some (f a)) = std_find c (Some a)"
  using assms
proof (induction c)
  case Nil
  then show ?case by simp
next
  case (Cons y c)
  have "inj_on f (insert a {x. Some x \<in> set c})"
    by (rule inj_on_subset [OF Cons.prems]) auto
  moreover have "map_option f y = Some (f a) \<longleftrightarrow> y = Some a"
    using Cons.prems by (cases y) (auto simp: inj_on_def)
  ultimately show ?case using Cons.IH by simp
qed

lemma ref_step_rename:
  assumes "inj_on f (insert a {x. Some x \<in> set c})"
  shows "ref_step hit miss (f a) (map (map_option f) c) p =
     map_option (\<lambda>(h, c', q). (h, map (map_option f) c', q)) (ref_step hit miss a c p)"
proof -
  have "std_find (map (map_option f) c) (Some (f a)) = std_find c (Some a)"
    by (rule std_find_map_option [OF assms])
  then show ?thesis
    by (auto simp: ref_step_def Let_def map_update map_option_bind comp_def split_def
        intro!: option.expand bind_option_cong split: option.splits bind_splits)
qed

lemma ref_step_contents:
  "ref_step hit miss a c p = Some (h, c', q) \<Longrightarrow> set c' \<subseteq> insert (Some a) (set c)"
  using set_update_subset_insert [of c _ "Some a"]
  by (auto simp: ref_step_def Let_def bind_eq_Some_conv split: if_splits)

section \<open>The contract of the memory\<close>

locale instrumented_set =
  fixes iacc :: "uintptr \<Rightarrow> 'm \<Rightarrow> (nat \<times> 'm) option"
    and acc :: "uintptr \<Rightarrow> 'm \<Rightarrow> 'm option"
    and view :: "'m \<Rightarrow> uintptr option list \<times> any_replacement_policy"
    and invar :: "'m \<Rightarrow> bool"
    and A :: "uintptr set"
  assumes iacc_step: "invar m \<Longrightarrow> a \<in> A \<Longrightarrow> \<exists>l m' ts r. iacc a m = Some (l, m') \<and> invar m' \<and>
      ref_step any_hit any_miss a (fst (view m)) (snd (view m)) = Some (l = 0, ts, r) \<and> view m' = (ts, r)"
    and acc_iacc: "invar m \<Longrightarrow> a \<in> A \<Longrightarrow> acc a m = map_option snd (iacc a m)"
begin

text \<open>
  The relation of the loop: the set holds the addresses of the indices in \<open>c\<close>, all of which have been
  seen.
\<close>

definition measured :: "uintptr list \<Rightarrow> nat option list \<Rightarrow> any_replacement_policy \<Rightarrow> bool list \<Rightarrow> 'm \<Rightarrow> bool" where
  "measured addresses c p seen m \<longleftrightarrow> invar m \<and> any.set_wf c p \<and>
     view m = (map (map_option ((!) addresses)) c, p) \<and>
     (\<forall>x. Some x \<in> set c \<longrightarrow> x < length addresses \<and> x < length seen \<and> seen ! x)"

lemma measured_step:
  assumes m: "measured addresses c p seen m" and i: "i < length addresses"
    and a: "distinct addresses" "set addresses \<subseteq> A"
  shows "\<exists>l m' c' q. iacc (addresses ! i) m = Some (l, m') \<and> acc (addresses ! i) m = Some m' \<and>
     ref_step any_hit any_miss i c p = Some (l = 0, c', q) \<and>
     (l = 0 \<longrightarrow> i < length seen \<and> seen ! i) \<and>
     (\<forall>seen'. (\<forall>x. x < length seen \<and> seen ! x \<longrightarrow> x < length seen' \<and> seen' ! x) \<and>
        i < length seen' \<and> seen' ! i \<longrightarrow> measured addresses c' q seen' m')"
proof -
  have im: "invar m" and v: "view m = (map (map_option ((!) addresses)) c, p)" and swf: "any.set_wf c p"
    and cs: "\<And>x. Some x \<in> set c \<Longrightarrow> x < length addresses \<and> x < length seen \<and> seen ! x"
    using m by (simp_all add: measured_def)
  have aA: "addresses ! i \<in> A" using i a(2) by auto
  from iacc_step [OF im aA] v obtain l m' ts r where s: "iacc (addresses ! i) m = Some (l, m')" "invar m'"
    "ref_step any_hit any_miss (addresses ! i) (map (map_option ((!) addresses)) c) p = Some (l = 0, ts, r)"
    "view m' = (ts, r)" by auto
  have "inj_on ((!) addresses) (insert i {x. Some x \<in> set c})"
    using a(1) i cs by (auto simp: inj_on_def nth_eq_iff_index_eq)
  from ref_step_rename [OF this, of any_hit any_miss p] s(3) obtain c'
    where c': "ref_step any_hit any_miss i c p = Some (l = 0, c', r)" "ts = map (map_option ((!) addresses)) c'"
    by (cases "ref_step any_hit any_miss i c p") auto
  from any.ref_step_ok [OF swf, of i] c'(1)
  have ok: "any.set_wf c' r" "(l = 0) = (Some i \<in> set c)" by auto
  have "measured addresses c' r seen' m'"
    if "\<And>x. x < length seen \<and> seen ! x \<Longrightarrow> x < length seen' \<and> seen' ! x" "i < length seen'" "seen' ! i" for seen'
  proof -
    have "x < length addresses \<and> x < length seen' \<and> seen' ! x" if "Some x \<in> set c'" for x
      using that ref_step_contents [OF c'(1)] cs [of x] i \<open>i < length seen'\<close> \<open>seen' ! i\<close>
        \<open>\<And>x. x < length seen \<and> seen ! x \<Longrightarrow> x < length seen' \<and> seen' ! x\<close> by auto
    then show ?thesis using s(2,4) ok(1) c'(2) by (simp add: measured_def)
  qed
  with s(1) c'(1) ok(2) cs acc_iacc [OF im aA] show ?thesis by auto
qed

lemma measure_loop_ref:
  assumes "measured addresses c p seen m" and "\<forall>i \<in> set seq. i < length addresses"
    and "distinct addresses" and "set addresses \<subseteq> A" and "length addresses \<le> dirty"
  shows "\<exists>hs c' q m'. ref_run any_hit any_miss seq c p = Some (hs, c', q) \<and>
     measure_loop safe iacc acc addresses seq seen n m = Some (Some (n + hit_count hs), m') \<and>
     invar m' \<and> view m' = (map (map_option ((!) addresses)) c', q)"
  using assms(1,2)
proof (induction seq arbitrary: c p seen n m)
  case Nil
  then show ?case by (simp add: measured_def)
next
  case (Cons i seq)
  let ?seen = "grow_seen i seen"
  have i: "i < length addresses" using Cons.prems(2) by simp
  then have "(1 + i) mod size_t_range = Suc i" using assms(5) next_size [of i] by simp
  then have lens: "i < length ?seen" and seen: "\<And>x. ?seen ! x \<and> x < length ?seen \<longleftrightarrow> x < length seen \<and> seen ! x"
    by (auto simp: grow_seen_def nth_vec_resize split: if_splits)
  from measured_step [OF Cons.prems(1) i assms(3,4)] obtain l m' c' q where
    s: "iacc (addresses ! i) m = Some (l, m')" "acc (addresses ! i) m = Some m'"
    "ref_step any_hit any_miss i c p = Some (l = 0, c', q)" "l = 0 \<longrightarrow> i < length seen \<and> seen ! i"
    and next_ok: "\<And>seen'. (\<forall>x. x < length seen \<and> seen ! x \<longrightarrow> x < length seen' \<and> seen' ! x) \<Longrightarrow>
        i < length seen' \<Longrightarrow> seen' ! i \<Longrightarrow> measured addresses c' q seen' m'" by blast
  show ?case
  proof (cases "?seen ! i")
    case True
    have "measured addresses c' q ?seen m'" using next_ok [of ?seen] seen lens True by blast
    from Cons.IH [OF this, of "n + of_bool (l = 0)"] Cons.prems(2) obtain hs c'' q' m''
      where r: "ref_run any_hit any_miss seq c' q = Some (hs, c'', q')"
        "measure_loop safe iacc acc addresses seq ?seen (n + of_bool (l = 0)) m' =
           Some (Some (n + of_bool (l = 0) + hit_count hs), m'')"
        "invar m''" "view m'' = (map (map_option ((!) addresses)) c'', q')" by auto
    have "measure_loop safe iacc acc addresses (i # seq) seen n m =
        Some (Some (n + hit_count ((l = 0) # hs)), m'')"
      using True lens i s(1) r(2) by (simp add: Let_def)
    with r s(3) show ?thesis by auto
  next
    case False
    then have l: "l \<noteq> 0" using s(4) seen [of i] by auto
    have "measured addresses c' q (?seen[i := True]) m'"
    proof (rule next_ok)
      show "\<forall>x. x < length seen \<and> seen ! x \<longrightarrow> x < length (?seen[i := True]) \<and> ?seen[i := True] ! x"
        using seen lens by (metis length_list_update nth_list_update)
    qed (simp_all add: lens)
    from Cons.IH [OF this, of n] Cons.prems(2) obtain hs c'' q' m''
      where r: "ref_run any_hit any_miss seq c' q = Some (hs, c'', q')"
        "measure_loop safe iacc acc addresses seq (?seen[i := True]) n m' = Some (Some (n + hit_count hs), m'')"
        "invar m''" "view m'' = (map (map_option ((!) addresses)) c'', q')" by auto
    have "measure_loop safe iacc acc addresses (i # seq) seen n m = Some (Some (n + hit_count hs), m'')"
      using False lens i s(1,2) r(2) l by (cases safe) (simp_all add: Let_def)
    with r s(3) l show ?thesis by auto
  qed
qed

text \<open>Measuring an empty set gives the simulated hit counter, in both variants.\<close>

lemma measure_sequence_simulates:
  assumes "invar m" and "view m = (replicate (any_ways p) None, p)" and "any_wf p"
    and "\<forall>i \<in> set seq. i < length addresses" and "distinct addresses" and "set addresses \<subseteq> A"
    and "length addresses \<le> dirty"
  shows "\<exists>n q m'. simulate_sequence any_ways any_hit any_miss seq p = Some (n, q) \<and>
     measure_sequence safe iacc acc seq addresses m = Some (Some n, m') \<and> snd (view m') = q"
proof -
  have "measured addresses (replicate (any_ways p) None) p [] m"
    using assms(1-3) any.set_wf_empty by (auto simp: measured_def)
  from measure_loop_ref [OF this assms(4-7), of safe 0] obtain hs c' q m'
    where "ref_run any_hit any_miss seq (replicate (any_ways p) None) p = Some (hs, c', q)"
      "measure_loop safe iacc acc addresses seq [] 0 m = Some (Some (hit_count hs), m')" "snd (view m') = q"
    by auto
  moreover have "\<forall>a \<in> set seq. a < dirty" using assms(4,7) by auto
  ultimately show ?thesis
    using any.simulate_sequence_ref [OF assms(3), of seq] by (auto simp: measure_sequence_def)
qed

end

section \<open>The simulated memory meets the contract\<close>

text \<open>The set \<open>s\<close> of the first level of a hierarchy whose first level places addresses by \<open>pl\<close>.\<close>

definition first_level :: "(uintptr \<Rightarrow> nat) \<Rightarrow> simulated_memory \<Rightarrow> bool" where
  "first_level pl m \<longleftrightarrow> sm_wf m \<and> sm_caches m \<noteq> [] \<and> cache_place (sm_caches m ! 0) = pl"

definition set_view :: "nat \<Rightarrow> simulated_memory \<Rightarrow> uintptr option list \<times> any_replacement_policy" where
  "set_view s m = (cache_set (sm_caches m ! 0) s, cache_policies (sm_caches m ! 0) ! s)"

lemma first_level_step:
  assumes "first_level pl m"
  shows "\<exists>l m' ts r. do_access a 0 m = Some (l, m') \<and> first_level pl m' \<and>
     ref_step any_hit any_miss a (fst (set_view (pl a) m)) (snd (set_view (pl a) m)) = Some (l = 0, ts, r) \<and>
     set_view (pl a) m' = (ts, r)"
proof -
  have m: "sm_wf m" "sm_caches m \<noteq> []" "cache_place (sm_caches m ! 0) = pl"
    using assms by (simp_all add: first_level_def)
  from access_first_level [OF m(1,2), of a] obtain l m' ts r where
    a: "do_access a 0 m = Some (l, m')" "same_hierarchy m m'"
    "ref_step any_hit any_miss a (cache_set (sm_caches m ! 0) (pl a)) (cache_policies (sm_caches m ! 0) ! pl a) =
       Some (l = 0, ts, r)" "set_changed (sm_caches m ! 0) (pl a) ts r (sm_caches m' ! 0)"
    unfolding m(3) by blast
  have "first_level pl m'"
    using same_hierarchyD [OF a(2)] a(4) m(2,3) by (auto simp: first_level_def set_changed_def)
  moreover have "set_view (pl a) m' = (ts, r)" using a(4) by (simp add: set_view_def set_changed_def)
  ultimately show ?thesis using a(1,3) by (auto simp: set_view_def)
qed

interpretation simset: instrumented_set sm_instrumented_access sm_access "set_view s" "first_level pl"
    "{a. pl a = s}" for pl s
proof
  fix m a assume m: "first_level pl m" and a: "a \<in> {a. pl a = s}"
  then show "\<exists>l m' ts r. sm_instrumented_access a m = Some (l, m') \<and> first_level pl m' \<and>
      ref_step any_hit any_miss a (fst (set_view s m)) (snd (set_view s m)) = Some (l = 0, ts, r) \<and>
      set_view s m' = (ts, r)"
    using first_level_step [OF m, of a] by (simp add: sm_instrumented_access_def)
  show "sm_access a m = map_option snd (sm_instrumented_access a m)"
    using first_level_step [OF m, of a] by (auto simp: sm_access_def sm_instrumented_access_def)
qed

section \<open>Properties\<close>

text \<open>
  C9. The measurement agrees with the prediction it is compared with: on a well-formed simulated
  hierarchy of any depth whose first level holds nothing in set \<open>s\<close>, measuring a sequence over distinct
  addresses of that set (safely or not) returns exactly the hit counter that \<open>simulate_sequence\<close> computes
  for the replacement policy of the set, for every placement and every replacement policy.
\<close>

theorem measured_counter_is_simulated:
  assumes "first_level pl m" and "set_view s m = (replicate (any_ways p) None, p)" and "any_wf p"
    and "\<forall>i \<in> set seq. i < length addresses" and "distinct addresses" and "\<forall>a \<in> set addresses. pl a = s"
    and "length addresses \<le> dirty"
  shows "\<exists>n q m' m''. simulate_sequence any_ways any_hit any_miss seq p = Some (n, q) \<and>
     safe_measure_sequence sm_instrumented_access sm_access seq addresses m = Some (Some n, m') \<and>
     unsafe_measure_sequence sm_instrumented_access sm_access seq addresses m = Some (n, m'')"
proof -
  have A: "set addresses \<subseteq> {a. pl a = s}" using assms(6) by auto
  note meas = simset.measure_sequence_simulates [OF assms(1-5) A assms(7)]
  from meas [of True] meas [of False] show ?thesis
    by (auto simp: safe_measure_sequence_def unsafe_measure_sequence_def)
qed

text \<open>An empty two-level memory whose first level has one set of two ways, for the witness.\<close>

lemma small_memory:
  "\<exists>m. first_level (\<lambda>a. 0) m \<and> sac_ways (sm_caches m ! 0) = 2 \<and> cache_nsets (sm_caches m ! 0) = 1 \<and>
     set_view 0 m = (replicate (any_ways (Any_Lru \<lparr>lru_order = [0, 1]\<rparr>)) None, Any_Lru \<lparr>lru_order = [0, 1]\<rparr>)"
proof -
  let ?q = "Any_Modular \<lparr>mp_offset_bits = 6, mp_sets = 1\<rparr>" and ?r = "Any_Lru \<lparr>lru_order = [0, 1]\<rparr>"
  have p1: "is_power_of_two 1" and z: "countr_zero 1 = 0"
    using is_power_of_two_power [of 0] countr_zero_power [of 0] by simp_all
  have "any_placement_wf ?q" using p1 by (simp add: modular_wf_def)
  moreover have "any_index_bits ?q = Some 0" using z by (simp add: modular_index_bits_def)
  moreover have "any_wf ?r" by (auto simp: lru_wf_def order_wf_def)
  ultimately obtain c where c: "cache_wf c" "cache_place c = any_place ?q" "sac_ways c = any_ways ?r"
    "cache_nsets c = 1" "cache_set c 0 = replicate (any_ways ?r) None" "cache_policies c ! 0 = ?r"
    using sac_init_wf [of ?q 0 ?r] by auto
  have "any_place ?q = (\<lambda>a. 0)" by (simp add: fun_eq_iff modular_place_def)
  with c have "first_level (\<lambda>a. 0) (sm_init 0 4096 6 [c, c])"
    by (simp add: first_level_def sm_wf_def sm_init_def)
  moreover have "set_view 0 (sm_init 0 4096 6 [c, c]) = (replicate (any_ways ?r) None, ?r)"
    using c by (simp add: set_view_def sm_init_def)
  moreover have "sac_ways (sm_caches (sm_init 0 4096 6 [c, c]) ! 0) = 2"
    "cache_nsets (sm_caches (sm_init 0 4096 6 [c, c]) ! 0) = 1"
    using c by (simp_all add: sm_init_def lru_ways_def)
  ultimately show ?thesis by blast
qed

theorem measured_counter_is_simulated_witness:
  "\<exists>m n q m' m''. simulate_sequence any_ways any_hit any_miss [0, 1, 0, 2] (Any_Lru \<lparr>lru_order = [0, 1]\<rparr>) = Some (n, q) \<and>
     safe_measure_sequence sm_instrumented_access sm_access [0, 1, 0, 2] [0x40, 0x80, 0xC0] m = Some (Some n, m') \<and>
     unsafe_measure_sequence sm_instrumented_access sm_access [0, 1, 0, 2] [0x40, 0x80, 0xC0] m = Some (n, m'')"
proof -
  have wf: "any_wf (Any_Lru \<lparr>lru_order = [0, 1]\<rparr>)" by (auto simp: lru_wf_def order_wf_def)
  from small_memory obtain m where m: "first_level (\<lambda>a. 0) m"
    "set_view 0 m = (replicate (any_ways (Any_Lru \<lparr>lru_order = [0, 1]\<rparr>)) None, Any_Lru \<lparr>lru_order = [0, 1]\<rparr>)"
    by blast
  have "\<exists>n q m' m''. simulate_sequence any_ways any_hit any_miss [0, 1, 0, 2] (Any_Lru \<lparr>lru_order = [0, 1]\<rparr>) = Some (n, q) \<and>
     safe_measure_sequence sm_instrumented_access sm_access [0, 1, 0, 2] [0x40, 0x80, 0xC0] m = Some (Some n, m') \<and>
     unsafe_measure_sequence sm_instrumented_access sm_access [0, 1, 0, 2] [0x40, 0x80, 0xC0] m = Some (n, m'')"
    by (rule measured_counter_is_simulated [OF m wf]) (simp_all add: dirty_def)
  then show ?thesis by blast
qed

end
