(* ===== verification/CH_Eviction_Sets.thy ===== *)
theory CH_Eviction_Sets
  imports CH_Prelude "HOL-Library.Multiset"
begin

text \<open>
  Eviction sets: the tests of \<open>algo/is_eviction_set.hpp\<close>, the group reduction
  \<open>reduce_eviction_set\<close>, its quadratic variant \<open>reduce_eviction_set_slow\<close> and the quadratic
  minimisation \<open>minimize_eviction_set_slow\<close>.

  Iterators into the vector of addresses are indices; \<open>first\<close> is 0. The function argument
  \<open>is_eviction_set\<close> is the parameter \<open>test\<close>; it may change the memory, so it returns the changed memory.

  The locale \<open>eviction_oracle\<close> is the contract of that argument: it decides a monotone property \<open>evicts\<close>
  of the set of addresses. \<open>bounded_oracle\<close> adds that every eviction set contains one of at most \<open>assoc\<close>
  addresses, which is what makes the group reduction complete. \<open>exact_test\<close> is a test that counts the addresses in
  the set of the target, and a sublocale of both. It is interpreted on the test over the simulated memory in
  \<open>CH_Lru_Eviction\<close>, and on the repeated test of the commands in \<open>CH_Strategy\<close>.
\<close>

section \<open>Tests\<close>

fun access_all :: "(uintptr \<Rightarrow> 'm \<Rightarrow> 'm option) \<Rightarrow> uintptr list \<Rightarrow> 'm \<Rightarrow> 'm option" where
  "access_all acc [] m = Some m"
| "access_all acc (address # addresses) m = do { m' \<leftarrow> acc address m; access_all acc addresses m' }"

definition unsafe_is_eviction_set :: "(uintptr \<Rightarrow> 'm \<Rightarrow> (nat \<times> 'm) option) \<Rightarrow> (uintptr \<Rightarrow> 'm \<Rightarrow> 'm option) \<Rightarrow>
    uintptr \<Rightarrow> uintptr list \<Rightarrow> 'm \<Rightarrow> (bool \<times> 'm) option" where
  "unsafe_is_eviction_set iacc acc target addresses m = do {
     m1 \<leftarrow> acc target m;
     m2 \<leftarrow> access_all acc addresses m1;
     (level, m3) \<leftarrow> iacc target m2;
     Some (level > 0, m3) }"

text \<open>The loop of the safe variant: \<open>None\<close> inside for the early \<open>std::nullopt\<close>.\<close>

fun access_all_miss :: "(uintptr \<Rightarrow> 'm \<Rightarrow> (nat \<times> 'm) option) \<Rightarrow> uintptr list \<Rightarrow> 'm \<Rightarrow> (bool \<times> 'm) option" where
  "access_all_miss iacc [] m = Some (True, m)"
| "access_all_miss iacc (address # addresses) m = do {
     (level, m') \<leftarrow> iacc address m;
     if level = 0 then Some (False, m') else access_all_miss iacc addresses m' }"

definition safe_is_eviction_set :: "(uintptr \<Rightarrow> 'm \<Rightarrow> (nat \<times> 'm) option) \<Rightarrow>
    uintptr \<Rightarrow> uintptr list \<Rightarrow> 'm \<Rightarrow> (bool option \<times> 'm) option" where
  "safe_is_eviction_set iacc target addresses m = do {
     (level, m1) \<leftarrow> iacc target m;
     if level = 0 then Some (None, m1)
     else do {
       (all_missed, m2) \<leftarrow> access_all_miss iacc addresses m1;
       if \<not> all_missed then Some (None, m2)
       else do {
         (level', m3) \<leftarrow> iacc target m2;
         Some (Some (level' > 0), m3) } } }"

section \<open>Reduction by groups\<close>

type_synonym 'm evset_test = "uintptr \<Rightarrow> uintptr list \<Rightarrow> 'm \<Rightarrow> (bool \<times> 'm) option"

text \<open>
  The inner \<open>while\<close> loop: \<open>counter\<close> groups of \<open>group_size\<close> addresses from \<open>mask_begin\<close> on. The result
  \<open>Inl (mask_begin, mask_end)\<close> is the jump to \<open>found\<close>.
\<close>

fun scan_groups :: "'m evset_test \<Rightarrow> uintptr \<Rightarrow> uintptr list \<Rightarrow> nat \<Rightarrow> nat \<Rightarrow> nat \<Rightarrow> nat \<Rightarrow> nat \<Rightarrow> 'm \<Rightarrow>
    ((nat \<times> nat + nat \<times> nat) \<times> 'm) option" where
  "scan_groups test target xs lst group_size 0 mask_begin mask_end m = Some (Inr (mask_begin, mask_end), m)"
| "scan_groups test target xs lst group_size (Suc counter) mask_begin mask_end m = do {
     (is_evset, m') \<leftarrow> test target (take mask_begin xs @ drop mask_end (take lst xs)) m;
     if is_evset then Some (Inl (mask_begin, mask_end), m')
     else scan_groups test target xs lst group_size counter
            (mask_begin + group_size) (mask_end + group_size) m' }"

text \<open>Both kinds of groups; \<open>None\<close> inside when no group can be removed.\<close>

definition find_group :: "'m evset_test \<Rightarrow> uintptr \<Rightarrow> uintptr list \<Rightarrow> nat \<Rightarrow> nat \<Rightarrow> nat \<Rightarrow> nat \<Rightarrow> 'm \<Rightarrow>
    ((nat \<times> nat) option \<times> 'm) option" where
  "find_group test target xs lst min_group_size groups_with_extra_member groups_without_extra_member m = do {
     (r, m1) \<leftarrow> scan_groups test target xs lst (min_group_size + 1) groups_with_extra_member
                 0 (min_group_size + 1) m;
     case r of
       Inl msk \<Rightarrow> Some (Some msk, m1)
     | Inr (mask_begin, mask_end) \<Rightarrow> do {
         (r', m2) \<leftarrow> scan_groups test target xs lst min_group_size groups_without_extra_member
                      mask_begin (mask_end - 1) m1;
         case r' of
           Inl msk \<Rightarrow> Some (Some msk, m2)
         | Inr _ \<Rightarrow> Some (None, m2) } }"

text \<open>\<open>std::swap_ranges\<close> on the elements \<open>i..<i + k\<close> and \<open>j..<j + k\<close>.\<close>

fun swap_ranges :: "nat \<Rightarrow> nat \<Rightarrow> nat \<Rightarrow> 'a list \<Rightarrow> 'a list option" where
  "swap_ranges 0 i j xs = Some xs"
| "swap_ranges (Suc k) i j xs = do { ys \<leftarrow> vec_swap i j xs; swap_ranges k (Suc i) (Suc j) ys }"

lemma group_size_pos: "max_size < current_size \<Longrightarrow> 0 < current_size div Suc max_size"
  by (simp add: div_greater_zero_iff)

text \<open>The result is the returned iterator, the permuted vector and the memory.\<close>

function reduce_loop :: "'m evset_test \<Rightarrow> uintptr \<Rightarrow> nat \<Rightarrow> nat \<Rightarrow> nat \<Rightarrow> uintptr list \<Rightarrow> 'm \<Rightarrow>
    (nat \<times> uintptr list \<times> 'm) option" where
  "reduce_loop test target max_size current_size lst xs m =
     (if current_size > max_size then
        let groups = max_size + 1;
            min_group_size = current_size div groups;
            groups_with_extra_member = current_size mod min_group_size;
            groups_without_extra_member = groups - groups_with_extra_member
        in do {
          (found, m') \<leftarrow> find_group test target xs lst min_group_size
                          groups_with_extra_member groups_without_extra_member m;
          case found of
            None \<Rightarrow> Some (0, xs, m')
          | Some (mask_begin, mask_end) \<Rightarrow>
              if mask_end = lst then
                reduce_loop test target max_size (current_size - min_group_size) mask_begin xs m'
              else do {
                xs' \<leftarrow> swap_ranges min_group_size (lst - min_group_size) mask_begin xs;
                reduce_loop test target max_size (current_size - min_group_size)
                  (lst - min_group_size) xs' m' } }
      else Some (lst, xs, m))"
  by pat_completeness auto

termination
  by (relation "measure (\<lambda>(_, _, _, current_size, _). current_size)")
    (auto intro!: diff_less group_size_pos)

declare reduce_loop.simps [simp del]

definition reduce_eviction_set_it :: "'m evset_test \<Rightarrow> uintptr \<Rightarrow> nat \<Rightarrow> uintptr list \<Rightarrow> 'm \<Rightarrow>
    (nat \<times> uintptr list \<times> 'm) option" where
  "reduce_eviction_set_it test target max_size xs m =
     reduce_loop test target max_size (length xs) (length xs) xs m"

text \<open>The overload for a vector, which it resizes on success.\<close>

definition reduce_eviction_set :: "'m evset_test \<Rightarrow> uintptr \<Rightarrow> nat \<Rightarrow> uintptr list \<Rightarrow> 'm \<Rightarrow>
    (bool \<times> uintptr list \<times> 'm) option" where
  "reduce_eviction_set test target max_size eviction_set m = do {
     (lst, xs, m') \<leftarrow> reduce_eviction_set_it test target max_size eviction_set m;
     if lst = 0 then Some (False, xs, m') else Some (True, take lst xs, m') }"

section \<open>The quadratic algorithms\<close>

text \<open>
  \<open>candidates_begin\<close> never passes \<open>candidates_end\<close>, so the tests for an empty range are written as
  comparisons.
\<close>

function reduce_slow_loop :: "'m evset_test \<Rightarrow> uintptr \<Rightarrow> nat \<Rightarrow> nat \<Rightarrow> nat \<Rightarrow> uintptr list \<Rightarrow> 'm \<Rightarrow>
    (nat \<times> uintptr list \<times> 'm) option" where
  "reduce_slow_loop test target max_size candidates_begin candidates_end xs m =
     (if candidates_end > max_size then
        if candidates_begin \<ge> candidates_end then Some (0, xs, m)
        else do {
          (redundant_candidate, m') \<leftarrow> test target (take (candidates_end - 1) xs) m;
          if redundant_candidate then
            reduce_slow_loop test target max_size candidates_begin (candidates_end - 1) xs m'
          else do {
            xs' \<leftarrow> vec_swap candidates_begin (candidates_end - 1) xs;
            reduce_slow_loop test target max_size (candidates_begin + 1) candidates_end xs' m' } }
      else Some (candidates_end, xs, m))"
  by pat_completeness auto
termination
  by (relation "measure (\<lambda>(_, _, _, candidates_begin, candidates_end, _). candidates_end - candidates_begin)")
    auto

declare reduce_slow_loop.simps [simp del]

definition reduce_eviction_set_slow :: "'m evset_test \<Rightarrow> uintptr \<Rightarrow> nat \<Rightarrow> uintptr list \<Rightarrow> 'm \<Rightarrow>
    (bool \<times> uintptr list \<times> 'm) option" where
  "reduce_eviction_set_slow test target max_size eviction_set m = do {
     (lst, xs, m') \<leftarrow> reduce_slow_loop test target max_size 0 (length eviction_set) eviction_set m;
     if lst = 0 then Some (False, xs, m') else Some (True, take lst xs, m') }"

function minimize_slow_loop :: "'m evset_test \<Rightarrow> uintptr \<Rightarrow> nat \<Rightarrow> nat \<Rightarrow> uintptr list \<Rightarrow> 'm \<Rightarrow>
    (nat \<times> uintptr list \<times> 'm) option" where
  "minimize_slow_loop test target candidates_begin candidates_end xs m =
     (if candidates_begin < candidates_end then do {
        (redundant_candidate, m') \<leftarrow> test target (take (candidates_end - 1) xs) m;
        if redundant_candidate then
          minimize_slow_loop test target candidates_begin (candidates_end - 1) xs m'
        else do {
          xs' \<leftarrow> vec_swap candidates_begin (candidates_end - 1) xs;
          minimize_slow_loop test target (candidates_begin + 1) candidates_end xs' m' } }
      else Some (candidates_end, xs, m))"
  by pat_completeness auto
termination
  by (relation "measure (\<lambda>(_, _, candidates_begin, candidates_end, _). candidates_end - candidates_begin)")
    auto

declare minimize_slow_loop.simps [simp del]

definition minimize_eviction_set_slow :: "'m evset_test \<Rightarrow> uintptr \<Rightarrow> uintptr list \<Rightarrow> 'm \<Rightarrow>
    (bool \<times> uintptr list \<times> 'm) option" where
  "minimize_eviction_set_slow test target eviction_set m = do {
     (lst, xs, m') \<leftarrow> minimize_slow_loop test target 0 (length eviction_set) eviction_set m;
     if lst = 0 then Some (False, xs, m') else Some (True, take lst xs, m') }"

section \<open>Facts on prefixes and swaps\<close>

lemma mset_take_swap:
  assumes "i < k" and "j < k" and "k \<le> length xs"
  shows "mset (take k (xs[i := xs ! j, j := xs ! i])) = mset (take k xs)"
proof -
  have "take k (xs[i := xs ! j, j := xs ! i]) = (take k xs)[i := take k xs ! j, j := take k xs ! i]"
    using assms by (simp add: take_update_swap)
  moreover have "mset ((take k xs)[i := take k xs ! j, j := take k xs ! i]) = mset (take k xs)"
    using assms by (intro mset_swap) simp_all
  ultimately show ?thesis by simp
qed

lemma set_take_pred:
  assumes "distinct xs" and "0 < k" and "k \<le> length xs"
  shows "set (take (k - 1) xs) = set (take k xs) - {xs ! (k - 1)}"
proof -
  obtain n where k: "k = Suc n" using assms(2) by (cases k) auto
  then have t: "take k xs = take n xs @ [xs ! n]" using assms(3) by (simp add: take_Suc_conv_app_nth)
  have "distinct (take k xs)" using assms(1) by simp
  then have "xs ! n \<notin> set (take n xs)" unfolding t by simp
  then show ?thesis using k t by auto
qed

lemma distinct_of_mset: "mset xs = mset ys \<Longrightarrow> distinct xs = distinct ys"
  by (metis mset_eq_imp_distinct_iff)

lemma swap_ranges_ok:
  assumes "j + k \<le> i" and "i + k \<le> length xs"
  shows "\<exists>ys. swap_ranges k i j xs = Some ys \<and> mset ys = mset xs \<and>
     (\<forall>t < length xs. ys ! t = (if j \<le> t \<and> t < j + k then xs ! (t - j + i)
        else if i \<le> t \<and> t < i + k then xs ! (t - i + j) else xs ! t))"
  using assms
proof (induction k arbitrary: i j xs)
  case 0
  then show ?case by auto
next
  case (Suc k)
  let ?xs = "xs[i := xs ! j, j := xs ! i]"
  have ij: "i < length xs" "j < length xs" "j \<noteq> i" using Suc.prems by simp_all
  from Suc.IH [of "Suc j" "Suc i" ?xs] Suc.prems obtain ys where
    ys: "swap_ranges k (Suc i) (Suc j) ?xs = Some ys" "mset ys = mset ?xs"
    "\<And>t. t < length xs \<Longrightarrow> ys ! t = (if Suc j \<le> t \<and> t < Suc j + k then ?xs ! (t - Suc j + Suc i)
        else if Suc i \<le> t \<and> t < Suc i + k then ?xs ! (t - Suc i + Suc j) else ?xs ! t)" by auto
  have "ys ! t = (if j \<le> t \<and> t < j + Suc k then xs ! (t - j + i)
        else if i \<le> t \<and> t < i + Suc k then xs ! (t - i + j) else xs ! t)" if t: "t < length xs" for t
  proof -
    consider "t = j" | "t = i" | "Suc j \<le> t" "t < Suc j + k" | "Suc i \<le> t" "t < Suc i + k"
      | "t < j \<or> (Suc j + k \<le> t \<and> t < i) \<or> Suc i + k \<le> t" by linarith
    then show ?thesis
    proof cases
      case 3
      then have "t - Suc j + Suc i = t - j + i" by linarith
      with 3 ij Suc.prems ys(3) [OF t] show ?thesis by (simp add: nth_list_update)
    next
      case 4
      then have "t - Suc i + Suc j = t - i + j" by linarith
      with 4 ij Suc.prems ys(3) [OF t] show ?thesis by (simp add: nth_list_update)
    qed (use ij Suc.prems ys(3) [OF t] t in \<open>auto simp: nth_list_update\<close>)
  qed
  moreover have "swap_ranges (Suc k) i j xs = Some ys" using ij ys(1) by simp
  moreover have "mset ys = mset xs" using ys(2) mset_swap [of j xs i] ij by simp
  ultimately show ?case by blast
qed

section \<open>The groups of a round\<close>

text \<open>
  The groups of one round have the boundaries \<open>group_bound k g i = i * k + min i g\<close>: the first \<open>g\<close> groups have
  \<open>k + 1\<close> addresses, the others \<open>k\<close>.
\<close>

definition group_bound :: "nat \<Rightarrow> nat \<Rightarrow> nat \<Rightarrow> nat" where
  "group_bound k g i = i * k + min i g"

lemma group_bound_mono: "group_bound k g i \<le> group_bound k g (Suc i)"
  by (simp add: group_bound_def)

text \<open>
  The groups of a round with \<open>c\<close> addresses and \<open>n + 1\<close> groups: there are fewer big groups than groups, and
  every group either ends at \<open>c\<close> or leaves at least one small group behind it.
\<close>

lemma group_arith:
  fixes c n :: nat
  defines "k \<equiv> c div Suc n"
  defines "g \<equiv> c mod k"
  assumes "n < c"
  shows "0 < k" and "g < Suc n"
    and "i < Suc n \<Longrightarrow> group_bound k g i + k \<le> group_bound k g (Suc i)"
    and "i < Suc n \<Longrightarrow> group_bound k g (Suc i) = c \<and> group_bound k g i + k = c \<or> group_bound k g (Suc i) + k \<le> c"
proof -
  let ?r = "c mod Suc n"
  have c: "c = Suc n * k + ?r" unfolding k_def by (rule mult_div_mod_eq [symmetric])
  have r: "?r < Suc n" by simp
  show k: "0 < k" unfolding k_def using group_size_pos [OF assms(3)] .
  have "g = ?r mod k" unfolding g_def by (subst c) (rule mod_mult_self3)
  then have gr: "g \<le> ?r" "?r = g + k * (?r div k)" by simp_all
  then show g: "g < Suc n" using r by linarith
  show "i < Suc n \<Longrightarrow> group_bound k g i + k \<le> group_bound k g (Suc i)"
    by (simp add: group_bound_def)
  assume i: "i < Suc n"
  show "group_bound k g (Suc i) = c \<and> group_bound k g i + k = c \<or> group_bound k g (Suc i) + k \<le> c"
  proof (cases "i = n")
    case True
    have e: "group_bound k g (Suc i) = Suc n * k + g" "group_bound k g i + k = Suc n * k + g"
      using True g by (simp_all add: group_bound_def)
    show ?thesis
    proof (cases "?r div k = 0")
      case True
      then have "?r = g" using gr(2) by simp
      then show ?thesis using e c by simp
    next
      case False
      then have "k \<le> k * (?r div k)" by simp
      then have "g + k \<le> ?r" using gr(2) by linarith
      then show ?thesis using e(1) c by linarith
    qed
  next
    case False
    then have "Suc (Suc i) * k \<le> Suc n * k" using i by (intro mult_le_mono1) simp
    then have "group_bound k g (Suc i) + k \<le> Suc n * k + g" by (simp add: group_bound_def)
    then show ?thesis using c gr(1) by linarith
  qed
qed

lemma distinct_without_group:
  assumes "distinct xs" and "b \<le> e"
  shows "distinct (take b xs @ drop e (take lst xs))"
proof -
  have "distinct (take b xs @ drop b xs)" using assms(1) by simp
  then have "set (take b xs) \<inter> set (drop b xs) = {}" by (simp only: distinct_append)
  moreover have "set (drop e (take lst xs)) \<subseteq> set (drop b xs)"
    using assms(2) set_drop_subset_set_drop [of b e xs] by (auto simp: drop_take dest: in_set_takeD)
  ultimately show ?thesis using assms(1) by auto
qed

section \<open>The contract of the test\<close>

locale eviction_oracle =
  fixes test :: "'m evset_test"
    and target :: uintptr
    and invar :: "'m \<Rightarrow> bool"
    and U :: "uintptr set"
    and evicts :: "uintptr set \<Rightarrow> bool"
  assumes test_ok: "invar m \<Longrightarrow> distinct xs \<Longrightarrow> set xs \<subseteq> U \<Longrightarrow>
      \<exists>m'. test target xs m = Some (evicts (set xs), m') \<and> invar m'"
    and evicts_mono: "X \<subseteq> Y \<Longrightarrow> Y \<subseteq> U \<Longrightarrow> evicts X \<Longrightarrow> evicts Y"
begin

text \<open>
  \<open>reduced xs k xs' l\<close>: the vector \<open>xs'\<close> is a permutation of \<open>xs\<close>, and its first \<open>l\<close> addresses are an eviction
  set made of the first \<open>k\<close> addresses of \<open>xs\<close>.
\<close>

definition reduced :: "uintptr list \<Rightarrow> nat \<Rightarrow> uintptr list \<Rightarrow> nat \<Rightarrow> bool" where
  "reduced xs k xs' l \<longleftrightarrow> mset xs' = mset xs \<and> l \<le> k \<and> set (take l xs') \<subseteq> set (take k xs) \<and>
     evicts (set (take l xs'))"

lemma reduced_refl: "evicts (set (take k xs)) \<Longrightarrow> reduced xs k xs k"
  by (simp add: reduced_def)

lemma reduced_trans: "reduced xs k ys l \<Longrightarrow> reduced ys l zs n \<Longrightarrow> reduced xs k zs n"
  by (auto simp: reduced_def)

text \<open>\<open>crucial xs k i\<close>: the first \<open>k\<close> addresses are no eviction set without the \<open>i\<close>-th of them.\<close>

definition crucial :: "uintptr list \<Rightarrow> nat \<Rightarrow> nat \<Rightarrow> bool" where
  "crucial xs k i \<longleftrightarrow> \<not> evicts (set (take k xs) - {xs ! i})"

lemma crucial_shrink:
  assumes "set xs \<subseteq> U" and "crucial xs k i" and "l \<le> k"
  shows "crucial xs l i"
proof -
  have "set (take l xs) - {xs ! i} \<subseteq> set (take k xs) - {xs ! i}"
    using assms(3) set_take_subset_set_take [of l k xs] by blast
  moreover have "set (take k xs) - {xs ! i} \<subseteq> U" using assms(1) by (auto dest: in_set_takeD)
  ultimately show ?thesis using assms(2) evicts_mono unfolding crucial_def by blast
qed

text \<open>One step of both quadratic loops that keeps a candidate.\<close>

lemma crucial_swap:
  assumes xs: "distinct xs" "set xs \<subseteq> U" and b: "b < e" "e \<le> length xs"
    and old: "\<forall>i < b. crucial xs e i" and new: "\<not> evicts (set (take (e - 1) xs))"
  defines "ys \<equiv> xs[b := xs ! (e - 1), e - 1 := xs ! b]"
  shows "\<forall>i < Suc b. crucial ys e i" and "set (take e ys) = set (take e xs)" and "mset ys = mset xs"
    and "vec_swap b (e - 1) xs = Some ys" and "distinct ys" and "set ys \<subseteq> U" and "length ys = length xs"
proof -
  have m: "mset (take e ys) = mset (take e xs)" unfolding ys_def using b by (intro mset_take_swap) auto
  then show s: "set (take e ys) = set (take e xs)" by (rule mset_eq_setD)
  show ms: "mset ys = mset xs" unfolding ys_def using b by (intro mset_swap) auto
  show "distinct ys" using distinct_of_mset [OF ms] xs(1) by simp
  show "set ys \<subseteq> U" using mset_eq_setD [OF ms] xs(2) by simp
  show "length ys = length xs" by (simp add: ys_def)
  show "vec_swap b (e - 1) xs = Some ys" unfolding ys_def using b by simp
  show "\<forall>i < Suc b. crucial ys e i"
  proof (intro allI impI)
    fix i assume "i < Suc b"
    then consider "i < b" | "i = b" by linarith
    then show "crucial ys e i"
    proof cases
      case 1
      then have "ys ! i = xs ! i" using b by (simp add: ys_def)
      with 1 old s show ?thesis by (simp add: crucial_def)
    next
      case 2
      then have "ys ! i = xs ! (e - 1)" using b by (simp add: ys_def nth_list_update)
      with new s set_take_pred [OF xs(1), of e] b show ?thesis by (simp add: crucial_def)
    qed
  qed
qed

lemma minimize_slow_loop_ok:
  assumes "invar m" and "distinct xs" and "set xs \<subseteq> U" and "b \<le> e" and "e \<le> length xs"
    and "evicts (set (take e xs))" and "\<forall>i < b. crucial xs e i"
  shows "\<exists>l xs' m'. minimize_slow_loop test target b e xs m = Some (l, xs', m') \<and> invar m' \<and>
     reduced xs e xs' l \<and> (\<forall>i < l. crucial xs' l i)"
  using assms
proof (induction "e - b" arbitrary: b e xs m rule: less_induct)
  case less
  show ?case
  proof (cases "b < e")
    case False
    then have "minimize_slow_loop test target b e xs m = Some (e, xs, m)" "b = e"
      using less.prems(4) by (simp_all add: minimize_slow_loop.simps)
    with less.prems(1,7) reduced_refl [OF less.prems(6)] show ?thesis by simp
  next
    case True
    have U: "set (take (e - 1) xs) \<subseteq> U" using less.prems(3) by (auto dest: in_set_takeD)
    from test_ok [OF less.prems(1) distinct_take [OF less.prems(2)] U] obtain m'
      where t: "test target (take (e - 1) xs) m = Some (evicts (set (take (e - 1) xs)), m')" "invar m'" by blast
    show ?thesis
    proof (cases "evicts (set (take (e - 1) xs))")
      case ev: True
      have lt: "e - 1 - b < e - b" using True by simp
      have cr: "\<forall>i < b. crucial xs (e - 1) i" using less.prems(3,7) crucial_shrink by (meson diff_le_self)
      have le: "b \<le> e - 1" "e - 1 \<le> length xs" using True less.prems(5) by simp_all
      from less.hyps [OF lt t(2) less.prems(2,3) le ev cr]
      obtain l xs' m'' where r: "minimize_slow_loop test target b (e - 1) xs m' = Some (l, xs', m'')" "invar m''"
        "reduced xs (e - 1) xs' l" "\<forall>i < l. crucial xs' l i" by blast
      have "reduced xs e xs (e - 1)" using ev set_take_subset_set_take [of "e - 1" e xs] by (simp add: reduced_def)
      note red = reduced_trans [OF this r(3)]
      moreover have "minimize_slow_loop test target b e xs m = minimize_slow_loop test target b (e - 1) xs m'"
        using True ev t(1) by (subst minimize_slow_loop.simps) simp
      ultimately show ?thesis using r(1,2,4) by simp
    next
      case ev: False
      let ?ys = "xs[b := xs ! (e - 1), e - 1 := xs ! b]"
      note sw = crucial_swap [OF less.prems(2,3) True less.prems(5,7) ev]
      have ys: "Suc b \<le> e" "e \<le> length ?ys" "evicts (set (take e ?ys))"
        using sw(2,7) less.prems(5,6) True by simp_all
      have lt: "e - Suc b < e - b" using True by simp
      from less.hyps [OF lt t(2) sw(5,6) ys sw(1)]
      obtain l xs' m'' where r: "minimize_slow_loop test target (Suc b) e ?ys m' = Some (l, xs', m'')" "invar m''"
        "reduced ?ys e xs' l" "\<forall>i < l. crucial xs' l i" by blast
      have "reduced xs e ?ys e" using sw(2,3) ys(3) by (simp add: reduced_def)
      note red = reduced_trans [OF this r(3)]
      moreover have "minimize_slow_loop test target b e xs m = minimize_slow_loop test target (Suc b) e ?ys m'"
        using True ev t(1) sw(4) by (subst minimize_slow_loop.simps) simp
      ultimately show ?thesis using r(1,2,4) by simp
    qed
  qed
qed

text \<open>
  A reduction stops at the wanted size or, with the iterator \<open>first\<close>, when the addresses left contain no
  eviction set of the wanted size.
\<close>

definition reduce_outcome :: "nat \<Rightarrow> uintptr list \<Rightarrow> nat \<Rightarrow> nat \<Rightarrow> uintptr list \<Rightarrow> bool" where
  "reduce_outcome n xs e l xs' \<longleftrightarrow> (l \<le> n \<and> reduced xs e xs' l) \<or>
     (l = 0 \<and> (\<exists>k > n. reduced xs e xs' k \<and> (\<forall>S \<subseteq> set (take k xs'). evicts S \<longrightarrow> n < card S)))"

lemma reduce_outcome_step: "reduced xs e ys k \<Longrightarrow> reduce_outcome n ys k l zs \<Longrightarrow> reduce_outcome n xs e l zs"
  unfolding reduce_outcome_def by (meson reduced_trans)

lemma reduce_outcome_vector:
  assumes "reduce_outcome n xs (length xs) l xs'" and "distinct xs" and "\<not> evicts {}"
  shows "distinct xs'" and "set xs' = set xs"
    and "l \<noteq> 0 \<Longrightarrow> length (take l xs') \<le> n \<and> evicts (set (take l xs')) \<and> set (take l xs') \<subseteq> set xs"
    and "l = 0 \<Longrightarrow> \<exists>Y \<subseteq> set xs. evicts Y \<and> (\<forall>S \<subseteq> Y. evicts S \<longrightarrow> n < card S)"
proof -
  have ms: "mset xs' = mset xs" using assms(1) by (auto simp: reduce_outcome_def reduced_def)
  show "distinct xs'" "set xs' = set xs"
    using distinct_of_mset [OF ms] mset_eq_setD [OF ms] assms(2) by simp_all
  show "l \<noteq> 0 \<Longrightarrow> length (take l xs') \<le> n \<and> evicts (set (take l xs')) \<and> set (take l xs') \<subseteq> set xs"
    using assms(1) by (auto simp: reduce_outcome_def reduced_def)
  assume l: "l = 0"
  then have "\<not> reduced xs (length xs) xs' l" using assms(3) by (simp add: reduced_def)
  with assms(1) obtain k where "reduced xs (length xs) xs' k" "\<forall>S \<subseteq> set (take k xs'). evicts S \<longrightarrow> n < card S"
    by (auto simp: reduce_outcome_def)
  then show "\<exists>Y \<subseteq> set xs. evicts Y \<and> (\<forall>S \<subseteq> Y. evicts S \<longrightarrow> n < card S)"
    by (intro exI [of _ "set (take k xs')"]) (auto simp: reduced_def)
qed

lemma crucial_no_smaller:
  assumes "distinct xs" and "set xs \<subseteq> U" and "k \<le> length xs" and "\<forall>i < k. crucial xs k i"
    and "S \<subseteq> set (take k xs)" and "evicts S"
  shows "card S = k"
proof -
  have "S = set (take k xs)"
  proof (rule ccontr)
    assume "S \<noteq> set (take k xs)"
    then obtain x where "x \<in> set (take k xs)" "x \<notin> S" using assms(5) by blast
    then obtain i where i: "i < k" "xs ! i \<notin> S" by (auto simp: in_set_conv_nth)
    then have "S \<subseteq> set (take k xs) - {xs ! i}" using assms(5) by auto
    moreover have "set (take k xs) - {xs ! i} \<subseteq> U" using assms(2) by (auto dest: in_set_takeD)
    ultimately have "evicts (set (take k xs) - {xs ! i})" using evicts_mono assms(6) by blast
    with assms(4) i(1) show False by (simp add: crucial_def)
  qed
  then show ?thesis using assms(1,3) distinct_card [of "take k xs"] by simp
qed

lemma reduce_slow_loop_ok:
  assumes "invar m" and "distinct xs" and "set xs \<subseteq> U" and "b \<le> e" and "e \<le> length xs"
    and "evicts (set (take e xs))" and "\<forall>i < b. crucial xs e i"
  shows "\<exists>l xs' m'. reduce_slow_loop test target n b e xs m = Some (l, xs', m') \<and> invar m' \<and>
     reduce_outcome n xs e l xs'"
  using assms
proof (induction "e - b" arbitrary: b e xs m rule: less_induct)
  case less
  consider "e \<le> n" | "n < e" "b = e" | "n < e" "b < e" using less.prems(4) by linarith
  then show ?case
  proof cases
    case 1
    then have "reduce_slow_loop test target n b e xs m = Some (e, xs, m)"
      by (subst reduce_slow_loop.simps) simp
    with 1 less.prems reduced_refl show ?thesis by (simp add: reduce_outcome_def)
  next
    case 2
    then have "reduce_slow_loop test target n b e xs m = Some (0, xs, m)"
      by (subst reduce_slow_loop.simps) simp
    moreover have "\<forall>S \<subseteq> set (take e xs). evicts S \<longrightarrow> n < card S"
      using crucial_no_smaller [OF less.prems(2,3,5)] less.prems(7) 2 by auto
    ultimately show ?thesis
      using 2(1) less.prems(1) reduced_refl [OF less.prems(6)] by (auto simp: reduce_outcome_def)
  next
    case 3
    have U: "set (take (e - 1) xs) \<subseteq> U" using less.prems(3) by (auto dest: in_set_takeD)
    from test_ok [OF less.prems(1) distinct_take [OF less.prems(2)] U] obtain m'
      where t: "test target (take (e - 1) xs) m = Some (evicts (set (take (e - 1) xs)), m')" "invar m'" by blast
    show ?thesis
    proof (cases "evicts (set (take (e - 1) xs))")
      case ev: True
      have lt: "e - 1 - b < e - b" using 3 by simp
      have cr: "\<forall>i < b. crucial xs (e - 1) i" using less.prems(3,7) crucial_shrink by (meson diff_le_self)
      have le: "b \<le> e - 1" "e - 1 \<le> length xs" using 3 less.prems(5) by simp_all
      have "reduce_slow_loop test target n b e xs m = reduce_slow_loop test target n b (e - 1) xs m'"
        using 3 ev t(1) by (subst reduce_slow_loop.simps) simp
      moreover have "reduced xs e xs (e - 1)"
        using ev set_take_subset_set_take [of "e - 1" e xs] by (simp add: reduced_def)
      ultimately show ?thesis
        using less.hyps [OF lt t(2) less.prems(2,3) le ev cr] reduce_outcome_step by auto
    next
      case ev: False
      let ?ys = "xs[b := xs ! (e - 1), e - 1 := xs ! b]"
      note sw = crucial_swap [OF less.prems(2,3) 3(2) less.prems(5,7) ev]
      have ys: "Suc b \<le> e" "e \<le> length ?ys" "evicts (set (take e ?ys))"
        using sw(2,7) less.prems(5,6) 3(2) by simp_all
      have lt: "e - Suc b < e - b" using 3 by simp
      have "reduce_slow_loop test target n b e xs m = reduce_slow_loop test target n (Suc b) e ?ys m'"
        using 3 ev t(1) sw(4) by (subst reduce_slow_loop.simps) simp
      moreover have "reduced xs e ?ys e" using sw(2,3) ys(3) by (simp add: reduced_def)
      ultimately show ?thesis using less.hyps [OF lt t(2) sw(5,6) ys sw(1)] reduce_outcome_step by auto
    qed
  qed
qed

text \<open>Minimisation of a whole vector.\<close>

lemma minimize_slow_ok:
  assumes "invar m" and "distinct xs" and "set xs \<subseteq> U" and "evicts (set xs)" and "\<not> evicts {}"
  shows "\<exists>ys m'. minimize_eviction_set_slow test target xs m = Some (True, ys, m') \<and> invar m' \<and>
     distinct ys \<and> set ys \<subseteq> set xs \<and> evicts (set ys) \<and> (\<forall>y \<in> set ys. \<not> evicts (set ys - {y}))"
proof -
  from minimize_slow_loop_ok [OF assms(1-3), of 0 "length xs"] assms(4) obtain l xs' m'
    where r: "minimize_slow_loop test target 0 (length xs) xs m = Some (l, xs', m')" "invar m'"
      "reduced xs (length xs) xs' l" "\<forall>i < l. crucial xs' l i" by auto
  have l0: "l \<noteq> 0" using r(3) assms(5) by (cases l) (auto simp: reduced_def)
  have d: "distinct xs'" and len: "l \<le> length xs'"
    using r(3) assms(2) distinct_of_mset [of xs' xs] mset_eq_length [of xs' xs] by (auto simp: reduced_def)
  have "\<not> evicts (set (take l xs') - {y})" if "y \<in> set (take l xs')" for y
    using that r(4) len by (auto simp: in_set_conv_nth crucial_def)
  moreover have "minimize_eviction_set_slow test target xs m = Some (True, take l xs', m')"
    using r(1) l0 by (simp add: minimize_eviction_set_slow_def)
  ultimately show ?thesis using r(2,3) d by (auto simp: reduced_def)
qed

lemma scan_groups_ok:
  assumes "invar m" and "distinct xs" and "set xs \<subseteq> U" and "b \<le> e"
  shows "\<exists>r m'. scan_groups test target xs lst gs n b e m = Some (r, m') \<and> invar m' \<and>
     (case r of
        Inl (b', e') \<Rightarrow> \<exists>i < n. b' = b + i * gs \<and> e' = e + i * gs \<and>
          evicts (set (take b' xs) \<union> set (drop e' (take lst xs)))
      | Inr (b', e') \<Rightarrow> b' = b + n * gs \<and> e' = e + n * gs \<and>
          (\<forall>i < n. \<not> evicts (set (take (b + i * gs) xs) \<union> set (drop (e + i * gs) (take lst xs)))))"
  using assms(1,4)
proof (induction n arbitrary: b e m)
  case 0
  then show ?case by simp
next
  case (Suc n)
  let ?sub = "take b xs @ drop e (take lst xs)"
  have "set ?sub \<subseteq> U" using assms(3) by (auto dest: in_set_takeD in_set_dropD)
  moreover have "distinct ?sub" using distinct_without_group [OF assms(2) Suc.prems(2)] .
  ultimately obtain m'
    where t: "test target ?sub m = Some (evicts (set ?sub), m')" "invar m'" using test_ok [OF Suc.prems(1)] by blast
  show ?case
  proof (cases "evicts (set ?sub)")
    case True
    with t show ?thesis by (auto intro!: exI [of _ 0])
  next
    case False
    from Suc.IH [OF t(2), of "b + gs" "e + gs"] Suc.prems(2) obtain r m'' where
      r: "scan_groups test target xs lst gs n (b + gs) (e + gs) m' = Some (r, m'')" "invar m''"
      and c: "case r of
        Inl (b', e') \<Rightarrow> \<exists>i < n. b' = b + gs + i * gs \<and> e' = e + gs + i * gs \<and>
          evicts (set (take b' xs) \<union> set (drop e' (take lst xs)))
      | Inr (b', e') \<Rightarrow> b' = b + gs + n * gs \<and> e' = e + gs + n * gs \<and>
          (\<forall>i < n. \<not> evicts (set (take (b + gs + i * gs) xs) \<union> set (drop (e + gs + i * gs) (take lst xs))))"
      by auto
    have s: "scan_groups test target xs lst gs (Suc n) b e m = Some (r, m'')" using t(1) r(1) False by simp
    show ?thesis
    proof (cases r)
      case (Inl be)
      then obtain b' e' i where "r = Inl (b', e')" "i < n" "b' = b + Suc i * gs" "e' = e + Suc i * gs"
        "evicts (set (take b' xs) \<union> set (drop e' (take lst xs)))" using c by (cases be) (auto simp: algebra_simps)
      then show ?thesis using s r(2) by (intro exI [of _ r] exI [of _ m'']) (auto intro!: exI [of _ "Suc i"])
    next
      case (Inr be)
      have "\<not> evicts (set (take (b + i * gs) xs) \<union> set (drop (e + i * gs) (take lst xs)))" if "i < Suc n" for i
        using that c Inr False by (cases i) (auto simp: algebra_simps)
      then show ?thesis using s r(2) c Inr by (auto simp: algebra_simps)
    qed
  qed
qed

definition without_group :: "uintptr list \<Rightarrow> nat \<Rightarrow> nat \<Rightarrow> nat \<Rightarrow> uintptr set" where
  "without_group xs lst b e = set (take b xs) \<union> set (drop e (take lst xs))"

lemma without_groupI:
  assumes "lst \<le> length xs" and "t < lst" and "t < b \<or> e \<le> t"
  shows "xs ! t \<in> without_group xs lst b e"
proof (cases "t < b")
  case True
  then have "take b xs ! t = xs ! t" "t < length (take b xs)" using assms(1,2) by simp_all
  then show ?thesis unfolding without_group_def by (metis UnI1 nth_mem)
next
  case False
  then have "drop e (take lst xs) ! (t - e) = xs ! t" "t - e < length (drop e (take lst xs))"
    using assms by auto
  then show ?thesis unfolding without_group_def by (metis UnI2 nth_mem)
qed

lemma without_groupE:
  assumes "x \<in> without_group xs lst b e" and "lst \<le> length xs"
  obtains t where "t < b \<or> (e \<le> t \<and> t < lst)" and "x = xs ! t"
proof (cases "x \<in> set (take b xs)")
  case True
  then obtain t where "t < b" "x = xs ! t" by (auto simp: in_set_conv_nth)
  then show ?thesis using that by blast
next
  case False
  then have "x \<in> set (drop e (take lst xs))" using assms(1) by (simp add: without_group_def)
  then obtain i where "i < lst - e" "x = xs ! (e + i)" using assms(2) by (auto simp: in_set_conv_nth)
  then show ?thesis using that [of "e + i"] by linarith
qed

lemma find_group_ok:
  assumes "invar m" and "distinct xs" and "set xs \<subseteq> U" and "g \<le> n"
  shows "\<exists>r m'. find_group test target xs lst k g (n - g) m = Some (r, m') \<and> invar m' \<and>
     (case r of
        Some (b, e) \<Rightarrow> \<exists>i < n. b = group_bound k g i \<and> e = group_bound k g (Suc i) \<and> evicts (without_group xs lst b e)
      | None \<Rightarrow> \<forall>i < n. \<not> evicts (without_group xs lst (group_bound k g i) (group_bound k g (Suc i))))"
proof -
  have lo: "group_bound k g i = i * (k + 1)" "group_bound k g (Suc i) = k + 1 + i * (k + 1)" if "i < g" for i
    using that by (simp_all add: group_bound_def algebra_simps)
  have hi: "group_bound k g (g + i) = g * (k + 1) + i * k"
    "group_bound k g (Suc (g + i)) = k + 1 + g * (k + 1) - 1 + i * k" for i
    by (simp_all add: group_bound_def algebra_simps)
  from scan_groups_ok [OF assms(1-3), of 0 "k + 1" lst "k + 1" g] obtain r m1 where
    s1: "scan_groups test target xs lst (k + 1) g 0 (k + 1) m = Some (r, m1)" "invar m1"
    and c1: "case r of
        Inl (b', e') \<Rightarrow> \<exists>i < g. b' = 0 + i * (k + 1) \<and> e' = k + 1 + i * (k + 1) \<and>
          evicts (set (take b' xs) \<union> set (drop e' (take lst xs)))
      | Inr (b', e') \<Rightarrow> b' = 0 + g * (k + 1) \<and> e' = k + 1 + g * (k + 1) \<and>
          (\<forall>i < g. \<not> evicts (set (take (0 + i * (k + 1)) xs) \<union> set (drop (k + 1 + i * (k + 1)) (take lst xs))))"
    by auto
  show ?thesis
  proof (cases r)
    case (Inl be)
    with s1 have "find_group test target xs lst k g (n - g) m = Some (Some be, m1)"
      by (simp add: find_group_def)
    moreover obtain i where i: "i < g" "be = (i * (k + 1), k + 1 + i * (k + 1))"
      "evicts (without_group xs lst (fst be) (snd be))"
      using c1 Inl by (cases be) (auto simp: without_group_def)
    ultimately show ?thesis using s1(2) lo [OF i(1)] assms(4)
      by (intro exI [of _ "Some be"] exI [of _ m1]) (auto intro!: exI [of _ i])
  next
    case (Inr be)
    then have be: "be = (g * (k + 1), k + 1 + g * (k + 1))" using c1 by (cases be) simp
    have low: "\<not> evicts (without_group xs lst (group_bound k g i) (group_bound k g (Suc i)))" if "i < g" for i
      using c1 Inr that lo [OF that] by (cases be) (simp add: without_group_def)
    from scan_groups_ok [OF s1(2) assms(2,3), of "g * (k + 1)" "k + 1 + g * (k + 1) - 1" lst k "n - g"]
    obtain r' m2 where
      s2: "scan_groups test target xs lst k (n - g) (g * (k + 1)) (k + 1 + g * (k + 1) - 1) m1 = Some (r', m2)" "invar m2"
      and c2: "case r' of
        Inl (b', e') \<Rightarrow> \<exists>i < n - g. b' = g * (k + 1) + i * k \<and> e' = k + 1 + g * (k + 1) - 1 + i * k \<and>
          evicts (set (take b' xs) \<union> set (drop e' (take lst xs)))
      | Inr (b', e') \<Rightarrow> b' = g * (k + 1) + (n - g) * k \<and> e' = k + 1 + g * (k + 1) - 1 + (n - g) * k \<and>
          (\<forall>i < n - g. \<not> evicts (set (take (g * (k + 1) + i * k) xs) \<union>
             set (drop (k + 1 + g * (k + 1) - 1 + i * k) (take lst xs))))"
      by auto
    show ?thesis
    proof (cases r')
      case (Inl be')
      with s1 s2 Inr be have "find_group test target xs lst k g (n - g) m = Some (Some be', m2)"
        by (simp add: find_group_def)
      moreover obtain i where "i < n - g" "fst be' = group_bound k g (g + i)" "snd be' = group_bound k g (Suc (g + i))"
        "evicts (without_group xs lst (fst be') (snd be'))"
        using c2 Inl by (cases be') (auto simp: without_group_def hi)
      ultimately show ?thesis using s2(2) assms(4)
        by (intro exI [of _ "Some be'"] exI [of _ m2]) (auto simp: case_prod_beta intro!: exI [of _ "g + i"])
    next
      case (Inr be')
      have high: "\<not> evicts (without_group xs lst (group_bound k g i) (group_bound k g (Suc i)))"
        if "g \<le> i" "i < n" for i
        using c2 Inr that hi [of "i - g"] by (cases be') (auto simp: without_group_def)
      have "find_group test target xs lst k g (n - g) m = Some (None, m2)"
        using s1 s2 \<open>r = Inr be\<close> Inr be by (cases be') (simp add: find_group_def)
      moreover have "\<not> evicts (without_group xs lst (group_bound k g i) (group_bound k g (Suc i)))" if "i < n" for i
        using low high that by (cases "i < g") auto
      ultimately show ?thesis using s2(2) by (intro exI [of _ None] exI [of _ m2]) simp
    qed
  qed
qed

text \<open>Removing the group that was found.\<close>

lemma remove_group_ok:
  assumes "set xs \<subseteq> U" and "lst \<le> length xs" and "b + k \<le> e" and "e + k \<le> lst"
    and "evicts (without_group xs lst b e)"
  shows "\<exists>ys. swap_ranges k (lst - k) b xs = Some ys \<and> reduced xs lst ys (lst - k)"
proof -
  have "b + k \<le> lst - k" "lst - k + k \<le> length xs" using assms(2-4) by linarith+
  from swap_ranges_ok [OF this] obtain ys where
    ys: "swap_ranges k (lst - k) b xs = Some ys" "mset ys = mset xs"
    and nth: "\<And>t. t < length xs \<Longrightarrow> ys ! t = (if b \<le> t \<and> t < b + k then xs ! (t - b + (lst - k))
        else if lst - k \<le> t \<and> t < lst - k + k then xs ! (t - (lst - k) + b) else xs ! t)" by blast
  have len: "length ys = length xs" using ys(2) by (rule mset_eq_length)
  have in_ys: "\<exists>t < lst - k. ys ! t = x" if "x \<in> without_group xs lst b e" for x
  proof -
    from that assms(2) obtain t where t: "t < b \<or> (e \<le> t \<and> t < lst)" "x = xs ! t" by (rule without_groupE)
    show ?thesis
    proof (cases "t < lst - k")
      case True
      with t assms(2-4) nth [of t] show ?thesis by (intro exI [of _ t]) auto
    next
      case False
      let ?u = "t - (lst - k) + b"
      from False t assms(2-4) have "?u < b + k" "b \<le> ?u" "?u < lst - k" "?u - b + (lst - k) = t" by auto
      with t assms(2-4) nth [of ?u] show ?thesis by (intro exI [of _ ?u]) auto
    qed
  qed
  have sub: "set (take (lst - k) ys) \<subseteq> set (take lst xs)"
  proof
    fix x assume "x \<in> set (take (lst - k) ys)"
    then obtain t where t: "t < lst - k" "x = ys ! t" by (auto simp: in_set_conv_nth)
    have "\<exists>u < lst. x = xs ! u"
    proof (cases "b \<le> t \<and> t < b + k")
      case True
      then have "t - b + (lst - k) < lst" using assms(2-4) by linarith
      then show ?thesis using nth [of t] t True assms(2) by (intro exI [of _ "t - b + (lst - k)"]) auto
    next
      case False
      then show ?thesis using nth [of t] t assms(2) by (intro exI [of _ t]) auto
    qed
    then show "x \<in> set (take lst xs)" using assms(2) by (auto simp: in_set_conv_nth)
  qed
  moreover have "without_group xs lst b e \<subseteq> set (take (lst - k) ys)"
  proof
    fix x assume "x \<in> without_group xs lst b e"
    from in_ys [OF this] show "x \<in> set (take (lst - k) ys)"
      using assms(2) len by (auto simp: in_set_conv_nth)
  qed
  moreover have "set (take (lst - k) ys) \<subseteq> U" using sub assms(1) by (auto dest: in_set_takeD)
  ultimately have "evicts (set (take (lst - k) ys))" using evicts_mono assms(5) by blast
  with ys sub show ?thesis by (auto simp: reduced_def)
qed

text \<open>Pigeonhole: an eviction set with fewer addresses than there are groups avoids one group.\<close>

lemma group_avoided:
  assumes "distinct xs" and "set xs \<subseteq> U" and "lst \<le> length xs"
    and S: "S \<subseteq> set (take lst xs)" "evicts S" "card S < n" and B: "\<And>i. B i \<le> B (Suc i)"
  shows "\<exists>i < n. evicts (without_group xs lst (B i) (B (Suc i)))"
proof -
  have "\<exists>i < n. S \<subseteq> without_group xs lst (B i) (B (Suc i))"
  proof (rule ccontr)
    assume none: "\<not> ?thesis"
    have "\<exists>j. B i \<le> j \<and> j < B (Suc i) \<and> j < lst \<and> xs ! j \<in> S" if i: "i < n" for i
    proof -
      from none i obtain x where x: "x \<in> S" "x \<notin> without_group xs lst (B i) (B (Suc i))" by blast
      then have "x \<in> set (take lst xs)" using S(1) by blast
      then obtain j where j: "j < lst" "x = xs ! j" by (auto simp: in_set_conv_nth)
      have "B i \<le> j \<and> j < B (Suc i)" using x(2) j without_groupI [OF assms(3) j(1)] by (meson not_le)
      then show ?thesis using x(1) j by auto
    qed
    then obtain f where f: "\<And>i. i < n \<Longrightarrow> B i \<le> f i \<and> f i < B (Suc i) \<and> f i < lst \<and> xs ! f i \<in> S" by metis
    have mono: "i \<le> i' \<Longrightarrow> B i \<le> B i'" for i i' using B by (rule lift_Suc_mono_le)
    have "i = i'" if "i < n" "i' < n" "xs ! f i = xs ! f i'" for i i'
    proof -
      have "f i = f i'" using that f assms(1,3) by (metis nth_eq_iff_index_eq less_le_trans)
      then show ?thesis using f [OF that(1)] f [OF that(2)] mono [of "Suc i" i'] mono [of "Suc i'" i]
        by (metis leD le_less_trans linorder_cases Suc_leI less_le_trans)
    qed
    then have "inj_on (\<lambda>i. xs ! f i) {..<n}" by (auto simp: inj_on_def)
    moreover have "(\<lambda>i. xs ! f i) ` {..<n} \<subseteq> S" using f by auto
    moreover have "finite S" using S(1) finite_subset by blast
    ultimately have "n \<le> card S" using card_inj_on_le [of "\<lambda>i. xs ! f i" "{..<n}" S] by simp
    with S(3) show False by simp
  qed
  then obtain i where i: "i < n" "S \<subseteq> without_group xs lst (B i) (B (Suc i))" by blast
  moreover have "without_group xs lst (B i) (B (Suc i)) \<subseteq> U"
    using assms(2) by (auto simp: without_group_def dest: in_set_takeD in_set_dropD)
  ultimately show ?thesis using evicts_mono S(2) by blast
qed

text \<open>The group reduction, from any prefix on.\<close>

lemma reduce_loop_ok:
  assumes "invar m" and "distinct xs" and "set xs \<subseteq> U" and "lst \<le> length xs" and "evicts (set (take lst xs))"
  shows "\<exists>l xs' m'. reduce_loop test target n lst lst xs m = Some (l, xs', m') \<and> invar m' \<and>
     reduce_outcome n xs lst l xs'"
  using assms
proof (induction lst arbitrary: xs m rule: less_induct)
  case (less lst)
  show ?case
  proof (cases "n < lst")
    case False
    then have "reduce_loop test target n lst lst xs m = Some (lst, xs, m)" by (simp add: reduce_loop.simps)
    with False less.prems reduced_refl show ?thesis by (simp add: reduce_outcome_def)
  next
    case True
    let ?k = "lst div Suc n" let ?g = "lst mod ?k"
    note ar = group_arith [OF True]
    have g: "?g \<le> Suc n" using ar(2) by simp
    from find_group_ok [OF less.prems(1-3) g, of lst ?k] obtain r m' where
      r: "find_group test target xs lst ?k ?g (Suc n - ?g) m = Some (r, m')" "invar m'"
      and c: "case r of
        Some (b, e) \<Rightarrow> \<exists>i < Suc n. b = group_bound ?k ?g i \<and> e = group_bound ?k ?g (Suc i) \<and>
          evicts (without_group xs lst b e)
      | None \<Rightarrow> \<forall>i < Suc n. \<not> evicts (without_group xs lst (group_bound ?k ?g i) (group_bound ?k ?g (Suc i)))"
      by blast
    show ?thesis
    proof (cases r)
      case None
      have "n < card S" if S: "S \<subseteq> set (take lst xs)" "evicts S" for S
      proof (rule ccontr)
        assume "\<not> n < card S"
        then have "card S < Suc n" by simp
        from group_avoided [OF less.prems(2-4) S this, of "group_bound ?k ?g"] group_bound_mono None c
        show False by auto
      qed
      moreover have "reduce_loop test target n lst lst xs m = Some (0, xs, m')"
        using True r(1) None by (subst reduce_loop.simps) (simp add: Let_def)
      ultimately show ?thesis
        using True r(2) reduced_refl [OF less.prems(5)] by (auto simp: reduce_outcome_def)
    next
      case (Some be)
      obtain b e where be: "be = (b, e)" by fastforce
      with c Some obtain i where i: "i < Suc n" "b = group_bound ?k ?g i" "e = group_bound ?k ?g (Suc i)"
        and ev: "evicts (without_group xs lst b e)" by auto
      have bk: "b + ?k \<le> e" and e: "e = lst \<and> b + ?k = lst \<or> e + ?k \<le> lst" and k0: "0 < ?k"
        using ar(1) ar(3,4) [OF i(1)] i(2,3) by auto
      have lt: "lst - ?k < lst" using k0 True by simp
      show ?thesis
      proof (cases "e = lst")
        case el: True
        then have b: "b = lst - ?k" using e k0 by auto
        have "reduced xs lst xs b" using ev el b set_take_subset_set_take [of b lst xs]
          by (simp add: reduced_def without_group_def)
        moreover have "reduce_loop test target n lst lst xs m = reduce_loop test target n (lst - ?k) (lst - ?k) xs m'"
          using True r(1) Some be el b by (subst reduce_loop.simps) (simp add: Let_def)
        moreover have "evicts (set (take (lst - ?k) xs))" using calculation(1) b by (simp add: reduced_def)
        moreover have "lst - ?k \<le> length xs" using less.prems(4) by simp
        ultimately show ?thesis
          using less.IH [OF lt r(2) less.prems(2,3)] reduce_outcome_step b by auto
      next
        case False
        then have "e + ?k \<le> lst" using e by simp
        from remove_group_ok [OF less.prems(3,4) bk this ev] obtain ys
          where ys: "swap_ranges ?k (lst - ?k) b xs = Some ys" "reduced xs lst ys (lst - ?k)" by blast
        have step: "reduce_loop test target n lst lst xs m = reduce_loop test target n (lst - ?k) (lst - ?k) ys m'"
          using True r(1) Some be False ys(1) by (subst reduce_loop.simps) (simp add: Let_def)
        have ok: "distinct ys" "set ys \<subseteq> U" "lst - ?k \<le> length ys" "evicts (set (take (lst - ?k) ys))"
          using ys(2) less.prems(2-4) distinct_of_mset [of ys xs] mset_eq_setD [of ys xs] mset_eq_length [of ys xs]
          by (auto simp: reduced_def)
        from less.IH [OF lt r(2) ok] step reduce_outcome_step [OF ys(2)] show ?thesis by auto
      qed
    qed
  qed
qed

lemma reduce_ok:
  assumes "invar m" and "distinct xs" and "set xs \<subseteq> U" and "evicts (set xs)" and "\<not> evicts {}"
  shows "\<exists>b ys m'. reduce_eviction_set test target n xs m = Some (b, ys, m') \<and> invar m' \<and> distinct ys \<and>
     set ys \<subseteq> set xs \<and> (if b then length ys \<le> n \<and> evicts (set ys)
       else \<exists>Y \<subseteq> set xs. evicts Y \<and> (\<forall>S \<subseteq> Y. evicts S \<longrightarrow> n < card S))"
proof -
  from reduce_loop_ok [OF assms(1-3), of "length xs" n] assms(4) obtain l xs' m' where
    r: "reduce_loop test target n (length xs) (length xs) xs m = Some (l, xs', m')" "invar m'"
    "reduce_outcome n xs (length xs) l xs'" by auto
  from reduce_outcome_vector [OF r(3) assms(2,5)] r(1,2) show ?thesis
    by (cases "l = 0") (auto simp: reduce_eviction_set_def reduce_eviction_set_it_def)
qed

lemma reduce_slow_ok:
  assumes "invar m" and "distinct xs" and "set xs \<subseteq> U" and "evicts (set xs)" and "\<not> evicts {}"
  shows "\<exists>b ys m'. reduce_eviction_set_slow test target n xs m = Some (b, ys, m') \<and> invar m' \<and> distinct ys \<and>
     set ys \<subseteq> set xs \<and> (if b then length ys \<le> n \<and> evicts (set ys)
       else \<exists>Y \<subseteq> set xs. evicts Y \<and> (\<forall>S \<subseteq> Y. evicts S \<longrightarrow> n < card S))"
proof -
  from reduce_slow_loop_ok [OF assms(1-3), of 0 "length xs" n] assms(4) obtain l xs' m' where
    r: "reduce_slow_loop test target n 0 (length xs) xs m = Some (l, xs', m')" "invar m'"
    "reduce_outcome n xs (length xs) l xs'" by auto
  from reduce_outcome_vector [OF r(3) assms(2,5)] r(1,2) show ?thesis
    by (cases "l = 0") (auto simp: reduce_eviction_set_slow_def)
qed

end

section \<open>Bounded associativity\<close>

locale bounded_oracle = eviction_oracle +
  fixes assoc :: nat
  assumes evicts_bounded: "evicts X \<Longrightarrow> X \<subseteq> U \<Longrightarrow> \<exists>S \<subseteq> X. evicts S \<and> card S \<le> assoc"
begin

lemma reduce_succeeds:
  assumes "invar m" and "distinct xs" and "set xs \<subseteq> U" and "evicts (set xs)" and "\<not> evicts {}" and "assoc \<le> n"
  shows "\<exists>ys m'. reduce_eviction_set test target n xs m = Some (True, ys, m') \<and> invar m' \<and> distinct ys \<and>
     set ys \<subseteq> set xs \<and> length ys \<le> n \<and> evicts (set ys)"
proof -
  from reduce_ok [OF assms(1-5), of n] obtain b ys m' where
    r: "reduce_eviction_set test target n xs m = Some (b, ys, m')" "invar m'" "distinct ys" "set ys \<subseteq> set xs"
    and c: "if b then length ys \<le> n \<and> evicts (set ys)
       else \<exists>Y \<subseteq> set xs. evicts Y \<and> (\<forall>S \<subseteq> Y. evicts S \<longrightarrow> n < card S)" by blast
  have b
  proof (rule ccontr)
    assume "\<not> b"
    with c obtain Y where "Y \<subseteq> set xs" "evicts Y" "\<forall>S \<subseteq> Y. evicts S \<longrightarrow> n < card S" by auto
    moreover from this obtain S where "S \<subseteq> Y" "evicts S" "card S \<le> assoc"
      using evicts_bounded [of Y] assms(3) by blast
    ultimately show False using assms(6) by (meson leD le_trans)
  qed
  with r c show ?thesis by auto
qed

end

section \<open>Exact tests\<close>

text \<open>
  The addresses of \<open>X\<close> that are placed in the set of the target.
\<close>

definition congruent :: "(uintptr \<Rightarrow> nat) \<Rightarrow> uintptr \<Rightarrow> uintptr set \<Rightarrow> uintptr set" where
  "congruent pl target X = {x \<in> X. pl x = pl target}"

lemma congruent_mono: "X \<subseteq> Y \<Longrightarrow> card (congruent pl target X) \<le> card (congruent pl target Y)"
  by (intro card_mono) (auto simp: congruent_def)

text \<open>
  A test over a memory with placement \<open>pl\<close> and \<open>n\<close> ways: it reports an eviction exactly when \<open>n\<close> of the given
  addresses are placed in the set of the target. Some tests work only on lists without repetitions or on
  part of the memory; \<open>adm\<close> are the lists the test is exact on, at least those of different addresses from \<open>A\<close>.
\<close>

locale exact_test =
  fixes test :: "'m evset_test"
    and invar :: "'m \<Rightarrow> bool"
    and pl :: "uintptr \<Rightarrow> nat"
    and n :: nat
    and A :: "uintptr set"
    and adm :: "uintptr list \<Rightarrow> bool"
  assumes ways_pos: "invar m \<Longrightarrow> 0 < n"
    and adm_distinct: "distinct xs \<Longrightarrow> set xs \<subseteq> A \<Longrightarrow> adm xs"
    and adm_part: "adm xs \<Longrightarrow> mset ys \<subseteq># mset xs \<Longrightarrow> adm ys"
    and test_exact: "invar m \<Longrightarrow> adm xs \<Longrightarrow> target \<notin> set xs \<Longrightarrow>
      \<exists>m'. test target xs m = Some (n \<le> card (congruent pl target (set xs)), m') \<and> invar m'"

sublocale exact_test \<subseteq> reduction: bounded_oracle test target invar "A - {target}" "\<lambda>X. n \<le> card (congruent pl target X)" n
  for target
proof
  show "\<exists>m'. test target xs m = Some (n \<le> card (congruent pl target (set xs)), m') \<and> invar m'"
    if "invar m" "distinct xs" "set xs \<subseteq> A - {target}" for m xs
    using that by (intro test_exact adm_distinct) auto
  show "n \<le> card (congruent pl target Y)" if "X \<subseteq> Y" "n \<le> card (congruent pl target X)" for X Y
    using congruent_mono [OF that(1), of pl target] that(2) by simp
  show "\<exists>S \<subseteq> X. n \<le> card (congruent pl target S) \<and> card S \<le> n" if ev: "n \<le> card (congruent pl target X)" for X
  proof -
    obtain S where S: "S \<subseteq> congruent pl target X" "card S = n"
      using obtain_subset_with_card_n [OF ev] by blast
    then have "congruent pl target S = S" by (auto simp: congruent_def)
    with S show ?thesis by (intro exI [of _ S]) (auto simp: congruent_def)
  qed
qed

text \<open>A set of at most \<open>n\<close> addresses that evicts consists of \<open>n\<close> addresses of the set of the target.\<close>

lemma exact_eviction_set:
  assumes "distinct ys" and "length ys \<le> n" and "n \<le> card (congruent pl target (set ys))"
  shows "length ys = n \<and> (\<forall>y \<in> set ys. pl y = pl target)"
proof -
  have sub: "congruent pl target (set ys) \<subseteq> set ys" by (auto simp: congruent_def)
  then have "card (congruent pl target (set ys)) \<le> card (set ys)" by (intro card_mono) simp_all
  moreover have "card (set ys) = length ys" using assms(1) by (rule distinct_card)
  ultimately have len: "length ys = n" "card (congruent pl target (set ys)) = card (set ys)" using assms(2,3) by linarith+
  then have "congruent pl target (set ys) = set ys" using sub by (intro card_subset_eq) simp_all
  with len(1) show ?thesis by (auto simp: congruent_def)
qed

end
