(* ===== verification/CH_Lru_Eviction.thy ===== *)
theory CH_Lru_Eviction
  imports CH_Lru_Stack CH_Measure CH_Eviction_Sets
begin

text \<open>
  Eviction sets on the simulated memory with an LRU first level. From every state, accessing a target and
  then a list of other addresses evicts the target exactly when at least as many different addresses as
  there are ways were accessed in the set of the target. This makes \<open>unsafe_is_eviction_set\<close> a test in the
  sense of \<open>exact_test\<close>, and the reductions return what their
  documentation promises.
\<close>

section \<open>The recently used part of an LRU set\<close>

text \<open>\<open>lru_push n a D\<close>: the list of recently used addresses after an access to \<open>a\<close>, cut at \<open>n\<close>.\<close>

definition lru_push :: "nat \<Rightarrow> 'a \<Rightarrow> 'a list \<Rightarrow> 'a list" where
  "lru_push n a D = take n (a # removeAll a D)"

text \<open>\<open>recent n D c p\<close>: the first ways in LRU order hold the addresses \<open>D\<close>; nothing is known of the others.\<close>

definition recent :: "nat \<Rightarrow> 'a list \<Rightarrow> 'a option list \<Rightarrow> lru_replacement_policy \<Rightarrow> bool" where
  "recent n D c p \<longleftrightarrow> lru_set_wf n c p \<and> distinct D \<and> length D \<le> n \<and>
     take (length D) (lru_contents c p) = map Some D"

lemma recent_none: "lru_set_wf n c p \<Longrightarrow> recent n [] c p"
  by (simp add: recent_def)

lemma recent_mem:
  assumes "recent n D c p"
  shows "a \<in> set D \<Longrightarrow> Some a \<in> set c" and "length D = n \<Longrightarrow> Some a \<in> set c \<longleftrightarrow> a \<in> set D"
proof -
  have wf: "lru_set_wf n c p" and t: "take (length D) (lru_contents c p) = map Some D"
    using assms by (simp_all add: recent_def)
  assume "a \<in> set D"
  then have "Some a \<in> set (take (length D) (lru_contents c p))" using t by simp
  then show "Some a \<in> set c" using set_lru_contents [OF wf] by (auto dest: in_set_takeD)
next
  have wf: "lru_set_wf n c p" and t: "take (length D) (lru_contents c p) = map Some D"
    using assms by (simp_all add: recent_def)
  assume "length D = n"
  then have "set (lru_contents c p) = Some ` set D" using t length_lru_contents [OF wf] by simp
  then show "Some a \<in> set c \<longleftrightarrow> a \<in> set D" using set_lru_contents [OF wf] by auto
qed

text \<open>Moving an entry that is not among the first \<open>k\<close> to the front.\<close>

lemma take_removeAll_beyond:
  assumes "x \<notin> set (take k L)" and "k \<le> length L"
  shows "take k (removeAll x L) = take k L"
proof -
  have "removeAll x L = removeAll x (take k L) @ removeAll x (drop k L)"
    using arg_cong [OF append_take_drop_id [of k L, symmetric], of "removeAll x"]
    by (simp only: removeAll_append)
  also have "removeAll x (take k L) = take k L" using assms(1) by simp
  finally show ?thesis using assms(2) by simp
qed

lemma take_push_cases:
  "0 < n \<Longrightarrow> length D \<le> n \<Longrightarrow> distinct D \<Longrightarrow>
   lru_push n a D = (if a \<in> set D then a # removeAll a D else if length D < n then a # D else a # butlast D)"
proof -
  assume n: "0 < n" "length D \<le> n" "distinct D"
  obtain k where k: "n = Suc k" using n(1) by (cases n) auto
  show ?thesis
  proof (cases "a \<in> set D")
    case True
    then have "length (removeAll a D) = length D - 1"
      using n(3) by (simp add: distinct_remove1_removeAll [symmetric] length_remove1)
    with True n k show ?thesis by (simp add: lru_push_def)
  next
    case False
    with n k show ?thesis by (auto simp: lru_push_def butlast_conv_take)
  qed
qed

lemma recent_hit:
  assumes r: "recent n D c p" and a: "Some a \<in> set c"
    and L: "lru_contents c q = Some a # removeAll (Some a) (lru_contents c p)" and q: "lru_set_wf n c q"
  shows "recent n (lru_push n a D) c q"
proof -
  let ?L = "lru_contents c p"
  have wf: "lru_set_wf n c p" and t: "take (length D) ?L = map Some D" and D: "distinct D" "length D \<le> n"
    using r by (simp_all add: recent_def)
  have n: "0 < n" and len: "length ?L = n" using lru_set_wfD(6) [OF wf] length_lru_contents [OF wf] by simp_all
  have aL: "Some a \<in> set ?L" using a set_lru_contents [OF wf] by simp
  show ?thesis
  proof (cases "a \<in> set D")
    case True
    then obtain k where k: "length D = Suc k" by (cases D) auto
    have "take k (removeAll (Some a) ?L) = map Some (removeAll a D)"
    proof -
      have s: "?L = map Some D @ drop (length D) ?L" using append_take_drop_id [of "length D" ?L] t by simp
      then have "removeAll (Some a) ?L = removeAll (Some a) (map Some D) @ removeAll (Some a) (drop (length D) ?L)"
        using removeAll_append [of "Some a" "map Some D" "drop (length D) ?L"] by simp
      moreover have "removeAll (Some a) (map Some D) = map Some (removeAll a D)"
        by (simp add: removeAll_filter_not_eq filter_map comp_def)
      moreover have "length (removeAll a D) = k"
        using True D(1) k by (simp add: distinct_remove1_removeAll [symmetric] length_remove1)
      ultimately show ?thesis by simp
    qed
    moreover have "length (removeAll a D) = k"
      using True D(1) k by (simp add: distinct_remove1_removeAll [symmetric] length_remove1)
    ultimately show ?thesis
      using True q D L k take_push_cases [OF n D(2,1), of a] by (simp add: recent_def distinct_removeAll)
  next
    case False
    then have nin: "Some a \<notin> set (take (length D) ?L)" using t by auto
    have "length D < n"
    proof (rule ccontr)
      assume "\<not> length D < n"
      then have "take (length D) ?L = ?L" using len D(2) by simp
      with nin aL show False by simp
    qed
    moreover have "take (length D) (removeAll (Some a) ?L) = map Some D"
      using take_removeAll_beyond [OF nin] t len D(2) by simp
    ultimately show ?thesis using False q D L take_push_cases [OF n D(2,1), of a] by (simp add: recent_def)
  qed
qed

lemma recent_miss:
  assumes r: "recent n D c p" and a: "Some a \<notin> set c"
    and L: "lru_contents c' q = Some a # butlast (lru_contents c p)" and q: "lru_set_wf n c' q"
  shows "recent n (lru_push n a D) c' q"
proof -
  let ?L = "lru_contents c p"
  have wf: "lru_set_wf n c p" and t: "take (length D) ?L = map Some D" and D: "distinct D" "length D \<le> n"
    using r by (simp_all add: recent_def)
  have n: "0 < n" and len: "length ?L = n" using lru_set_wfD(6) [OF wf] length_lru_contents [OF wf] by simp_all
  have nD: "a \<notin> set D" using a recent_mem(1) [OF r] by blast
  show ?thesis
  proof (cases "length D < n")
    case True
    then have "length D \<le> n - 1" by simp
    then have "take (length D) (butlast ?L) = map Some D" using t len by (simp add: butlast_conv_take min_def)
    with True nD D L q take_push_cases [OF n D(2,1), of a] show ?thesis by (simp add: recent_def)
  next
    case False
    then have "?L = map Some D" using t len D(2) by simp
    then have "butlast ?L = map Some (butlast D)" by (simp add: map_butlast)
    moreover have "length (butlast D) = n - 1" using False D(2) by simp
    ultimately show ?thesis
      using False nD D L q n take_push_cases [OF n D(2,1), of a]
      by (auto simp: recent_def distinct_butlast dest: in_set_butlastD)
  qed
qed

lemma recent_step:
  assumes "recent n D c p"
  shows "\<exists>c' q. ref_step any_hit any_miss a c (Any_Lru p) = Some (Some a \<in> set c, c', Any_Lru q) \<and>
     recent n (lru_push n a D) c' q"
proof (cases "Some a \<in> set c")
  case True
  from lru_contents_hit [of n c p a] assms True obtain q where
    "lru_hit (std_find c (Some a)) p = Some q" "lru_set_wf n c q"
    "lru_contents c q = Some a # removeAll (Some a) (lru_contents c p)" by (auto simp: recent_def)
  with recent_hit [OF assms True] True show ?thesis by (auto simp: ref_step_def)
next
  case False
  from lru_contents_miss [of n c p a] assms False obtain w q where
    "lru_miss p = Some (w, q)" "lru_set_wf n (c[w := Some a]) q"
    "lru_contents (c[w := Some a]) q = Some a # butlast (lru_contents c p)" by (auto simp: recent_def)
  with recent_miss [OF assms False] False show ?thesis by (auto simp: ref_step_def)
qed

section \<open>Memories with an LRU first level\<close>

definition lru_memory :: "(uintptr \<Rightarrow> nat) \<Rightarrow> nat \<Rightarrow> simulated_memory \<Rightarrow> bool" where
  "lru_memory pl n m \<longleftrightarrow> first_level pl m \<and> sac_ways (sm_caches m ! 0) = n \<and>
     (\<forall>s < cache_nsets (sm_caches m ! 0). \<exists>p. cache_policies (sm_caches m ! 0) ! s = Any_Lru p)"

definition recent_at :: "nat \<Rightarrow> nat \<Rightarrow> uintptr list \<Rightarrow> simulated_memory \<Rightarrow> bool" where
  "recent_at n s D m \<longleftrightarrow> s < cache_nsets (sm_caches m ! 0) \<and>
     (\<exists>p. snd (set_view s m) = Any_Lru p \<and> recent n D (fst (set_view s m)) p)"

lemma set_wf_lru:
  assumes "any.set_wf c (Any_Lru p)"
  shows "lru_set_wf (lru_ways p) c p"
proof -
  have "tags_once c"
    using assms filter_distinct_nth [of "\<lambda>x. x \<noteq> None" c] by (auto simp: tags_once_def any.set_wf_def)
  then show ?thesis using assms by (simp add: lru_set_wf_def any.set_wf_def)
qed

lemma recent_at_none:
  assumes "lru_memory pl n m"
  shows "recent_at n (pl a) [] m"
proof -
  let ?c = "sm_caches m ! 0"
  have wf: "cache_wf ?c" and pl: "cache_place ?c = pl" and w: "sac_ways ?c = n"
    using assms by (auto simp: lru_memory_def first_level_def sm_wf_def)
  have s: "pl a < cache_nsets ?c" using cache_wf_place [OF wf, of a] pl by simp
  with assms obtain p where p: "cache_policies ?c ! pl a = Any_Lru p" by (auto simp: lru_memory_def)
  have "lru_set_wf (lru_ways p) (cache_set ?c (pl a)) p"
    using cache_wf_set(1) [OF wf s] p by (simp add: set_wf_lru)
  moreover have "lru_ways p = n" using cache_wf_set(3) [OF wf s] p w by simp
  ultimately show ?thesis using s p recent_none by (auto simp: recent_at_def set_view_def)
qed

lemma lru_memory_step:
  assumes m: "lru_memory pl n m" and r: "recent_at n s D m"
  shows "\<exists>l m'. do_access a 0 m = Some (l, m') \<and> lru_memory pl n m' \<and>
     recent_at n s (if pl a = s then lru_push n a D else D) m' \<and>
     (pl a = s \<longrightarrow> (l = 0 \<longleftrightarrow> Some a \<in> set (fst (set_view s m))))"
proof -
  let ?c = "sm_caches m ! 0"
  have m0: "sm_wf m" "sm_caches m \<noteq> []" "cache_place ?c = pl" and w: "sac_ways ?c = n"
    and P: "\<And>t. t < cache_nsets ?c \<Longrightarrow> \<exists>p. cache_policies ?c ! t = Any_Lru p"
    using m by (auto simp: lru_memory_def first_level_def)
  have wf: "cache_wf ?c" using m0(1,2) by (simp add: sm_wf_def)
  have pa: "pl a < cache_nsets ?c" using cache_wf_place [OF wf, of a] m0(3) by simp
  from access_first_level [OF m0(1,2), of a] obtain l m' ts q where
    acc: "do_access a 0 m = Some (l, m')" "same_hierarchy m m'"
    "ref_step any_hit any_miss a (cache_set ?c (pl a)) (cache_policies ?c ! pl a) = Some (l = 0, ts, q)"
    and ch: "set_changed ?c (pl a) ts q (sm_caches m' ! 0)" unfolding m0(3) by blast
  have ns: "cache_nsets (sm_caches m' ! 0) = cache_nsets ?c" using ch by (simp add: set_changed_def)
  from recent_at_none [OF m, of a] obtain p0 where
    p0: "cache_policies ?c ! pl a = Any_Lru p0" "recent n [] (cache_set ?c (pl a)) p0"
    by (auto simp: recent_at_def set_view_def)
  with recent_step [OF p0(2), of a] acc(3) obtain q0 where q0: "q = Any_Lru q0" by auto
  have "\<exists>p. cache_policies (sm_caches m' ! 0) ! t = Any_Lru p" if "t < cache_nsets ?c" for t
    using P [OF that] ch q0 that by (cases "t = pl a") (auto simp: set_changed_def)
  then have "lru_memory pl n m'"
    using same_hierarchyD [OF acc(2)] ch m0(2,3) w ns by (auto simp: lru_memory_def first_level_def set_changed_def)
  moreover have "recent_at n s (if pl a = s then lru_push n a D else D) m'"
  proof (cases "pl a = s")
    case True
    from r True obtain p where p: "cache_policies ?c ! s = Any_Lru p" "recent n D (cache_set ?c s) p"
      by (auto simp: recent_at_def set_view_def)
    from recent_step [OF p(2), of a] acc(3) p(1) True obtain q' where "q = Any_Lru q'" "recent n (lru_push n a D) ts q'"
      by auto
    with ch True pa ns show ?thesis by (auto simp: recent_at_def set_view_def set_changed_def)
  next
    case False
    with r ch ns show ?thesis by (auto simp: recent_at_def set_view_def set_changed_def)
  qed
  moreover have "l = 0 \<longleftrightarrow> Some a \<in> set (fst (set_view s m))" if "pl a = s"
    using recent_step [OF p0(2), of a] acc(3) p0(1) that by (auto simp: set_view_def)
  ultimately show ?thesis using acc(1) by blast
qed

section \<open>Accessing a list of addresses\<close>

abbreviation push_all :: "nat \<Rightarrow> 'a list \<Rightarrow> 'a list \<Rightarrow> 'a list" where
  "push_all n as D \<equiv> fold (lru_push n) as D"

lemma access_all_recent:
  assumes "lru_memory pl n m" and "recent_at n s D m"
  shows "\<exists>m'. access_all sm_access xs m = Some m' \<and> lru_memory pl n m' \<and>
     recent_at n s (push_all n (filter (\<lambda>x. pl x = s) xs) D) m'"
  using assms
proof (induction xs arbitrary: m D)
  case Nil
  then show ?case by simp
next
  case (Cons a xs)
  from lru_memory_step [OF Cons.prems, of a] obtain l m' where
    "do_access a 0 m = Some (l, m')" "lru_memory pl n m'"
    "recent_at n s (if pl a = s then lru_push n a D else D) m'" by blast
  with Cons.IH show ?case by (cases "pl a = s") (simp_all add: sm_access_def)
qed

text \<open>Cutting the list of recent addresses is the same as cutting the whole stack.\<close>

lemma lru_push_take:
  assumes "0 < n" and "distinct stk"
  shows "lru_push n a (take n stk) = take n (a # removeAll a stk)"
proof -
  obtain k where k: "n = Suc k" using assms(1) by (cases n) auto
  have "take k (removeAll a (take n stk)) = take k (removeAll a stk)"
  proof (cases "a \<in> set (take n stk)")
    case True
    then have "take k (removeAll a stk) = removeAll a (take n stk)"
      using take_removeAll_in [OF assms(2)] k by simp
    then show ?thesis by (metis take_take min.idem)
  next
    case False
    then have "take k (removeAll a stk) = take k stk" using take_removeAll_notin [of a k stk] k by simp
    moreover have "removeAll a (take n stk) = take n stk" using False by simp
    ultimately show ?thesis using k by simp
  qed
  then show ?thesis by (simp add: lru_push_def k)
qed

lemma push_all_target:
  assumes "0 < n" and "t \<notin> set as"
  shows "\<exists>S. distinct S \<and> set S = set as \<and> push_all n as [t] = take n (S @ [t])"
  using assms(2)
proof (induction as rule: rev_induct)
  case Nil
  show ?case using assms(1) by (intro exI [of _ "[]"]) (cases n, auto)
next
  case (snoc a as)
  then obtain S where S: "distinct S" "set S = set as" "push_all n as [t] = take n (S @ [t])" by auto
  have "a \<noteq> t" "distinct (S @ [t])" using snoc.prems S by auto
  then have "push_all n (as @ [a]) [t] = take n ((a # removeAll a S) @ [t])"
    using S(3) lru_push_take [OF assms(1), of "S @ [t]" a] by simp
  moreover have "distinct (a # removeAll a S)" "set (a # removeAll a S) = set (as @ [a])"
    using S(1,2) by (auto simp: distinct_removeAll)
  ultimately show ?case by blast
qed

section \<open>The test decides an eviction property\<close>

lemma lru_memory_ways_pos:
  assumes "lru_memory pl n m"
  shows "0 < n"
  using recent_at_none [OF assms] lru_set_wfD(6) by (fastforce simp: recent_at_def recent_def)

lemma lru_eviction_test:
  assumes m: "lru_memory pl n m" and t: "target \<notin> set xs"
  shows "\<exists>m'. unsafe_is_eviction_set sm_instrumented_access sm_access target xs m =
     Some (n \<le> card (congruent pl target (set xs)), m') \<and> lru_memory pl n m'"
proof -
  let ?s = "pl target" and ?as = "filter (\<lambda>x. pl x = pl target) xs"
  have n: "0 < n" using lru_memory_ways_pos [OF m] .
  have push: "lru_push n target [] = [target]" using n by (cases n) (simp_all add: lru_push_def)
  from lru_memory_step [OF m recent_at_none [OF m], of target target] push obtain l1 m1 where
    m1: "do_access target 0 m = Some (l1, m1)" "lru_memory pl n m1" "recent_at n ?s [target] m1" by auto
  from access_all_recent [OF m1(2,3), of xs] obtain m2 where
    m2: "access_all sm_access xs m1 = Some m2" "lru_memory pl n m2" "recent_at n ?s (push_all n ?as [target]) m2"
    by blast
  from push_all_target [OF n, of target ?as] t obtain S where
    S: "distinct S" "set S = set ?as" "push_all n ?as [target] = take n (S @ [target])" by auto
  from lru_memory_step [OF m2(2,3), of target] obtain l m3 where
    m3: "do_access target 0 m2 = Some (l, m3)" "lru_memory pl n m3"
    "l = 0 \<longleftrightarrow> Some target \<in> set (fst (set_view ?s m2))" by auto
  from m2(3) S(3) obtain p where r: "recent n (take n (S @ [target])) (fst (set_view ?s m2)) p"
    by (auto simp: recent_at_def)
  have card: "card (congruent pl target (set xs)) = length S"
    using distinct_card [OF S(1)] S(2) by (simp add: congruent_def)
  have "l = 0 \<longleftrightarrow> length S < n"
  proof (cases "length S < n")
    case True
    then have "target \<in> set (take n (S @ [target]))" by (cases n) auto
    with recent_mem(1) [OF r] m3(3) True show ?thesis by blast
  next
    case False
    have "target \<notin> set S" using S(2) t by auto
    then have "target \<notin> set (take n (S @ [target]))" using False by (auto dest: in_set_takeD)
    with recent_mem(2) [OF r] m3(3) False show ?thesis by simp
  qed
  then show ?thesis using m1(1) m2(1) m3(1,2) card
    by (auto simp: unsafe_is_eviction_set_def sm_access_def sm_instrumented_access_def)
qed

interpretation lru_test: exact_test "unsafe_is_eviction_set sm_instrumented_access sm_access" "lru_memory pl n" pl n UNIV "\<lambda>_. True"
  for pl n
  by unfold_locales (auto intro: lru_memory_ways_pos lru_eviction_test)

section \<open>Properties\<close>

text \<open>
  C13. On a simulated hierarchy whose first level is LRU, \<open>unsafe_is_eviction_set\<close> is exact from every state:
  it reports an eviction if and only if at least as many of the given addresses as the first level has ways
  are placed in the set of the target. No reset and no pollution of the cache is needed beforehand.
\<close>

theorem lru_eviction_test_exact:
  assumes "lru_memory pl n m" and "target \<notin> set xs"
  shows "\<exists>m'. unsafe_is_eviction_set sm_instrumented_access sm_access target xs m =
     Some (n \<le> card {x \<in> set xs. pl x = pl target}, m') \<and> lru_memory pl n m'"
  using lru_eviction_test [OF assms] by (simp add: congruent_def)

text \<open>
  C10. The group reduction of an eviction set succeeds whenever the wanted size is at least the number of
  ways: it terminates, returns true, and leaves in the vector at most \<open>max_size\<close> of the given addresses that
  still evict the target; with \<open>max_size\<close> equal to the number of ways these are exactly that many addresses,
  all placed in the set of the target.
\<close>

theorem reduce_eviction_set_succeeds:
  assumes "lru_memory pl n m" and "distinct xs" and "target \<notin> set xs"
    and "n \<le> card {x \<in> set xs. pl x = pl target}" and "n \<le> max_size"
  shows "\<exists>ys m'. reduce_eviction_set (unsafe_is_eviction_set sm_instrumented_access sm_access) target max_size xs m =
       Some (True, ys, m') \<and> distinct ys \<and> set ys \<subseteq> set xs \<and> length ys \<le> max_size \<and>
     n \<le> card {y \<in> set ys. pl y = pl target} \<and>
     (max_size = n \<longrightarrow> length ys = n \<and> (\<forall>y \<in> set ys. pl y = pl target))"
proof -
  have n: "0 < n" using lru_memory_ways_pos [OF assms(1)] .
  from lru_test.reduction.reduce_succeeds [OF assms(1,2), of target max_size] assms(3-5) n obtain ys m' where
    r: "reduce_eviction_set (unsafe_is_eviction_set sm_instrumented_access sm_access) target max_size xs m =
       Some (True, ys, m')" "distinct ys" "set ys \<subseteq> set xs" "length ys \<le> max_size"
    "n \<le> card (congruent pl target (set ys))" by (auto simp: congruent_def)
  with exact_eviction_set [OF r(2) _ r(5)] show ?thesis by (auto simp: congruent_def)
qed

text \<open>
  C18. The quadratic minimisation returns a minimal eviction set: exactly as many of the given addresses as
  the first level has ways, all of them placed in the set of the target.
\<close>

theorem minimize_eviction_set_slow_exact:
  assumes "lru_memory pl n m" and "distinct xs" and "target \<notin> set xs"
    and "n \<le> card {x \<in> set xs. pl x = pl target}"
  shows "\<exists>ys m'. minimize_eviction_set_slow (unsafe_is_eviction_set sm_instrumented_access sm_access) target xs m =
       Some (True, ys, m') \<and> distinct ys \<and> set ys \<subseteq> set xs \<and> length ys = n \<and>
     (\<forall>y \<in> set ys. pl y = pl target)"
proof -
  have n: "0 < n" using lru_memory_ways_pos [OF assms(1)] .
  from lru_test.reduction.minimize_slow_ok [OF assms(1,2), of target] assms(3,4) n obtain ys m' where
    r: "minimize_eviction_set_slow (unsafe_is_eviction_set sm_instrumented_access sm_access) target xs m =
       Some (True, ys, m')" "distinct ys" "set ys \<subseteq> set xs" "n \<le> card (congruent pl target (set ys))"
    and min: "\<forall>y \<in> set ys. \<not> n \<le> card (congruent pl target (set ys - {y}))" by (auto simp: congruent_def)
  have "length ys \<le> n"
  proof (rule ccontr)
    assume "\<not> length ys \<le> n"
    then have "n < card (set ys)" using distinct_card [OF r(2)] by simp
    obtain S where S: "S \<subseteq> congruent pl target (set ys)" "card S = n"
      using obtain_subset_with_card_n [OF r(4)] by blast
    have "S \<noteq> set ys" using S(2) \<open>n < card (set ys)\<close> by auto
    then obtain y where y: "y \<in> set ys" "y \<notin> S" using S(1) by (auto simp: congruent_def)
    then have "S \<subseteq> congruent pl target (set ys - {y})" using S(1) by (auto simp: congruent_def)
    then have "n \<le> card (congruent pl target (set ys - {y}))" using S(2) card_mono [OF finite] by blast
    with min y(1) show False by blast
  qed
  with exact_eviction_set [OF r(2) _ r(4)] r show ?thesis by blast
qed

text \<open>
  The quadratic reduction to \<open>max_size\<close> never returns a wrong set: if it reports success, the vector
  holds at most \<open>max_size\<close> addresses that still evict the target, and it reports failure only when
  \<open>max_size\<close> is smaller than the number of ways.
\<close>

theorem reduce_eviction_set_slow_correct:
  assumes "lru_memory pl n m" and "distinct xs" and "target \<notin> set xs"
    and "n \<le> card {x \<in> set xs. pl x = pl target}"
  shows "\<exists>b ys m'. reduce_eviction_set_slow (unsafe_is_eviction_set sm_instrumented_access sm_access) target max_size xs m =
       Some (b, ys, m') \<and> set ys \<subseteq> set xs \<and>
     (if b then length ys \<le> max_size \<and> n \<le> card {y \<in> set ys. pl y = pl target} else max_size < n)"
proof -
  have n: "0 < n" using lru_memory_ways_pos [OF assms(1)] .
  from lru_test.reduction.reduce_slow_ok [OF assms(1,2), of target max_size] assms(3,4) n obtain b ys m' where
    r: "reduce_eviction_set_slow (unsafe_is_eviction_set sm_instrumented_access sm_access) target max_size xs m =
       Some (b, ys, m')" "set ys \<subseteq> set xs"
    and c: "if b then length ys \<le> max_size \<and> n \<le> card (congruent pl target (set ys))
       else \<exists>Y \<subseteq> set xs. n \<le> card (congruent pl target Y) \<and>
         (\<forall>S \<subseteq> Y. n \<le> card (congruent pl target S) \<longrightarrow> max_size < card S)" by (auto simp: congruent_def)
  have "max_size < n" if nb: "\<not> b"
  proof -
    from c nb obtain Y where Y: "Y \<subseteq> set xs" "n \<le> card (congruent pl target Y)"
      "\<forall>S \<subseteq> Y. n \<le> card (congruent pl target S) \<longrightarrow> max_size < card S" by auto
    from lru_test.reduction.evicts_bounded [OF Y(2)] Y(1) assms(3) obtain S where
      "S \<subseteq> Y" "n \<le> card (congruent pl target S)" "card S \<le> n" by auto
    with Y(3) show ?thesis by (meson less_le_trans)
  qed
  with r c show ?thesis by (cases b) (auto simp: congruent_def)
qed

text \<open>The witnesses use the memory with one set of two ways and three further addresses.\<close>

lemma small_lru_memory: "\<exists>m. lru_memory (\<lambda>a. 0) 2 m"
proof -
  from small_memory obtain m where "first_level (\<lambda>a. 0) m" "sac_ways (sm_caches m ! 0) = 2"
    "cache_nsets (sm_caches m ! 0) = 1" "snd (set_view 0 m) = Any_Lru \<lparr>lru_order = [0, 1]\<rparr>" by auto
  then have "lru_memory (\<lambda>a. 0) 2 m" by (simp add: lru_memory_def set_view_def)
  then show ?thesis by blast
qed

lemma three_addresses: "card {x. x = 0x40 \<or> x = 0x80 \<or> x = (0xC0 :: uintptr)} = 3"
proof -
  have "{x. x = 0x40 \<or> x = 0x80 \<or> x = (0xC0 :: uintptr)} = {0x40, 0x80, 0xC0}" by auto
  then show ?thesis by simp
qed

theorem lru_eviction_test_exact_witness:
  "\<exists>m m'. unsafe_is_eviction_set sm_instrumented_access sm_access 0 [0x40, 0x80, 0xC0] m = Some (True, m')"
proof -
  from small_lru_memory obtain m where m: "lru_memory (\<lambda>a. 0) 2 m" by blast
  from lru_eviction_test_exact [OF m, of 0 "[0x40, 0x80, 0xC0]"] three_addresses show ?thesis by auto
qed

theorem reduce_eviction_set_succeeds_witness:
  "\<exists>m ys m'. reduce_eviction_set (unsafe_is_eviction_set sm_instrumented_access sm_access) 0 2 [0x40, 0x80, 0xC0] m =
     Some (True, ys, m') \<and> length ys = 2"
proof -
  from small_lru_memory obtain m where m: "lru_memory (\<lambda>a. 0) 2 m" by blast
  from reduce_eviction_set_succeeds [OF m, of "[0x40, 0x80, 0xC0]" 0 2] three_addresses show ?thesis by auto
qed

theorem minimize_eviction_set_slow_exact_witness:
  "\<exists>m ys m'. minimize_eviction_set_slow (unsafe_is_eviction_set sm_instrumented_access sm_access) 0 [0x40, 0x80, 0xC0] m =
     Some (True, ys, m') \<and> length ys = 2"
proof -
  from small_lru_memory obtain m where m: "lru_memory (\<lambda>a. 0) 2 m" by blast
  from minimize_eviction_set_slow_exact [OF m, of "[0x40, 0x80, 0xC0]" 0] three_addresses show ?thesis by auto
qed

theorem reduce_eviction_set_slow_correct_witness:
  "\<exists>m ys m'. reduce_eviction_set_slow (unsafe_is_eviction_set sm_instrumented_access sm_access) 0 2 [0x40, 0x80, 0xC0] m =
     Some (True, ys, m') \<and> length ys \<le> 2"
proof -
  from small_lru_memory obtain m where m: "lru_memory (\<lambda>a. 0) 2 m" by blast
  from reduce_eviction_set_slow_correct [OF m, of "[0x40, 0x80, 0xC0]" 0 2] three_addresses
  show ?thesis by (auto split: if_splits)
qed

end
