(* ===== verification/CH_Regions.thy ===== *)
theory CH_Regions
  imports CH_Sim_Memory "HOL-Library.Multiset"
begin

text \<open>
  Memory regions: \<open>util/basic_extended_memory_region.hpp\<close>, \<open>util/address_checker.hpp\<close>,
  \<open>util/memory_size.hpp\<close>, the merging of regions in \<open>kernel_memory::defragment_regions\<close> and the address
  translation of \<open>adapters/physical_adapter.hpp\<close>.

  A \<open>std::map\<close> with keys of type \<open>std::uintptr_t\<close> is a list of pairs sorted by key. \<open>upper_bound\<close> followed
  by one step back is the last pair whose key is not above the address.
\<close>

section \<open>Ordered maps\<close>

type_synonym 'v addr_map = "(uintptr \<times> 'v) list"

text \<open>\<open>emplace\<close> keeps an existing entry, \<open>operator[] =\<close> overwrites it.\<close>

fun map_emplace :: "uintptr \<Rightarrow> 'v \<Rightarrow> 'v addr_map \<Rightarrow> 'v addr_map" where
  "map_emplace k v [] = [(k, v)]"
| "map_emplace k v ((k', v') # kvs) =
     (if k < k' then (k, v) # (k', v') # kvs else if k = k' then (k', v') # kvs
      else (k', v') # map_emplace k v kvs)"

fun map_assign :: "uintptr \<Rightarrow> 'v \<Rightarrow> 'v addr_map \<Rightarrow> 'v addr_map" where
  "map_assign k v [] = [(k, v)]"
| "map_assign k v ((k', v') # kvs) =
     (if k < k' then (k, v) # (k', v') # kvs else if k = k' then (k, v) # kvs
      else (k', v') # map_assign k v kvs)"

definition map_floor :: "uintptr \<Rightarrow> 'v addr_map \<Rightarrow> (uintptr \<times> 'v) option" where
  "map_floor a kvs =
     (let below = takeWhile (\<lambda>(k, _). k \<le> a) kvs in if below = [] then None else Some (last below))"

definition map_sorted :: "'v addr_map \<Rightarrow> bool" where
  "map_sorted kvs \<longleftrightarrow> sorted_wrt (<) (map fst kvs)"

section \<open>Regions\<close>

record basic_extended_memory_region = basic_memory_region +
  region_physical_base :: uintptr

definition extended_region :: "uintptr \<Rightarrow> uintptr \<Rightarrow> nat \<Rightarrow> basic_extended_memory_region" where
  "extended_region virtual_base physical_base sz =
     \<lparr>region_base = virtual_base, region_size = sz, region_physical_base = physical_base\<rparr>"

definition memory_size :: "'z basic_memory_region_scheme list \<Rightarrow> nat" where
  "memory_size regions = foldl (\<lambda>total_size region. (total_size + region_size region) mod size_t_range) 0 regions"

subsection \<open>The address checker\<close>

record address_checker =
  ac_regions :: "nat addr_map"

definition ac_add_region :: "'z basic_memory_region_scheme \<Rightarrow> address_checker \<Rightarrow> address_checker" where
  "ac_add_region region c = c\<lparr>ac_regions := map_emplace (region_base region) (region_size region) (ac_regions c)\<rparr>"

definition ac_check :: "uintptr \<Rightarrow> address_checker \<Rightarrow> bool option" where
  "ac_check address c = (case map_floor address (ac_regions c) of
     None \<Rightarrow> Some False
   | Some (base, sz) \<Rightarrow> do { require (address \<ge> base); Some (address < base + of_nat sz) })"

subsection \<open>Merging adjacent regions\<close>

text \<open>The loop over the sorted regions with the region built so far.\<close>

fun defragment_loop :: "uintptr \<Rightarrow> uintptr \<Rightarrow> nat \<Rightarrow> basic_extended_memory_region list \<Rightarrow>
    basic_extended_memory_region list \<Rightarrow> basic_extended_memory_region list" where
  "defragment_loop base physical_base sz [] out = out @ [extended_region base physical_base sz]"
| "defragment_loop base physical_base sz (region # regions) out =
     (if base + of_nat sz = region_base region \<and> physical_base + of_nat sz = region_physical_base region
      then defragment_loop base physical_base ((sz + region_size region) mod size_t_range) regions out
      else defragment_loop (region_base region) (region_physical_base region) (region_size region) regions
             (out @ [extended_region base physical_base sz]))"

text \<open>\<open>std::sort\<close> by the base address; for different bases its result is unique.\<close>

definition defragment_regions :: "basic_extended_memory_region list \<Rightarrow> basic_extended_memory_region list" where
  "defragment_regions regions =
     (case sort_key region_base regions of
        [] \<Rightarrow> []
      | region # old_regions \<Rightarrow>
          defragment_loop (region_base region) (region_physical_base region) (region_size region) old_regions [])"

subsection \<open>Physical addresses\<close>

text \<open>
  \<open>physical_adapter\<close>: the regions with their physical bases, and the translation table. \<open>translate\<close>
  returns \<open>false\<close>, that is 0, for an address below the first region.
\<close>

record physical_adapter =
  pa_regions :: "basic_memory_region list"
  pa_address_translation :: "uintptr addr_map"

fun pa_init_loop :: "basic_extended_memory_region list \<Rightarrow> physical_adapter \<Rightarrow> physical_adapter" where
  "pa_init_loop [] p = p"
| "pa_init_loop (region # regions) p = pa_init_loop regions
     (p\<lparr>pa_regions := pa_regions p @ [\<lparr>region_base = region_physical_base region, region_size = region_size region\<rparr>],
        pa_address_translation :=
          map_assign (region_physical_base region) (region_base region) (pa_address_translation p)\<rparr>)"

definition pa_init :: "basic_extended_memory_region list \<Rightarrow> physical_adapter" where
  "pa_init regions = pa_init_loop regions \<lparr>pa_regions = [], pa_address_translation = []\<rparr>"

definition pa_translate :: "physical_adapter \<Rightarrow> uintptr \<Rightarrow> uintptr option" where
  "pa_translate p physical_address = (case map_floor physical_address (pa_address_translation p) of
     None \<Rightarrow> Some 0
   | Some (physical_base, base) \<Rightarrow> do {
       require (physical_address \<ge> physical_base);
       Some (base + (physical_address - physical_base)) })"

definition pa_access :: "(uintptr \<Rightarrow> 'm \<Rightarrow> 'm option) \<Rightarrow> physical_adapter \<Rightarrow> uintptr \<Rightarrow> 'm \<Rightarrow> 'm option" where
  "pa_access acc p address m = do { a \<leftarrow> pa_translate p address; acc a m }"

definition pa_instrumented_access :: "(uintptr \<Rightarrow> 'm \<Rightarrow> (nat \<times> 'm) option) \<Rightarrow> physical_adapter \<Rightarrow>
    uintptr \<Rightarrow> 'm \<Rightarrow> (nat \<times> 'm) option" where
  "pa_instrumented_access iacc p address m = do { a \<leftarrow> pa_translate p address; iacc a m }"

definition pa_clflush :: "(uintptr \<Rightarrow> 'm \<Rightarrow> 'm option) \<Rightarrow> physical_adapter \<Rightarrow> uintptr \<Rightarrow> 'm \<Rightarrow> 'm option" where
  "pa_clflush clflush p address m = do { a \<leftarrow> pa_translate p address; clflush a m }"

section \<open>Lookup in ordered maps\<close>

lemma map_emplace_keys: "fst ` set (map_emplace k v kvs) = insert k (fst ` set kvs)"
  by (induction k v kvs rule: map_emplace.induct) auto

lemma map_assign_keys: "fst ` set (map_assign k v kvs) = insert k (fst ` set kvs)"
  by (induction k v kvs rule: map_assign.induct) auto

lemma map_emplace_sorted: "map_sorted kvs \<Longrightarrow> map_sorted (map_emplace k v kvs)"
proof (induction k v kvs rule: map_emplace.induct)
  case (2 k v k' v' kvs)
  then have "\<forall>x \<in> fst ` set kvs. k' < x" by (auto simp: map_sorted_def)
  then have "k' < k \<Longrightarrow> \<forall>x \<in> fst ` set (map_emplace k v kvs). k' < x" by (simp add: map_emplace_keys)
  with 2 show ?case by (auto simp: map_sorted_def)
qed (simp add: map_sorted_def)

lemma map_assign_sorted: "map_sorted kvs \<Longrightarrow> map_sorted (map_assign k v kvs)"
proof (induction k v kvs rule: map_assign.induct)
  case (2 k v k' v' kvs)
  then have "\<forall>x \<in> fst ` set kvs. k' < x" by (auto simp: map_sorted_def)
  then have "k' < k \<Longrightarrow> \<forall>x \<in> fst ` set (map_assign k v kvs). k' < x" by (simp add: map_assign_keys)
  with 2 show ?case by (auto simp: map_sorted_def)
qed (simp add: map_sorted_def)

lemma map_emplace_set:
  "map_sorted kvs \<Longrightarrow> k \<notin> fst ` set kvs \<Longrightarrow> set (map_emplace k v kvs) = insert (k, v) (set kvs)"
  by (induction k v kvs rule: map_emplace.induct) (auto simp: map_sorted_def)

lemma map_assign_set:
  "map_sorted kvs \<Longrightarrow> k \<notin> fst ` set kvs \<Longrightarrow> set (map_assign k v kvs) = insert (k, v) (set kvs)"
  by (induction k v kvs rule: map_assign.induct) (auto simp: map_sorted_def)

text \<open>The floor of an address is the entry with the largest key not above it.\<close>

lemma map_floor_Some:
  assumes "map_sorted kvs" and "(k, v) \<in> set kvs" and "k \<le> a" and "\<And>k' v'. (k', v') \<in> set kvs \<Longrightarrow> k' \<le> a \<Longrightarrow> k' \<le> k"
  shows "map_floor a kvs = Some (k, v)"
  using assms
proof (induction kvs)
  case Nil
  then show ?case by simp
next
  case (Cons kv kvs)
  obtain k0 v0 where kv: "kv = (k0, v0)" by fastforce
  have srt: "map_sorted kvs" "\<And>x y. (x, y) \<in> set kvs \<Longrightarrow> k0 < x" using Cons.prems(1) kv by (auto simp: map_sorted_def)
  show ?case
  proof (cases "(k, v) \<in> set kvs")
    case True
    have "map_floor a kvs = Some (k, v)" using Cons.IH [OF srt(1) True Cons.prems(3)] Cons.prems(4) by auto
    moreover have "k0 \<le> a" using srt(2) [OF True] Cons.prems(3) by simp
    ultimately show ?thesis using kv by (auto simp: map_floor_def Let_def split: if_splits)
  next
    case False
    then have eq: "k = k0" "v = v0" using Cons.prems(2) kv by auto
    have "takeWhile (\<lambda>(k, _). k \<le> a) kvs = []"
    proof (cases kvs)
      case (Cons x xs)
      obtain xk xv where x: "x = (xk, xv)" by fastforce
      have "\<not> xk \<le> a"
      proof
        assume "xk \<le> a"
        then have "xk \<le> k" using Cons.prems(4) [of xk xv] Cons x by simp
        moreover have "k0 < xk" using srt(2) [of xk xv] Cons x by simp
        ultimately show False using eq by simp
      qed
      then show ?thesis using Cons x by simp
    qed simp
    then show ?thesis using eq kv Cons.prems(3) by (simp add: map_floor_def)
  qed
qed

lemma map_floor_cases:
  assumes "map_sorted kvs"
  shows "(map_floor a kvs = None \<and> (\<forall>(k, v) \<in> set kvs. a < k)) \<or>
     (\<exists>k v. map_floor a kvs = Some (k, v) \<and> (k, v) \<in> set kvs \<and> k \<le> a \<and> (\<forall>(k', v') \<in> set kvs. k' \<le> a \<longrightarrow> k' \<le> k))"
proof (cases "\<exists>(k, v) \<in> set kvs. k \<le> a")
  case False
  then have "takeWhile (\<lambda>(k, _). k \<le> a) kvs = []" by (cases kvs) auto
  with False show ?thesis by (auto simp: map_floor_def)
next
  case True
  let ?K = "{k. k \<le> a \<and> (\<exists>v. (k, v) \<in> set kvs)}"
  have fin: "finite ?K" and ne: "?K \<noteq> {}" using True by auto
  have "Max ?K \<in> ?K" using Max_in [OF fin ne] .
  then obtain v where v: "Max ?K \<le> a" "(Max ?K, v) \<in> set kvs" by blast
  have le: "k' \<le> Max ?K" if "(k', v') \<in> set kvs" "k' \<le> a" for k' v'
    using that Max_ge [OF fin, of k'] by blast
  have "map_floor a kvs = Some (Max ?K, v)" by (rule map_floor_Some [OF assms v(2,1)]) (rule le)
  with v le show ?thesis by blast
qed

section \<open>Disjoint spans\<close>

text \<open>
  A span is a base and a size. The spans of a region table are non-empty, stay below the end of the
  address space, and do not overlap.
\<close>

definition span_ok :: "nat \<times> nat \<Rightarrow> bool" where
  "span_ok s \<longleftrightarrow> 0 < snd s \<and> fst s + snd s < size_t_range"

definition spans_apart :: "nat \<times> nat \<Rightarrow> nat \<times> nat \<Rightarrow> bool" where
  "spans_apart s t \<longleftrightarrow> fst s + snd s \<le> fst t \<or> fst t + snd t \<le> fst s"

definition spans_ok :: "(nat \<times> nat) list \<Rightarrow> bool" where
  "spans_ok ss \<longleftrightarrow> list_all span_ok ss \<and> sorted_wrt spans_apart ss"

definition in_span :: "uintptr \<Rightarrow> nat \<times> nat \<Rightarrow> bool" where
  "in_span a s \<longleftrightarrow> fst s \<le> unat a \<and> unat a < fst s + snd s"

definition virtual_span :: "'z basic_memory_region_scheme \<Rightarrow> nat \<times> nat" where
  "virtual_span r = (unat (region_base r), region_size r)"

definition physical_span :: "basic_extended_memory_region \<Rightarrow> nat \<times> nat" where
  "physical_span r = (unat (region_physical_base r), region_size r)"

text \<open>Address \<open>a\<close> lies in one of the regions and belongs to physical address \<open>p\<close>.\<close>

definition region_maps :: "basic_extended_memory_region list \<Rightarrow> uintptr \<Rightarrow> uintptr \<Rightarrow> bool" where
  "region_maps rs a p \<longleftrightarrow>
     (\<exists>r \<in> set rs. in_span a (virtual_span r) \<and> p = region_physical_base r + (a - region_base r))"

lemma spans_apart_sym: "spans_apart s t \<longleftrightarrow> spans_apart t s"
  by (auto simp: spans_apart_def)

lemma spans_ok_Cons [simp]:
  "spans_ok (s # ss) \<longleftrightarrow> span_ok s \<and> (\<forall>t \<in> set ss. spans_apart s t) \<and> spans_ok ss"
  by (auto simp: spans_ok_def)

lemma spans_ok_Nil [simp]: "spans_ok []"
  by (simp add: spans_ok_def)

lemma spans_ok_span: "spans_ok ss \<Longrightarrow> s \<in> set ss \<Longrightarrow> span_ok s"
  by (auto simp: spans_ok_def list_all_iff)

lemma spans_ok_apart: "spans_ok ss \<Longrightarrow> s \<in> set ss \<Longrightarrow> t \<in> set ss \<Longrightarrow> s = t \<or> spans_apart s t"
  by (induction ss) (auto simp: spans_apart_sym)

lemma spans_ok_base:
  assumes "spans_ok ss" and "s \<in> set ss" and "t \<in> set ss" and "fst s = fst t"
  shows "s = t"
  using spans_ok_apart [OF assms(1-3)] spans_ok_span [OF assms(1,2)] spans_ok_span [OF assms(1,3)] assms(4)
  by (auto simp: spans_apart_def span_ok_def)

lemma spans_ok_fresh:
  assumes "spans_ok (s # ss)"
  shows "fst s \<notin> fst ` set ss"
proof
  assume "fst s \<in> fst ` set ss"
  then obtain t where t: "t \<in> set ss" "fst t = fst s" by force
  then have "spans_apart s t" "span_ok s" "span_ok t" using assms spans_ok_span [of ss t] by auto
  with t(2) show False by (auto simp: spans_apart_def span_ok_def)
qed

lemma spans_ok_perm:
  assumes "spans_ok ss" and "mset ts = mset ss"
  shows "spans_ok ts"
proof -
  have "distinct ss" using assms(1)
    by (induction ss) (auto simp: spans_apart_def span_ok_def)
  then have d: "distinct ts" using assms(2) mset_eq_imp_distinct_iff by blast
  have st: "set ts = set ss" using assms(2) mset_eq_setD by blast
  have "sorted_wrt spans_apart ts"
    unfolding sorted_wrt_iff_nth_less
  proof (intro allI impI)
    fix i j assume ij: "i < j" "j < length ts"
    then have "ts ! i \<noteq> ts ! j" using d by (simp add: nth_eq_iff_index_eq)
    moreover have "ts ! i \<in> set ss" "ts ! j \<in> set ss" using ij st nth_mem by (metis less_trans, metis)
    ultimately show "spans_apart (ts ! i) (ts ! j)" using spans_ok_apart [OF assms(1)] by blast
  qed
  with st assms(1) show ?thesis by (simp add: spans_ok_def list_all_iff)
qed

text \<open>The floor of an address in a span is the entry of that span, and only spans contain their floor.\<close>

lemma floor_finds_span:
  assumes kvs: "map_sorted kvs" "fst ` set kvs = key ` set rs"
    and ok: "spans_ok (map (\<lambda>r. (unat (key r), len r)) rs)"
    and r: "r \<in> set rs" "in_span a (unat (key r), len r)" "(key r, v) \<in> set kvs"
  shows "map_floor a kvs = Some (key r, v)"
proof (rule map_floor_Some [OF kvs(1) r(3)])
  show "key r \<le> a" using r(2) by (simp add: in_span_def word_le_nat_alt)
  fix k' v' assume k': "(k', v') \<in> set kvs" "k' \<le> a"
  then have "k' \<in> key ` set rs" using kvs(2) by force
  then obtain r' where r': "r' \<in> set rs" "k' = key r'" by blast
  show "k' \<le> key r"
  proof (rule ccontr)
    assume "\<not> k' \<le> key r"
    then have lt: "unat (key r) < unat (key r')" using r' by (simp add: word_le_nat_alt)
    let ?s = "\<lambda>r. (unat (key r), len r)"
    have "?s r \<noteq> ?s r'" using lt by auto
    then have "spans_apart (?s r) (?s r')" using spans_ok_apart [OF ok, of "?s r" "?s r'"] r(1) r'(1) by auto
    moreover have "span_ok (?s r')" using spans_ok_span [OF ok, of "?s r'"] r'(1) by auto
    ultimately show False using lt r(2) r'(2) k'(2)
      by (auto simp: spans_apart_def span_ok_def in_span_def word_le_nat_alt)
  qed
qed

section \<open>The address checker is exact\<close>

definition ac_of_regions :: "'z basic_memory_region_scheme list \<Rightarrow> address_checker" where
  "ac_of_regions regions = foldl (\<lambda>c region. ac_add_region region c) \<lparr>ac_regions = []\<rparr> regions"

lemma ac_of_regions_snoc: "ac_of_regions (rs @ [r]) = ac_add_region r (ac_of_regions rs)"
  by (simp add: ac_of_regions_def)

lemma ac_of_regions_entries:
  assumes "spans_ok (map virtual_span rs)"
  shows "map_sorted (ac_regions (ac_of_regions rs)) \<and>
    set (ac_regions (ac_of_regions rs)) = (\<lambda>r. (region_base r, region_size r)) ` set rs"
  using assms
proof (induction rs rule: rev_induct)
  case Nil
  then show ?case by (simp add: ac_of_regions_def map_sorted_def)
next
  case (snoc r rs)
  have perm: "spans_ok (map virtual_span (r # rs))" by (rule spans_ok_perm [OF snoc.prems]) simp
  then have ok: "spans_ok (map virtual_span rs)" by simp
  have "region_base r \<notin> region_base ` set rs" using spans_ok_fresh [of "virtual_span r" "map virtual_span rs"] perm
    by (force simp: virtual_span_def image_image)
  then have new: "region_base r \<notin> fst ` set (ac_regions (ac_of_regions rs))" using snoc.IH [OF ok] by (simp add: image_image)
  show ?case
    using map_emplace_set [OF conjunct1 [OF snoc.IH [OF ok]] new] map_emplace_sorted [OF conjunct1 [OF snoc.IH [OF ok]]]
      snoc.IH [OF ok]
    by (simp add: ac_of_regions_snoc ac_add_region_def)
qed

lemma span_end_word:
  assumes "span_ok (unat b, n)"
  shows "unat (b + of_nat n :: uintptr) = unat b + n"
  using assms by (simp add: span_ok_def unat_word_ariths take_bit_eq_mod unat_of_nat)

text \<open>
  C30. For regions that do not overlap and do not touch the end of the address space, the address checker
  accepts an address exactly when one of the added regions contains it.
\<close>

theorem address_checker_exact:
  assumes "spans_ok (map virtual_span rs)"
  shows "ac_check a (ac_of_regions rs) = Some (\<exists>r \<in> set rs. in_span a (virtual_span r))"
proof -
  let ?kvs = "ac_regions (ac_of_regions rs)"
  have kvs: "map_sorted ?kvs" "set ?kvs = (\<lambda>r. (region_base r, region_size r)) ` set rs"
    using ac_of_regions_entries [OF assms] by auto
  have keys: "fst ` set ?kvs = region_base ` set rs" using kvs(2) by force
  have ends: "a < region_base r + of_nat (region_size r) \<longleftrightarrow> unat a < unat (region_base r) + region_size r"
    if "r \<in> set rs" for r
    using span_end_word [of "region_base r" "region_size r"] spans_ok_span [OF assms, of "virtual_span r"] that
    by (simp add: virtual_span_def word_less_nat_alt)
  show ?thesis
  proof (cases "\<exists>r \<in> set rs. in_span a (virtual_span r)")
    case True
    then obtain r where r: "r \<in> set rs" "in_span a (virtual_span r)" by blast
    have "map_floor a ?kvs = Some (region_base r, region_size r)"
      by (rule floor_finds_span [where len = region_size and rs = rs, OF kvs(1) keys])
        (use assms r kvs(2) in \<open>auto simp: virtual_span_def [abs_def]\<close>)
    then show ?thesis using True r ends [OF r(1)]
      by (simp add: ac_check_def in_span_def virtual_span_def word_le_nat_alt)
  next
    case False
    from map_floor_cases [OF kvs(1), of a] show ?thesis
    proof (elim disjE exE conjE)
      assume "map_floor a ?kvs = None"
      then show ?thesis using False by (simp add: ac_check_def)
    next
      fix k v assume f: "map_floor a ?kvs = Some (k, v)" "(k, v) \<in> set ?kvs" "k \<le> a"
      then obtain r where r: "r \<in> set rs" "k = region_base r" "v = region_size r" using kvs(2) by auto
      have "\<not> in_span a (virtual_span r)" using False r(1) by blast
      then have "\<not> unat a < unat (region_base r) + region_size r" using f(3) r(2)
        by (simp add: in_span_def virtual_span_def word_le_nat_alt)
      then show ?thesis using False f r ends [OF r(1)] by (simp add: ac_check_def)
    qed
  qed
qed

theorem address_checker_exact_witness:
  "spans_ok (map virtual_span [extended_region 0x3000 0x8000 0x1000, extended_region 0x1000 0x5000 0x1000]) \<and>
   ac_check 0x3FFF (ac_of_regions [extended_region 0x3000 0x8000 0x1000, extended_region 0x1000 0x5000 0x1000]) = Some True \<and>
   ac_check 0x2000 (ac_of_regions [extended_region 0x3000 0x8000 0x1000, extended_region 0x1000 0x5000 0x1000]) = Some False"
proof -
  let ?rs = "[extended_region 0x3000 0x8000 0x1000, extended_region 0x1000 0x5000 0x1000]"
  have ok: "spans_ok (map virtual_span ?rs)"
    by (simp add: virtual_span_def extended_region_def span_ok_def spans_apart_def)
  show ?thesis using ok address_checker_exact [OF ok, of "0x3FFF"] address_checker_exact [OF ok, of "0x2000"]
    by (simp add: virtual_span_def extended_region_def in_span_def)
qed

section \<open>Physical addresses lead back to their virtual address\<close>

lemma pa_init_loop_entries:
  assumes "map_sorted (pa_address_translation p)"
    and "spans_ok (map physical_span rs)"
    and "fst ` set (pa_address_translation p) \<inter> region_physical_base ` set rs = {}"
  shows "map_sorted (pa_address_translation (pa_init_loop rs p)) \<and>
    set (pa_address_translation (pa_init_loop rs p)) =
      set (pa_address_translation p) \<union> (\<lambda>r. (region_physical_base r, region_base r)) ` set rs"
  using assms
proof (induction rs arbitrary: p)
  case (Cons r rs)
  let ?p = "p\<lparr>pa_regions := pa_regions p @ [\<lparr>region_base = region_physical_base r, region_size = region_size r\<rparr>],
        pa_address_translation := map_assign (region_physical_base r) (region_base r) (pa_address_translation p)\<rparr>"
  have new: "region_physical_base r \<notin> fst ` set (pa_address_translation p)" using Cons.prems(3) by auto
  have ok: "spans_ok (map physical_span rs)" using Cons.prems(2) by simp
  have "region_physical_base r \<notin> region_physical_base ` set rs"
    using spans_ok_fresh [OF Cons.prems(2) [unfolded list.map]] by (force simp: physical_span_def)
  then have "fst ` set (pa_address_translation ?p) \<inter> region_physical_base ` set rs = {}"
    using Cons.prems(3) by (auto simp: map_assign_keys)
  then show ?case
    using Cons.IH [of ?p, OF _ ok] map_assign_sorted [OF Cons.prems(1)] map_assign_set [OF Cons.prems(1) new]
    by simp
qed simp

text \<open>
  C31. For regions whose physical ranges do not overlap, the physical adapter translates every physical
  address of a region to the virtual address at the same offset in that region, so an access through the
  adapter is the access of the memory below at that virtual address.
\<close>

theorem physical_adapter_translates:
  assumes "spans_ok (map physical_span rs)" and "r \<in> set rs" and "i < region_size r"
  shows "pa_translate (pa_init rs) (region_physical_base r + of_nat i) = Some (region_base r + of_nat i) \<and>
    pa_access acc (pa_init rs) (region_physical_base r + of_nat i) m = acc (region_base r + of_nat i) m"
proof -
  let ?kvs = "pa_address_translation (pa_init rs)" and ?a = "region_physical_base r + of_nat i"
  have kvs: "map_sorted ?kvs" "set ?kvs = (\<lambda>r. (region_physical_base r, region_base r)) ` set rs"
    using pa_init_loop_entries [of "\<lparr>pa_regions = [], pa_address_translation = []\<rparr>" rs] assms(1)
    by (simp_all add: pa_init_def map_sorted_def)
  have keys: "fst ` set ?kvs = region_physical_base ` set rs" using kvs(2) by force
  have "span_ok (unat (region_physical_base r), i) \<or> i = 0"
    using spans_ok_span [OF assms(1), of "physical_span r"] assms(2,3) by (auto simp: physical_span_def span_ok_def)
  then have ua: "unat ?a = unat (region_physical_base r) + i" using span_end_word by auto
  have "map_floor ?a ?kvs = Some (region_physical_base r, region_base r)"
    by (rule floor_finds_span [where len = region_size and rs = rs, OF kvs(1) keys])
      (use assms kvs(2) ua in \<open>auto simp: physical_span_def [abs_def] in_span_def\<close>)
  then have "pa_translate (pa_init rs) ?a = Some (region_base r + of_nat i)"
    using ua by (simp add: pa_translate_def word_le_nat_alt)
  then show ?thesis by (simp add: pa_access_def)
qed

theorem physical_adapter_translates_witness:
  "pa_translate (pa_init [extended_region 0x3000 0x8000 0x1000, extended_region 0x1000 0x5000 0x1000]) 0x8123 = Some 0x3123"
proof -
  let ?rs = "[extended_region 0x3000 0x8000 0x1000, extended_region 0x1000 0x5000 0x1000]"
  have ok: "spans_ok (map physical_span ?rs)"
    by (simp add: physical_span_def extended_region_def span_ok_def spans_apart_def)
  show ?thesis
    using physical_adapter_translates [OF ok, of "extended_region 0x3000 0x8000 0x1000" "0x123" "\<lambda>_ m. Some m" "()"]
    by (simp add: extended_region_def)
qed

section \<open>Merging regions keeps the address map\<close>

text \<open>Region \<open>r'\<close> continues region \<open>r\<close> in both address spaces.\<close>

definition continues :: "basic_extended_memory_region \<Rightarrow> basic_extended_memory_region \<Rightarrow> bool" where
  "continues r r' \<longleftrightarrow> region_base r + of_nat (region_size r) = region_base r' \<and>
     region_physical_base r + of_nat (region_size r) = region_physical_base r'"

lemma region_maps_Cons: "region_maps (r # rs) a q \<longleftrightarrow> region_maps [r] a q \<or> region_maps rs a q"
  by (auto simp: region_maps_def)

lemma defragment_loop_out:
  "defragment_loop b p n rs out = out @ defragment_loop b p n rs []"
proof (induction rs arbitrary: b p n out)
  case (Cons r rs)
  show ?case
  proof (cases "b + of_nat n = region_base r \<and> p + of_nat n = region_physical_base r")
    case True
    then show ?thesis using Cons.IH [of b p _ out] by simp
  next
    case False
    then show ?thesis
      using Cons.IH [of "region_base r" "region_physical_base r" "region_size r" "out @ [extended_region b p n]"]
        Cons.IH [of "region_base r" "region_physical_base r" "region_size r" "[extended_region b p n]"]
      by auto
  qed
qed simp

lemma defragment_loop_step:
  "defragment_loop b p n (r # rs) [] =
     (if continues (extended_region b p n) r then defragment_loop b p ((n + region_size r) mod size_t_range) rs []
      else extended_region b p n # defragment_loop (region_base r) (region_physical_base r) (region_size r) rs [])"
  using defragment_loop_out [of "region_base r" "region_physical_base r" "region_size r" rs "[extended_region b p n]"]
  by (simp add: continues_def extended_region_def)

declare defragment_loop.simps(2) [simp del]

lemma extended_region_id [simp]:
  "extended_region (region_base r) (region_physical_base r) (region_size r) = r"
  by (cases r) (simp add: extended_region_def)

lemma extended_region_fields [simp]:
  "region_base (extended_region b p n) = b" "region_physical_base (extended_region b p n) = p"
  "region_size (extended_region b p n) = n"
  by (simp_all add: extended_region_def)

lemma virtual_span_extended [simp]: "virtual_span (extended_region b p n) = (unat b, n)"
  by (simp add: virtual_span_def extended_region_def)

text \<open>Two regions that continue each other and their union.\<close>

lemma continues_sizes:
  assumes "continues (extended_region b p n) r" and "span_ok (unat b, n)" and "span_ok (virtual_span r)"
  shows "unat (region_base r) = unat b + n" and "(n + region_size r) mod size_t_range = n + region_size r"
    and "span_ok (unat b, n + region_size r)"
proof -
  show e: "unat (region_base r) = unat b + n" using span_end_word [OF assms(2)] assms(1)
    by (simp add: continues_def extended_region_def)
  then show "(n + region_size r) mod size_t_range = n + region_size r" and "span_ok (unat b, n + region_size r)"
    using assms(2,3) by (simp_all add: span_ok_def virtual_span_def)
qed

lemma continues_maps:
  assumes "continues (extended_region b p n) r" and "span_ok (unat b, n)" and "span_ok (virtual_span r)"
  shows "region_maps [extended_region b p (n + region_size r)] a q \<longleftrightarrow> region_maps [extended_region b p n, r] a q"
proof -
  have rb: "region_base r = b + of_nat n" "region_physical_base r = p + of_nat n"
    using assms(1) by (simp_all add: continues_def extended_region_def)
  have "region_physical_base r + (a - region_base r) = p + (a - b)" by (simp add: rb)
  then show ?thesis using continues_sizes(1) [OF assms]
    by (auto simp: region_maps_def in_span_def extended_region_def virtual_span_def)
qed

lemma spans_apart_union:
  assumes "spans_apart x (b, n)" and "spans_apart x (b + n, m)" and "span_ok x"
  shows "spans_apart x (b, n + m)"
  using assms by (auto simp: spans_apart_def span_ok_def)

lemma continues_spans:
  assumes "continues (extended_region b p n) r" and "spans_ok (map virtual_span (extended_region b p n # r # rs))"
  shows "spans_ok (map virtual_span (extended_region b p (n + region_size r) # rs))"
proof -
  have ok: "span_ok (unat b, n)" "span_ok (virtual_span r)" using assms(2) by auto
  note sz = continues_sizes [OF assms(1) ok]
  have "spans_apart (virtual_span t) (unat b, n + region_size r)" if "t \<in> set rs" for t
    using assms(2) that sz(1) spans_ok_span [of "map virtual_span rs"]
    by (intro spans_apart_union) (auto simp: spans_apart_sym virtual_span_def)
  then show ?thesis using assms(2) sz(3) by (auto simp: spans_apart_sym)
qed

text \<open>The invariant of the merging loop, for the region under construction and the regions to come.\<close>

lemma defragment_loop_apart:
  assumes "spans_ok (map virtual_span (extended_region b p n # rs))" and "span_ok x"
    and "\<forall>r \<in> set (extended_region b p n # rs). spans_apart x (virtual_span r)"
  shows "\<forall>r \<in> set (defragment_loop b p n rs []). spans_apart x (virtual_span r)"
  using assms
proof (induction rs arbitrary: b p n)
  case (Cons r rs)
  show ?case
  proof (cases "continues (extended_region b p n) r")
    case True
    have ok: "span_ok (unat b, n)" "span_ok (virtual_span r)" using Cons.prems(1) by auto
    note sz = continues_sizes [OF True ok]
    have xs: "spans_apart x (unat b, n + region_size r)"
      using Cons.prems(2,3) sz(1) by (intro spans_apart_union) (auto simp: virtual_span_def)
    have "\<forall>t \<in> set (extended_region b p (n + region_size r) # rs). spans_apart x (virtual_span t)"
      using xs Cons.prems(3) by simp
    note rest = Cons.IH [OF continues_spans [OF True Cons.prems(1)] Cons.prems(2) this]
    have "defragment_loop b p n (r # rs) [] = defragment_loop b p (n + region_size r) rs []"
      using True sz(2) by (simp add: defragment_loop_step)
    then show ?thesis using rest by simp
  next
    case False
    have "\<forall>t \<in> set (defragment_loop (region_base r) (region_physical_base r) (region_size r) rs []). spans_apart x (virtual_span t)"
      using Cons.prems by (intro Cons.IH) auto
    then show ?thesis using Cons.prems(3) False by (simp add: defragment_loop_step)
  qed
qed simp

lemma defragment_loop_hd:
  "\<exists>m xs. defragment_loop b p n rs [] = extended_region b p m # xs"
  by (induction rs arbitrary: b p n) (auto simp: defragment_loop_step)

lemma defragment_loop_maps:
  assumes "spans_ok (map virtual_span (extended_region b p n # rs))"
  shows "region_maps (defragment_loop b p n rs []) a q \<longleftrightarrow> region_maps (extended_region b p n # rs) a q"
    and "spans_ok (map virtual_span (defragment_loop b p n rs []))"
    and "successively (\<lambda>r r'. \<not> continues r r') (defragment_loop b p n rs [])"
  using assms
proof (induction rs arbitrary: b p n)
  case (Cons r rs)
  let ?loop = "defragment_loop (region_base r) (region_physical_base r) (region_size r) rs []"
  {
    case 1
    show ?case
    proof (cases "continues (extended_region b p n) r")
      case True
      have ok: "span_ok (unat b, n)" "span_ok (virtual_span r)" using 1 by auto
      show ?thesis
        using Cons.IH(1) [OF continues_spans [OF True 1]] continues_maps [OF True ok] continues_sizes(2) [OF True ok] True
        by (simp add: defragment_loop_step region_maps_Cons [of _ "_ # _"] region_maps_Cons [of _ rs])
    next
      case False
      then show ?thesis using 1 Cons.IH(1) [of "region_base r" "region_physical_base r" "region_size r"]
        by (simp add: defragment_loop_step region_maps_Cons [of _ "?loop"] region_maps_Cons [of _ "r # rs"])
    qed
  next
    case 2
    show ?case
    proof (cases "continues (extended_region b p n) r")
      case True
      have ok: "span_ok (unat b, n)" "span_ok (virtual_span r)" using 2 by auto
      show ?thesis using Cons.IH(2) [OF continues_spans [OF True 2]] continues_sizes(2) [OF True ok] True
        by (simp add: defragment_loop_step)
    next
      case False
      then show ?thesis using 2 Cons.IH(2) [of "region_base r" "region_physical_base r" "region_size r"]
          defragment_loop_apart [of "region_base r" "region_physical_base r" "region_size r" rs "(unat b, n)"]
        by (simp add: defragment_loop_step)
    qed
  next
    case 3
    show ?case
    proof (cases "continues (extended_region b p n) r")
      case True
      have ok: "span_ok (unat b, n)" "span_ok (virtual_span r)" using 3 by auto
      show ?thesis using Cons.IH(3) [OF continues_spans [OF True 3]] continues_sizes(2) [OF True ok] True
        by (simp add: defragment_loop_step)
    next
      case False
      moreover obtain m xs where "?loop = extended_region (region_base r) (region_physical_base r) m # xs"
        using defragment_loop_hd by blast
      ultimately show ?thesis using 3 Cons.IH(3) [of "region_base r" "region_physical_base r" "region_size r"]
        by (auto simp: defragment_loop_step continues_def)
    qed
  }
qed (simp_all add: defragment_loop.simps)

text \<open>
  C29. Merging the regions of the kernel memory changes no address: a virtual address lies in a merged region
  exactly when it lay in one of the allocated ones, with the same physical address. The merged regions do not
  overlap either, and no two neighbours in the result could be merged again.
\<close>

theorem defragment_regions_keeps_mapping:
  assumes "spans_ok (map virtual_span rs)"
  shows "(region_maps (defragment_regions rs) a q \<longleftrightarrow> region_maps rs a q) \<and>
    spans_ok (map virtual_span (defragment_regions rs)) \<and>
    successively (\<lambda>r r'. \<not> continues r r') (defragment_regions rs)"
proof -
  let ?s = "sort_key region_base rs"
  have ok: "spans_ok (map virtual_span ?s)" by (rule spans_ok_perm [OF assms]) simp
  have maps: "region_maps ?s a q \<longleftrightarrow> region_maps rs a q" by (simp add: region_maps_def)
  show ?thesis
  proof (cases ?s)
    case Nil
    then show ?thesis using maps by (simp add: defragment_regions_def)
  next
    case (Cons r old)
    have "spans_ok (map virtual_span (extended_region (region_base r) (region_physical_base r) (region_size r) # old))"
      using ok Cons by simp
    from defragment_loop_maps [OF this] show ?thesis using maps Cons by (simp add: defragment_regions_def)
  qed
qed

theorem defragment_regions_keeps_mapping_witness:
  "defragment_regions [extended_region 0x2000 0x9000 0x1000, extended_region 0x1000 0x8000 0x1000,
      extended_region 0x3000 0x5000 0x1000] = [extended_region 0x1000 0x8000 0x2000, extended_region 0x3000 0x5000 0x1000] \<and>
   region_maps (defragment_regions [extended_region 0x2000 0x9000 0x1000, extended_region 0x1000 0x8000 0x1000,
      extended_region 0x3000 0x5000 0x1000]) 0x2abc 0x9abc"
proof -
  let ?rs = "[extended_region 0x2000 0x9000 0x1000, extended_region 0x1000 0x8000 0x1000, extended_region 0x3000 0x5000 0x1000]"
  have ok: "spans_ok (map virtual_span ?rs)"
    by (simp add: span_ok_def spans_apart_def)
  show ?thesis using defragment_regions_keeps_mapping [OF ok, of "0x2abc" "0x9abc"]
    by (simp add: defragment_regions_def region_maps_def in_span_def sort_key_def defragment_loop.simps)
qed

end
