(* ===== verification/CH_Bypass.thy ===== *)
theory CH_Bypass
  imports CH_Lru_Eviction CH_Regions
begin

text \<open>
  Adapters over memories: \<open>adapters/bypass_adapter\<close>, \<open>adapters/armv8_bypass_adapter\<close> and the operations that
  \<open>adapters/physical_adapter\<close> passes on. A memory is the record of its operations over a state \<open>'m\<close>, an
  adapter a function from memories to memories, so that adapters can be stacked like the command line
  tool stacks them.

  \<open>bypass_adapter\<close> hides the first level of a cache: it reserves an eviction set for every set of that level and
  uses it to evict an address that hit there. The theorems show what the constructor reserves, and
  that over an LRU first level the retry loop of an access ends.
\<close>

section \<open>Memories\<close>

record 'm memory_ops =
  mo_offset_bits :: nat
  mo_levels :: nat
  mo_index_bits :: "nat \<Rightarrow> nat option"
  mo_ways :: "nat \<Rightarrow> nat option"
  mo_access :: "uintptr \<Rightarrow> 'm \<Rightarrow> 'm option"
  mo_instrumented_access :: "uintptr \<Rightarrow> 'm \<Rightarrow> (nat \<times> 'm) option"
  mo_cisw :: "nat \<Rightarrow> nat \<Rightarrow> nat \<Rightarrow> 'm \<Rightarrow> 'm option"
  mo_csw :: "nat \<Rightarrow> nat \<Rightarrow> nat \<Rightarrow> 'm \<Rightarrow> 'm option"
  mo_isw :: "nat \<Rightarrow> nat \<Rightarrow> nat \<Rightarrow> 'm \<Rightarrow> 'm option"
  mo_clflush :: "uintptr \<Rightarrow> 'm \<Rightarrow> 'm option"
  mo_wbinvd :: "'m \<Rightarrow> 'm option"
  mo_flush :: "'m \<Rightarrow> 'm option"
  mo_reset :: "'m \<Rightarrow> 'm option"
  mo_switch_channel :: "'m \<Rightarrow> 'm option"

text \<open>\<open>memory_.levels() - 1\<close> is an \<open>unsigned\<close> subtraction.\<close>

definition below_first :: "nat \<Rightarrow> nat" where
  "below_first levels = (levels + 2 ^ 32 - 1) mod 2 ^ 32"

section \<open>The physical adapter as a memory\<close>

definition physical_ops :: "physical_adapter \<Rightarrow> 'm memory_ops \<Rightarrow> 'm memory_ops" where
  "physical_ops p ops = ops\<lparr>mo_access := pa_access (mo_access ops) p,
     mo_instrumented_access := pa_instrumented_access (mo_instrumented_access ops) p,
     mo_clflush := pa_clflush (mo_clflush ops) p\<rparr>"

section \<open>The ARMv8 bypass adapter\<close>

fun invalidate_ways :: "'m memory_ops \<Rightarrow> nat \<Rightarrow> nat list \<Rightarrow> 'm \<Rightarrow> 'm option" where
  "invalidate_ways ops s [] m = Some m"
| "invalidate_ways ops s (way # ways) m = do { m' \<leftarrow> mo_isw ops 0 s way m; invalidate_ways ops s ways m' }"

definition invalidate_set :: "'m memory_ops \<Rightarrow> nat \<Rightarrow> 'm \<Rightarrow> 'm option" where
  "invalidate_set ops s m = do {
     ways \<leftarrow> mo_ways ops 0;
     m' \<leftarrow> invalidate_ways ops s [0..<ways] m;
     mo_flush ops m' }"

definition ab_instrumented_access :: "(uintptr \<Rightarrow> nat) \<Rightarrow> 'm memory_ops \<Rightarrow> uintptr \<Rightarrow> 'm \<Rightarrow> (nat \<times> 'm) option" where
  "ab_instrumented_access placement ops address m = do {
     let s = placement address;
     m1 \<leftarrow> invalidate_set ops s m;
     (level, m2) \<leftarrow> mo_instrumented_access ops address m1;
     require (level \<noteq> 0);
     m3 \<leftarrow> invalidate_set ops s m2;
     Some (level - 1, m3) }"

definition ab_access :: "(uintptr \<Rightarrow> nat) \<Rightarrow> 'm memory_ops \<Rightarrow> uintptr \<Rightarrow> 'm \<Rightarrow> 'm option" where
  "ab_access placement ops address m = map_option snd (ab_instrumented_access placement ops address m)"

definition armv8_bypass_ops :: "(uintptr \<Rightarrow> nat) \<Rightarrow> 'm memory_ops \<Rightarrow> 'm memory_ops" where
  "armv8_bypass_ops placement ops = ops\<lparr>
     mo_index_bits := (\<lambda>level. mo_index_bits ops (level + 1)), mo_ways := (\<lambda>level. mo_ways ops (level + 1)),
     mo_access := ab_access placement ops, mo_instrumented_access := ab_instrumented_access placement ops,
     mo_levels := below_first (mo_levels ops), mo_cisw := (\<lambda>level. mo_cisw ops (level + 1)),
     mo_csw := (\<lambda>level. mo_csw ops (level + 1)), mo_isw := (\<lambda>level. mo_isw ops (level + 1))\<rparr>"

section \<open>The bypass adapter\<close>

subsection \<open>Construction\<close>

text \<open>
  The loop over the lines of one region. The last component of the result is the address after the line
  that completed the last eviction set, if that happened.
\<close>

partial_function (option) scan_region ::
    "(uintptr \<Rightarrow> nat) \<Rightarrow> nat \<Rightarrow> nat \<Rightarrow> uintptr \<Rightarrow> uintptr \<Rightarrow> uintptr \<Rightarrow> uintptr list list \<Rightarrow> nat \<Rightarrow>
     (uintptr list list \<times> nat \<times> uintptr option) option" where
  [code]: "scan_region placement ways sets increment last_address address evsets found_evsets =
     (if address < last_address then do {
        let s = placement address;
        evset \<leftarrow> vec_at evsets s;
        if length evset < ways then
          let evset' = evset @ [address];
              evsets' = evsets[s := evset'];
              found = found_evsets + of_bool (length evset' = ways)
          in if found = sets then Some (evsets', found, Some (address + increment))
             else scan_region placement ways sets increment last_address (address + increment) evsets' found
        else scan_region placement ways sets increment last_address (address + increment) evsets found_evsets }
      else Some (evsets, found_evsets, None))"

text \<open>The part of a region that starts at \<open>new_base\<close>, with and without physical addresses.\<close>

definition rest_basic :: "uintptr \<Rightarrow> basic_memory_region \<Rightarrow> basic_memory_region" where
  "rest_basic new_base region =
     \<lparr>region_base = new_base, region_size = region_size region - unat (new_base - region_base region)\<rparr>"

definition rest_extended :: "uintptr \<Rightarrow> basic_extended_memory_region \<Rightarrow> basic_extended_memory_region" where
  "rest_extended new_base region =
     (let reserved_space = new_base - region_base region
      in extended_region new_base (region_physical_base region + reserved_space) (region_size region - unat reserved_space))"

record 'z bypass_adapter =
  by_regions :: "'z basic_memory_region_scheme list"
  by_evsets :: "uintptr list list"

fun bypass_regions ::
    "(uintptr \<Rightarrow> 'z basic_memory_region_scheme \<Rightarrow> 'z basic_memory_region_scheme) \<Rightarrow> (uintptr \<Rightarrow> nat) \<Rightarrow> nat \<Rightarrow> nat \<Rightarrow>
     uintptr \<Rightarrow> 'z basic_memory_region_scheme list \<Rightarrow> nat \<Rightarrow> 'z bypass_adapter \<Rightarrow> 'z bypass_adapter option" where
  "bypass_regions rest placement ways sets increment [] found_evsets b = Some b"
| "bypass_regions rest placement ways sets increment (region # regions) found_evsets b =
     (let last_address = region_base region + of_nat (region_size region)
      in if found_evsets < sets then do {
           (evsets, found, new_base) \<leftarrow> scan_region placement ways sets increment last_address (region_base region)
             (by_evsets b) found_evsets;
           bypass_regions rest placement ways sets increment regions found
             (b\<lparr>by_evsets := evsets,
                by_regions := by_regions b @
                  (case new_base of
                     None \<Rightarrow> []
                   | Some nb \<Rightarrow> if nb < last_address then [rest nb region] else [])\<rparr>) }
         else bypass_regions rest placement ways sets increment regions found_evsets
                (b\<lparr>by_regions := by_regions b @ [region]\<rparr>))"

text \<open>The shifts are \<open>int\<close> shifts.\<close>

definition bypass_init ::
    "(uintptr \<Rightarrow> 'z basic_memory_region_scheme \<Rightarrow> 'z basic_memory_region_scheme) \<Rightarrow> 'm memory_ops \<Rightarrow> (uintptr \<Rightarrow> nat) \<Rightarrow>
     'z basic_memory_region_scheme list \<Rightarrow> 'z bypass_adapter option" where
  "bypass_init rest ops placement regions = do {
     index_bits \<leftarrow> mo_index_bits ops 0;
     require (index_bits < 31 \<and> mo_offset_bits ops < 31);
     ways \<leftarrow> mo_ways ops 0;
     bypass_regions rest placement ways (2 ^ index_bits) (push_bit (mo_offset_bits ops) 1) regions 0
       \<lparr>by_regions = [], by_evsets = replicate (2 ^ index_bits) []\<rparr> }"

subsection \<open>Accesses\<close>

definition access_eviction_set :: "'m memory_ops \<Rightarrow> 'z bypass_adapter \<Rightarrow> nat \<Rightarrow> 'm \<Rightarrow> 'm option" where
  "access_eviction_set ops b s m = do {
     evset \<leftarrow> vec_at (by_evsets b) s;
     access_all (mo_access ops) evset m }"

text \<open>From the label \<open>retry\<close> on.\<close>

partial_function (option) bypass_retry ::
    "'m memory_ops \<Rightarrow> 'z bypass_adapter \<Rightarrow> nat \<Rightarrow> uintptr \<Rightarrow> 'm \<Rightarrow> (nat \<times> 'm) option" where
  [code]: "bypass_retry ops b s address m = do {
     m1 \<leftarrow> access_eviction_set ops b s m;
     (level, m2) \<leftarrow> mo_instrumented_access ops address m1;
     if level = 0 then bypass_retry ops b s address m2 else Some (0, m2) }"

definition bypass_instrumented_access :: "(uintptr \<Rightarrow> nat) \<Rightarrow> 'm memory_ops \<Rightarrow> 'z bypass_adapter \<Rightarrow> uintptr \<Rightarrow> 'm \<Rightarrow>
    (nat \<times> 'm) option" where
  "bypass_instrumented_access placement ops b address m = do {
     (level, m1) \<leftarrow> mo_instrumented_access ops address m;
     if level > 0 then Some (level - 1, m1)
     else bypass_retry ops b (placement address) address m1 }"

definition bypass_access :: "(uintptr \<Rightarrow> nat) \<Rightarrow> 'm memory_ops \<Rightarrow> 'z bypass_adapter \<Rightarrow> uintptr \<Rightarrow> 'm \<Rightarrow> 'm option" where
  "bypass_access placement ops b address m = map_option snd (bypass_instrumented_access placement ops b address m)"

definition bypass_ops :: "(uintptr \<Rightarrow> nat) \<Rightarrow> 'z bypass_adapter \<Rightarrow> 'm memory_ops \<Rightarrow> 'm memory_ops" where
  "bypass_ops placement b ops = ops\<lparr>
     mo_index_bits := (\<lambda>level. mo_index_bits ops (level + 1)), mo_ways := (\<lambda>level. mo_ways ops (level + 1)),
     mo_access := bypass_access placement ops b, mo_instrumented_access := bypass_instrumented_access placement ops b,
     mo_levels := below_first (mo_levels ops)\<rparr>"

section \<open>What the constructor reserves\<close>

text \<open>
  \<open>reserved_ok\<close>: there is a list of addresses for every set, without repetitions, of at most \<open>ways\<close> addresses of that
  set, all from \<open>U\<close>, and \<open>found\<close> counts the complete ones.
\<close>

definition reserved_ok :: "(uintptr \<Rightarrow> nat) \<Rightarrow> nat \<Rightarrow> nat \<Rightarrow> uintptr set \<Rightarrow> uintptr list list \<Rightarrow> nat \<Rightarrow> bool" where
  "reserved_ok pl ways sets U evsets found \<longleftrightarrow> length evsets = sets \<and>
     found = card {s. s < sets \<and> length (evsets ! s) = ways} \<and>
     (\<forall>s < sets. distinct (evsets ! s) \<and> length (evsets ! s) \<le> ways \<and> (\<forall>a \<in> set (evsets ! s). pl a = s \<and> a \<in> U))"

lemma reserved_ok_mono: "reserved_ok pl ways sets U evsets found \<Longrightarrow> U \<subseteq> V \<Longrightarrow> reserved_ok pl ways sets V evsets found"
  by (auto simp: reserved_ok_def)

lemma reserved_ok_init: "0 < ways \<Longrightarrow> reserved_ok pl ways sets {} (replicate sets []) 0"
  by (simp add: reserved_ok_def)

lemma reserved_ok_add:
  assumes "reserved_ok pl ways sets U evsets found" and "pl a < sets" and "length (evsets ! pl a) < ways" and "a \<notin> U"
  shows "reserved_ok pl ways sets (insert a U) (evsets[pl a := evsets ! pl a @ [a]])
    (found + of_bool (Suc (length (evsets ! pl a)) = ways))"
proof -
  let ?s = "pl a" and ?es = "evsets[pl a := evsets ! pl a @ [a]]"
  have len: "length evsets = sets" using assms(1) by (simp add: reserved_ok_def)
  have "{s. s < sets \<and> length (?es ! s) = ways} =
      (if Suc (length (evsets ! ?s)) = ways then insert ?s {s. s < sets \<and> length (evsets ! s) = ways}
       else {s. s < sets \<and> length (evsets ! s) = ways})"
    using assms(2,3) len by (auto simp: nth_list_update)
  then have "found + of_bool (Suc (length (evsets ! ?s)) = ways) = card {s. s < sets \<and> length (?es ! s) = ways}"
    using assms(1,3) by (simp add: reserved_ok_def)
  then show ?thesis using assms len by (auto simp: reserved_ok_def nth_list_update)
qed

lemma word_add_less:
  assumes "address < lst" and "unat lst + unat inc \<le> 2 ^ 64" and "0 < unat inc"
  shows "unat (address + inc :: uintptr) = unat address + unat inc" and "address < address + inc"
proof -
  have "unat address < unat lst" using assms(1) by (simp add: word_less_nat_alt)
  then show eq: "unat (address + inc) = unat address + unat inc"
    using assms(2) by (simp add: unat_word_ariths)
  then show "address < address + inc" using assms(3) by (simp add: word_less_nat_alt)
qed

lemma scan_region_ok:
  assumes "reserved_ok pl ways sets U evsets found" and "found < sets" and "\<forall>x \<in> U. \<not> (address \<le> x \<and> x < lst)"
    and pl: "\<forall>a. pl a < sets" and inc: "unat lst + unat inc \<le> 2 ^ 64" "0 < unat inc"
  shows "\<exists>evsets' found' r. scan_region pl ways sets inc lst address evsets found = Some (evsets', found', r) \<and>
    reserved_ok pl ways sets (U \<union> {x. address \<le> x \<and> x < lst \<and> (\<forall>nb. r = Some nb \<longrightarrow> x < nb)}) evsets' found' \<and>
    (r = None \<longrightarrow> found' < sets) \<and> (\<forall>nb. r = Some nb \<longrightarrow> found' = sets \<and> address < nb)"
  using assms(1-3)
proof (induction "unat lst - unat address" arbitrary: address evsets found U rule: less_induct)
  case less
  show ?case
  proof (cases "address < lst")
    case False
    then have "scan_region pl ways sets inc lst address evsets found = Some (evsets, found, None)"
      by (subst scan_region.simps) simp
    moreover have "reserved_ok pl ways sets (U \<union> {x. address \<le> x \<and> x < lst \<and> (\<forall>nb. None = Some nb \<longrightarrow> x < nb)}) evsets found"
      by (rule reserved_ok_mono [OF less.prems(1)]) auto
    ultimately show ?thesis using less.prems(2) by blast
  next
    case True
    note next_addr = word_add_less [OF True inc]
    have smaller: "unat lst - unat (address + inc) < unat lst - unat address"
      using True inc(2) next_addr(1) by (simp add: word_less_nat_alt)
    have ev: "vec_at evsets (pl address) = Some (evsets ! pl address)"
      using less.prems(1) pl by (simp add: reserved_ok_def)
    have le_next: "address \<le> x" if "address + inc \<le> x" for x
      using that next_addr(2) by (meson order.strict_implies_order order.strict_trans2)
    have rec: "\<exists>evsets' found' r. scan_region pl ways sets inc lst (address + inc) es f = Some (evsets', found', r) \<and>
        reserved_ok pl ways sets (U \<union> {x. address \<le> x \<and> x < lst \<and> (\<forall>nb. r = Some nb \<longrightarrow> x < nb)}) evsets' found' \<and>
        (r = None \<longrightarrow> found' < sets) \<and> (\<forall>nb. r = Some nb \<longrightarrow> found' = sets \<and> address < nb)"
      if es: "reserved_ok pl ways sets (insert address U) es f" "f < sets" for es f
    proof -
      have "\<forall>x \<in> insert address U. \<not> (address + inc \<le> x \<and> x < lst)"
      proof (intro ballI notI)
        fix x assume "x \<in> insert address U" "address + inc \<le> x \<and> x < lst"
        moreover from this have "address < x" using next_addr(2) by (meson order.strict_trans2)
        ultimately show False using less.prems(3) by auto
      qed
      from less.hyps [OF smaller es this] obtain evsets' found' r where
        r: "scan_region pl ways sets inc lst (address + inc) es f = Some (evsets', found', r)"
          "reserved_ok pl ways sets (insert address U \<union> {x. address + inc \<le> x \<and> x < lst \<and> (\<forall>nb. r = Some nb \<longrightarrow> x < nb)}) evsets' found'"
          "r = None \<longrightarrow> found' < sets" "\<forall>nb. r = Some nb \<longrightarrow> found' = sets \<and> address + inc < nb" by blast
      have lower: "address < nb" if "r = Some nb" for nb
        using r(4) that order.strict_trans [OF next_addr(2), of nb] by simp
      have "insert address U \<union> {x. address + inc \<le> x \<and> x < lst \<and> (\<forall>nb. r = Some nb \<longrightarrow> x < nb)} \<subseteq>
          U \<union> {x. address \<le> x \<and> x < lst \<and> (\<forall>nb. r = Some nb \<longrightarrow> x < nb)}"
        using True lower le_next by auto
      then have "reserved_ok pl ways sets (U \<union> {x. address \<le> x \<and> x < lst \<and> (\<forall>nb. r = Some nb \<longrightarrow> x < nb)}) evsets' found'"
        using reserved_ok_mono [OF r(2)] by blast
      with r(1,3,4) lower show ?thesis by blast
    qed
    show ?thesis
    proof (cases "length (evsets ! pl address) < ways")
      case False
      then have "scan_region pl ways sets inc lst address evsets found = scan_region pl ways sets inc lst (address + inc) evsets found"
        using True ev by (subst scan_region.simps) simp
      moreover have "reserved_ok pl ways sets (insert address U) evsets found"
        by (rule reserved_ok_mono [OF less.prems(1)]) auto
      ultimately show ?thesis using rec [OF _ less.prems(2)] by simp
    next
      case room: True
      let ?es = "evsets[pl address := evsets ! pl address @ [address]]"
      let ?f = "found + of_bool (Suc (length (evsets ! pl address)) = ways)"
      have "address \<notin> U" using less.prems(3) True by auto
      with reserved_ok_add [OF less.prems(1) _ room] pl have ok: "reserved_ok pl ways sets (insert address U) ?es ?f" by simp
      show ?thesis
      proof (cases "?f = sets")
        case full: True
        then have "scan_region pl ways sets inc lst address evsets found = Some (?es, sets, Some (address + inc))"
          using True ev room by (subst scan_region.simps) (simp add: Let_def)
        moreover have "reserved_ok pl ways sets (U \<union> {x. address \<le> x \<and> x < lst \<and> x < address + inc}) ?es sets"
        proof -
          have "insert address U \<subseteq> U \<union> {x. address \<le> x \<and> x < lst \<and> x < address + inc}" using True next_addr(2) by simp
          from reserved_ok_mono [OF ok [unfolded full] this] show ?thesis .
        qed
        ultimately show ?thesis using next_addr(2) by (intro exI conjI) auto
      next
        case False
        then have "scan_region pl ways sets inc lst address evsets found = scan_region pl ways sets inc lst (address + inc) ?es ?f"
          using True ev room by (subst scan_region.simps) (simp add: Let_def)
        moreover have "?f < sets" using False less.prems(2) by (cases "Suc (length (evsets ! pl address)) = ways") auto
        ultimately show ?thesis using rec [OF ok] by simp
      qed
    qed
  qed
qed

lemma bypass_regions_full:
  "bypass_regions rest pl ways sets inc regions sets b = Some (b\<lparr>by_regions := by_regions b @ regions\<rparr>)"
  by (induction regions arbitrary: b) simp_all

text \<open>What both ways of cutting a region have in common.\<close>

definition cuts_region :: "(uintptr \<Rightarrow> 'z basic_memory_region_scheme \<Rightarrow> 'z basic_memory_region_scheme) \<Rightarrow> bool" where
  "cuts_region rest \<longleftrightarrow> (\<forall>nb r x. region_base r \<le> nb \<longrightarrow> in_span x (virtual_span (rest nb r)) \<longrightarrow>
     nb \<le> x \<and> in_span x (virtual_span r))"

lemma cuts_span:
  assumes "region_base r \<le> nb" and "region_base r' = nb" and "region_size r' = region_size r - unat (nb - region_base r)"
    and "in_span x (virtual_span r')"
  shows "nb \<le> x \<and> in_span x (virtual_span r)"
proof -
  have "unat (nb - region_base r) = unat nb - unat (region_base r)" using assms(1) by (rule unat_sub)
  moreover have "unat (region_base r) \<le> unat nb" using assms(1) by (simp add: word_le_nat_alt)
  ultimately show ?thesis using assms(2-4) by (auto simp: in_span_def virtual_span_def word_le_nat_alt)
qed

lemma rest_cuts: "cuts_region rest_basic" "cuts_region rest_extended"
  unfolding cuts_region_def
  by (auto dest!: cuts_span [rotated 3] simp: rest_basic_def rest_extended_def extended_region_def Let_def)

text \<open>The regions the constructor can handle: disjoint, and not so close to the end of the address space that the loop wraps.\<close>

definition bypassable :: "uintptr \<Rightarrow> 'z basic_memory_region_scheme list \<Rightarrow> bool" where
  "bypassable inc regions \<longleftrightarrow> spans_ok (map virtual_span regions) \<and>
     (\<forall>r \<in> set regions. unat (region_base r) + region_size r + unat inc \<le> size_t_range)"

lemma span_last:
  assumes "span_ok (virtual_span r)"
  shows "unat (region_base r + of_nat (region_size r)) = unat (region_base r) + region_size r"
    and "in_span x (virtual_span r) \<longleftrightarrow> region_base r \<le> x \<and> x < region_base r + of_nat (region_size r)"
proof -
  show eq: "unat (region_base r + of_nat (region_size r)) = unat (region_base r) + region_size r"
    using assms by (simp add: span_ok_def virtual_span_def unat_word_ariths unat_of_nat)
  show "in_span x (virtual_span r) \<longleftrightarrow> region_base r \<le> x \<and> x < region_base r + of_nat (region_size r)"
    unfolding word_less_nat_alt [of x] word_le_nat_alt eq by (simp add: in_span_def virtual_span_def)
qed

lemma bypass_regions_ok:
  assumes "cuts_region rest" and "bypassable inc regions" and "reserved_ok pl ways sets U (by_evsets b) found"
    and "\<forall>x \<in> U. \<forall>r \<in> set regions. \<not> in_span x (virtual_span r)" and "found \<le> sets"
    and pl: "\<forall>a. pl a < sets" and inc: "0 < unat inc"
  shows "\<exists>b' found' new. bypass_regions rest pl ways sets inc regions found b = Some b' \<and>
    reserved_ok pl ways sets (U \<union> {x. \<exists>r \<in> set regions. in_span x (virtual_span r)}) (by_evsets b') found' \<and>
    found' \<le> sets \<and> (new \<noteq> [] \<longrightarrow> found' = sets) \<and> by_regions b' = by_regions b @ new \<and>
    (\<forall>q \<in> set new. \<forall>x. in_span x (virtual_span q) \<longrightarrow>
       (\<exists>r \<in> set regions. in_span x (virtual_span r)) \<and> (\<forall>es \<in> set (by_evsets b'). x \<notin> set es))"
  using assms(2-5)
proof (induction regions arbitrary: U b found)
  case Nil
  then show ?case by auto
next
  case (Cons r regions)
  let ?last = "region_base r + of_nat (region_size r)"
  have r: "span_ok (virtual_span r)" and apart: "\<forall>q \<in> set regions. spans_apart (virtual_span r) (virtual_span q)"
    and rs: "bypassable inc regions" and wrap: "unat ?last + unat inc \<le> 2 ^ 64"
    using Cons.prems(1) span_last(1) [of r] by (auto simp: bypassable_def)
  have not_reserved: "x \<notin> set es" if "reserved_ok pl ways sets V evs f" "x \<notin> V" "es \<in> set evs" for V evs f es x
  proof -
    from that(3) obtain i where "i < length evs" "es = evs ! i" by (auto simp: in_set_conv_nth)
    with that(1,2) show ?thesis by (auto simp: reserved_ok_def)
  qed
  show ?case
  proof (cases "found = sets")
    case True
    have "\<forall>es \<in> set (by_evsets b). x \<notin> set es" if "q \<in> set (r # regions)" "in_span x (virtual_span q)" for q x
      using not_reserved [OF Cons.prems(2)] Cons.prems(3) that by blast
    moreover have "reserved_ok pl ways sets (U \<union> {x. \<exists>r \<in> set (r # regions). in_span x (virtual_span r)}) (by_evsets b) found"
      by (rule reserved_ok_mono [OF Cons.prems(2)]) auto
    ultimately show ?thesis
      unfolding True bypass_regions_full
      by (intro exI [of _ "b\<lparr>by_regions := by_regions b @ r # regions\<rparr>"] exI [of _ sets] exI [of _ "r # regions"])
        (use True in \<open>simp, blast\<close>)
  next
    case False
    then have less: "found < sets" using Cons.prems(4) by simp
    have "\<forall>x \<in> U. \<not> (region_base r \<le> x \<and> x < ?last)" using Cons.prems(3) span_last(2) [OF r] by auto
    from scan_region_ok [OF Cons.prems(2) less this pl wrap inc] obtain evs f nb where
      scan: "scan_region pl ways sets inc ?last (region_base r) (by_evsets b) found = Some (evs, f, nb)"
      and ok: "reserved_ok pl ways sets (U \<union> {x. region_base r \<le> x \<and> x < ?last \<and> (\<forall>n. nb = Some n \<longrightarrow> x < n)}) evs f"
      and none: "nb = None \<longrightarrow> f < sets" and some: "\<forall>n. nb = Some n \<longrightarrow> f = sets \<and> region_base r < n" by blast
    let ?U = "U \<union> {x. region_base r \<le> x \<and> x < ?last \<and> (\<forall>n. nb = Some n \<longrightarrow> x < n)}"
    have U: "?U \<subseteq> U \<union> {x. in_span x (virtual_span r)}" unfolding span_last(2) [OF r] by auto
    have fresh: "\<forall>x \<in> ?U. \<forall>q \<in> set regions. \<not> in_span x (virtual_span q)"
    proof (intro ballI notI)
      fix x q assume x: "x \<in> ?U" and q: "q \<in> set regions" "in_span x (virtual_span q)"
      have "x \<notin> U" using Cons.prems(3) q by auto
      then have "in_span x (virtual_span r)" using U x by auto
      with q apart show False by (auto simp: spans_apart_def in_span_def)
    qed
    let ?new = "case nb of None \<Rightarrow> [] | Some n \<Rightarrow> if n < ?last then [rest n r] else []"
    define b1 where "b1 = b\<lparr>by_evsets := evs, by_regions := by_regions b @ ?new\<rparr>"
    have b1: "by_evsets b1 = evs" "by_regions b1 = by_regions b @ ?new" by (simp_all add: b1_def)
    have "f \<le> sets" using none some by (cases nb) auto
    from Cons.IH [OF rs, of ?U b1 f, unfolded b1, OF ok fresh this, unfolded append_assoc] obtain b' f' new where
      b': "bypass_regions rest pl ways sets inc regions f b1 = Some b'"
        "reserved_ok pl ways sets (?U \<union> {x. \<exists>r \<in> set regions. in_span x (virtual_span r)}) (by_evsets b') f'"
        "f' \<le> sets" "new \<noteq> [] \<longrightarrow> f' = sets" "by_regions b' = by_regions b @ ?new @ new"
        "\<forall>q \<in> set new. \<forall>x. in_span x (virtual_span q) \<longrightarrow>
           (\<exists>r \<in> set regions. in_span x (virtual_span r)) \<and> (\<forall>es \<in> set (by_evsets b'). x \<notin> set es)" by blast
    have result: "bypass_regions rest pl ways sets inc (r # regions) found b = Some b'"
      using less scan b'(1) by (simp add: b1_def)
    have kept: "f' = sets \<and> by_evsets b' = evs" if "nb \<noteq> None"
    proof -
      from that some have "f = sets" by auto
      with b'(1) have "by_evsets b' = evs" by (auto simp: bypass_regions_full b1)
      with b'(2) ok \<open>f = sets\<close> show ?thesis by (simp add: reserved_ok_def)
    qed
    have cut: "in_span x (virtual_span r) \<and> (\<forall>es \<in> set (by_evsets b'). x \<notin> set es)" if q: "q \<in> set ?new" "in_span x (virtual_span q)" for q x
    proof -
      from q(1) obtain n where n: "nb = Some n" "q = rest n r" by (auto split: option.splits if_splits)
      have "region_base r \<le> n" using some n(1) by (simp add: order.strict_implies_order)
      with assms(1) q(2) n(2) have x: "n \<le> x" "in_span x (virtual_span r)" by (auto simp: cuts_region_def)
      then have "x \<notin> ?U" using n(1) Cons.prems(3) by auto
      with x(2) not_reserved [OF ok] kept n(1) show ?thesis by auto
    qed
    have "reserved_ok pl ways sets (U \<union> {x. \<exists>r \<in> set (r # regions). in_span x (virtual_span r)}) (by_evsets b') f'"
      by (rule reserved_ok_mono [OF b'(2)]) (use U in auto)
    moreover have "?new @ new \<noteq> [] \<longrightarrow> f' = sets" using kept b'(4) by (auto split: option.splits)
    moreover have "(\<exists>r \<in> set (r # regions). in_span x (virtual_span r)) \<and> (\<forall>es \<in> set (by_evsets b'). x \<notin> set es)"
      if "q \<in> set (?new @ new)" "in_span x (virtual_span q)" for q x
    proof (cases "q \<in> set ?new")
      case True
      with cut [OF this that(2)] show ?thesis by simp
    next
      case False
      then have "q \<in> set new" using that(1) unfolding set_append by blast
      with b'(6) that(2) have "(\<exists>r \<in> set regions. in_span x (virtual_span r)) \<and> (\<forall>es \<in> set (by_evsets b'). x \<notin> set es)" by blast
      then show ?thesis by simp
    qed
    ultimately show ?thesis using result b'(3,5) by (intro exI [of _ b'] exI [of _ f'] exI [of _ "?new @ new"]) simp
  qed
qed

lemma push_bit_unat: "k < 64 \<Longrightarrow> 0 < unat (push_bit k 1 :: uintptr)"
proof -
  assume "k < 64"
  then have "bit ((2 :: uintptr) ^ k) k" by (simp add: bit_exp_iff)
  then have "(2 :: uintptr) ^ k \<noteq> 0" by (metis bit_0_eq bot_apply bot_bool_def)
  then show ?thesis by (simp add: unat_gt_0)
qed

lemma bypass_init_ok:
  assumes "cuts_region rest" and "mo_index_bits ops 0 = Some index_bits" and "index_bits < 31" and "mo_offset_bits ops < 31"
    and "mo_ways ops 0 = Some ways" and "0 < ways" and "\<forall>a. placement a < 2 ^ index_bits"
    and "bypassable (push_bit (mo_offset_bits ops) 1) regions"
  shows "\<exists>b found. bypass_init rest ops placement regions = Some b \<and>
    reserved_ok placement ways (2 ^ index_bits) {x. \<exists>r \<in> set regions. in_span x (virtual_span r)} (by_evsets b) found \<and>
    (by_regions b \<noteq> [] \<longrightarrow> found = 2 ^ index_bits) \<and>
    (\<forall>q \<in> set (by_regions b). \<forall>x. in_span x (virtual_span q) \<longrightarrow>
       (\<exists>r \<in> set regions. in_span x (virtual_span r)) \<and> (\<forall>es \<in> set (by_evsets b). x \<notin> set es))"
proof -
  let ?b = "\<lparr>by_regions = [], by_evsets = replicate (2 ^ index_bits) []\<rparr>"
  have "reserved_ok placement ways (2 ^ index_bits) {} (by_evsets ?b) 0" using reserved_ok_init [OF assms(6)] by simp
  from bypass_regions_ok [OF assms(1,8) this _ _ assms(7) push_bit_unat] assms(2-5) show ?thesis
    by (fastforce simp: bypass_init_def)
qed

text \<open>The loop steps from line to line: in a region that starts at a line, it looks at starts of lines only.\<close>

lemma scan_region_lines:
  assumes "unat lst + unat inc \<le> 2 ^ 64" and "0 < unat inc" and step: "\<And>x. P x \<Longrightarrow> P (x + inc)"
  shows "scan_region pl ways sets inc lst address evsets found = Some (evsets', found', nb) \<Longrightarrow> P address \<Longrightarrow>
    \<forall>es \<in> set evsets. \<forall>a \<in> set es. P a \<Longrightarrow> (\<forall>es \<in> set evsets'. \<forall>a \<in> set es. P a) \<and> (\<forall>n. nb = Some n \<longrightarrow> P n)"
proof (induction "unat lst - unat address" arbitrary: address evsets found rule: less_induct)
  case less
  show ?case
  proof (cases "address < lst")
    case False
    then have "scan_region pl ways sets inc lst address evsets found = Some (evsets, found, None)"
      by (subst scan_region.simps) simp
    with less.prems show ?thesis by simp
  next
    case True
    have smaller: "unat lst - unat (address + inc) < unat lst - unat address"
      using True assms(2) word_add_less(1) [OF True assms(1,2)] by (simp add: word_less_nat_alt)
    have nxt: "P (address + inc)" using step [OF less.prems(2)] .
    obtain evset where evset: "vec_at evsets (pl address) = Some evset"
    proof (cases "vec_at evsets (pl address)")
      case None
      then have "scan_region pl ways sets inc lst address evsets found = None"
        using True by (subst scan_region.simps) (simp add: Let_def)
      with less.prems(1) show ?thesis by simp
    qed (rule that)
    let ?es = "evsets[pl address := evset @ [address]]" and ?f = "found + of_bool (length (evset @ [address]) = ways)"
    have run: "scan_region pl ways sets inc lst address evsets found =
        (if length evset < ways then
           if ?f = sets then Some (?es, ?f, Some (address + inc)) else scan_region pl ways sets inc lst (address + inc) ?es ?f
         else scan_region pl ways sets inc lst (address + inc) evsets found)"
      using True evset by (subst scan_region.simps) (simp add: Let_def)
    have "evset \<in> set evsets" using evset by (auto simp: vec_simps)
    then have new: "\<forall>es \<in> set ?es. \<forall>a \<in> set es. P a"
      using set_update_subset_insert [of evsets "pl address" "evset @ [address]"] less.prems(2,3) by fastforce
    show ?thesis
    proof (cases "length evset < ways \<and> ?f = sets")
      case full: True
      with run less.prems(1) have "evsets' = ?es" "nb = Some (address + inc)" by simp_all
      with new nxt show ?thesis by simp
    next
      case False
      then have "(length evset < ways \<and> scan_region pl ways sets inc lst (address + inc) ?es ?f = Some (evsets', found', nb)) \<or>
          scan_region pl ways sets inc lst (address + inc) evsets found = Some (evsets', found', nb)"
        using run less.prems(1) by (metis (no_types, lifting))
      then show ?thesis using less.hyps [OF smaller _ nxt new] less.hyps [OF smaller _ nxt less.prems(3)] by blast
    qed
  qed
qed

lemma bypass_regions_lines:
  assumes "bypassable inc regions" and "0 < unat inc" and step: "\<And>x. P x \<Longrightarrow> P (x + inc)"
    and rest: "\<And>nb r. region_base (rest nb r) = nb"
  shows "bypass_regions rest pl ways sets inc regions found b = Some b' \<Longrightarrow> \<forall>r \<in> set regions. P (region_base r) \<Longrightarrow>
    \<forall>es \<in> set (by_evsets b). \<forall>a \<in> set es. P a \<Longrightarrow> \<forall>q \<in> set (by_regions b). P (region_base q) \<Longrightarrow>
    (\<forall>es \<in> set (by_evsets b'). \<forall>a \<in> set es. P a) \<and> (\<forall>q \<in> set (by_regions b'). P (region_base q))"
  using assms(1)
proof (induction regions arbitrary: b found)
  case (Cons r regions)
  let ?last = "region_base r + of_nat (region_size r)"
  have r: "span_ok (virtual_span r)" "bypassable inc regions" "unat ?last + unat inc \<le> 2 ^ 64"
    using Cons.prems(5) span_last(1) [of r] by (auto simp: bypassable_def)
  show ?case
  proof (cases "found < sets")
    case False
    with Cons.IH [OF _ _ _ _ r(2), of found "b\<lparr>by_regions := by_regions b @ [r]\<rparr>"] Cons.prems(1-4) show ?thesis by auto
  next
    case True
    with Cons.prems(1) obtain evs f nb where
      scan: "scan_region pl ways sets inc ?last (region_base r) (by_evsets b) found = Some (evs, f, nb)"
      and go: "bypass_regions rest pl ways sets inc regions f (b\<lparr>by_evsets := evs, by_regions := by_regions b @
        (case nb of None \<Rightarrow> [] | Some n \<Rightarrow> if n < ?last then [rest n r] else [])\<rparr>) = Some b'"
      unfolding bypass_regions.simps Let_def if_P [OF True] bind_eq_Some_conv by (elim exE conjE, simp only: split_paired_all prod.case)
    have "P (region_base r)" using Cons.prems(2) by simp
    from scan_region_lines [where P = P, OF r(3) assms(2) step scan this Cons.prems(3)]
    have evs: "\<forall>es \<in> set evs. \<forall>a \<in> set es. P a" and "\<forall>n. nb = Some n \<longrightarrow> P n" by auto
    from this(2) rest have new: "\<forall>q \<in> set (case nb of None \<Rightarrow> [] | Some n \<Rightarrow> if n < ?last then [rest n r] else []). P (region_base q)"
      by (cases nb) auto
    have tail: "\<forall>r \<in> set regions. P (region_base r)" using Cons.prems(2) by simp
    define b1 where "b1 = b\<lparr>by_evsets := evs, by_regions := by_regions b @
      (case nb of None \<Rightarrow> [] | Some n \<Rightarrow> if n < ?last then [rest n r] else [])\<rparr>"
    have b1: "by_evsets b1 = evs"
      "by_regions b1 = by_regions b @ (case nb of None \<Rightarrow> [] | Some n \<Rightarrow> if n < ?last then [rest n r] else [])" by (simp_all add: b1_def)
    have "\<forall>q \<in> set (by_regions b1). P (region_base q)" unfolding b1(2) set_append using new Cons.prems(4) by blast
    from Cons.IH [OF go [folded b1_def] tail _ this r(2), unfolded b1(1), OF evs] show ?thesis .
  qed
qed simp

lemma line_start_in:
  assumes "take_bit off (region_base q) = 0" and "in_span x (virtual_span q)"
  shows "in_span (x - take_bit off x) (virtual_span q)"
proof -
  let ?b = "region_base q"
  have "unat (take_bit off x) \<le> unat x" by (simp add: unat_take_bit_mod)
  then have x: "unat (x - take_bit off x) = unat x - unat x mod 2 ^ off" by (simp add: unat_sub word_le_nat_alt unat_take_bit_mod)
  have b: "unat ?b mod 2 ^ off = 0" using arg_cong [OF assms(1), of unat] by (simp add: unat_take_bit_mod)
  have "unat ?b \<le> unat x" using assms(2) by (simp add: in_span_def virtual_span_def)
  then have "unat ?b div 2 ^ off * 2 ^ off \<le> unat x div 2 ^ off * 2 ^ off" by (intro mult_le_mono1 div_le_mono)
  with b have "unat ?b \<le> unat x - unat x mod 2 ^ off" by (metis add.right_neutral minus_mod_eq_div_mult div_mult_mod_eq)
  moreover have "unat x - unat x mod 2 ^ off < unat ?b + region_size q"
    using assms(2) by (intro le_less_trans [OF diff_le_self]) (simp add: in_span_def virtual_span_def)
  ultimately show ?thesis unfolding in_span_def virtual_span_def x by simp
qed

section \<open>Properties\<close>

text \<open>
  C25. Constructing the bypass adapter over regions that start at a line ends, and it reserves from the memory, for every set of the first level, different
  lines of that set, at most one per way. What it leaves as its own regions is memory on lines of which none is
  reserved; if it leaves anything, every set has its full eviction set.
\<close>

theorem bypass_reserves_eviction_sets:
  assumes "mo_index_bits ops 0 = Some index_bits" and "index_bits < 31" and "mo_offset_bits ops < 31"
    and "mo_ways ops 0 = Some ways" and "0 < ways" and "\<forall>a. placement a < 2 ^ index_bits"
    and "bypassable (push_bit (mo_offset_bits ops) 1) regions"
    and "\<forall>r \<in> set regions. take_bit (mo_offset_bits ops) (region_base r) = 0"
  shows "\<exists>b. bypass_init rest_extended ops placement regions = Some b \<and> length (by_evsets b) = 2 ^ index_bits \<and>
    (\<forall>s < 2 ^ index_bits. distinct (map (drop_bit (mo_offset_bits ops)) (by_evsets b ! s)) \<and> length (by_evsets b ! s) \<le> ways \<and>
       (\<forall>a \<in> set (by_evsets b ! s). placement a = s \<and> (\<exists>r \<in> set regions. in_span a (virtual_span r)))) \<and>
    (by_regions b \<noteq> [] \<longrightarrow> (\<forall>s < 2 ^ index_bits. length (by_evsets b ! s) = ways)) \<and>
    (\<forall>q \<in> set (by_regions b). \<forall>x. in_span x (virtual_span q) \<longrightarrow>
       (\<exists>r \<in> set regions. in_span x (virtual_span r)) \<and>
       (\<forall>es \<in> set (by_evsets b). \<forall>a \<in> set es. drop_bit (mo_offset_bits ops) x \<noteq> drop_bit (mo_offset_bits ops) a))"
proof -
  let ?off = "mo_offset_bits ops"
  let ?line = "\<lambda>a :: uintptr. take_bit ?off a = 0"
  from bypass_init_ok [OF rest_cuts(2) assms(1-7)] obtain b found where
    b: "bypass_init rest_extended ops placement regions = Some b"
      "reserved_ok placement ways (2 ^ index_bits) {x. \<exists>r \<in> set regions. in_span x (virtual_span r)} (by_evsets b) found"
      "by_regions b \<noteq> [] \<longrightarrow> found = 2 ^ index_bits"
      "\<forall>q \<in> set (by_regions b). \<forall>x. in_span x (virtual_span q) \<longrightarrow>
         (\<exists>r \<in> set regions. in_span x (virtual_span r)) \<and> (\<forall>es \<in> set (by_evsets b). x \<notin> set es)" by blast
  have step: "?line (a + push_bit ?off 1)" if "?line a" for a
  proof -
    have "a = push_bit ?off (drop_bit ?off a)" using that bits_ident [of ?off a] by simp
    then have "a + push_bit ?off 1 = push_bit ?off (drop_bit ?off a + 1)" by (simp add: push_bit_add)
    moreover have "take_bit ?off (push_bit ?off c) = 0" for c :: uintptr by (rule bit_word_eqI) (auto simp: bit_simps)
    ultimately show ?thesis by simp
  qed
  have "bypass_regions rest_extended placement ways (2 ^ index_bits) (push_bit ?off 1) regions 0
      \<lparr>by_regions = [], by_evsets = replicate (2 ^ index_bits) []\<rparr> = Some b"
    using b(1) assms(1,4) by (simp add: bypass_init_def bind_eq_Some_conv require_def split: if_splits)
  from bypass_regions_lines [OF assms(7) push_bit_unat step _ this assms(8)] assms(3)
  have lines: "\<forall>es \<in> set (by_evsets b). \<forall>a \<in> set es. ?line a" "\<forall>q \<in> set (by_regions b). ?line (region_base q)"
    by (simp_all add: rest_extended_def extended_region_def Let_def)
  have same: "a = a'" if "?line a" "?line a'" "drop_bit ?off a = drop_bit ?off a'" for a a'
    using that bits_ident [of ?off a] bits_ident [of ?off a'] by simp
  have len: "length (by_evsets b) = 2 ^ index_bits" using b(2) by (simp add: reserved_ok_def)
  have full: "length (by_evsets b ! s) = ways" if "by_regions b \<noteq> []" "s < 2 ^ index_bits" for s
  proof -
    have "card {s. s < 2 ^ index_bits \<and> length (by_evsets b ! s) = ways} = card {..<2 ^ index_bits :: nat}"
      using b(2,3) that(1) by (simp add: reserved_ok_def)
    then have "{s. s < 2 ^ index_bits \<and> length (by_evsets b ! s) = ways} = {..<2 ^ index_bits}"
      by (intro card_subset_eq) auto
    with that(2) show ?thesis by auto
  qed
  have different: "distinct (map (drop_bit ?off) (by_evsets b ! s))" if "s < 2 ^ index_bits" for s
  proof -
    have "by_evsets b ! s \<in> set (by_evsets b)" using that len by simp
    then have "inj_on (drop_bit ?off) (set (by_evsets b ! s))" using lines(1) same by (auto intro!: inj_onI)
    then show ?thesis using b(2) that by (simp add: reserved_ok_def distinct_map)
  qed
  have left: "drop_bit ?off x \<noteq> drop_bit ?off a"
    if q: "q \<in> set (by_regions b)" "in_span x (virtual_span q)" and a: "es \<in> set (by_evsets b)" "a \<in> set es" for q x es a
  proof
    assume "drop_bit ?off x = drop_bit ?off a"
    then have x: "x - take_bit ?off x = a" using lines(1) a bits_ident [of ?off x] bits_ident [of ?off a] by (metis add.right_neutral add_diff_cancel_right')
    show False using line_start_in [OF lines(2) [rule_format, OF q(1)] q(2)] b(4) q(1) a unfolding x by blast
  qed
  show ?thesis using b len full different left by (intro exI [of _ b]) (simp add: reserved_ok_def)
qed

text \<open>
  C26. Over a hierarchy whose first level is LRU, an access through the bypass adapter always ends, after at most one
  round of eviction: an address that misses in the first level is reported one level up and nothing is evicted; for an address that hits there the eviction set
  is accessed once, the second access misses in the first level, and the second level is reported. The
  eviction set has to hold as many other lines of the first-level set as there are ways, which
  \<open>bypass_reserves_eviction_sets\<close> shows of a full one. The comment in \<open>adapters/bypass_adapter.hpp\<close> says that the adapter does not seem to work as wanted and works 19 of 20
  times, with exclusive caches open: for a first level that is not LRU nothing is shown here, and what is shown is
  where the loop stops, not that the line is in the second level, which the code reports in any case.
\<close>

theorem bypass_access_ends:
  assumes "lru_memory pl n m" and "mo_access ops = sm_access" and "mo_instrumented_access ops = sm_instrumented_access"
    and "pl address < length (by_evsets b)" and "address \<notin> set (by_evsets b ! pl address)"
    and "n \<le> card {x \<in> set (by_evsets b ! pl address). pl x = pl address}"
  shows "\<exists>level m1. sm_instrumented_access address m = Some (level, m1) \<and> lru_memory pl n m1 \<and>
    (if level > 0 then bypass_instrumented_access pl ops b address m = Some (level - 1, m1)
     else \<exists>m2 below m3. access_eviction_set ops b (pl address) m1 = Some m2 \<and>
       sm_instrumented_access address m2 = Some (below, m3) \<and> below > 0 \<and>
       bypass_instrumented_access pl ops b address m = Some (0, m3) \<and> lru_memory pl n m3)"
proof -
  let ?es = "by_evsets b ! pl address"
  from lru_memory_step [OF assms(1) recent_at_none [OF assms(1)], of address address] obtain level m1 where
    l: "do_access address 0 m = Some (level, m1)" "lru_memory pl n m1" by auto
  from lru_eviction_test [OF assms(1,5)] assms(6) obtain m3 where
    t: "unsafe_is_eviction_set sm_instrumented_access sm_access address ?es m = Some (True, m3)" "lru_memory pl n m3"
    by (auto simp: congruent_def)
  from t(1) l(1) obtain m2 k where k: "access_all sm_access ?es m1 = Some m2" "do_access address 0 m2 = Some (k, m3)" "0 < k"
    by (auto simp: unsafe_is_eviction_set_def sm_access_def sm_instrumented_access_def bind_eq_Some_conv)
  have ev: "access_eviction_set ops b (pl address) m1 = Some m2" using k(1) assms(2,4) by (simp add: access_eviction_set_def)
  have "bypass_retry ops b (pl address) address m1 = Some (0, m3)"
    using k(2,3) ev assms(3) by (subst bypass_retry.simps) (simp add: sm_instrumented_access_def)
  with l t(2) k ev assms(3) show ?thesis
    by (intro exI [of _ level] exI [of _ m1]) (auto simp: bypass_instrumented_access_def sm_instrumented_access_def)
qed

text \<open>A page of sixteen lines over a first level of two sets and two ways, for the witnesses.\<close>

definition small_ops :: "simulated_memory memory_ops" where
  "small_ops = \<lparr>mo_offset_bits = 6, mo_levels = 2, mo_index_bits = (\<lambda>_. Some 1), mo_ways = (\<lambda>_. Some 2),
     mo_access = sm_access, mo_instrumented_access = sm_instrumented_access,
     mo_cisw = (\<lambda>_ _ _. Some), mo_csw = (\<lambda>_ _ _. Some), mo_isw = (\<lambda>_ _ _. Some), mo_clflush = (\<lambda>_. Some),
     mo_wbinvd = Some, mo_flush = Some, mo_reset = Some, mo_switch_channel = Some\<rparr>"

theorem bypass_reserves_eviction_sets_witness:
  "\<exists>b. bypass_init rest_extended small_ops (\<lambda>a. unat (drop_bit 6 a) mod 2) [extended_region 0x1000 0x8000 0x400] = Some b \<and>
     length (by_evsets b) = 2"
proof -
  have reg: "bypassable (push_bit (mo_offset_bits small_ops) 1) [extended_region 0x1000 0x8000 0x400]"
    by (simp add: bypassable_def span_ok_def virtual_span_def extended_region_def small_ops_def)
  have ops: "mo_index_bits small_ops 0 = Some 1" "mo_offset_bits small_ops < 31" "mo_ways small_ops 0 = Some 2"
    by (simp_all add: small_ops_def)
  have "\<forall>r \<in> set [extended_region 0x1000 0x8000 0x400]. take_bit (mo_offset_bits small_ops) (region_base r) = 0"
    by (simp add: small_ops_def extended_region_def)
  from bypass_reserves_eviction_sets [OF ops(1) _ ops(2,3) _ _ reg this, of "\<lambda>a. unat (drop_bit 6 a) mod 2"] show ?thesis by auto
qed

theorem bypass_access_ends_witness:
  "\<exists>m level m1 m'. sm_instrumented_access 0 m = Some (level, m1) \<and>
     bypass_instrumented_access (\<lambda>a. 0) small_ops \<lparr>by_regions = [] :: basic_memory_region list, by_evsets = [[0x40, 0x80]]\<rparr> 0 m =
       Some (level - 1, m')"
proof -
  let ?b = "\<lparr>by_regions = [] :: basic_memory_region list, by_evsets = [[0x40, 0x80]]\<rparr>"
  from small_lru_memory obtain m where m: "lru_memory (\<lambda>a. 0) 2 m" by blast
  have "mo_access small_ops = sm_access" "mo_instrumented_access small_ops = sm_instrumented_access" by (simp_all add: small_ops_def)
  moreover have "{x \<in> set (by_evsets ?b ! 0). True} = {0x40, 0x80}" by auto
  ultimately obtain level m1 where l: "sm_instrumented_access 0 m = Some (level, m1)"
    "if level > 0 then bypass_instrumented_access (\<lambda>a. 0) small_ops ?b 0 m = Some (level - 1, m1)
     else \<exists>m3. bypass_instrumented_access (\<lambda>a. 0) small_ops ?b 0 m = Some (0, m3)"
    using bypass_access_ends [OF m, of small_ops, where address = 0 and b = ?b] by (force split: if_splits)
  then have "\<exists>m'. bypass_instrumented_access (\<lambda>a. 0) small_ops ?b 0 m = Some (level - 1, m')" by (cases "level > 0") auto
  with l(1) show ?thesis by blast
qed

end
