(* ===== verification/CH_Commands.thy ===== *)
theory CH_Commands
  imports CH_Bypass
begin

text \<open>
  The command line tool around the algorithms (\<open>cli/commands\<close>): the arguments of \<open>reverse\<close> with the choice of
  performance events and of the handler that turns counter values into a level, the memory the subcommands
  run on (simulated, or with one bypass adapter for every level above the one to be reversed), the
  choice of an eviction strategy, and the dispatch of subcommands.

  Option parsing itself is done by argparse; what a command gets from it is a record of optional values, where
  \<open>None\<close> is an argument without value, for which argparse throws. Errors are the left values of sums.
\<close>

section \<open>Performance events\<close>

text \<open>The encoding of an x86 event for an event select register.\<close>

definition add_x86_pmu_event :: "8 word \<Rightarrow> 8 word \<Rightarrow> 8 word \<Rightarrow> bool \<Rightarrow> 64 word list \<Rightarrow> 64 word list" where
  "add_x86_pmu_event event_select unit_mask counter_mask edge_detect pmu_events =
     pmu_events @
       [(((((((ucast event_select OR push_bit 8 (ucast unit_mask)) OR push_bit 16 1) OR push_bit 17 1)
          OR push_bit 18 (of_bool edge_detect)) OR push_bit 22 1) OR push_bit 24 (ucast counter_mask)))]"

type_synonym pmu_handler = "64 word \<Rightarrow> 64 word \<Rightarrow> 64 word \<Rightarrow> 64 word \<Rightarrow> 64 word \<Rightarrow> 64 word \<Rightarrow> nat"

definition intel_handler :: pmu_handler where
  "intel_handler l1_hits_before l2_hits_before l3_hits_before l1_hits_after l2_hits_after l3_hits_after =
     (let l1_hits = l1_hits_after - l1_hits_before;
          l2_hits = l2_hits_after - l2_hits_before;
          l3_hits = l3_hits_after - l3_hits_before
      in if l1_hits \<noteq> 0 then 0 else if l2_hits \<noteq> 0 then 1 else if l3_hits \<noteq> 0 then 2 else 3)"

definition zen2_handler :: pmu_handler where
  "zen2_handler l1_misses_before l2_hits_before _ l1_misses_after l2_hits_after _ =
     (let l1_misses = l1_misses_after - l1_misses_before;
          l2_hits = l2_hits_after - l2_hits_before
      in if l1_misses = 0 then 0 else if l2_hits \<noteq> 0 then 1 else 2)"

definition rpi5_handler :: pmu_handler where
  "rpi5_handler l1_misses_before l2_misses_before l3_misses_before l1_misses_after l2_misses_after l3_misses_after =
     (let l1_misses = l1_misses_after - l1_misses_before;
          l2_misses = l2_misses_after - l2_misses_before;
          l3_misses = l3_misses_after - l3_misses_before
      in if l3_misses \<noteq> 0 then 3 else if l2_misses \<noteq> 0 then 2 else if l1_misses \<noteq> 0 then 1 else 0)"

definition a64fx_handler :: pmu_handler where
  "a64fx_handler l1_misses_before l2_misses_before _ l1_misses_after l2_misses_after _ =
     (let l1_misses = l1_misses_after - l1_misses_before;
          l2_misses = l2_misses_after - l2_misses_before
      in if l2_misses \<noteq> 0 then 2 else if l1_misses \<noteq> 0 then 1 else 0)"

text \<open>The choice by name; other names fail the assertion of the last branch.\<close>

definition pmu_configuration :: "string \<Rightarrow> (64 word list \<times> pmu_handler) option" where
  "pmu_configuration pmu_str =
     (if pmu_str = ''intel'' then
        Some (add_x86_pmu_event 0xD1 0x04 0x00 True (add_x86_pmu_event 0xD1 0x02 0x00 True
          (add_x86_pmu_event 0xD1 0x01 0x00 True [])), intel_handler)
      else if pmu_str = ''amd-zen2'' then
        Some (add_x86_pmu_event 0x64 0x40 0x00 False (add_x86_pmu_event 0x60 0xC8 0x00 False []), zen2_handler)
      else if pmu_str = ''rpi5'' then Some ([0x42, 0x52, 0x2A], rpi5_handler)
      else do {
        require (pmu_str = ''a64fx'');
        Some ([0x0003, 0x0017], a64fx_handler) })"

section \<open>Arguments of reverse\<close>

datatype isolation_level = Isolation_off | Isolation_no_preempt | Isolation_disable_irq

definition isolation_of_string :: "string \<Rightarrow> isolation_level" where
  "isolation_of_string isolation_str =
     (if isolation_str = ''off'' then Isolation_off
      else if isolation_str = ''no-preempt'' then Isolation_no_preempt
      else Isolation_disable_irq)"

record reverse_args =
  arg_level :: nat
  arg_physical :: bool
  arg_memory_size :: nat
  arg_simulate :: bool
  arg_kernel_cpu :: "nat option"
  arg_kernel_isolation :: string
  arg_pmu :: "string option"

record reverse_command =
  rc_level :: nat
  rc_memory_size :: nat
  rc_simulate :: bool
  rc_cpu :: nat
  rc_pmu_events :: "64 word list"
  rc_pmu_handler :: "pmu_handler option"
  rc_isolation :: isolation_level
  rc_physical :: bool

datatype cli_error = Level_zero | Missing_argument string | Repetitions_zero | Bypass_depth | No_physical_indexing
  | No_strategy

text \<open>
  \<open>parse_arguments\<close> when a subcommand is used; the fields that the code leaves unset keep the values they have.
\<close>

definition reverse_parse :: "reverse_args \<Rightarrow> reverse_command \<Rightarrow> (cli_error + reverse_command) option" where
  "reverse_parse args c =
     (if arg_level args = 0 then Some (Inl Level_zero)
      else let c1 = c\<lparr>rc_level := arg_level args - 1, rc_physical := arg_physical args,
                      rc_memory_size := arg_memory_size args, rc_simulate := arg_simulate args\<rparr>
      in if arg_simulate args then Some (Inr c1)
      else case arg_kernel_cpu args of
        None \<Rightarrow> Some (Inl (Missing_argument ''--kernel-cpu''))
      | Some cpu \<Rightarrow> (case arg_pmu args of
          None \<Rightarrow> Some (Inl (Missing_argument ''--pmu''))
        | Some pmu_str \<Rightarrow> do {
            (events, handler) \<leftarrow> pmu_configuration pmu_str;
            Some (Inr (c1\<lparr>rc_cpu := cpu, rc_isolation := isolation_of_string (arg_kernel_isolation args),
              rc_pmu_events := rc_pmu_events c1 @ events, rc_pmu_handler := Some handler\<rparr>)) }))"

section \<open>The memory of a subcommand\<close>

text \<open>
  A memory with its regions. \<open>adapt_level\<close> hides the first level: with maintenance by set and way on ARMv8, with
  eviction sets otherwise.
\<close>

type_synonym ('m, 'z) provided = "'m memory_ops \<times> 'z basic_memory_region_scheme list"

definition adapt_level ::
    "(uintptr \<Rightarrow> 'z basic_memory_region_scheme \<Rightarrow> 'z basic_memory_region_scheme) \<Rightarrow> bool \<Rightarrow> ('m, 'z) provided \<Rightarrow>
     ('m, 'z) provided option" where
  "adapt_level rest armv8 = (\<lambda>(ops, regions). do {
     index_bits \<leftarrow> mo_index_bits ops 0;
     placement \<leftarrow> modular_init (mo_offset_bits ops) (2 ^ index_bits);
     if armv8 then Some (armv8_bypass_ops (modular_place placement) ops, regions)
     else do {
       b \<leftarrow> bypass_init rest ops (modular_place placement) regions;
       Some (bypass_ops (modular_place placement) b ops, by_regions b) } })"

text \<open>\<open>provide_memory<MaxDepth>\<close>; \<open>base\<close> is the simulated or the kernel memory.\<close>

fun provide_memory ::
    "nat \<Rightarrow> (('m, 'z) provided \<Rightarrow> ('m, 'z) provided option) \<Rightarrow> ('m, 'z) provided option \<Rightarrow> nat \<Rightarrow>
     (cli_error + ('m, 'z) provided) option" where
  "provide_memory 0 adapt base levels_remaining = Some (Inl Bypass_depth)"
| "provide_memory (Suc max_depth) adapt base levels_remaining =
     (if levels_remaining > 0 then do {
        r \<leftarrow> provide_memory max_depth adapt base (levels_remaining - 1);
        case r of Inl e \<Rightarrow> Some (Inl e) | Inr mem \<Rightarrow> do { mem' \<leftarrow> adapt mem; Some (Inr mem') } }
      else do { mem \<leftarrow> base; Some (Inr mem) })"

text \<open>\<open>adapt_indexing\<close> for a memory with physical addresses, and for one without.\<close>

definition adapt_indexing_extended ::
    "bool \<Rightarrow> 'm memory_ops \<times> basic_extended_memory_region list \<Rightarrow> 'm memory_ops \<times> basic_memory_region list" where
  "adapt_indexing_extended physical = (\<lambda>(ops, regions).
     if physical then (physical_ops (pa_init regions) ops, pa_regions (pa_init regions))
     else (ops, map basic_memory_region.truncate regions))"

definition adapt_indexing_basic ::
    "bool \<Rightarrow> 'm memory_ops \<times> basic_memory_region list \<Rightarrow> cli_error + ('m memory_ops \<times> basic_memory_region list)" where
  "adapt_indexing_basic physical mem = (if physical then Inl No_physical_indexing else Inr mem)"

text \<open>The simulated memory of \<open>--simulate\<close>: two levels of LRU caches.\<close>

definition command_cache :: "nat \<Rightarrow> nat \<Rightarrow> nat \<Rightarrow> set_associative_cache option" where
  "command_cache index_bits offset_bits ways = do {
     placement \<leftarrow> modular_init offset_bits (2 ^ index_bits);
     replacement \<leftarrow> lru_init ways;
     policy \<leftarrow> basic_sap_init index_bits (Any_Modular placement) (Any_Lru replacement);
     sac_init (Any_Basic policy) }"

definition command_simulated_memory :: "nat \<Rightarrow> simulated_memory option" where
  "command_simulated_memory sz = do {
     c1 \<leftarrow> command_cache 6 6 4;
     c2 \<leftarrow> command_cache (1 + 6) 6 (2 * 4);
     Some (sm_init 0 sz 6 [c1, c2]) }"

section \<open>Eviction strategies\<close>

datatype strategy = Strategy_automatic | Strategy_eviction_set | Strategy_cisw

record strategy_command =
  st_strategy :: strategy
  st_pollution :: nat
  st_repetitions :: nat

definition strategy_parse :: "string \<Rightarrow> nat \<Rightarrow> nat \<Rightarrow> (cli_error + strategy_command) option" where
  "strategy_parse strategy_str pollution repetitions = do {
     st \<leftarrow> (if strategy_str = ''auto'' then Some Strategy_automatic
           else if strategy_str = ''eviction-set'' then Some Strategy_eviction_set
           else if strategy_str = ''cisw'' then Some Strategy_cisw
           else None);
     if repetitions = 0 then Some (Inl Repetitions_zero)
     else Some (Inr \<lparr>st_strategy = st, st_pollution = pollution, st_repetitions = repetitions\<rparr>) }"

datatype provided_strategy = Use_eviction_sets | Use_cisw

fun provide_eviction_strategy :: "strategy \<Rightarrow> bool \<Rightarrow> bool \<Rightarrow> cli_error + provided_strategy" where
  "provide_eviction_strategy Strategy_automatic armv8 instrumented =
     (if armv8 then Inr Use_cisw else if instrumented then Inr Use_eviction_sets else Inl No_strategy)"
| "provide_eviction_strategy Strategy_eviction_set armv8 instrumented =
     (if instrumented then Inr Use_eviction_sets else Inl No_strategy)"
| "provide_eviction_strategy Strategy_cisw armv8 instrumented =
     (if armv8 then Inr Use_cisw else Inl No_strategy)"

section \<open>Subcommands\<close>

text \<open>
  \<open>multicommand_base\<close>: subcommands are counted from 1 and 0 stands for none. \<open>used\<close> tells which names argparse has
  seen, \<open>run\<close> is the subcommand's own \<open>run\<close> and \<open>fallback\<close> prints the usage; the result is \<open>None\<close> when they do not
  return or the exit code was never set.
\<close>

fun select_loop :: "(string \<Rightarrow> bool) \<Rightarrow> string list \<Rightarrow> nat \<Rightarrow> nat \<Rightarrow> nat" where
  "select_loop used [] current selected = selected"
| "select_loop used (name # names) current selected =
     (if selected \<noteq> 0 then select_loop used names current selected
      else let current' = current + 1
           in select_loop used names current' (if used name then current' else selected))"

definition select_subcommand :: "(string \<Rightarrow> bool) \<Rightarrow> string list \<Rightarrow> nat" where
  "select_subcommand used names = select_loop used names 0 0"

fun run_loop :: "(string \<Rightarrow> 's \<Rightarrow> (int \<times> 's) option) \<Rightarrow> nat \<Rightarrow> string list \<Rightarrow> nat \<Rightarrow> int option \<Rightarrow> 's \<Rightarrow>
    (int option \<times> 's) option" where
  "run_loop run selected [] current exit_code s = Some (exit_code, s)"
| "run_loop run selected (name # names) current exit_code s =
     (let current' = current + 1
      in if current' = selected
         then do { (code, s') \<leftarrow> run name s; run_loop run selected names current' (Some code) s' }
         else run_loop run selected names current' exit_code s)"

definition multicommand_main :: "('s \<Rightarrow> (int \<times> 's) option) \<Rightarrow> (string \<Rightarrow> 's \<Rightarrow> (int \<times> 's) option) \<Rightarrow> nat \<Rightarrow> string list \<Rightarrow> 's \<Rightarrow>
    (int \<times> 's) option" where
  "multicommand_main fallback run selected names s =
     (if selected = 0 then fallback s
      else do { (exit_code, s') \<leftarrow> run_loop run selected names 0 None s; code \<leftarrow> exit_code; Some (code, s') })"

section \<open>Lemmas\<close>

text \<open>At most one subcommand runs, the first that is used.\<close>

lemma select_loop_selected: "selected \<noteq> 0 \<Longrightarrow> select_loop used names current selected = selected"
  by (induction names) simp_all

lemma select_loop_first:
  "select_loop used names current 0 =
     (let i = std_find_if used names in if i = length names then 0 else current + i + 1)"
  by (induction names arbitrary: current) (auto simp: select_loop_selected Let_def)

lemma run_loop_past: "selected \<le> current \<Longrightarrow> run_loop run selected names current code s = Some (code, s)"
  by (induction names arbitrary: current) simp_all

lemma run_loop_once:
  "current < selected \<Longrightarrow> selected \<le> current + length names \<Longrightarrow>
     run_loop run selected names current code s = map_option (apfst Some) (run (names ! (selected - current - 1)) s)"
proof (induction names arbitrary: current)
  case (Cons name names)
  show ?case
  proof (cases "current + 1 = selected")
    case True
    then show ?thesis by (cases "run name s") (auto simp: run_loop_past Let_def)
  next
    case False
    then have "selected - current - 1 = Suc (selected - (current + 1) - 1)" using Cons.prems by simp
    with Cons.IH [of "current + 1"] Cons.prems False show ?thesis by (simp add: Let_def)
  qed
qed simp

lemma multicommand_first:
  assumes "\<exists>name \<in> set names. used name"
  shows "multicommand_main fallback run (select_subcommand used names) names s = run (names ! std_find_if used names) s"
proof -
  have "std_find_if used names < length names" using assms by (induction names) auto
  then show ?thesis
    by (cases "run (names ! std_find_if used names) s")
      (auto simp: multicommand_main_def select_subcommand_def select_loop_first Let_def run_loop_once)
qed

lemma multicommand_none:
  assumes "\<forall>name \<in> set names. \<not> used name"
  shows "multicommand_main fallback run (select_subcommand used names) names s = fallback s"
proof -
  have "std_find_if used names = length names" using assms by (induction names) auto
  then show ?thesis by (simp add: multicommand_main_def select_subcommand_def select_loop_first)
qed

text \<open>The fields of an encoded event, and the bits that are fixed.\<close>

lemma bit_shifted_byte: "k \<le> 24 \<Longrightarrow> bit (push_bit k (ucast w :: 64 word)) n \<longleftrightarrow> k \<le> n \<and> n < k + 8 \<and> bit w (n - k)" for w :: "8 word"
  using bit_imp_le_length [of w "n - k"] by (auto simp: bit_push_bit_iff bit_ucast_iff)

lemma bit_shifted_flag: "k < 64 \<Longrightarrow> bit (push_bit k (of_bool b :: 64 word)) n \<longleftrightarrow> n = k \<and> b"
  by (cases b) (auto simp: bit_exp_iff)

lemma x86_pmu_event_bit:
  assumes "add_x86_pmu_event event_select unit_mask counter_mask edge_detect [] = [v]"
  shows "bit v n \<longleftrightarrow> n < 8 \<and> bit event_select n \<or> 8 \<le> n \<and> n < 16 \<and> bit unit_mask (n - 8) \<or> n = 16 \<or> n = 17 \<or>
      n = 18 \<and> edge_detect \<or> n = 22 \<or> 24 \<le> n \<and> n < 32 \<and> bit counter_mask (n - 24)"
proof -
  have "v = push_bit 0 (ucast event_select) OR push_bit 8 (ucast unit_mask) OR push_bit 16 (of_bool True) OR push_bit 17 (of_bool True) OR
      push_bit 18 (of_bool edge_detect) OR push_bit 22 (of_bool True) OR push_bit 24 (ucast counter_mask)"
    using assms by (simp only: add_x86_pmu_event_def append_Nil list.inject or.assoc of_bool_eq push_bit_0_id id_apply)
  then show ?thesis by (simp only: bit_or_iff bit_shifted_byte bit_shifted_flag) auto
qed

lemma x86_pmu_event_fields:
  assumes "add_x86_pmu_event event_select unit_mask counter_mask edge_detect [] = [v]"
  shows "ucast v = event_select" and "ucast (drop_bit 8 v) = unit_mask" and "ucast (drop_bit 24 v) = counter_mask"
    and "bit v 18 = edge_detect" and "bit v 16" and "bit v 17" and "bit v 22" and "\<forall>n. bit v n \<longrightarrow> n < 32 \<and> n \<notin> {19, 20, 21, 23}"
proof -
  note v = x86_pmu_event_bit [OF assms]
  show "ucast v = event_select" "ucast (drop_bit 8 v) = unit_mask" "ucast (drop_bit 24 v) = counter_mask"
    by (rule bit_eqI, simp add: bit_ucast_iff bit_drop_bit_eq v)+
  show "bit v 18 = edge_detect" "bit v 16" "bit v 17" "bit v 22" by (simp_all add: v)
  show "\<forall>n. bit v n \<longrightarrow> n < 32 \<and> n \<notin> {19, 20, 21, 23}" by (auto simp: v)
qed

text \<open>A counter of \<open>w\<close> bits after \<open>n\<close> events.\<close>

definition counted :: "nat \<Rightarrow> 64 word \<Rightarrow> nat \<Rightarrow> 64 word" where
  "counted w before n = of_nat ((unat before + n) mod 2 ^ w)"

lemma counted_moved:
  assumes "w \<le> 64" and "unat c < 2 ^ w" and "n < 2 ^ w"
  shows "counted w c n = c \<longleftrightarrow> n = 0"
proof -
  have "(2 :: nat) ^ w \<le> 2 ^ 64" using assms(1) by (intro power_increasing) simp_all
  then have "(unat c + n) mod 2 ^ w < 2 ^ 64" by (metis mod_less_divisor order.strict_trans2 zero_less_numeral zero_less_power)
  then have "unat (counted w c n) = (unat c + n) mod 2 ^ w" by (simp add: counted_def unat_of_nat)
  then have "counted w c n = c \<longleftrightarrow> (unat c + n) mod 2 ^ w = unat c mod 2 ^ w" using assms(2) by (simp add: word_unat_eq_iff)
  also have "\<dots> \<longleftrightarrow> n = 0"
  proof
    assume eq: "(unat c + n) mod 2 ^ w = unat c mod 2 ^ w"
    then have "2 ^ w dvd unat c + n - unat c" by (intro mod_eq_dvd_iff_nat [THEN iffD1]) simp_all
    then have "2 ^ w dvd n" by simp
    then show "n = 0" using assms(3) by (metis nat_dvd_not_less not_gr_zero)
  qed simp
  finally show ?thesis .
qed

text \<open>Every bypass adapter moves the levels up by one.\<close>

lemma adapt_level_shifts:
  assumes "adapt_level rest armv8 (ops, regions) = Some (ops', regions')"
  shows "mo_ways ops' l = mo_ways ops (l + 1)" and "mo_index_bits ops' l = mo_index_bits ops (l + 1)"
    and "mo_offset_bits ops' = mo_offset_bits ops"
  using assms by (auto simp: adapt_level_def armv8_bypass_ops_def bypass_ops_def bind_eq_Some_conv split: if_splits)

lemma provide_memory_shifts:
  "provide_memory d (adapt_level rest armv8) (Some (ops, regions)) n = Some (Inr (ops', regions')) \<Longrightarrow>
     n < d \<and> mo_ways ops' l = mo_ways ops (l + n) \<and> mo_index_bits ops' l = mo_index_bits ops (l + n) \<and>
     mo_offset_bits ops' = mo_offset_bits ops"
proof (induction d arbitrary: n ops' regions' l)
  case (Suc d)
  show ?case
  proof (cases n)
    case 0
    with Suc.prems show ?thesis by simp
  next
    case (Suc k)
    with Suc.prems obtain ops1 regions1 where
      1: "provide_memory d (adapt_level rest armv8) (Some (ops, regions)) k = Some (Inr (ops1, regions1))"
        "adapt_level rest armv8 (ops1, regions1) = Some (ops', regions')"
      by (cases "provide_memory d (adapt_level rest armv8) (Some (ops, regions)) k")
        (auto simp: bind_eq_Some_conv split: sum.split_asm)
    from Suc.IH [OF 1(1), of "l + 1"] adapt_level_shifts(1,2) [OF 1(2), of l] adapt_level_shifts(3) [OF 1(2)] Suc show ?thesis by simp
  qed
qed simp

lemma provide_memory_depth: "d \<le> n \<Longrightarrow> provide_memory d adapt base n = Some (Inl Bypass_depth)"
  by (induction d arbitrary: n) auto

section \<open>Properties\<close>



text \<open>
  C37. The option \<open>--level\<close> selects the cache: the memory that the subcommand gets has the geometry of the cache of that
  level (counted from 1) as its first level. Level 0 is rejected, and so is a level above 4, because
  adapters are stacked at most three deep.
\<close>

theorem reverse_level_selects_cache:
  assumes "reverse_parse args c = Some r" and "mem = provide_memory 4 (adapt_level rest armv8) (Some (ops, regions))"
  shows "(arg_level args = 0 \<longrightarrow> r = Inl Level_zero) \<and>
    (\<forall>c'. r = Inr c' \<longrightarrow> (4 < arg_level args \<longrightarrow> mem (rc_level c') = Some (Inl Bypass_depth)) \<and>
       (\<forall>ops' regions' l. mem (rc_level c') = Some (Inr (ops', regions')) \<longrightarrow> arg_level args \<le> 4 \<and>
          mo_ways ops' l = mo_ways ops (l + arg_level args - 1) \<and>
          mo_index_bits ops' l = mo_index_bits ops (l + arg_level args - 1)))"
proof (intro conjI impI allI)
  show "r = Inl Level_zero" if "arg_level args = 0" using assms(1) that by (simp add: reverse_parse_def)
next
  fix c' assume r: "r = Inr c'"
  then have level: "arg_level args \<noteq> 0" "rc_level c' = arg_level args - 1"
    using assms(1) by (auto simp: reverse_parse_def Let_def bind_eq_Some_conv split: if_splits option.splits)
  show "mem (rc_level c') = Some (Inl Bypass_depth)" if "4 < arg_level args"
    using that level assms(2) by (simp add: provide_memory_depth)
  fix ops' regions' l assume "mem (rc_level c') = Some (Inr (ops', regions'))"
  from provide_memory_shifts [OF this [unfolded assms(2)], of l] level
  show "arg_level args \<le> 4" "mo_ways ops' l = mo_ways ops (l + arg_level args - 1)"
    "mo_index_bits ops' l = mo_index_bits ops (l + arg_level args - 1)" by auto
qed

definition unset_command :: reverse_command where
  "unset_command = \<lparr>rc_level = 0, rc_memory_size = 0, rc_simulate = False, rc_cpu = 0, rc_pmu_events = [],
     rc_pmu_handler = None, rc_isolation = Isolation_off, rc_physical = False\<rparr>"

definition second_level :: reverse_args where
  "second_level = \<lparr>arg_level = 2, arg_physical = False, arg_memory_size = 0x100000, arg_simulate = True,
     arg_kernel_cpu = None, arg_kernel_isolation = ''no-preempt'', arg_pmu = None\<rparr>"

definition two_level_ops :: "simulated_memory memory_ops" where
  "two_level_ops = small_ops\<lparr>mo_ways := (\<lambda>level. if level = 0 then Some 4 else Some 8)\<rparr>"

theorem reverse_level_selects_cache_witness:
  "\<exists>c' ops' regions'. reverse_parse second_level unset_command = Some (Inr c') \<and>
     provide_memory 4 (adapt_level rest_basic True) (Some (two_level_ops, [])) (rc_level c') = Some (Inr (ops', regions')) \<and>
     mo_ways ops' 0 = Some 8"
proof -
  obtain c' where c': "reverse_parse second_level unset_command = Some (Inr c')" "rc_level c' = 1"
    by (simp add: reverse_parse_def second_level_def)
  have "adapt_level rest_basic True (two_level_ops, []) \<noteq> None"
    using is_power_of_two_power [of 1]
    by (simp add: adapt_level_def two_level_ops_def small_ops_def modular_init_def is_power_of_two_def)
  then obtain ops' regions' where
    "provide_memory 4 (adapt_level rest_basic True) (Some (two_level_ops, [])) (rc_level c') = Some (Inr (ops', regions'))"
    using c'(2) by (auto simp: numeral_eq_Suc)
  with reverse_level_selects_cache [OF c'(1) refl, of rest_basic True two_level_ops "[]"] c'(1) show ?thesis
    by (auto simp: second_level_def two_level_ops_def)
qed

lemma command_cache_lru:
  assumes "k < 31" and "0 < n" and "off < 64"
  shows "\<exists>c. command_cache k off n = Some c \<and> cache_wf c \<and> sac_ways c = n \<and>
    cache_place c = (\<lambda>a. unat (drop_bit off a) mod 2 ^ k) \<and> (\<forall>s < cache_nsets c. \<exists>p. cache_policies c ! s = Any_Lru p) \<and>
    (\<forall>a. \<not> cached c a)"
proof -
  have q: "modular_init off (2 ^ k) = Some \<lparr>mp_offset_bits = off, mp_sets = 2 ^ k\<rparr>"
    using is_power_of_two_power [of k] by (simp add: modular_init_def is_power_of_two_def)
  let ?q = "Any_Modular \<lparr>mp_offset_bits = off, mp_sets = 2 ^ k\<rparr>"
  have wf: "any_placement_wf ?q" "any_index_bits ?q = Some k"
    using assms(3) by (simp_all add: modular_wf_def modular_index_bits_def)
  from lru_init_wf [OF assms(2)] obtain p where p: "lru_init n = Some p" "lru_wf p" "lru_ways p = n" by blast
  have "any_place ?q = (\<lambda>a. unat (drop_bit off a) mod 2 ^ k)" by (simp add: fun_eq_iff modular_place_def)
  with sac_init_wf [OF wf assms(1), of "Any_Lru p"] p q show ?thesis by (auto simp: command_cache_def cached_def)
qed

text \<open>
  The memory of \<open>--simulate\<close> is one that the algorithms are exact on: a well-formed hierarchy whose first level is a
  4-way LRU cache of 64 sets with lines of 64 bytes, so everything shown for LRU hierarchies holds for it.
\<close>

theorem simulated_command_memory_lru:
  "\<exists>m. command_simulated_memory sz = Some m \<and> lru_memory (\<lambda>a. unat (drop_bit 6 a) mod 64) 4 m \<and> sm_levels m = 2"
proof -
  from command_cache_lru [of 6 4 6] obtain c1 where c1: "command_cache 6 6 4 = Some c1" "cache_wf c1" "sac_ways c1 = 4"
    "cache_place c1 = (\<lambda>a. unat (drop_bit 6 a) mod 2 ^ 6)" "\<forall>s < cache_nsets c1. \<exists>p. cache_policies c1 ! s = Any_Lru p" by auto
  from command_cache_lru [of 7 8 6] obtain c2 where c2: "command_cache 7 6 8 = Some c2" "cache_wf c2" by auto
  have "command_simulated_memory sz = Some (sm_init 0 sz 6 [c1, c2])" using c1(1) c2(1) by (simp add: command_simulated_memory_def)
  moreover have "lru_memory (\<lambda>a. unat (drop_bit 6 a) mod 64) 4 (sm_init 0 sz 6 [c1, c2])"
    using c1 c2 by (simp add: lru_memory_def first_level_def sm_wf_def sm_init_def)
  ultimately show ?thesis by (simp add: sm_levels_def sm_init_def)
qed

end
