(* ===== verification/CH_Group_Test.thy ===== *)
theory CH_Group_Test
  imports CH_Lru_Eviction CH_Commands
begin

text \<open>
  Locating a cache set by group testing: \<open>util/detail/group_test.hpp\<close>, \<open>algo/locate_eviction_set.hpp\<close>,
  \<open>util/locate_set.hpp\<close> and the two strategies \<open>eviction_set_strategy\<close> and \<open>cisw_eviction_strategy\<close>.

  \<open>group_test\<close> is a binary search driven by a test on ranges. Its contract is the locale
  \<open>group_oracle\<close>: the test of a range tells whether the range has a good element. Both tests the library runs
  on groups of eviction sets meet it when the test for an eviction set is an \<open>exact_test\<close>.
\<close>

section \<open>Definitions\<close>

text \<open>The loop; iterators are indices into the range.\<close>

function group_loop :: "('a list \<Rightarrow> 'm \<Rightarrow> (bool \<times> 'm) option) \<Rightarrow> 'a list \<Rightarrow> nat \<Rightarrow> nat \<Rightarrow> 'm \<Rightarrow>
    (nat \<times> 'm) option" where
  "group_loop test_func xs first lst m =
     (let dist = lst - first
      in if dist \<le> 1 then do { require (dist \<noteq> 0); Some (first, m) }
         else do {
           let mid = first + dist div 2;
           (b, m') \<leftarrow> test_func (take (mid - first) (drop first xs)) m;
           if b then group_loop test_func xs first mid m'
           else group_loop test_func xs mid lst m' })"
  by pat_completeness auto
termination
  by (relation "measure (\<lambda>(_, _, first, lst, _). lst - first)") auto

declare group_loop.simps [simp del]

definition group_test :: "('a list \<Rightarrow> 'm \<Rightarrow> (bool \<times> 'm) option) \<Rightarrow> 'a list \<Rightarrow> 'm \<Rightarrow> (nat \<times> 'm) option" where
  "group_test test_func xs m = do {
     (exists, m') \<leftarrow> test_func xs m;
     if \<not> exists then Some (length xs, m')
     else group_loop test_func xs 0 (length xs) m' }"

definition locate_eviction_set :: "'m evset_test \<Rightarrow> uintptr \<Rightarrow> uintptr list list \<Rightarrow> 'm \<Rightarrow> (nat \<times> 'm) option" where
  "locate_eviction_set is_eviction_set target evsets m =
     group_test (\<lambda>evset_range. is_eviction_set target (concat evset_range)) evsets m"

text \<open>\<open>eviction_set_strategy\<close>: the constructor stores the eviction sets and the test.\<close>

record 'm eviction_set_strategy =
  ess_evsets :: "uintptr list list"
  ess_is_eviction_set :: "'m evset_test"

fun collect_evsets :: "uintptr list list \<Rightarrow> nat list \<Rightarrow> uintptr list \<Rightarrow> uintptr list option" where
  "collect_evsets evsets [] out = Some out"
| "collect_evsets evsets (s # set_range) out = do {
     require (s < length evsets);
     addresses \<leftarrow> vec_at evsets s;
     collect_evsets evsets set_range (out @ addresses) }"

definition ess_maps_to :: "'m eviction_set_strategy \<Rightarrow> uintptr \<Rightarrow> nat list \<Rightarrow> 'm \<Rightarrow> (bool \<times> 'm) option" where
  "ess_maps_to st target set_range m = do {
     evset_addresses \<leftarrow> collect_evsets (ess_evsets st) set_range [];
     ess_is_eviction_set st target evset_addresses m }"

text \<open>
  \<open>cisw_eviction_strategy\<close>, over a memory with the operations \<open>cisw level set way\<close>, \<open>index_bits 0\<close> and
  \<open>ways 0\<close>.
\<close>

fun cisw_ways :: "(nat \<Rightarrow> nat \<Rightarrow> nat \<Rightarrow> 'm \<Rightarrow> 'm option) \<Rightarrow> nat \<Rightarrow> nat list \<Rightarrow> 'm \<Rightarrow> 'm option" where
  "cisw_ways cisw s [] m = Some m"
| "cisw_ways cisw s (w # ws) m = do { m' \<leftarrow> cisw 0 s w m; cisw_ways cisw s ws m' }"

fun cisw_sets :: "(nat \<Rightarrow> nat \<Rightarrow> nat \<Rightarrow> 'm \<Rightarrow> 'm option) \<Rightarrow> nat \<Rightarrow> nat \<Rightarrow> nat list \<Rightarrow> 'm \<Rightarrow> 'm option" where
  "cisw_sets cisw index_bits ways [] m = Some m"
| "cisw_sets cisw index_bits ways (s # set_range) m = do {
     require (s < 2 ^ index_bits);
     m' \<leftarrow> cisw_ways cisw s [0..<ways] m;
     cisw_sets cisw index_bits ways set_range m' }"

definition cisw_maps_to :: "(uintptr \<Rightarrow> 'm \<Rightarrow> (nat \<times> 'm) option) \<Rightarrow> (uintptr \<Rightarrow> 'm \<Rightarrow> 'm option) \<Rightarrow>
    (nat \<Rightarrow> nat \<Rightarrow> nat \<Rightarrow> 'm \<Rightarrow> 'm option) \<Rightarrow> nat \<Rightarrow> nat \<Rightarrow> uintptr \<Rightarrow> nat list \<Rightarrow> 'm \<Rightarrow> (bool \<times> 'm) option" where
  "cisw_maps_to iacc acc cisw index_bits ways target set_range m = do {
     m1 \<leftarrow> acc target m;
     m2 \<leftarrow> cisw_sets cisw index_bits ways set_range m1;
     (level, m3) \<leftarrow> iacc target m2;
     Some (level > 0, m3) }"

text \<open>
  \<open>locate_set\<close> for a strategy given by its \<open>maps_to\<close>; \<open>1 << index_bits\<close> is an \<open>int\<close> shift. The range is
  \<open>std::ranges::iota_view\<close>, whose iterators dereference to their position.
\<close>

definition locate_set :: "nat \<Rightarrow> (uintptr \<Rightarrow> nat list \<Rightarrow> 'm \<Rightarrow> (bool \<times> 'm) option) \<Rightarrow> uintptr \<Rightarrow> 'm \<Rightarrow>
    (nat option \<times> 'm) option" where
  "locate_set index_bits maps_to target m = do {
     require (index_bits < 31);
     let sets = 2 ^ index_bits;
     (s, m') \<leftarrow> group_test (maps_to target) [0..<sets] m;
     Some (if s = sets then None else Some s, m') }"

section \<open>Binary search\<close>

locale group_oracle =
  fixes test_func :: "'a list \<Rightarrow> 'm \<Rightarrow> (bool \<times> 'm) option"
    and invar :: "'m \<Rightarrow> bool"
    and range_ok :: "'a list \<Rightarrow> bool"
    and good :: "'a \<Rightarrow> bool"
  assumes range_part: "range_ok xs \<Longrightarrow> range_ok (take j (drop i xs))"
    and test_good: "invar m \<Longrightarrow> range_ok xs \<Longrightarrow>
      \<exists>m'. test_func xs m = Some (\<exists>x \<in> set xs. good x, m') \<and> invar m'"
begin

lemma group_loop_ok:
  assumes "invar m" and "range_ok xs" and "first < lst" and "lst \<le> length xs"
    and "\<exists>i. first \<le> i \<and> i < lst \<and> good (xs ! i)"
  shows "\<exists>i m'. group_loop test_func xs first lst m = Some (i, m') \<and> invar m' \<and> i < length xs \<and> good (xs ! i)"
  using assms(1,3-5)
proof (induction "lst - first" arbitrary: first lst m rule: less_induct)
  case less
  show ?case
  proof (cases "lst - first \<le> 1")
    case True
    then have "lst = Suc first" using less.prems(2) by simp
    with less.prems show ?thesis by (subst group_loop.simps) (auto simp: less_Suc_eq)
  next
    case False
    let ?mid = "first + (lst - first) div 2"
    let ?part = "take (?mid - first) (drop first xs)"
    have mid: "first < ?mid" "?mid < lst" using False by auto
    from test_good [OF less.prems(1) range_part [OF assms(2)]] obtain m' where
      t: "test_func ?part m = Some (\<exists>x \<in> set ?part. good x, m')" "invar m'" by blast
    have part: "(\<exists>x \<in> set ?part. good x) \<longleftrightarrow> (\<exists>i. first \<le> i \<and> i < ?mid \<and> good (xs ! i))"
    proof
      assume "\<exists>x \<in> set ?part. good x"
      then obtain j where "j < ?mid - first" "good (xs ! (first + j))"
        by (auto simp: in_set_conv_nth)
      then show "\<exists>i. first \<le> i \<and> i < ?mid \<and> good (xs ! i)" by (intro exI [of _ "first + j"]) auto
    next
      assume "\<exists>i. first \<le> i \<and> i < ?mid \<and> good (xs ! i)"
      then obtain i where i: "first \<le> i" "i < ?mid" "good (xs ! i)" by blast
      have "?part ! (i - first) = xs ! i" "i - first < length ?part" using i mid less.prems(3) by auto
      then show "\<exists>x \<in> set ?part. good x" using i(3) by (metis nth_mem)
    qed
    have step: "group_loop test_func xs first lst m =
        (if \<exists>x \<in> set ?part. good x then group_loop test_func xs first ?mid m'
         else group_loop test_func xs ?mid lst m')"
      using False t(1) by (subst group_loop.simps) (simp add: Let_def)
    show ?thesis
    proof (cases "\<exists>x \<in> set ?part. good x")
      case True
      have lt: "?mid - first < lst - first" using mid by linarith
      have le: "?mid \<le> length xs" using mid less.prems(3) by linarith
      from less.hyps [OF lt t(2) mid(1) le] True part step show ?thesis by simp
    next
      case F: False
      have lt: "lst - ?mid < lst - first" using mid by linarith
      have ex: "\<exists>i. ?mid \<le> i \<and> i < lst \<and> good (xs ! i)" using less.prems(4) F part by (meson not_le)
      from less.hyps [OF lt t(2) mid(2) less.prems(3) ex] F step show ?thesis by simp
    qed
  qed
qed

text \<open>The search finds a good element if there is one, and otherwise returns the end of the range.\<close>

lemma group_test_ok:
  assumes "invar m" and "range_ok xs"
  shows "\<exists>i m'. group_test test_func xs m = Some (i, m') \<and> invar m' \<and>
     (if \<exists>x \<in> set xs. good x then i < length xs \<and> good (xs ! i) else i = length xs)"
proof -
  from test_good [OF assms] obtain m' where t: "test_func xs m = Some (\<exists>x \<in> set xs. good x, m')" "invar m'" by blast
  show ?thesis
  proof (cases "\<exists>x \<in> set xs. good x")
    case False
    with t show ?thesis by (simp add: group_test_def)
  next
    case True
    then obtain i where i: "i < length xs" "good (xs ! i)" by (auto simp: in_set_conv_nth)
    then have "0 < length xs" "\<exists>i. 0 \<le> i \<and> i < length xs \<and> good (xs ! i)" by auto
    from group_loop_ok [OF t(2) assms(2) this(1) order_refl this(2)] True t(1) show ?thesis
      by (auto simp: group_test_def)
  qed
qed

end

section \<open>Group tests on eviction sets\<close>

text \<open>
  The eviction sets that group testing can tell apart: each has either no address in the set of the target
  or enough of them to evict it.
\<close>

definition decisive :: "(uintptr \<Rightarrow> nat) \<Rightarrow> nat \<Rightarrow> uintptr \<Rightarrow> uintptr list \<Rightarrow> bool" where
  "decisive pl n target es \<longleftrightarrow> target \<notin> set es \<and>
     (congruent pl target (set es) = {} \<or> n \<le> card (congruent pl target (set es)))"

abbreviation evicting :: "(uintptr \<Rightarrow> nat) \<Rightarrow> nat \<Rightarrow> uintptr \<Rightarrow> uintptr list \<Rightarrow> bool" where
  "evicting pl n target es \<equiv> n \<le> card (congruent pl target (set es))"

lemma decisive_union:
  assumes "0 < n" and "\<And>es. es \<in> set ess \<Longrightarrow> decisive pl n target es"
  shows "evicting pl n target (concat ess) \<longleftrightarrow> (\<exists>es \<in> set ess. evicting pl n target es)"
proof
  assume "evicting pl n target (concat ess)"
  then have "congruent pl target (set (concat ess)) \<noteq> {}" using assms(1) by auto
  then obtain es where "es \<in> set ess" "congruent pl target (set es) \<noteq> {}" by (auto simp: congruent_def)
  with assms(2) show "\<exists>es \<in> set ess. evicting pl n target es" by (auto simp: decisive_def)
next
  assume "\<exists>es \<in> set ess. evicting pl n target es"
  then obtain es where es: "es \<in> set ess" "evicting pl n target es" by blast
  have "congruent pl target (set es) \<subseteq> congruent pl target (set (concat ess))"
    using es(1) by (auto simp: congruent_def)
  then have "card (congruent pl target (set es)) \<le> card (congruent pl target (set (concat ess)))"
    by (intro card_mono) simp_all
  with es(2) show "evicting pl n target (concat ess)" by simp
qed

lemma collect_evsets_concat:
  "\<forall>s \<in> set ss. s < length evsets \<Longrightarrow>
   collect_evsets evsets ss out = Some (out @ concat (map (\<lambda>s. evsets ! s) ss))"
  by (induction ss arbitrary: out) auto

lemma mset_concat_part: "mset (concat (take j (drop i xss))) \<subseteq># mset (concat xss)"
proof -
  have "concat xss = concat (take i xss) @ concat (take j (drop i xss)) @ concat (drop j (drop i xss))"
    by (metis append_take_drop_id concat_append)
  then show ?thesis by (metis mset_append mset_subset_eq_add_left mset_subset_eq_add_right subset_mset.order_trans)
qed

context exact_test
begin

definition evsets_ok :: "uintptr \<Rightarrow> uintptr list list \<Rightarrow> bool" where
  "evsets_ok target ess \<longleftrightarrow> adm (concat ess) \<and> (\<forall>es \<in> set ess. decisive pl n target es)"

lemma evsets_ok_part: "evsets_ok target ess \<Longrightarrow> evsets_ok target (take j (drop i ess))"
  unfolding evsets_ok_def using adm_part [OF _ mset_concat_part] by (meson in_set_takeD in_set_dropD)

lemma concat_test:
  assumes "invar m" and "evsets_ok target ess"
  shows "\<exists>m'. test target (concat ess) m = Some (\<exists>es \<in> set ess. evicting pl n target es, m') \<and> invar m'"
proof -
  have "target \<notin> set (concat ess)" using assms(2) by (auto simp: evsets_ok_def decisive_def)
  from test_exact [OF assms(1) _ this] decisive_union [OF ways_pos [OF assms(1)], of ess pl target] assms(2)
  show ?thesis by (simp add: evsets_ok_def)
qed

end

sublocale exact_test \<subseteq> locate: group_oracle "\<lambda>ess. test target (concat ess)" invar "evsets_ok target" "evicting pl n target"
  for target
  by unfold_locales (rule evsets_ok_part concat_test, assumption+)+

sublocale exact_test \<subseteq> strategy: group_oracle
    "ess_maps_to \<lparr>ess_evsets = evsets, ess_is_eviction_set = test\<rparr> target" invar
    "\<lambda>ss. (\<forall>s \<in> set ss. s < length evsets) \<and> evsets_ok target (map (\<lambda>s. evsets ! s) ss)" "\<lambda>s. evicting pl n target (evsets ! s)"
  for target evsets
proof
  fix xs i j assume "(\<forall>s \<in> set xs. s < length evsets) \<and> evsets_ok target (map (\<lambda>s. evsets ! s) xs)"
  then show "(\<forall>s \<in> set (take j (drop i xs)). s < length evsets) \<and> evsets_ok target (map (\<lambda>s. evsets ! s) (take j (drop i xs)))"
    using evsets_ok_part [of target "map (\<lambda>s. evsets ! s) xs" j i]
    by (auto simp: take_map drop_map dest: in_set_takeD in_set_dropD)
next
  fix m ss assume m: "invar m" and ss: "(\<forall>s \<in> set ss. s < length evsets) \<and> evsets_ok target (map (\<lambda>s. evsets ! s) ss)"
  from concat_test [OF m conjunct2 [OF ss]] ss
  show "\<exists>m'. ess_maps_to \<lparr>ess_evsets = evsets, ess_is_eviction_set = test\<rparr> target ss m =
      Some (\<exists>s \<in> set ss. evicting pl n target (evsets ! s), m') \<and> invar m'"
    by (auto simp: ess_maps_to_def collect_evsets_concat)
qed

text \<open>One eviction set per cache set: \<open>evsets ! s\<close> holds at least \<open>n\<close> different addresses of set \<open>s\<close>.\<close>

definition evsets_per_set :: "(uintptr \<Rightarrow> nat) \<Rightarrow> nat \<Rightarrow> nat \<Rightarrow> uintptr \<Rightarrow> uintptr list list \<Rightarrow> bool" where
  "evsets_per_set pl n sets target evsets \<longleftrightarrow> length evsets = sets \<and>
     (\<forall>s < sets. distinct (evsets ! s) \<and> n \<le> length (evsets ! s) \<and> target \<notin> set (evsets ! s) \<and>
        (\<forall>x \<in> set (evsets ! s). pl x = s))"

lemma evsets_per_set_evicting:
  assumes "evsets_per_set pl n sets target evsets" and "0 < n" and "s < sets"
  shows "decisive pl n target (evsets ! s)" and "evicting pl n target (evsets ! s) \<longleftrightarrow> s = pl target"
proof -
  have e: "distinct (evsets ! s)" "n \<le> length (evsets ! s)" "target \<notin> set (evsets ! s)"
    "\<And>x. x \<in> set (evsets ! s) \<Longrightarrow> pl x = s" using assms(1,3) by (auto simp: evsets_per_set_def)
  have c: "congruent pl target (set (evsets ! s)) = (if s = pl target then set (evsets ! s) else {})"
    using e(4) by (auto simp: congruent_def)
  show "evicting pl n target (evsets ! s) \<longleftrightarrow> s = pl target"
    using c distinct_card [OF e(1)] e(2) assms(2) by auto
  show "decisive pl n target (evsets ! s)"
    using c distinct_card [OF e(1)] e(2,3) by (auto simp: decisive_def)
qed

context exact_test
begin

lemma locate_set_finds:
  assumes m: "invar m" and "index_bits < 31" and "pl target < 2 ^ index_bits"
    and e: "evsets_per_set pl n (2 ^ index_bits) target evsets" and a: "adm (concat evsets)"
  shows "\<exists>m'. locate_set index_bits (ess_maps_to \<lparr>ess_evsets = evsets, ess_is_eviction_set = test\<rparr>) target m =
     Some (Some (pl target), m') \<and> invar m'"
proof -
  note ev = evsets_per_set_evicting [OF e ways_pos [OF m]]
  have len: "length evsets = 2 ^ index_bits" using e by (simp add: evsets_per_set_def)
  then have all: "map (\<lambda>s. evsets ! s) [0..<2 ^ index_bits] = evsets" by (metis map_nth)
  have "\<forall>es \<in> set evsets. decisive pl n target es" using ev(1) len by (metis in_set_conv_nth)
  then have ok: "(\<forall>s \<in> set [0..<2 ^ index_bits]. s < length evsets) \<and> evsets_ok target (map (\<lambda>s. evsets ! s) [0..<2 ^ index_bits])"
    unfolding all using len a by (simp add: evsets_ok_def)
  have ex: "\<exists>s \<in> set [0..<2 ^ index_bits]. evicting pl n target (evsets ! s)" using ev(2) assms(3) by auto
  from strategy.group_test_ok [OF m ok] ex obtain i m' where
    g: "group_test (ess_maps_to \<lparr>ess_evsets = evsets, ess_is_eviction_set = test\<rparr> target) [0..<2 ^ index_bits] m =
       Some (i, m')" "invar m'" "i < 2 ^ index_bits" "evicting pl n target (evsets ! ([0..<2 ^ index_bits] ! i))" by auto
  then have "i = pl target" using ev(2) [of i] by simp
  with g assms(2) show ?thesis by (simp add: locate_set_def)
qed

end

section \<open>Properties\<close>


text \<open>The set of an address under the modular placement.\<close>

abbreviation modular_set :: "nat \<Rightarrow> nat \<Rightarrow> uintptr \<Rightarrow> nat" where
  "modular_set offset_bits index_bits a \<equiv> unat (drop_bit offset_bits a) mod 2 ^ index_bits"

text \<open>A memory with one LRU cache, as the command line tool builds its simulated caches.\<close>

lemma one_level_lru:
  assumes "k < 31" and "0 < n" and "off < 64"
  shows "\<exists>c. command_cache k off n = Some c \<and> lru_memory (modular_set off k) n (sm_init base sz off [c]) \<and>
    (\<forall>a. \<not> cached (sm_caches (sm_init base sz off [c]) ! 0) a)"
proof -
  from command_cache_lru [OF assms] obtain c where "command_cache k off n = Some c" "cache_wf c" "sac_ways c = n"
    "cache_place c = (\<lambda>a. unat (drop_bit off a) mod 2 ^ k)" "\<forall>s < cache_nsets c. \<exists>p. cache_policies c ! s = Any_Lru p"
    "\<forall>a. \<not> cached c a" by blast
  then show ?thesis by (simp add: lru_memory_def first_level_def sm_wf_def sm_init_def)
qed


text \<open>
  \<open>locate_eviction_set\<close> returns the position of an eviction set for the target if the range has one,
  and the end of the range otherwise, provided each given set either has no address in the set of the
  target or evicts it on its own.
\<close>

theorem locate_eviction_set_finds:
  assumes "lru_memory pl n m" and "\<forall>es \<in> set evsets. decisive pl n target es"
  shows "\<exists>i m'. locate_eviction_set (unsafe_is_eviction_set sm_instrumented_access sm_access) target evsets m =
       Some (i, m') \<and>
     (if \<exists>es \<in> set evsets. n \<le> card {x \<in> set es. pl x = pl target}
      then i < length evsets \<and> n \<le> card {x \<in> set (evsets ! i). pl x = pl target} else i = length evsets)"
proof -
  have "lru_test.evsets_ok pl n target evsets" using assms(2) by (simp add: lru_test.evsets_ok_def)
  from lru_test.locate.group_test_ok [OF assms(1) this, unfolded congruent_def] show ?thesis
    unfolding locate_eviction_set_def by blast
qed

theorem locate_eviction_set_finds_witness:
  "\<exists>m m'. locate_eviction_set (unsafe_is_eviction_set sm_instrumented_access sm_access) 0 [[], [0x40, 0x80]] m =
     Some (1, m')"
proof -
  from small_lru_memory obtain m where m: "lru_memory (\<lambda>a. 0) 2 m" by blast
  have c: "card {x. x = 0x40 \<or> x = (0x80 :: uintptr)} = 2"
  proof -
    have "{x. x = 0x40 \<or> x = (0x80 :: uintptr)} = {0x40, 0x80}" by auto
    then show ?thesis by simp
  qed
  have "\<forall>es \<in> set [[], [0x40, 0x80]]. decisive (\<lambda>a. 0) 2 0 es"
    using c by (simp add: decisive_def congruent_def)
  from locate_eviction_set_finds [OF m this] c obtain i m' where
    i: "locate_eviction_set (unsafe_is_eviction_set sm_instrumented_access sm_access) 0 [[], [0x40, 0x80]] m = Some (i, m')"
    "i < 2" "2 \<le> card {x \<in> set ([[], [0x40, 0x80 :: uintptr]] ! i). (0::nat) = 0}" by auto
  have "i = 1" using i(2,3) by (cases i) auto
  with i(1) show ?thesis by blast
qed

end
