(* ===== verification/CH_Channel.thy ===== *)
theory CH_Channel
  imports CH_Prelude
begin

text \<open>
  The channel between a process and the kernel agent: \<open>kernel/ch_channel.h\<close>. A channel is one cache line
  with a control word and seven data words. Bit 0 of the control word says who owns the data (idle: the
  process, access: the agent); the bits above it hold the request.

  A spinning wait has no effect of its own; it is a guard, so an operation that waits is defined on the
  states in which the wait is over and returns \<open>None\<close> (not yet) elsewhere.
\<close>

section \<open>Definitions\<close>

definition CH_CHANNEL_IDLE :: "64 word" where
  "CH_CHANNEL_IDLE = 0"

definition CH_CHANNEL_ACCESS :: "64 word" where
  "CH_CHANNEL_ACCESS = 1"

record ch_channel =
  ch_control :: "64 word"
  ch_data :: "uintptr list"

definition ch_channel_init :: "ch_channel \<Rightarrow> ch_channel" where
  "ch_channel_init ch = ch\<lparr>ch_data := replicate (length (ch_data ch)) 0, ch_control := CH_CHANNEL_IDLE\<rparr>"

text \<open>The returned bit and the count.\<close>

definition ch_channel_read_control :: "ch_channel \<Rightarrow> 64 word \<times> 64 word" where
  "ch_channel_read_control ch = (ch_control ch AND 1, drop_bit 1 (ch_control ch) AND 7)"

definition ch_channel_write_control :: "64 word \<Rightarrow> 64 word \<Rightarrow> ch_channel \<Rightarrow> ch_channel" where
  "ch_channel_write_control control count ch = ch\<lparr>ch_control := control OR push_bit 1 count\<rparr>"

definition ch_channel_set_idle :: "ch_channel \<Rightarrow> ch_channel" where
  "ch_channel_set_idle ch = ch_channel_write_control CH_CHANNEL_IDLE 0 ch"

definition ch_channel_set_access :: "64 word \<Rightarrow> ch_channel \<Rightarrow> ch_channel" where
  "ch_channel_set_access count ch = ch_channel_write_control CH_CHANNEL_ACCESS count ch"

text \<open>One round of the spinning loop: the count when the channel is in the desired state.\<close>

definition ch_channel_spin :: "64 word \<Rightarrow> ch_channel \<Rightarrow> 64 word option" where
  "ch_channel_spin desired ch =
     (let (b, count) = ch_channel_read_control ch in if b \<noteq> desired then None else Some count)"

definition ch_channel_wait_for_access :: "ch_channel \<Rightarrow> 64 word option" where
  "ch_channel_wait_for_access ch = ch_channel_spin CH_CHANNEL_ACCESS ch"

definition ch_channel_wait_for_idle :: "ch_channel \<Rightarrow> unit option" where
  "ch_channel_wait_for_idle ch = do { _ \<leftarrow> ch_channel_spin CH_CHANNEL_IDLE ch; Some () }"

text \<open>The compare-and-exchange of the terminating request; it fails while the control word is not 0.\<close>

definition ch_channel_terminate :: "ch_channel \<Rightarrow> ch_channel option" where
  "ch_channel_terminate ch =
     (if ch_control ch = CH_CHANNEL_IDLE then Some (ch\<lparr>ch_control := CH_CHANNEL_ACCESS\<rparr>) else None)"

abbreviation ch_idle :: "ch_channel \<Rightarrow> bool" where
  "ch_idle ch \<equiv> ch_channel_wait_for_idle ch = Some ()"

section \<open>Control words\<close>

text \<open>A request is a non-zero control word whose bits above bit 0 are the argument of \<open>set_access\<close>.\<close>

definition request :: "64 word \<Rightarrow> 64 word" where
  "request n = 1 OR push_bit 1 n"

lemma set_access_control [simp]: "ch_control (ch_channel_set_access n ch) = request n"
  by (simp add: ch_channel_set_access_def ch_channel_write_control_def request_def CH_CHANNEL_ACCESS_def)

lemma set_access_data [simp]: "ch_data (ch_channel_set_access n ch) = ch_data ch"
  by (simp add: ch_channel_set_access_def ch_channel_write_control_def)

lemma bit_request: "bit (request n) i \<longleftrightarrow> i < 64 \<and> (i = 0 \<or> bit n (i - 1))"
  by (auto simp: request_def bit_or_iff bit_push_bit_iff bit_1_iff simp del: push_bit_of_Suc_0 push_bit_numeral push_bit_Suc)

lemma request_odd: "request n AND 1 = 1"
  by (rule bit_word_eqI) (auto simp: bit_simps bit_request bit_1_iff)

lemma request_nonzero [simp]: "request n \<noteq> 0"
  using request_odd [of n] by auto

lemma drop_request: "bit n 63 = False \<Longrightarrow> drop_bit 1 (request n) = n"
proof (rule bit_word_eqI)
  fix i assume "bit n 63 = False" "i < LENGTH(64)"
  then show "bit (drop_bit 1 (request n)) i = bit n i"
    by (cases "i = 63") (auto simp: bit_drop_bit_eq bit_request)
qed

lemma ch_idle_iff: "ch_idle ch \<longleftrightarrow> ch_control ch AND 1 = 0"
  by (simp add: ch_channel_wait_for_idle_def ch_channel_spin_def ch_channel_read_control_def CH_CHANNEL_IDLE_def)

lemma ch_idle_zero: "ch_control ch = 0 \<Longrightarrow> ch_idle ch"
  by (simp add: ch_idle_iff)

lemma ch_idle_request: "ch_control ch = request n \<Longrightarrow> \<not> ch_idle ch"
  by (simp add: ch_idle_iff request_odd)

lemma small_count_bit: "n < 2 ^ 63 \<Longrightarrow> bit (n :: 64 word) 63 = False"
  by (simp add: bit_iff_odd div_word_less)

lemma drop_request_small: "n < 2 ^ 63 \<Longrightarrow> drop_bit 1 (request n) = n"
  by (simp only: drop_request small_count_bit)

end
