(* ===== verification/CH_Agent.thy ===== *)
theory CH_Agent
  imports CH_Channel
begin

text \<open>
  The kernel agent: the polling loops of function \<open>agent\<close> in \<open>kernel/cachehound.c\<close>, in the versions for
  x86-64 and ARMv8. The processor is a parameter: \<open>hw_exec\<close> is the effect of one memory or cache
  instruction, \<open>hw_pmc\<close> the values of the three performance counters. Fences, barriers, \<open>cpuid\<close> and
  \<open>pause\<close> order the instructions, which the model executes in program order anyway.

  One call of a poll function is one way through the loop that starts at label \<open>.retry\<close>, except that a switch
  of channels takes two: the agent first gives the old channel back and only then reads the number of the
  new one from its data, so the process can run between the two instructions. \<open>ms_switching\<close> is the program
  position between them.
\<close>

section \<open>The processor\<close>

datatype hw_op =
  Load uintptr | Clflush uintptr | Wbinvd | Csw uintptr | Isw uintptr | Cisw uintptr

type_synonym pmc_values = "uintptr \<times> uintptr \<times> uintptr"

record 'h processor =
  hw_exec :: "hw_op \<Rightarrow> 'h \<Rightarrow> 'h"
  hw_pmc :: "'h \<Rightarrow> pmc_values"

text \<open>
  What the process and the agent share, with the state of the processor the agent is bound to:
  the mapped page of channels, \<open>state->active_channel\<close>, whether the agent stands between the two halves of
  \<open>.handle_switch_channel\<close>, and whether the loop has been left.
\<close>

record 'h machine =
  ms_channels :: "ch_channel list"
  ms_active_channel :: uintptr
  ms_switching :: bool
  ms_exited :: bool
  ms_hw :: 'h

text \<open>
  The first words of the data become the counters before and after the access; \<open>set_channel\<close> stores
  channel \<open>i\<close>.
\<close>

definition put_counters :: "pmc_values \<Rightarrow> pmc_values \<Rightarrow> uintptr list \<Rightarrow> uintptr list" where
  "put_counters before after data =
     (let (b0, b1, b2) = before; (a0, a1, a2) = after in [b0, b1, b2, a0, a1, a2] @ drop 6 data)"

definition set_channel :: "nat \<Rightarrow> ch_channel \<Rightarrow> 'h machine \<Rightarrow> 'h machine" where
  "set_channel i ch m = m\<lparr>ms_channels := (ms_channels m)[i := ch]\<rparr>"

text \<open>The loop over the accesses before the last one; \<open>channel_ptr\<close> advances by one word each time.\<close>

fun noninstr_loop :: "(uintptr \<Rightarrow> hw_op) \<Rightarrow> 'h processor \<Rightarrow> nat \<Rightarrow> nat \<Rightarrow> uintptr list \<Rightarrow> 'h \<Rightarrow>
    (nat \<times> 'h) option" where
  "noninstr_loop decode p 0 ptr data h = Some (ptr, h)"
| "noninstr_loop decode p (Suc rax) ptr data h = do {
     w \<leftarrow> vec_at data ptr;
     noninstr_loop decode p rax (Suc ptr) data (hw_exec p (decode w) h) }"

section \<open>The x86-64 loop\<close>

definition x86_address_mask :: uintptr where
  "x86_address_mask = 0xFFFF000000000000"

text \<open>A word with a clear sign bit is a line to flush.\<close>

definition x86_decode :: "uintptr \<Rightarrow> hw_op" where
  "x86_decode w = (if bit w 63 then Load (w OR x86_address_mask) else Clflush (w OR x86_address_mask))"

text \<open>The address of the active channel is \<open>channels + (active << 6)\<close>.\<close>

definition x86_channel_index :: "uintptr \<Rightarrow> nat" where
  "x86_channel_index active = unat (take_bit 58 active)"

definition x86_handle_count :: "'h processor \<Rightarrow> nat \<Rightarrow> nat \<Rightarrow> ch_channel \<Rightarrow> 'h machine \<Rightarrow> 'h machine option" where
  "x86_handle_count p i count ch m = do {
     (ptr, h1) \<leftarrow> noninstr_loop x86_decode p (count - 1) 0 (ch_data ch) (ms_hw m);
     w \<leftarrow> vec_at (ch_data ch) ptr;
     let h2 = hw_exec p (x86_decode w) h1;
     let data = put_counters (hw_pmc p h1) (hw_pmc p h2) (ch_data ch);
     Some (set_channel i (ch\<lparr>ch_data := data, ch_control := 0\<rparr>) (m\<lparr>ms_hw := h2\<rparr>)) }"

definition x86_agent_poll :: "'h processor \<Rightarrow> 'h machine \<Rightarrow> 'h machine option" where
  "x86_agent_poll p m =
     (if ms_exited m then Some m
      else do {
        let i = x86_channel_index (ms_active_channel m);
        ch \<leftarrow> vec_at (ms_channels m) i;
        if ms_switching m then do {
          new_channel \<leftarrow> vec_at (ch_data ch) 0;
          Some (m\<lparr>ms_active_channel := new_channel, ms_switching := False\<rparr>) }
        else if ch_control ch = 0 then Some m
        else
          let rax = drop_bit 1 (ch_control ch) in
          if rax = 0 then Some (m\<lparr>ms_exited := True\<rparr>)
          else if drop_bit 4 rax \<noteq> 0 then
            Some (set_channel i (ch\<lparr>ch_control := 0\<rparr>) (m\<lparr>ms_hw := hw_exec p Wbinvd (ms_hw m)\<rparr>))
          else if drop_bit 3 rax \<noteq> 0 then
            Some (set_channel i (ch\<lparr>ch_control := 0\<rparr>) (m\<lparr>ms_switching := True\<rparr>))
          else x86_handle_count p i (unat rax) ch m })"

section \<open>The ARMv8 loop\<close>

text \<open>The two upper bits of a word select the instruction.\<close>

definition arm_decode :: "uintptr \<Rightarrow> hw_op" where
  "arm_decode w =
     (if drop_bit 62 w = 3 then Load w else if drop_bit 62 w = 2 then Isw w
      else if drop_bit 62 w = 0 then Cisw w else Csw w)"

definition is_load :: "hw_op \<Rightarrow> bool" where
  "is_load op = (case op of Load _ \<Rightarrow> True | _ \<Rightarrow> False)"

text \<open>\<open>UBFIZ\<close> takes 32 bits of the channel number.\<close>

definition arm_channel_index :: "uintptr \<Rightarrow> nat" where
  "arm_channel_index active = unat (take_bit 32 active)"

text \<open>The counters are only read around a load.\<close>

definition arm_handle_count :: "'h processor \<Rightarrow> nat \<Rightarrow> nat \<Rightarrow> ch_channel \<Rightarrow> 'h machine \<Rightarrow> 'h machine option" where
  "arm_handle_count p i count ch m = do {
     (ptr, h1) \<leftarrow> noninstr_loop arm_decode p (count - 1) 0 (ch_data ch) (ms_hw m);
     w \<leftarrow> vec_at (ch_data ch) ptr;
     let h2 = hw_exec p (arm_decode w) h1;
     let data = (if is_load (arm_decode w) then put_counters (hw_pmc p h1) (hw_pmc p h2) (ch_data ch) else ch_data ch);
     Some (set_channel i (ch\<lparr>ch_data := data, ch_control := 0\<rparr>) (m\<lparr>ms_hw := h2\<rparr>)) }"

definition arm_agent_poll :: "'h processor \<Rightarrow> 'h machine \<Rightarrow> 'h machine option" where
  "arm_agent_poll p m =
     (if ms_exited m then Some m
      else do {
        let i = arm_channel_index (ms_active_channel m);
        ch \<leftarrow> vec_at (ms_channels m) i;
        if ms_switching m then do {
          new_channel \<leftarrow> vec_at (ch_data ch) 0;
          Some (m\<lparr>ms_active_channel := new_channel, ms_switching := False\<rparr>) }
        else if ch_control ch = 0 then Some m
        else
          let x1 = drop_bit 1 (ch_control ch) in
          if x1 = 0 then Some (m\<lparr>ms_exited := True\<rparr>)
          else if drop_bit 3 x1 AND 1 \<noteq> 0 then
            Some (set_channel i (ch\<lparr>ch_control := 0\<rparr>) (m\<lparr>ms_switching := True\<rparr>))
          else arm_handle_count p i (unat x1) ch m })"

section \<open>What both loops promise\<close>

text \<open>The instructions of a batch in order.\<close>

definition exec_words :: "(uintptr \<Rightarrow> hw_op) \<Rightarrow> 'h processor \<Rightarrow> uintptr list \<Rightarrow> 'h \<Rightarrow> 'h" where
  "exec_words decode p ws h = foldl (\<lambda>h w. hw_exec p (decode w) h) h ws"

lemma exec_words_simps [simp]:
  "exec_words decode p [] h = h"
  "exec_words decode p (w # ws) h = exec_words decode p ws (hw_exec p (decode w) h)"
  "exec_words decode p (ws @ vs) h = exec_words decode p vs (exec_words decode p ws h)"
  by (simp_all add: exec_words_def)

lemma noninstr_loop_exec:
  "ptr + n \<le> length data \<Longrightarrow>
     noninstr_loop decode p n ptr data h = Some (ptr + n, exec_words decode p (take n (drop ptr data)) h)"
proof (induction n arbitrary: ptr h)
  case (Suc n)
  have "take (Suc n) (drop ptr data) = data ! ptr # take n (drop (Suc ptr) data)"
    using Suc.prems by (simp add: Cons_nth_drop_Suc [symmetric])
  with Suc show ?case by simp
qed simp

text \<open>
  The promise of an agent to the process: an idle channel is left alone, a switch request is taken in two
  steps, the second of which moves the agent to the channel named in the data by then, a special request runs the one instruction it stands for, and a batch of up to seven words is executed in order, with the counters around
  the last access when that is a load. In every case the channel is given back.
\<close>

locale channel_agent =
  fixes poll :: "'h machine \<Rightarrow> 'h machine option"
    and decode :: "uintptr \<Rightarrow> hw_op"
    and p :: "'h processor"
    and special :: "64 word \<Rightarrow> hw_op option"
  assumes special_range: "special c \<noteq> None \<Longrightarrow> 8 < c \<and> c < 2 ^ 63"
    and poll_special:
    "\<not> ms_exited m \<Longrightarrow> \<not> ms_switching m \<Longrightarrow> i < length (ms_channels m) \<Longrightarrow> ms_active_channel m = of_nat i \<Longrightarrow> i < 2 ^ 32 \<Longrightarrow>
     ch_control (ms_channels m ! i) = request c \<Longrightarrow> special c = Some op \<Longrightarrow>
     poll m = Some (set_channel i ((ms_channels m ! i)\<lparr>ch_control := 0\<rparr>) (m\<lparr>ms_hw := hw_exec p op (ms_hw m)\<rparr>))"
    and poll_idle:
    "\<not> ms_exited m \<Longrightarrow> \<not> ms_switching m \<Longrightarrow> i < length (ms_channels m) \<Longrightarrow> ms_active_channel m = of_nat i \<Longrightarrow> i < 2 ^ 32 \<Longrightarrow>
     ch_control (ms_channels m ! i) = 0 \<Longrightarrow> poll m = Some m"
    and poll_switch_read:
    "\<not> ms_exited m \<Longrightarrow> ms_switching m \<Longrightarrow> i < length (ms_channels m) \<Longrightarrow> ms_active_channel m = of_nat i \<Longrightarrow> i < 2 ^ 32 \<Longrightarrow>
     length (ch_data (ms_channels m ! i)) = 7 \<Longrightarrow>
     poll m = Some (m\<lparr>ms_active_channel := ch_data (ms_channels m ! i) ! 0, ms_switching := False\<rparr>)"
    and poll_switch_idle:
    "\<not> ms_exited m \<Longrightarrow> \<not> ms_switching m \<Longrightarrow> i < length (ms_channels m) \<Longrightarrow> ms_active_channel m = of_nat i \<Longrightarrow> i < 2 ^ 32 \<Longrightarrow>
     ch_control (ms_channels m ! i) = request 8 \<Longrightarrow>
     poll m = Some (set_channel i ((ms_channels m ! i)\<lparr>ch_control := 0\<rparr>) (m\<lparr>ms_switching := True\<rparr>))"
    and poll_batch:
    "\<not> ms_exited m \<Longrightarrow> \<not> ms_switching m \<Longrightarrow> i < length (ms_channels m) \<Longrightarrow> ms_active_channel m = of_nat i \<Longrightarrow> i < 2 ^ 32 \<Longrightarrow>
     length (ch_data (ms_channels m ! i)) = 7 \<Longrightarrow> ch_control (ms_channels m ! i) = request (of_nat (Suc n)) \<Longrightarrow>
     n < 7 \<Longrightarrow> h1 = exec_words decode p (take n (ch_data (ms_channels m ! i))) (ms_hw m) \<Longrightarrow>
     h2 = hw_exec p (decode (ch_data (ms_channels m ! i) ! n)) h1 \<Longrightarrow>
     \<exists>data. poll m = Some (set_channel i ((ms_channels m ! i)\<lparr>ch_data := data, ch_control := 0\<rparr>) (m\<lparr>ms_hw := h2\<rparr>)) \<and>
       length data = 7 \<and>
       (is_load (decode (ch_data (ms_channels m ! i) ! n)) \<longrightarrow>
          data = put_counters (hw_pmc p h1) (hw_pmc p h2) (ch_data (ms_channels m ! i)))"

lemma length_put_counters [simp]: "length (put_counters b a data) = 6 + (length data - 6)"
  by (auto simp: put_counters_def split: prod.splits)

lemma index_of_nat:
  assumes "i < 2 ^ 32"
  shows "x86_channel_index (of_nat i) = i" and "arm_channel_index (of_nat i) = i"
  using assms by (simp_all add: x86_channel_index_def arm_channel_index_def take_bit_of_nat take_bit_nat_eq_self unat_of_nat)

lemma small_count_drop:
  assumes "n < 7"
  shows "drop_bit 1 (request (of_nat (Suc n))) = (of_nat (Suc n) :: 64 word)"
    and "drop_bit 4 (of_nat (Suc n) :: 64 word) = 0" and "drop_bit 3 (of_nat (Suc n) :: 64 word) = 0"
    and "unat (of_nat (Suc n) :: 64 word) = Suc n" and "(of_nat (Suc n) :: 64 word) \<noteq> 0"
proof -
  have "n \<in> {0, 1, 2, 3, 4, 5, 6}" using assms by auto
  then show "drop_bit 1 (request (of_nat (Suc n))) = (of_nat (Suc n) :: 64 word)"
    "drop_bit 4 (of_nat (Suc n) :: 64 word) = 0" "drop_bit 3 (of_nat (Suc n) :: 64 word) = 0"
    "unat (of_nat (Suc n) :: 64 word) = Suc n" "(of_nat (Suc n) :: 64 word) \<noteq> 0"
    by (auto simp: request_def)
qed

lemma switch_drop:
  "drop_bit 1 (request 8) = 8" "drop_bit 4 (8 :: 64 word) = 0" "drop_bit 3 (8 :: 64 word) = 1"
  by (simp_all add: request_def)


definition x86_special :: "64 word \<Rightarrow> hw_op option" where
  "x86_special n = (if n = 16 then Some Wbinvd else None)"

interpretation x86: channel_agent "x86_agent_poll p" x86_decode p x86_special for p :: "'h processor"
proof
  show "8 < n \<and> n < 2 ^ 63" if "x86_special n \<noteq> None" for n
    using that by (simp add: x86_special_def split: if_splits)
  fix m :: "'h machine" and i :: nat
  assume m: "\<not> ms_exited m" "i < length (ms_channels m)" "ms_active_channel m = of_nat i" "i < 2 ^ 32"
  have idx: "x86_channel_index (ms_active_channel m) = i" using m(3,4) index_of_nat by simp
  let ?ch = "ms_channels m ! i"
  show "x86_agent_poll p m = Some (m\<lparr>ms_active_channel := ch_data ?ch ! 0, ms_switching := False\<rparr>)"
    if "ms_switching m" "length (ch_data ?ch) = 7"
    using m(1,2) idx that by (simp add: x86_agent_poll_def Let_def)
  assume sw: "\<not> ms_switching m"
  show "x86_agent_poll p m = Some m" if "ch_control ?ch = 0"
    using m(1,2) sw idx that by (simp add: x86_agent_poll_def Let_def)
  show "x86_agent_poll p m = Some (set_channel i (?ch\<lparr>ch_control := 0\<rparr>) (m\<lparr>ms_hw := hw_exec p op (ms_hw m)\<rparr>))"
    if "ch_control ?ch = request n" "x86_special n = Some op" for n op
  proof -
    have n: "n = 16" "op = Wbinvd" using that(2) by (simp_all add: x86_special_def split: if_splits)
    have "drop_bit 1 (request 16) = 16" "drop_bit 4 (16 :: 64 word) = 1" by (simp_all add: request_def)
    then show ?thesis using m(1,2) sw idx that(1) n by (simp add: x86_agent_poll_def Let_def del: drop_bit_Suc)
  qed
  show "x86_agent_poll p m = Some (set_channel i (?ch\<lparr>ch_control := 0\<rparr>) (m\<lparr>ms_switching := True\<rparr>))"
    if "ch_control ?ch = request 8"
    using m(1,2) sw idx that by (simp add: x86_agent_poll_def Let_def switch_drop [simplified])
  assume len: "length (ch_data ?ch) = 7"
  fix n h1 h2
  assume b: "ch_control ?ch = request (of_nat (Suc n))" "n < 7"
    "h1 = exec_words x86_decode p (take n (ch_data ?ch)) (ms_hw m)" "h2 = hw_exec p (x86_decode (ch_data ?ch ! n)) h1"
  have "x86_agent_poll p m = x86_handle_count p i (Suc n) ?ch m"
    using m(1,2) sw idx b(1) small_count_drop [OF b(2)]
    by (simp add: x86_agent_poll_def Let_def del: of_nat_Suc drop_bit_Suc)
  also have "\<dots> = Some (set_channel i (?ch\<lparr>ch_data := put_counters (hw_pmc p h1) (hw_pmc p h2) (ch_data ?ch), ch_control := 0\<rparr>)
      (m\<lparr>ms_hw := h2\<rparr>))"
    using noninstr_loop_exec [of 0 n "ch_data ?ch" x86_decode p "ms_hw m"] len b(2-4)
    by (simp add: x86_handle_count_def Let_def)
  finally show "\<exists>data. x86_agent_poll p m =
      Some (set_channel i (?ch\<lparr>ch_data := data, ch_control := 0\<rparr>) (m\<lparr>ms_hw := h2\<rparr>)) \<and> length data = 7 \<and>
      (is_load (x86_decode (ch_data ?ch ! n)) \<longrightarrow> data = put_counters (hw_pmc p h1) (hw_pmc p h2) (ch_data ?ch))"
    using len by auto
qed

interpretation arm: channel_agent "arm_agent_poll p" arm_decode p "\<lambda>_. None" for p :: "'h processor"
proof (unfold_locales, simp, simp)
  fix m :: "'h machine" and i :: nat
  assume m: "\<not> ms_exited m" "i < length (ms_channels m)" "ms_active_channel m = of_nat i" "i < 2 ^ 32"
  have idx: "arm_channel_index (ms_active_channel m) = i" using m(3,4) index_of_nat by simp
  let ?ch = "ms_channels m ! i"
  show "arm_agent_poll p m = Some (m\<lparr>ms_active_channel := ch_data ?ch ! 0, ms_switching := False\<rparr>)"
    if "ms_switching m" "length (ch_data ?ch) = 7"
    using m(1,2) idx that by (simp add: arm_agent_poll_def Let_def)
  assume sw: "\<not> ms_switching m"
  show "arm_agent_poll p m = Some m" if "ch_control ?ch = 0"
    using m(1,2) sw idx that by (simp add: arm_agent_poll_def Let_def)
  show "arm_agent_poll p m = Some (set_channel i (?ch\<lparr>ch_control := 0\<rparr>) (m\<lparr>ms_switching := True\<rparr>))"
    if "ch_control ?ch = request 8"
    using m(1,2) sw idx that by (simp add: arm_agent_poll_def Let_def switch_drop [simplified])
  assume len: "length (ch_data ?ch) = 7"
  fix n h1 h2
  assume b: "ch_control ?ch = request (of_nat (Suc n))" "n < 7"
    "h1 = exec_words arm_decode p (take n (ch_data ?ch)) (ms_hw m)" "h2 = hw_exec p (arm_decode (ch_data ?ch ! n)) h1"
  have "arm_agent_poll p m = arm_handle_count p i (Suc n) ?ch m"
    using m(1,2) sw idx b(1) small_count_drop [OF b(2)]
    by (simp add: arm_agent_poll_def Let_def del: of_nat_Suc drop_bit_Suc)
  also have "\<dots> = Some (set_channel i (?ch\<lparr>ch_data := (if is_load (arm_decode (ch_data ?ch ! n))
      then put_counters (hw_pmc p h1) (hw_pmc p h2) (ch_data ?ch) else ch_data ?ch), ch_control := 0\<rparr>) (m\<lparr>ms_hw := h2\<rparr>))"
    using noninstr_loop_exec [of 0 n "ch_data ?ch" arm_decode p "ms_hw m"] len b(2-4)
    by (simp add: arm_handle_count_def Let_def)
  finally show "\<exists>data. arm_agent_poll p m =
      Some (set_channel i (?ch\<lparr>ch_data := data, ch_control := 0\<rparr>) (m\<lparr>ms_hw := h2\<rparr>)) \<and> length data = 7 \<and>
      (is_load (arm_decode (ch_data ?ch ! n)) \<longrightarrow> data = put_counters (hw_pmc p h1) (hw_pmc p h2) (ch_data ?ch))"
    using len
    by (intro exI [of _ "if is_load (arm_decode (ch_data ?ch ! n)) then put_counters (hw_pmc p h1) (hw_pmc p h2) (ch_data ?ch)
      else ch_data ?ch"]) simp
qed

end
