(* ===== verification/CH_Protocol.thy ===== *)
theory CH_Protocol
  imports CH_Agent "HOL-Library.Sublist"
begin

text \<open>
  The protocol between the process and the agent over the channels. The process may run ahead: a request to
  switch channels is left for the agent while the process already uses the next channel. The channels
  between the two form a chain of pending switch requests from the agent's channel to the one the
  process uses; the agent's polls walk along this chain.

  A switch is two steps of the agent: it gives the old channel back before it reads the number of the new one
  from its data. A process that comes back to that channel between the two may overwrite the number. The
  chains here have no channel twice, so the facts hold as long as the process does not come back to a channel of the
  chain; \<open>chain_switch\<close> has this as its condition, and \<open>CH_Kernel_Refinement\<close> says which programs keep it.

  All facts are proved for any agent that keeps the promise \<open>channel_agent\<close>: a wait of the process ends
  after some number of polls that leaves the channel idle, and the agent may have done more polls by then. The
  polls happen during the waits; the process touches nothing but its own idle channel between them, which
  the agent does not read there.
\<close>

section \<open>Definitions\<close>

definition ms_wf :: "'h machine \<Rightarrow> bool" where
  "ms_wf m \<longleftrightarrow> \<not> ms_exited m \<and> length (ms_channels m) < 2 ^ 32 \<and> (\<forall>ch \<in> set (ms_channels m). length (ch_data ch) = 7)"

fun polls :: "('h machine \<Rightarrow> 'h machine option) \<Rightarrow> nat \<Rightarrow> 'h machine \<Rightarrow> 'h machine option" where
  "polls poll 0 m = Some m"
| "polls poll (Suc k) m = do { m' \<leftarrow> poll m; polls poll k m' }"

text \<open>
  \<open>ch_channel_wait_for_idle\<close> of channel \<open>i\<close> while the agent runs: whenever some number of polls leaves the
  channel idle, the wait returns, in a state that polls have reached and with the channel idle.
\<close>

definition waits_for_idle :: "('h machine \<Rightarrow> 'h machine option) \<Rightarrow> (nat \<Rightarrow> 'h machine \<Rightarrow> 'h machine option) \<Rightarrow> bool" where
  "waits_for_idle poll wait \<longleftrightarrow>
     (\<forall>i m k mk. polls poll k m = Some mk \<longrightarrow> ch_idle (ms_channels mk ! i) \<longrightarrow>
        (\<exists>j mj. polls poll j m = Some mj \<and> ch_idle (ms_channels mj ! i) \<and> wait i m = Some mj))"

text \<open>The wait that returns as early as possible.\<close>

partial_function (option) eager_wait ::
    "('h machine \<Rightarrow> 'h machine option) \<Rightarrow> nat \<Rightarrow> 'h machine \<Rightarrow> 'h machine option" where
  [code]: "eager_wait poll i m =
     (if ch_idle (ms_channels m ! i) then Some m else do { m' \<leftarrow> poll m; eager_wait poll i m' })"

fun linked :: "ch_channel list \<Rightarrow> nat list \<Rightarrow> bool" where
  "linked chs (c # c' # cs) \<longleftrightarrow>
     ch_control (chs ! c) = request 8 \<and> ch_data (chs ! c) ! 0 = of_nat c' \<and> linked chs (c' # cs)"
| "linked chs cs \<longleftrightarrow> True"

lemma eager_wait_waits: "waits_for_idle poll (eager_wait poll)"
proof -
  have "\<exists>j mj. polls poll j m = Some mj \<and> ch_idle (ms_channels mj ! i) \<and> eager_wait poll i m = Some mj"
    if "polls poll k m = Some mk" "ch_idle (ms_channels mk ! i)" for i m k mk
    using that
  proof (induction k arbitrary: m)
    case 0
    then show ?case by (intro exI [of _ 0]) (simp add: eager_wait.simps)
  next
    case (Suc k)
    show ?case
    proof (cases "ch_idle (ms_channels m ! i)")
      case True
      then show ?thesis by (intro exI [of _ 0]) (simp add: eager_wait.simps)
    next
      case False
      from Suc.prems(1) obtain m' where m': "poll m = Some m'" "polls poll k m' = Some mk"
        by (auto simp: bind_eq_Some_conv)
      from Suc.IH [OF m'(2) Suc.prems(2)] obtain j mj where
        "polls poll j m' = Some mj" "ch_idle (ms_channels mj ! i)" "eager_wait poll i m' = Some mj" by blast
      with m'(1) False show ?thesis by (intro exI [of _ "Suc j"]) (simp add: eager_wait.simps [of poll i m])
    qed
  qed
  then show ?thesis by (auto simp: waits_for_idle_def)
qed

lemma linked_update: "c \<notin> set (butlast cs) \<Longrightarrow> linked (chs[c := ch]) cs = linked chs cs"
  by (induction chs cs rule: linked.induct) auto

lemma set_channel_simps [simp]:
  "ms_channels (set_channel i ch m) = (ms_channels m)[i := ch]"
  "ms_active_channel (set_channel i ch m) = ms_active_channel m"
  "ms_exited (set_channel i ch m) = ms_exited m"
  "ms_switching (set_channel i ch m) = ms_switching m"
  "ms_hw (set_channel i ch m) = ms_hw m"
  by (simp_all add: set_channel_def)

lemma ms_wf_data: "ms_wf m \<Longrightarrow> c < length (ms_channels m) \<Longrightarrow> length (ch_data (ms_channels m ! c)) = 7"
  by (simp add: ms_wf_def)

lemma ms_wf_set_channel: "ms_wf m \<Longrightarrow> length (ch_data ch) = 7 \<Longrightarrow> ms_wf (set_channel c ch m)"
  by (auto simp: ms_wf_def dest: set_update_subset_insert [THEN subsetD])

lemma ms_wf_fields [simp]:
  "ms_wf (m\<lparr>ms_hw := h\<rparr>) = ms_wf m" "ms_wf (m\<lparr>ms_active_channel := a\<rparr>) = ms_wf m"
  "ms_wf (m\<lparr>ms_switching := b\<rparr>) = ms_wf m"
  by (simp_all add: ms_wf_def)

section \<open>Chains of pending requests\<close>

context channel_agent
begin

text \<open>The requests the process may leave in the channel it uses, and their effect on the processor.\<close>

definition valid_request :: "64 word \<Rightarrow> bool" where
  "valid_request control \<longleftrightarrow> control = 0 \<or> (\<exists>n < 7. control = request (of_nat (Suc n))) \<or>
     (\<exists>c. special c \<noteq> None \<and> control = request c)"

definition request_effect :: "ch_channel \<Rightarrow> 'h \<Rightarrow> 'h" where
  "request_effect ch h =
     (let n = drop_bit 1 (ch_control ch) in
      if ch_control ch = 0 then h
      else case special n of Some op \<Rightarrow> hw_exec p op h | None \<Rightarrow> exec_words decode p (take (unat n) (ch_data ch)) h)"

definition links :: "'h machine \<Rightarrow> nat list \<Rightarrow> bool" where
  "links m cs \<longleftrightarrow>
     (if ms_switching m then tl cs \<noteq> [] \<and> ch_control (ms_channels m ! hd cs) = 0 \<and>
        ch_data (ms_channels m ! hd cs) ! 0 = of_nat (hd (tl cs)) \<and> linked (ms_channels m) (tl cs)
      else linked (ms_channels m) cs)"

definition chain :: "'h machine \<Rightarrow> nat \<Rightarrow> nat list \<Rightarrow> bool" where
  "chain m act cs \<longleftrightarrow> ms_wf m \<and> cs \<noteq> [] \<and> ms_active_channel m = of_nat (hd cs) \<and> last cs = act \<and>
     (\<forall>c \<in> set cs. c < length (ms_channels m)) \<and> distinct cs \<and> links m cs \<and>
     (\<forall>c < length (ms_channels m). c \<notin> set cs \<longrightarrow> ch_control (ms_channels m ! c) = 0) \<and>
     valid_request (ch_control (ms_channels m ! act))"

definition settled_hw :: "'h machine \<Rightarrow> nat \<Rightarrow> 'h" where
  "settled_hw m act = request_effect (ms_channels m ! act) (ms_hw m)"

lemma special_small: "n < 7 \<Longrightarrow> special (of_nat (Suc n)) = None"
proof (rule ccontr)
  assume n: "n < 7" and "special (of_nat (Suc n)) \<noteq> None"
  then have "(8 :: 64 word) < of_nat (Suc n)" using special_range by blast
  then have "8 < Suc n" using small_count_drop(4) [OF n] by (simp only: word_less_nat_alt) simp
  with n show False by simp
qed

lemma special_8: "special 8 = None"
  using special_range [of 8] by (cases "special 8") auto

lemma special_drop: "special c \<noteq> None \<Longrightarrow> drop_bit 1 (request c) = c"
  using special_range drop_request_small by blast

lemma request_effect_idle [simp]: "ch_control ch = 0 \<Longrightarrow> request_effect ch h = h"
  by (simp add: request_effect_def)

lemma request_effect_special:
  "special c = Some op \<Longrightarrow> ch_control ch = request c \<Longrightarrow> request_effect ch h = hw_exec p op h"
  using special_drop [of c] by (simp add: request_effect_def del: drop_bit_Suc)

lemma request_effect_batch:
  "n < 7 \<Longrightarrow> ch_control ch = request (of_nat (Suc n)) \<Longrightarrow>
     request_effect ch h = exec_words decode p (take (Suc n) (ch_data ch)) h"
  using small_count_drop(1,4) [of n] special_small [of n]
  by (simp add: request_effect_def del: drop_bit_Suc of_nat_Suc)

lemma valid_request_idle: "valid_request (ch_control ch) \<Longrightarrow> ch_idle ch \<longleftrightarrow> ch_control ch = 0"
  using ch_idle_request [of ch] ch_idle_zero [of ch] by (auto simp: valid_request_def)

lemma chain_idle_iff: "chain m act cs \<Longrightarrow> ch_idle (ms_channels m ! act) \<longleftrightarrow> ch_control (ms_channels m ! act) = 0"
  using valid_request_idle by (auto simp: chain_def)

lemma chain_act: "chain m act cs \<Longrightarrow> act < length (ms_channels m)"
  using last_in_set [of cs] by (auto simp: chain_def)

lemma chain_single: "chain m act [c] \<Longrightarrow> act = c \<and> \<not> ms_switching m"
  by (auto simp: chain_def links_def)

text \<open>The three kinds of polls.\<close>

lemma chain_head:
  assumes "chain m act (c # cs)"
  shows "\<not> ms_exited m" "c < length (ms_channels m)" "ms_active_channel m = of_nat c" "c < 2 ^ 32"
    "length (ch_data (ms_channels m ! c)) = 7"
  using assms by (auto simp: chain_def ms_wf_def)

lemma poll_at_idle:
  assumes "chain m act [c]" and "ch_control (ms_channels m ! c) = 0"
  shows "poll m = Some m"
  using poll_idle [OF chain_head(1) [OF assms(1)] _ chain_head(2-4) [OF assms(1)] assms(2)] chain_single [OF assms(1)] by blast

lemma chain_single_idle:
  assumes "chain m act [c]" and "length data = 7"
    and "m' = set_channel c ((ms_channels m ! c)\<lparr>ch_data := data, ch_control := 0\<rparr>) (m\<lparr>ms_hw := h\<rparr>)"
  shows "chain m' act [c]" and "ms_channels m' ! act = (ms_channels m ! c)\<lparr>ch_data := data, ch_control := 0\<rparr>"
    and "ms_hw m' = h" and "settled_hw m' act = h"
proof -
  have act: "act = c" and c: "c < length (ms_channels m)" using assms(1) by (auto simp: chain_def)
  show ch: "ms_channels m' ! act = (ms_channels m ! c)\<lparr>ch_data := data, ch_control := 0\<rparr>" and "ms_hw m' = h"
    using assms(3) act c by simp_all
  then show "settled_hw m' act = h" by (simp add: settled_hw_def)
  have "ms_wf m" using assms(1) by (simp add: chain_def)
  then have "ms_wf m'" unfolding assms(3) using assms(2) by (intro ms_wf_set_channel) simp_all
  then show "chain m' act [c]" using assms(1,3) act c by (auto simp: chain_def links_def nth_list_update valid_request_def)
qed

text \<open>The first half of a switch keeps the chain, the second takes its first channel off.\<close>

lemma poll_at_switch_idle:
  assumes "chain m act (c # c' # cs)" and "\<not> ms_switching m"
  shows "\<exists>m'. poll m = Some m' \<and> chain m' act (c # c' # cs) \<and> length (ms_channels m') = length (ms_channels m) \<and>
    ms_switching m' \<and> ms_hw m' = ms_hw m \<and> ms_channels m' ! act = ms_channels m ! act"
proof -
  let ?ch = "ms_channels m ! c"
  let ?m = "set_channel c (?ch\<lparr>ch_control := 0\<rparr>) (m\<lparr>ms_switching := True\<rparr>)"
  note hd = chain_head [OF assms(1)]
  have sw: "ch_control ?ch = request 8" "ch_data ?ch ! 0 = of_nat c'" "linked (ms_channels m) (c' # cs)"
    using assms by (auto simp: chain_def links_def)
  have poll: "poll m = Some ?m" using poll_switch_idle [OF hd(1) assms(2) hd(2-4) sw(1)] .
  have nc: "c \<notin> set (c' # cs)" "c \<noteq> act" using assms(1) by (auto simp: chain_def split: if_splits)
  have "c \<notin> set (butlast (c' # cs))" using nc(1) in_set_butlastD by metis
  then have "links ?m (c # c' # cs)" using sw linked_update [of c "c' # cs"] hd(2) by (simp add: links_def)
  moreover have "ms_wf m" using assms by (simp add: chain_def)
  then have "ms_wf ?m" using hd(5) by (intro ms_wf_set_channel) simp_all
  ultimately have "chain ?m act (c # c' # cs)" using assms(1) nc(2) by (auto simp: chain_def nth_list_update)
  then show ?thesis using poll nc(2) by auto
qed

lemma poll_at_switch_read:
  assumes "chain m act (c # c' # cs)" and "ms_switching m"
  shows "\<exists>m'. poll m = Some m' \<and> chain m' act (c' # cs) \<and> ms_channels m' = ms_channels m \<and>
    \<not> ms_switching m' \<and> ms_hw m' = ms_hw m"
proof -
  let ?m = "m\<lparr>ms_active_channel := ch_data (ms_channels m ! c) ! 0, ms_switching := False\<rparr>"
  note hd = chain_head [OF assms(1)]
  have sw: "ch_control (ms_channels m ! c) = 0" "ch_data (ms_channels m ! c) ! 0 = of_nat c'" "linked (ms_channels m) (c' # cs)"
    using assms by (auto simp: chain_def links_def)
  have "poll m = Some ?m" using poll_switch_read [OF hd(1) assms(2) hd(2-5)] .
  moreover have "chain ?m act (c' # cs)" using assms(1) sw by (auto simp: chain_def links_def)
  ultimately show ?thesis by auto
qed

text \<open>
  A batch on its way: it waits in the channel of the process, or it has been executed and the channel holds
  the counters around its last access.
\<close>

definition in_flight :: "'h machine \<Rightarrow> nat \<Rightarrow> uintptr list \<Rightarrow> 'h \<Rightarrow> bool" where
  "in_flight m act ws h \<longleftrightarrow>
     (let ch = ms_channels m ! act; h1 = exec_words decode p (butlast ws) h; h2 = exec_words decode p ws h in
      (ch_control ch = request (of_nat (length ws)) \<and> take (length ws) (ch_data ch) = ws \<and> ms_hw m = h) \<or>
      (ch_control ch = 0 \<and> ms_hw m = h2 \<and>
       (is_load (decode (last ws)) \<longrightarrow> (\<exists>rest. ch_data ch = put_counters (hw_pmc p h1) (hw_pmc p h2) rest))))"

lemma in_flight_same: "ms_channels m' ! act = ms_channels m ! act \<Longrightarrow> ms_hw m' = ms_hw m \<Longrightarrow> in_flight m' act ws h = in_flight m act ws h"
  by (simp add: in_flight_def)

lemma take_Suc_words:
  assumes "n < length data"
  shows "exec_words decode p (take (Suc n) data) h = hw_exec p (decode (data ! n)) (exec_words decode p (take n data) h)"
  by (simp add: take_Suc_conv_app_nth [OF assms])

lemma poll_at_batch:
  assumes ch: "chain m act [c]" and n: "n < 7" "ch_control (ms_channels m ! c) = request (of_nat (Suc n))"
  shows "\<exists>m'. poll m = Some m' \<and> chain m' act [c] \<and> length (ms_channels m') = length (ms_channels m) \<and>
    ch_control (ms_channels m' ! act) = 0 \<and>
    settled_hw m' act = settled_hw m act \<and>
    (\<forall>ws h. in_flight m act ws h \<and> ws \<noteq> [] \<and> length ws \<le> 7 \<longrightarrow> in_flight m' act ws h)"
proof -
  let ?data = "ch_data (ms_channels m ! c)"
  define h1 where "h1 = exec_words decode p (take n ?data) (ms_hw m)"
  define h2 where "h2 = hw_exec p (decode (?data ! n)) h1"
  note hd = chain_head [OF ch]
  have act: "act = c" "\<not> ms_switching m" using chain_single [OF ch] by simp_all
  obtain data where poll: "poll m = Some (set_channel c ((ms_channels m ! c)\<lparr>ch_data := data, ch_control := 0\<rparr>) (m\<lparr>ms_hw := h2\<rparr>))"
    and len: "length data = 7"
    and ctr: "is_load (decode (?data ! n)) \<longrightarrow> data = put_counters (hw_pmc p h1) (hw_pmc p h2) ?data"
    using poll_batch [OF hd(1) act(2) hd(2-5) n(2,1) h1_def h2_def] by blast
  define m' where "m' = set_channel c ((ms_channels m ! c)\<lparr>ch_data := data, ch_control := 0\<rparr>) (m\<lparr>ms_hw := h2\<rparr>)"
  note m' = chain_single_idle [OF ch len m'_def]
  have h2: "h2 = exec_words decode p (take (Suc n) ?data) (ms_hw m)"
    using take_Suc_words [of n ?data "ms_hw m"] n(1) chain_head(5) [OF ch] by (simp add: h1_def h2_def)
  have "settled_hw m act = h2" using request_effect_batch [OF n(1), of "ms_channels m ! c"] n(2) act h2
    by (simp add: settled_hw_def)
  moreover have "in_flight m' act ws h" if fl: "in_flight m act ws h" "ws \<noteq> []" "length ws \<le> 7" for ws h
  proof -
    have "ch_control (ms_channels m ! act) \<noteq> 0" using n(2) act by (simp del: of_nat_Suc)
    then have ws: "request (of_nat (length ws)) = request (of_nat (Suc n))" "take (length ws) ?data = ws" "ms_hw m = h"
      using fl(1) n(2) act by (auto simp: in_flight_def Let_def)
    obtain k where k: "length ws = Suc k" "k < 7" using fl(2,3) by (cases "length ws") auto
    have "Suc k = Suc n" using arg_cong [OF ws(1), of "drop_bit 1"] small_count_drop(1,4) [OF k(2)] small_count_drop(1,4) [OF n(1)] k(1)
      by metis
    then have wsn: "ws = take n ?data @ [?data ! n]" using ws(2) k(1) n(1) chain_head(5) [OF ch]
      by (simp add: take_Suc_conv_app_nth)
    have "h1 = exec_words decode p (butlast ws) h" "h2 = exec_words decode p ws h" "last ws = ?data ! n"
      using wsn ws(3) h1_def h2_def by simp_all
    then show ?thesis using m' ctr act by (auto simp: in_flight_def Let_def)
  qed
  moreover have "length (ms_channels m') = length (ms_channels m)" by (simp add: m'_def)
  ultimately show ?thesis using poll m' by (auto simp: m'_def)
qed

lemma poll_at_special:
  assumes ch: "chain m act [c]" and n: "special k = Some op" "ch_control (ms_channels m ! c) = request k"
  shows "\<exists>m'. poll m = Some m' \<and> chain m' act [c] \<and> length (ms_channels m') = length (ms_channels m) \<and>
    ch_control (ms_channels m' ! act) = 0 \<and> settled_hw m' act = settled_hw m act"
proof -
  define m' where "m' = set_channel c ((ms_channels m ! c)\<lparr>ch_data := ch_data (ms_channels m ! c), ch_control := 0\<rparr>)
    (m\<lparr>ms_hw := hw_exec p op (ms_hw m)\<rparr>)"
  note hd = chain_head [OF ch]
  have "\<not> ms_switching m" using chain_single [OF ch] by simp
  from poll_special [OF hd(1) this hd(2-4) n(2,1)] have "poll m = Some m'" by (simp add: m'_def)
  moreover note chain_single_idle [OF ch chain_head(5) [OF ch] m'_def]
  moreover have "settled_hw m act = hw_exec p op (ms_hw m)"
    using request_effect_special [OF n] ch by (simp add: settled_hw_def chain_def)
  moreover have "length (ms_channels m') = length (ms_channels m)" by (simp add: m'_def)
  ultimately show ?thesis by auto
qed

lemma in_flight_not_special:
  assumes "in_flight m act ws h" "ws \<noteq> []" "length ws \<le> 7"
    and "special k = Some op" "ch_control (ms_channels m ! act) = request k"
  shows False
proof -
  obtain n where n: "length ws = Suc n" "n < 7" using assms(2,3) by (cases "length ws") auto
  have "request (of_nat (Suc n)) = request k" using assms(1,5) n(1) by (auto simp: in_flight_def Let_def)
  then have "k = of_nat (Suc n)" using small_count_drop(1) [OF n(2)] special_drop [of k] assms(4) by (metis option.distinct(1))
  with assms(4) special_small [OF n(2)] show False by simp
qed

definition chain_weight :: "'h machine \<Rightarrow> nat \<Rightarrow> nat list \<Rightarrow> nat" where
  "chain_weight m act cs = 2 * length cs + (if ms_switching m then 0 else 1) +
     (if ch_control (ms_channels m ! act) = 0 then 0 else 1)"

text \<open>The channel of the process is idle only once the agent has arrived there.\<close>

definition busy :: "'h machine \<Rightarrow> nat \<Rightarrow> nat list \<Rightarrow> bool" where
  "busy m act cs \<longleftrightarrow> ch_control (ms_channels m ! act) \<noteq> 0 \<or> cs = [act]"

text \<open>What polls keep: from the chain \<open>cs\<close> of \<open>m\<close> to the chain \<open>cs'\<close> of \<open>m'\<close>.\<close>

definition keeps :: "'h machine \<Rightarrow> nat \<Rightarrow> nat list \<Rightarrow> 'h machine \<Rightarrow> nat list \<Rightarrow> bool" where
  "keeps m act cs m' cs' \<longleftrightarrow> chain m' act cs' \<and> suffix cs' cs \<and> length (ms_channels m') = length (ms_channels m) \<and>
     settled_hw m' act = settled_hw m act \<and> (busy m act cs \<longrightarrow> busy m' act cs') \<and>
     (\<forall>ws h. in_flight m act ws h \<and> ws \<noteq> [] \<and> length ws \<le> 7 \<longrightarrow> in_flight m' act ws h)"

lemma keeps_refl: "chain m act cs \<Longrightarrow> keeps m act cs m cs"
  by (simp add: keeps_def)

lemma keeps_trans: "keeps m act cs m1 cs1 \<Longrightarrow> keeps m1 act cs1 m2 cs2 \<Longrightarrow> keeps m act cs m2 cs2"
  by (auto simp: keeps_def intro: suffix_order.trans)

text \<open>Every poll keeps the chain and its settled state, and brings the agent closer to an idle channel.\<close>

lemma poll_chain:
  assumes ch: "chain m act cs"
  shows "\<exists>m' cs'. poll m = Some m' \<and> keeps m act cs m' cs' \<and>
    (\<not> ch_idle (ms_channels m ! act) \<longrightarrow> chain_weight m' act cs' < chain_weight m act cs)"
proof -
  consider (switch) c c' cs' where "cs = c # c' # cs'" | (idle) "cs = [act]" "ch_control (ms_channels m ! act) = 0"
    | (batch) n where "cs = [act]" "n < 7" "ch_control (ms_channels m ! act) = request (of_nat (Suc n))"
    | (special) k op where "cs = [act]" "special k = Some op" "ch_control (ms_channels m ! act) = request k"
    using ch by (cases cs rule: remdups_adj.cases) (auto simp: chain_def valid_request_def)
  then show ?thesis
  proof cases
    case switch
    show ?thesis
    proof (cases "ms_switching m")
      case False
      obtain m' where m': "poll m = Some m'" "chain m' act cs" "length (ms_channels m') = length (ms_channels m)"
        "ms_switching m'" "ms_hw m' = ms_hw m" "ms_channels m' ! act = ms_channels m ! act"
        using poll_at_switch_idle ch False switch by blast
      then have "keeps m act cs m' cs" by (auto simp: keeps_def busy_def settled_hw_def in_flight_def)
      moreover have "chain_weight m' act cs < chain_weight m act cs" using m'(4,6) False by (simp add: chain_weight_def)
      ultimately show ?thesis using m'(1) by blast
    next
      case True
      obtain m' where m': "poll m = Some m'" "chain m' act (c' # cs')" "ms_channels m' = ms_channels m"
        "\<not> ms_switching m'" "ms_hw m' = ms_hw m"
        using poll_at_switch_read [OF ch [unfolded switch] True] by blast
      then have "keeps m act cs m' (c' # cs')"
        using switch by (auto simp: keeps_def busy_def settled_hw_def in_flight_def suffix_def)
      moreover have "chain_weight m' act (c' # cs') < chain_weight m act cs" using m'(3,4) True switch by (simp add: chain_weight_def)
      ultimately show ?thesis using m'(1) by blast
    qed
  next
    case idle
    then show ?thesis using poll_at_idle [of m act act] ch chain_idle_iff [OF ch] keeps_refl [OF ch] by auto
  next
    case batch
    obtain m' where m': "poll m = Some m'" "chain m' act [act]" "ch_control (ms_channels m' ! act) = 0"
      "length (ms_channels m') = length (ms_channels m)" "settled_hw m' act = settled_hw m act"
      "\<forall>ws h. in_flight m act ws h \<and> ws \<noteq> [] \<and> length ws \<le> 7 \<longrightarrow> in_flight m' act ws h"
      using poll_at_batch [OF ch [unfolded batch(1)] batch(2,3)] by blast
    have "\<not> ms_switching m" "\<not> ms_switching m'" using chain_single ch batch(1) m'(2) by blast+
    then have "chain_weight m' act [act] < chain_weight m act cs"
      using m'(3) batch(1,3) by (simp add: chain_weight_def del: of_nat_Suc)
    with m' batch(1) show ?thesis by (auto simp: keeps_def busy_def)
  next
    case special
    obtain m' where m': "poll m = Some m'" "chain m' act [act]" "ch_control (ms_channels m' ! act) = 0"
      "length (ms_channels m') = length (ms_channels m)" "settled_hw m' act = settled_hw m act"
      using poll_at_special [OF ch [unfolded special(1)] special(2,3)] by blast
    have "\<not> ms_switching m" "\<not> ms_switching m'" using chain_single ch special(1) m'(2) by blast+
    then have "chain_weight m' act [act] < chain_weight m act cs"
      using m'(3) special(1,3) by (simp add: chain_weight_def)
    moreover have "keeps m act cs m' [act]"
      using m' special(1) in_flight_not_special [OF _ _ _ special(2,3)] by (auto simp: keeps_def busy_def)
    ultimately show ?thesis using m'(1) by blast
  qed
qed

lemma polls_chain:
  assumes "chain m act cs"
  shows "\<exists>mk cs'. polls poll k m = Some mk \<and> keeps m act cs mk cs'"
  using assms
proof (induction k arbitrary: m cs)
  case 0
  then show ?case using keeps_refl by auto
next
  case (Suc k)
  obtain m' cs' where m': "poll m = Some m'" "keeps m act cs m' cs'" using poll_chain [OF Suc.prems] by blast
  then have "chain m' act cs'" by (simp add: keeps_def)
  from Suc.IH [OF this] obtain mk ck where "polls poll k m' = Some mk" "keeps m' act cs' mk ck" by blast
  with m' show ?case using keeps_trans by (intro exI [of _ mk] exI [of _ ck]) auto
qed

lemma chain_reaches_idle:
  assumes "chain m act cs"
  shows "\<exists>k mk. polls poll k m = Some mk \<and> ch_idle (ms_channels mk ! act)"
  using assms
proof (induction "chain_weight m act cs" arbitrary: m cs rule: less_induct)
  case less
  show ?case
  proof (cases "ch_idle (ms_channels m ! act)")
    case True
    then show ?thesis by (intro exI [of _ 0]) simp
  next
    case False
    obtain m' cs' where m': "poll m = Some m'" "chain m' act cs'" "chain_weight m' act cs' < chain_weight m act cs"
      using poll_chain [OF less.prems] False by (auto simp: keeps_def)
    from less.hyps [OF m'(3,2)] obtain k mk where "polls poll k m' = Some mk" "ch_idle (ms_channels mk ! act)" by blast
    with m'(1) show ?thesis by (intro exI [of _ "Suc k"]) simp
  qed
qed

text \<open>Every wait of the process ends, with its channel idle and nothing lost.\<close>

lemma wait_chain:
  assumes "waits_for_idle poll wait" and "chain m act cs"
  shows "\<exists>m' cs'. wait act m = Some m' \<and> keeps m act cs m' cs' \<and> chain m' act cs' \<and> length (ms_channels m') = length (ms_channels m) \<and>
    ch_control (ms_channels m' ! act) = 0 \<and> ms_hw m' = settled_hw m act"
proof -
  obtain j m' where j: "polls poll j m = Some m'" "ch_idle (ms_channels m' ! act)" "wait act m = Some m'"
    using chain_reaches_idle [OF assms(2)] assms(1) unfolding waits_for_idle_def by blast
  obtain cs' where cs': "keeps m act cs m' cs'" using polls_chain [OF assms(2), of j] j(1) by auto
  then have ch: "chain m' act cs'" "settled_hw m' act = settled_hw m act" "length (ms_channels m') = length (ms_channels m)"
    by (simp_all add: keeps_def)
  have idle: "ch_control (ms_channels m' ! act) = 0" using chain_idle_iff [OF ch(1)] j(2) by auto
  then have "ms_hw m' = settled_hw m act" using ch(2) by (simp add: settled_hw_def)
  with idle show ?thesis using j(3) cs' ch(1,3) by blast
qed

text \<open>What the process does to an idle channel.\<close>

lemma chain_last_links:
  assumes "chain m act cs"
  shows "act \<notin> set (butlast cs)" and "act \<notin> set (butlast (tl cs))" and "ms_switching m \<Longrightarrow> hd cs \<noteq> act"
proof -
  have cs: "cs = butlast cs @ [act]" "distinct cs" using assms by (auto simp: chain_def)
  then show n: "act \<notin> set (butlast cs)" by (metis distinct_append disjoint_iff list.set_intros(1))
  then show "act \<notin> set (butlast (tl cs))" by (metis butlast_tl list.set_sel(2) tl_Nil)
  show "hd cs \<noteq> act" if "ms_switching m"
    using assms that by (cases cs) (auto simp: chain_def links_def split: if_splits)
qed

lemma links_send: "chain m act cs \<Longrightarrow> links (set_channel act ch m) cs"
  using chain_last_links [of m act cs] linked_update [of act cs] linked_update [of act "tl cs"]
  by (auto simp: chain_def links_def set_channel_def)

lemma chain_send:
  assumes "chain m act cs" and "length (ch_data ch) = 7" and "valid_request (ch_control ch)"
  shows "chain (set_channel act ch m) act cs" and "settled_hw (set_channel act ch m) act = request_effect ch (ms_hw m)"
proof -
  have act: "act < length (ms_channels m)" using chain_act [OF assms(1)] .
  then show "settled_hw (set_channel act ch m) act = request_effect ch (ms_hw m)" by (simp add: settled_hw_def)
  have "ms_wf (set_channel act ch m)" using assms by (intro ms_wf_set_channel) (simp_all add: chain_def)
  then show "chain (set_channel act ch m) act cs"
    using assms links_send [OF assms(1)] act by (auto simp: chain_def nth_list_update)
qed

lemma linked_snoc:
  "cs \<noteq> [] \<Longrightarrow> linked chs (cs @ [c]) \<longleftrightarrow> linked chs cs \<and> ch_control (chs ! last cs) = request 8 \<and>
     ch_data (chs ! last cs) ! 0 = of_nat c"
  by (induction chs cs rule: linked.induct) (auto simp: neq_Nil_conv)

text \<open>A switch to a channel that is not waiting for the agent.\<close>

lemma chain_switch:
  assumes "chain m act cs" and "length (ch_data ch) = 7" and "ch_control ch = request 8" and "ch_data ch ! 0 = of_nat c"
    and "c < length (ms_channels m)" and "c \<notin> set cs"
  shows "chain (set_channel act ch m) c (cs @ [c])" and "settled_hw (set_channel act ch m) c = ms_hw m"
proof -
  let ?m = "set_channel act ch m"
  have act: "act < length (ms_channels m)" "act \<noteq> c" using chain_act [OF assms(1)] assms(1,6) by (auto simp: chain_def)
  have cs: "cs \<noteq> []" "last cs = act" using assms(1) by (auto simp: chain_def)
  have free: "ch_control (ms_channels m ! c) = 0" using assms(1,5,6) by (auto simp: chain_def)
  have "links ?m (cs @ [c])"
  proof (cases "ms_switching m")
    case False
    then have "linked (ms_channels ?m) cs" using links_send [OF assms(1), of ch] by (simp add: links_def set_channel_def)
    then show ?thesis using False linked_snoc [OF cs(1)] cs act assms(3,4) by (simp add: links_def set_channel_def)
  next
    case True
    then have l: "tl cs \<noteq> []" "linked (ms_channels ?m) (tl cs)" "ch_control (ms_channels ?m ! hd cs) = 0"
      "ch_data (ms_channels ?m ! hd cs) ! 0 = of_nat (hd (tl cs))"
      using links_send [OF assms(1), of ch] by (simp_all add: links_def set_channel_def)
    then have "last (tl cs) = act" using cs by (simp add: last_tl)
    then show ?thesis using True l linked_snoc [OF l(1)] cs act assms(3,4) by (simp add: links_def set_channel_def)
  qed
  moreover have "ms_wf ?m" using assms by (intro ms_wf_set_channel) (simp_all add: chain_def)
  ultimately show "chain ?m c (cs @ [c])"
    using assms(1,5,6) act cs free by (auto simp: chain_def valid_request_def nth_list_update)
  show "settled_hw ?m c = ms_hw m" using free act by (simp add: settled_hw_def)
qed

end

end
