(* ===== verification/CH_Kernel_Memory.thy ===== *)
theory CH_Kernel_Memory
  imports CH_Protocol CH_Regions
begin

text \<open>
  The memory that is accessed through the kernel agent: \<open>backends/kernel_memory.hpp\<close> with its two
  implementation files. The process collects up to seven accesses in a buffer and hands them to the agent
  in one batch. An operation takes the state of the object and the machine it shares with the agent, and
  the wait for an idle channel as its first argument.
\<close>

section \<open>State\<close>

record km_stats =
  st_accesses :: nat
  st_instrumented_accesses :: nat
  st_flushes :: nat
  st_channel_switches :: nat
  st_clflushes :: nat
  st_wbinvds :: nat
  st_csws :: nat
  st_isws :: nat
  st_cisws :: nat

definition no_stats :: km_stats where
  "no_stats = \<lparr>st_accesses = 0, st_instrumented_accesses = 0, st_flushes = 0, st_channel_switches = 0,
     st_clflushes = 0, st_wbinvds = 0, st_csws = 0, st_isws = 0, st_cisws = 0\<rparr>"

text \<open>\<open>++\<close> of a \<open>std::size_t\<close>.\<close>

definition size_t_inc :: "nat \<Rightarrow> nat" where
  "size_t_inc n = (n + 1) mod size_t_range"

record ch_ioc_cache_info =
  ci_levels :: nat
  ci_offset_bits :: nat
  ci_sets :: "32 word list"
  ci_ways :: "nat list"

record kernel_memory =
  km_active_channel :: nat
  km_channel_count :: nat
  km_regions :: "basic_extended_memory_region list"
  km_buffer :: "uintptr list"
  km_buffered :: nat
  km_address_checker :: address_checker
  km_stats :: km_stats
  km_cache_info :: ch_ioc_cache_info

type_synonym 'h km_state = "kernel_memory \<times> 'h machine"
type_synonym 'h idle_wait = "nat \<Rightarrow> 'h machine \<Rightarrow> 'h machine option"
type_synonym pmu_handler = "uintptr \<Rightarrow> uintptr \<Rightarrow> uintptr \<Rightarrow> uintptr \<Rightarrow> uintptr \<Rightarrow> uintptr \<Rightarrow> nat"

section \<open>Operations of both architectures\<close>

definition km_flush :: "'h idle_wait \<Rightarrow> 'h km_state \<Rightarrow> 'h km_state option" where
  "km_flush wait s = (case s of (k, m) \<Rightarrow>
     if km_buffered k \<noteq> 0 then do {
       require (km_buffered k \<le> length (km_buffer k));
       m1 \<leftarrow> wait (km_active_channel k) m;
       ch \<leftarrow> vec_at (ms_channels m1) (km_active_channel k);
       require (km_buffered k \<le> length (ch_data ch));
       let ch1 = ch\<lparr>ch_data := take (km_buffered k) (km_buffer k) @ drop (km_buffered k) (ch_data ch)\<rparr>;
       let ch2 = ch_channel_set_access (of_nat (km_buffered k)) ch1;
       Some (k\<lparr>km_buffered := 0, km_stats := st_flushes_update size_t_inc (km_stats k)\<rparr>,
             set_channel (km_active_channel k) ch2 m1) }
     else Some (k, m))"

definition km_internal_access :: "'h idle_wait \<Rightarrow> uintptr \<Rightarrow> 'h km_state \<Rightarrow> 'h km_state option" where
  "km_internal_access wait address s = (case s of (k, m) \<Rightarrow> do {
     buffer \<leftarrow> vec_set (km_buffer k) (km_buffered k) address;
     let k1 = k\<lparr>km_buffer := buffer, km_buffered := km_buffered k + 1\<rparr>;
     if km_buffered k1 = length buffer then km_flush wait (k1, m) else Some (k1, m) })"

definition km_count :: "(km_stats \<Rightarrow> km_stats) \<Rightarrow> 'h km_state \<Rightarrow> 'h km_state" where
  "km_count f s = (case s of (k, m) \<Rightarrow> (k\<lparr>km_stats := f (km_stats k)\<rparr>, m))"

text \<open>The two assertions on an address.\<close>

definition km_require_address :: "uintptr \<Rightarrow> kernel_memory \<Rightarrow> unit option" where
  "km_require_address address k = do {
     require (drop_bit 62 address = 3);
     inside \<leftarrow> ac_check address (km_address_checker k);
     require inside }"

definition km_access :: "'h idle_wait \<Rightarrow> uintptr \<Rightarrow> 'h km_state \<Rightarrow> 'h km_state option" where
  "km_access wait address s = do {
     km_require_address address (fst s);
     s1 \<leftarrow> km_internal_access wait address s;
     Some (km_count (st_accesses_update size_t_inc) s1) }"

definition km_instrumented_access :: "'h idle_wait \<Rightarrow> pmu_handler \<Rightarrow> uintptr \<Rightarrow> 'h km_state \<Rightarrow>
    (nat \<times> 'h km_state) option" where
  "km_instrumented_access wait pmu_handler address s = (case s of (k, m) \<Rightarrow> do {
     km_require_address address k;
     buffer \<leftarrow> vec_set (km_buffer k) (km_buffered k) address;
     (k1, m1) \<leftarrow> km_flush wait (k\<lparr>km_buffer := buffer, km_buffered := km_buffered k + 1\<rparr>, m);
     m2 \<leftarrow> wait (km_active_channel k1) m1;
     ch \<leftarrow> vec_at (ms_channels m2) (km_active_channel k1);
     evt0_before \<leftarrow> vec_at (ch_data ch) 0;
     evt1_before \<leftarrow> vec_at (ch_data ch) 1;
     evt2_before \<leftarrow> vec_at (ch_data ch) 2;
     evt0_after \<leftarrow> vec_at (ch_data ch) 3;
     evt1_after \<leftarrow> vec_at (ch_data ch) 4;
     evt2_after \<leftarrow> vec_at (ch_data ch) 5;
     Some (pmu_handler evt0_before evt1_before evt2_before evt0_after evt1_after evt2_after,
           km_count (st_instrumented_accesses_update size_t_inc) (k1, m2)) })"

definition km_switch_channel_to :: "'h idle_wait \<Rightarrow> nat \<Rightarrow> 'h km_state \<Rightarrow> 'h km_state option" where
  "km_switch_channel_to wait channel s = do {
     require (channel < km_channel_count (fst s));
     (k1, m1) \<leftarrow> km_flush wait s;
     m2 \<leftarrow> wait (km_active_channel k1) m1;
     ch \<leftarrow> vec_at (ms_channels m2) (km_active_channel k1);
     data \<leftarrow> vec_set (ch_data ch) 0 (of_nat channel);
     let m3 = set_channel (km_active_channel k1) (ch_channel_set_access 8 (ch\<lparr>ch_data := data\<rparr>)) m2;
     m4 \<leftarrow> wait channel m3;
     Some (km_count (st_channel_switches_update size_t_inc) (k1\<lparr>km_active_channel := channel\<rparr>, m4)) }"

definition km_switch_channel :: "'h idle_wait \<Rightarrow> 'h km_state \<Rightarrow> 'h km_state option" where
  "km_switch_channel wait s =
     km_switch_channel_to wait ((km_active_channel (fst s) + 5) mod km_channel_count (fst s)) s"

definition km_levels :: "kernel_memory \<Rightarrow> nat" where
  "km_levels k = ci_levels (km_cache_info k)"

definition km_offset_bits :: "kernel_memory \<Rightarrow> nat" where
  "km_offset_bits k = ci_offset_bits (km_cache_info k) mod 2 ^ 8"

definition km_ways :: "kernel_memory \<Rightarrow> nat \<Rightarrow> nat option" where
  "km_ways k level = do { require (level < 3); vec_at (ci_ways (km_cache_info k)) level }"

text \<open>The rounding of the number of sets to the next power of two, in 32 bits.\<close>

definition round_up_sets :: "32 word \<Rightarrow> 32 word" where
  "round_up_sets sets0 = (if sets0 AND (sets0 - 1) \<noteq> 0 then
     let s = sets0 - 1;
         s = s OR drop_bit 1 s;
         s = s OR drop_bit 2 s;
         s = s OR drop_bit 4 s;
         s = s OR drop_bit 8 s;
         s = s OR drop_bit 16 s
     in s + 1
   else sets0)"

text \<open>\<open>std::countr_zero\<close> of a 32-bit integer.\<close>

definition countr_zero32 :: "32 word \<Rightarrow> nat" where
  "countr_zero32 w = (if w = 0 then 32 else countr_zero (unat w))"

definition km_index_bits :: "kernel_memory \<Rightarrow> nat \<Rightarrow> nat option" where
  "km_index_bits k level = do {
     require (level < 3);
     sets \<leftarrow> vec_at (ci_sets (km_cache_info k)) level;
     require (sets \<noteq> 0);
     Some (countr_zero32 (round_up_sets sets)) }"

section \<open>x86-64\<close>

definition km_clflush :: "'h idle_wait \<Rightarrow> uintptr \<Rightarrow> 'h km_state \<Rightarrow> 'h km_state option" where
  "km_clflush wait address s = do {
     s1 \<leftarrow> km_internal_access wait (address AND 0x7FFFFFFFFFFFFFFF) s;
     Some (km_count (st_clflushes_update size_t_inc) s1) }"

definition km_wbinvd :: "'h idle_wait \<Rightarrow> 'h km_state \<Rightarrow> 'h km_state option" where
  "km_wbinvd wait s = do {
     (k1, m1) \<leftarrow> km_flush wait s;
     m2 \<leftarrow> wait (km_active_channel k1) m1;
     ch \<leftarrow> vec_at (ms_channels m2) (km_active_channel k1);
     let m3 = set_channel (km_active_channel k1) (ch_channel_set_access 16 ch) m2;
     Some (km_count (st_wbinvds_update size_t_inc) (k1, m3)) }"

section \<open>ARMv8\<close>

text \<open>\<open>std::bit_ceil\<close>.\<close>

fun bit_ceil :: "nat \<Rightarrow> nat" where
  "bit_ceil n = (if n \<le> 1 then 1 else 2 * bit_ceil ((n + 1) div 2))"

declare bit_ceil.simps [simp del]

text \<open>
  The operand of the cache maintenance instructions by set and way: level, set and way at their places in
  the low half, computed in 32 bits, and the kind of the instruction in the two upper bits. A shift by 32 or
  more has no defined result.
\<close>

definition cisw_word :: "bool \<Rightarrow> bool \<Rightarrow> nat \<Rightarrow> nat \<Rightarrow> nat \<Rightarrow> nat \<Rightarrow> nat \<Rightarrow> uintptr option" where
  "cisw_word clean invalidate level set_index way way_bits offset_bits = do {
     require (0 < way_bits \<and> way_bits \<le> 32 \<and> offset_bits < 32);
     let low = push_bit 1 (of_nat level :: 32 word);
     let low = low OR push_bit (32 - way_bits) (of_nat way);
     let low = low OR push_bit offset_bits (of_nat set_index);
     let address = (ucast low :: uintptr);
     let address = address OR push_bit 63 (of_bool (\<not> clean));
     Some (address OR push_bit 62 (of_bool (\<not> invalidate))) }"

definition km_internal_cisw :: "'h idle_wait \<Rightarrow> bool \<Rightarrow> bool \<Rightarrow> nat \<Rightarrow> nat \<Rightarrow> nat \<Rightarrow> 'h km_state \<Rightarrow> 'h km_state option" where
  "km_internal_cisw wait clean invalidate level set_index way s = do {
     require (clean \<or> invalidate);
     require (level < km_levels (fst s));
     ways \<leftarrow> km_ways (fst s) level;
     address \<leftarrow> cisw_word clean invalidate level set_index way (countr_zero (bit_ceil ways)) (km_offset_bits (fst s));
     km_internal_access wait address s }"

definition km_csw :: "'h idle_wait \<Rightarrow> nat \<Rightarrow> nat \<Rightarrow> nat \<Rightarrow> 'h km_state \<Rightarrow> 'h km_state option" where
  "km_csw wait level set_index way s = do {
     s1 \<leftarrow> km_internal_cisw wait True False level set_index way s;
     Some (km_count (st_csws_update size_t_inc) s1) }"

definition km_isw :: "'h idle_wait \<Rightarrow> nat \<Rightarrow> nat \<Rightarrow> nat \<Rightarrow> 'h km_state \<Rightarrow> 'h km_state option" where
  "km_isw wait level set_index way s = do {
     s1 \<leftarrow> km_internal_cisw wait False True level set_index way s;
     Some (km_count (st_isws_update size_t_inc) s1) }"

definition km_cisw :: "'h idle_wait \<Rightarrow> nat \<Rightarrow> nat \<Rightarrow> nat \<Rightarrow> 'h km_state \<Rightarrow> 'h km_state option" where
  "km_cisw wait level set_index way s = do {
     s1 \<leftarrow> km_internal_cisw wait True True level set_index way s;
     Some (km_count (st_cisws_update size_t_inc) s1) }"

text \<open>The three nested loops of \<open>reset\<close>, each over the numbers still to do.\<close>

fun km_reset_ways :: "'h idle_wait \<Rightarrow> nat \<Rightarrow> nat \<Rightarrow> nat list \<Rightarrow> 'h km_state \<Rightarrow> 'h km_state option" where
  "km_reset_ways wait level set_index [] s = Some s"
| "km_reset_ways wait level set_index (way # ws) s = do {
     s1 \<leftarrow> km_cisw wait level set_index way s; km_reset_ways wait level set_index ws s1 }"

fun km_reset_sets :: "'h idle_wait \<Rightarrow> nat \<Rightarrow> nat list \<Rightarrow> 'h km_state \<Rightarrow> 'h km_state option" where
  "km_reset_sets wait level [] s = Some s"
| "km_reset_sets wait level (set_index # ss) s = do {
     ways \<leftarrow> km_ways (fst s) level;
     s1 \<leftarrow> km_reset_ways wait level set_index [0..<ways] s;
     km_reset_sets wait level ss s1 }"

fun km_reset_levels :: "'h idle_wait \<Rightarrow> nat list \<Rightarrow> 'h km_state \<Rightarrow> 'h km_state option" where
  "km_reset_levels wait [] s = Some s"
| "km_reset_levels wait (level # ls) s = do {
     index_bits \<leftarrow> km_index_bits (fst s) level;
     require (index_bits < 32);
     s1 \<leftarrow> km_reset_sets wait level [0..<2 ^ index_bits] s;
     km_reset_levels wait ls s1 }"

definition km_reset :: "'h idle_wait \<Rightarrow> 'h km_state \<Rightarrow> 'h km_state option" where
  "km_reset wait s = do { s1 \<leftarrow> km_reset_levels wait [0..<km_levels (fst s)] s; km_flush wait s1 }"

end
