(* ===== verification/CH_Kernel_Refinement.thy ===== *)
theory CH_Kernel_Refinement
  imports CH_Kernel_Memory
begin

text \<open>
  The kernel memory refines direct accesses: buffering, batches, pending channel switches and the speed of
  the agent are invisible in the order and the effects of the accesses. The abstraction of a state is the
  processor after all pending requests and all buffered words have been executed.

  The agent gives a channel back before it reads from it where to go next. A process that runs ahead of the
  agent, once around the channels, overwrites that number. Programs must therefore not switch more often than there are channels on the round
  without an instrumented access, which waits for the agent, in between (\<open>paced\<close>). \<open>unpaced_switches_fail\<close> shows
  what happens otherwise.
\<close>

definition same_config :: "kernel_memory \<Rightarrow> kernel_memory \<Rightarrow> bool" where
  "same_config k k' \<longleftrightarrow> km_regions k' = km_regions k \<and> km_address_checker k' = km_address_checker k \<and>
     km_cache_info k' = km_cache_info k \<and> km_channel_count k' = km_channel_count k"

lemma same_config_refl [simp]: "same_config k k"
  by (simp add: same_config_def)

lemma same_config_trans: "same_config k k' \<Longrightarrow> same_config k' k'' \<Longrightarrow> same_config k k''"
  by (simp add: same_config_def)

lemma same_config_update [simp]:
  "same_config k (k\<lparr>km_buffered := n, km_stats := st\<rparr>)" "same_config k (k\<lparr>km_stats := st\<rparr>)"
  "same_config k (k\<lparr>km_buffer := b, km_buffered := n\<rparr>)" "same_config k (k\<lparr>km_active_channel := c\<rparr>)"
  by (simp_all add: same_config_def)

lemma same_config_count [simp]: "same_config k (fst (km_count f s)) = same_config k (fst s)"
  by (cases s) (simp add: km_count_def same_config_def)

text \<open>The result of an instrumented access is computed from the counters right before and after it.\<close>

definition handle_pmc :: "pmu_handler \<Rightarrow> pmc_values \<Rightarrow> pmc_values \<Rightarrow> nat" where
  "handle_pmc handler before after =
     (case before of (b0, b1, b2) \<Rightarrow> case after of (a0, a1, a2) \<Rightarrow> handler b0 b1 b2 a0 a1 a2)"

section \<open>Rounds of switches\<close>

text \<open>
  The channels that wait for the agent when the process has switched \<open>n\<close> times since the agent was seen on its
  channel: each is five behind the next one.
\<close>

definition next_channel :: "nat \<Rightarrow> nat \<Rightarrow> nat" where
  "next_channel chans c = (c + 5) mod chans"

definition pending :: "nat \<Rightarrow> nat \<Rightarrow> nat list \<Rightarrow> bool" where
  "pending chans n cs \<longleftrightarrow> successively (\<lambda>c c'. c' = next_channel chans c) cs \<and> length cs \<le> Suc n"

text \<open>The number of channels on the round.\<close>

definition channel_round :: "nat \<Rightarrow> nat" where
  "channel_round chans = chans div gcd 5 chans"

lemma pending_single [simp]: "pending chans n [c]"
  by (simp add: pending_def)

lemma pending_suffix: "suffix cs' cs \<Longrightarrow> pending chans n cs \<Longrightarrow> pending chans n cs'"
  by (auto simp: pending_def suffix_def successively_append_iff)

lemma pending_snoc: "pending chans n cs \<Longrightarrow> cs \<noteq> [] \<Longrightarrow> c = next_channel chans (last cs) \<Longrightarrow> pending chans (Suc n) (cs @ [c])"
  by (simp add: pending_def successively_append_iff)

lemma pending_nth:
  "successively (\<lambda>c c'. c' = next_channel chans c) cs \<Longrightarrow> j < length cs \<Longrightarrow> hd cs < chans \<Longrightarrow> cs ! j = (hd cs + 5 * j) mod chans"
proof (induction cs arbitrary: j)
  case (Cons c cs)
  show ?case
  proof (cases j)
    case 0
    with Cons.prems(3) show ?thesis by simp
  next
    case (Suc i)
    then have cs: "cs \<noteq> []" "hd cs = next_channel chans c" "successively (\<lambda>c c'. c' = next_channel chans c) cs"
      using Cons.prems(1,2) by (auto simp: successively_Cons)
    moreover have "hd cs < chans" using cs(2) Cons.prems(3) by (simp add: next_channel_def)
    ultimately have "cs ! i = (next_channel chans c + 5 * i) mod chans" using Cons.IH [of i] Suc Cons.prems(2) by simp
    also have "\<dots> = (c + 5 + 5 * i) mod chans" unfolding next_channel_def by (rule mod_add_left_eq)
    finally show ?thesis using Suc by (simp add: add_ac)
  qed
qed simp

lemma dvd_round: "chans dvd 5 * d \<Longrightarrow> 0 < chans \<Longrightarrow> channel_round chans dvd d"
proof -
  assume d: "chans dvd 5 * d" "0 < chans"
  define g where "g = gcd 5 chans"
  have g: "0 < g" "5 = g * (5 div g)" "chans = g * channel_round chans" by (simp_all add: g_def channel_round_def)
  have "coprime (channel_round chans) (5 div g)"
    unfolding channel_round_def g_def using d(2) by (metis coprime_commute div_gcd_coprime gcd_eq_0_iff less_irrefl)
  moreover have "g * channel_round chans dvd g * ((5 div g) * d)" using d(1) g(2,3) by (metis mult.assoc)
  then have "channel_round chans dvd (5 div g) * d" using g(1) by (simp add: dvd_mult_cancel_left)
  ultimately show ?thesis by (simp add: coprime_dvd_mult_right_iff)
qed

text \<open>The process does not come back to a pending channel before the round is complete.\<close>

lemma next_not_pending:
  assumes "pending chans n cs" and "cs \<noteq> []" and "hd cs < chans" and "Suc n < channel_round chans"
  shows "next_channel chans (last cs) \<notin> set cs"
proof
  assume "next_channel chans (last cs) \<in> set cs"
  then obtain j where j: "j < length cs" "cs ! j = next_channel chans (last cs)" by (auto simp: in_set_conv_nth)
  have s: "successively (\<lambda>c c'. c' = next_channel chans c) cs" "length cs < channel_round chans" using assms by (auto simp: pending_def)
  have "last cs = (hd cs + 5 * (length cs - 1)) mod chans"
    using pending_nth [OF s(1) _ assms(3), of "length cs - 1"] assms(2) by (simp add: last_conv_nth)
  then have "next_channel chans (last cs) = (hd cs + 5 * (length cs - 1) + 5) mod chans"
    unfolding next_channel_def by (simp only: mod_add_left_eq)
  moreover have "hd cs + 5 * (length cs - 1) + 5 = hd cs + 5 * length cs" using assms(2) by (cases cs) auto
  ultimately have "(hd cs + 5 * length cs) mod chans = (hd cs + 5 * j) mod chans"
    using j(2) pending_nth [OF s(1) j(1) assms(3)] by (simp only:)
  then have "chans dvd 5 * (length cs - j)"
    using j(1) by (metis add_diff_cancel_left diff_mult_distrib2 less_imp_le_nat mod_eq_dvd_iff_nat mult_le_mono2 nat_add_left_cancel_le)
  then have "channel_round chans dvd length cs - j" using assms(3) by (intro dvd_round) auto
  then have "channel_round chans \<le> length cs - j" using j(1) by (intro dvd_imp_le) auto
  with s(2) show False by simp
qed

section \<open>Single operations\<close>

context channel_agent
begin

definition km_wf :: "'h km_state \<Rightarrow> nat \<Rightarrow> bool" where
  "km_wf s n \<longleftrightarrow> (case s of (k, m) \<Rightarrow> (\<exists>cs. chain m (km_active_channel k) cs \<and> pending (km_channel_count k) n cs) \<and>
     length (km_buffer k) = 7 \<and> km_buffered k < 7 \<and> km_channel_count k = length (ms_channels m))"

definition km_abs :: "'h km_state \<Rightarrow> 'h" where
  "km_abs s = (case s of (k, m) \<Rightarrow>
     exec_words decode p (take (km_buffered k) (km_buffer k)) (settled_hw m (km_active_channel k)))"

lemma km_wf_count [simp]: "km_wf (km_count f s) n = km_wf s n"
  by (cases s) (simp add: km_wf_def km_count_def)

lemma km_abs_count [simp]: "km_abs (km_count f s) = km_abs s"
  by (cases s) (simp add: km_abs_def km_count_def)

lemma km_wf_E:
  assumes "km_wf (k, m) n"
  obtains cs where "chain m (km_active_channel k) cs" "pending (km_channel_count k) n cs"
    "length (km_buffer k) = 7" "km_buffered k < 7" "km_channel_count k = length (ms_channels m)"
  using assms by (auto simp: km_wf_def)

lemma km_wf_channels: "km_wf s n \<Longrightarrow> 0 < km_channel_count (fst s)"
  using chain_act by (cases s) (fastforce simp: km_wf_def)

text \<open>A flush of a non-empty buffer leaves the batch in the channel.\<close>

lemma flush_sends:
  assumes w: "waits_for_idle poll wait" and ch: "chain m (km_active_channel k) cs"
    and b: "length (km_buffer k) = 7" "0 < km_buffered k" "km_buffered k \<le> 7"
  shows "\<exists>m' cs'. km_flush wait (k, m) =
      Some (k\<lparr>km_buffered := 0, km_stats := st_flushes_update size_t_inc (km_stats k)\<rparr>, m') \<and>
    chain m' (km_active_channel k) cs' \<and> suffix cs' cs \<and> busy m' (km_active_channel k) cs' \<and>
    length (ms_channels m') = length (ms_channels m) \<and>
    settled_hw m' (km_active_channel k) =
      exec_words decode p (take (km_buffered k) (km_buffer k)) (settled_hw m (km_active_channel k)) \<and>
    in_flight m' (km_active_channel k) (take (km_buffered k) (km_buffer k)) (settled_hw m (km_active_channel k))"
proof -
  let ?a = "km_active_channel k" and ?n = "km_buffered k" and ?ws = "take (km_buffered k) (km_buffer k)"
  obtain m1 cs1 where m1: "wait ?a m = Some m1" "chain m1 ?a cs1" "length (ms_channels m1) = length (ms_channels m)"
    "suffix cs1 cs" "ms_hw m1 = settled_hw m ?a"
    using wait_chain [OF w ch] by (auto simp: keeps_def)
  define ch where "ch = ms_channels m1 ! ?a"
  have a: "?a < length (ms_channels m1)" using chain_act [OF m1(2)] .
  have len: "length (ch_data ch) = 7" using m1(2) a ms_wf_data by (auto simp: chain_def ch_def)
  define ch2 where "ch2 = ch_channel_set_access (of_nat ?n) (ch\<lparr>ch_data := ?ws @ drop ?n (ch_data ch)\<rparr>)"
  obtain n where n: "?n = Suc n" "n < 7" using b by (cases "?n") auto
  have len2: "length (ch_data ch2) = 7" "take ?n (ch_data ch2) = ?ws" using b len by (simp_all add: ch2_def)
  have ctl: "ch_control ch2 = request (of_nat (Suc n))" using n by (simp add: ch2_def del: of_nat_Suc)
  have valid: "valid_request (ch_control ch2)" using n(2) ctl unfolding valid_request_def by blast
  note sent = chain_send [OF m1(2) len2(1) valid]
  have "km_flush wait (k, m) =
      Some (k\<lparr>km_buffered := 0, km_stats := st_flushes_update size_t_inc (km_stats k)\<rparr>, set_channel ?a ch2 m1)"
    using b m1(1) a len by (simp add: km_flush_def ch2_def ch_def)
  moreover have "settled_hw (set_channel ?a ch2 m1) ?a = exec_words decode p ?ws (settled_hw m ?a)"
    using sent(2) request_effect_batch [OF n(2) ctl] len2(2) n(1) m1(5) by simp
  moreover have "in_flight (set_channel ?a ch2 m1) ?a ?ws (settled_hw m ?a)"
  proof -
    have lw: "length ?ws = Suc n" using b n by simp
    have "take (Suc n) (ch_data ch2) = ?ws" using len2(2) n(1) by simp
    then show ?thesis using m1(5) a ctl unfolding in_flight_def lw by (simp add: Let_def del: of_nat_Suc)
  qed
  moreover have "busy (set_channel ?a ch2 m1) ?a cs1" using a ctl by (simp add: busy_def del: of_nat_Suc)
  ultimately show ?thesis using sent(1) m1(3,4) by auto
qed

lemma flush_refines:
  assumes "waits_for_idle poll wait" and "km_wf s n"
  shows "\<exists>s'. km_flush wait s = Some s' \<and> km_wf s' n \<and> km_abs s' = km_abs s \<and>
    km_buffered (fst s') = 0 \<and> km_active_channel (fst s') = km_active_channel (fst s) \<and> same_config (fst s) (fst s')"
proof -
  obtain k m where s: "s = (k, m)" by fastforce
  obtain cs where wf: "chain m (km_active_channel k) cs" "pending (km_channel_count k) n cs" "length (km_buffer k) = 7" "km_buffered k < 7"
    "km_channel_count k = length (ms_channels m)" using assms(2) s by (blast elim: km_wf_E)
  show ?thesis
  proof (cases "km_buffered k = 0")
    case True
    then have "km_flush wait s = Some s" by (simp add: km_flush_def s)
    then show ?thesis using assms(2) True s by auto
  next
    case False
    have b: "0 < km_buffered k" "km_buffered k \<le> 7" using False wf(4) by simp_all
    let ?k = "k\<lparr>km_buffered := 0, km_stats := st_flushes_update size_t_inc (km_stats k)\<rparr>"
    obtain m' cs' where m': "km_flush wait (k, m) = Some (?k, m')" "chain m' (km_active_channel k) cs'" "suffix cs' cs"
      "length (ms_channels m') = length (ms_channels m)"
      "settled_hw m' (km_active_channel k) =
         exec_words decode p (take (km_buffered k) (km_buffer k)) (settled_hw m (km_active_channel k))"
      using flush_sends [OF assms(1) wf(1,3) b] by blast
    then have "km_wf (?k, m') n" using wf pending_suffix by (auto simp: km_wf_def)
    then show ?thesis using m' s by (intro exI [of _ "(?k, m')"]) (simp add: km_abs_def)
  qed
qed

lemma internal_access_refines:
  assumes "waits_for_idle poll wait" and "km_wf s n"
  shows "\<exists>s'. km_internal_access wait a s = Some s' \<and> km_wf s' n \<and>
    km_abs s' = hw_exec p (decode a) (km_abs s) \<and> same_config (fst s) (fst s')"
proof -
  obtain k m where s: "s = (k, m)" by fastforce
  obtain cs where wf: "chain m (km_active_channel k) cs" "pending (km_channel_count k) n cs" "length (km_buffer k) = 7" "km_buffered k < 7"
    "km_channel_count k = length (ms_channels m)" using assms(2) s by (blast elim: km_wf_E)
  let ?k = "k\<lparr>km_buffer := (km_buffer k)[km_buffered k := a], km_buffered := km_buffered k + 1\<rparr>"
  have ws: "take (km_buffered ?k) (km_buffer ?k) = take (km_buffered k) (km_buffer k) @ [a]"
    using wf(3,4) by (simp add: take_Suc_conv_app_nth)
  have step: "km_internal_access wait a s = (if km_buffered ?k = 7 then km_flush wait (?k, m) else Some (?k, m))"
    using wf(3,4) by (simp add: km_internal_access_def s)
  show ?thesis
  proof (cases "km_buffered ?k = 7")
    case False
    then have "km_wf (?k, m) n" using wf by (auto simp: km_wf_def)
    moreover have "km_abs (?k, m) = hw_exec p (decode a) (km_abs s)" using ws by (simp add: km_abs_def s del: take_Suc_Cons)
    ultimately show ?thesis using step False s by (metis fst_conv same_config_update(3))
  next
    case True
    let ?k' = "?k\<lparr>km_buffered := 0, km_stats := st_flushes_update size_t_inc (km_stats ?k)\<rparr>"
    have ch: "chain m (km_active_channel ?k) cs" "length (km_buffer ?k) = 7" "0 < km_buffered ?k" "km_buffered ?k \<le> 7"
      using wf by simp_all
    obtain m' cs' where m': "km_flush wait (?k, m) = Some (?k', m')" "chain m' (km_active_channel ?k) cs'" "suffix cs' cs"
      "length (ms_channels m') = length (ms_channels m)"
      "settled_hw m' (km_active_channel ?k) =
         exec_words decode p (take (km_buffered ?k) (km_buffer ?k)) (settled_hw m (km_active_channel ?k))"
      using flush_sends [OF assms(1) ch] by blast
    have "km_abs (?k', m') = hw_exec p (decode a) (km_abs s)"
      using m'(5) ws by (simp add: km_abs_def s)
    moreover have "km_wf (?k', m') n" using m' wf pending_suffix by (auto simp: km_wf_def)
    moreover have "same_config k ?k'" by (simp add: same_config_def)
    ultimately show ?thesis using step True m'(1) s by (metis fst_conv)
  qed
qed

lemma access_refines:
  assumes "waits_for_idle poll wait" and "km_wf s n" and "km_require_address a (fst s) = Some ()"
  shows "\<exists>s'. km_access wait a s = Some s' \<and> km_wf s' n \<and>
    km_abs s' = hw_exec p (decode a) (km_abs s) \<and> same_config (fst s) (fst s')"
proof -
  obtain s' where s': "km_internal_access wait a s = Some s'" "km_wf s' n"
    "km_abs s' = hw_exec p (decode a) (km_abs s)" "same_config (fst s) (fst s')"
    using internal_access_refines [OF assms(1,2)] by blast
  then show ?thesis using assms(3)
    by (intro exI [of _ "km_count (st_accesses_update size_t_inc) s'"]) (simp add: km_access_def)
qed

text \<open>An instrumented access waits for the agent on the channel: no switch is pending afterwards.\<close>

lemma instrumented_access_refines:
  assumes w: "waits_for_idle poll wait" and wf: "km_wf s n" and ok: "km_require_address a (fst s) = Some ()"
    and ld: "is_load (decode a)"
  shows "\<exists>s'. km_instrumented_access wait handler a s =
      Some (handle_pmc handler (hw_pmc p (km_abs s)) (hw_pmc p (hw_exec p (decode a) (km_abs s))), s') \<and>
    km_wf s' 0 \<and> km_abs s' = hw_exec p (decode a) (km_abs s) \<and> same_config (fst s) (fst s')"
proof -
  obtain k m where s: "s = (k, m)" by fastforce
  let ?a = "km_active_channel k" and ?h = "km_abs s"
  let ?h' = "hw_exec p (decode a) ?h"
  obtain cs where k: "chain m ?a cs" "pending (km_channel_count k) n cs" "length (km_buffer k) = 7" "km_buffered k < 7"
    "km_channel_count k = length (ms_channels m)" using wf s by (blast elim: km_wf_E)
  define k0 where "k0 = k\<lparr>km_buffer := (km_buffer k)[km_buffered k := a], km_buffered := km_buffered k + 1\<rparr>"
  let ?ws = "take (km_buffered k0) (km_buffer k0)" and ?hs = "settled_hw m ?a"
  have ws: "?ws = take (km_buffered k) (km_buffer k) @ [a]" using k(3,4) by (simp add: k0_def take_Suc_conv_app_nth)
  have h: "exec_words decode p (butlast ?ws) ?hs = ?h" "exec_words decode p ?ws ?hs = ?h'" "last ?ws = a" "?ws \<noteq> []"
    unfolding ws by (simp_all add: km_abs_def s)
  have k0: "chain m (km_active_channel k0) cs" "length (km_buffer k0) = 7" "0 < km_buffered k0" "km_buffered k0 \<le> 7"
    "km_active_channel k0 = ?a" using k by (simp_all add: k0_def)
  define k1 where "k1 = k0\<lparr>km_buffered := 0, km_stats := st_flushes_update size_t_inc (km_stats k0)\<rparr>"
  obtain m1 cs1 where m1: "km_flush wait (k0, m) = Some (k1, m1)" "chain m1 ?a cs1" "busy m1 ?a cs1"
    "length (ms_channels m1) = length (ms_channels m)" "in_flight m1 ?a ?ws ?hs" "settled_hw m1 ?a = ?h'"
    using flush_sends [OF w k0(1-4)] k0(5) h(2) unfolding k1_def by auto
  obtain m2 cs2 where m2: "wait ?a m1 = Some m2" "chain m2 ?a cs2" "length (ms_channels m2) = length (ms_channels m1)"
    "busy m2 ?a cs2" "ch_control (ms_channels m2 ! ?a) = 0" "ms_hw m2 = ?h'" "in_flight m2 ?a ?ws ?hs"
    using wait_chain [OF w m1(2)] m1(3,5,6) h(4) k0(4) by (auto simp: keeps_def)
  have single: "cs2 = [?a]" using m2(4,5) by (simp add: busy_def)
  obtain rest where rest: "ch_data (ms_channels m2 ! ?a) = put_counters (hw_pmc p ?h) (hw_pmc p ?h') rest"
    using m2(5,7) h ld by (auto simp: in_flight_def Let_def)
  have act: "?a < length (ms_channels m2)" using chain_act [OF m2(2)] .
  have len: "length (ch_data (ms_channels m2 ! ?a)) = 7" using m2(2) act ms_wf_data by (auto simp: chain_def)
  let ?s = "km_count (st_instrumented_accesses_update size_t_inc) (k1, m2)"
  obtain b0 b1 b2 a0 a1 a2 where pmc: "hw_pmc p ?h = (b0, b1, b2)" "hw_pmc p ?h' = (a0, a1, a2)"
    by (metis prod_cases3)
  have data: "ch_data (ms_channels m2 ! ?a) = [b0, b1, b2, a0, a1, a2] @ drop 6 rest"
    using rest pmc by (simp add: put_counters_def)
  have "km_instrumented_access wait handler a s = Some (handle_pmc handler (hw_pmc p ?h) (hw_pmc p ?h'), ?s)"
    using ok s k(3,4) m1(1) m2(1) act len data pmc
    by (simp add: km_instrumented_access_def k0_def k1_def handle_pmc_def vec_at_def)
  moreover have "km_wf ?s 0" using m2(2,3) m1(4) k k0(2) single by (auto simp: km_wf_def km_count_def k1_def k0_def)
  moreover have "km_abs ?s = ?h'" using m2(5,6) by (simp add: km_abs_def km_count_def k1_def k0_def settled_hw_def)
  moreover have "same_config (fst s) (fst ?s)" by (simp add: s k1_def k0_def same_config_def km_count_def)
  ultimately show ?thesis by blast
qed

lemma switch_refines:
  assumes w: "waits_for_idle poll wait" and wf: "km_wf s n" and rnd: "Suc n < channel_round (km_channel_count (fst s))"
  shows "\<exists>s'. km_switch_channel wait s = Some s' \<and> km_wf s' (Suc n) \<and> km_abs s' = km_abs s \<and> same_config (fst s) (fst s')"
proof -
  obtain k1 m1 where f: "km_flush wait s = Some (k1, m1)" "km_wf (k1, m1) n" "km_abs (k1, m1) = km_abs s"
    "km_buffered k1 = 0" "km_active_channel k1 = km_active_channel (fst s)" "same_config (fst s) k1"
    using flush_refines [OF w wf] by (metis prod.exhaust_sel)
  let ?a = "km_active_channel k1" and ?c = "next_channel (km_channel_count k1) (km_active_channel k1)"
  obtain cs1 where k1: "chain m1 ?a cs1" "pending (km_channel_count k1) n cs1" "length (km_buffer k1) = 7"
    "km_channel_count k1 = length (ms_channels m1)"
    using f(2) by (blast elim: km_wf_E)
  obtain m2 cs2 where m2: "wait ?a m1 = Some m2" "chain m2 ?a cs2" "length (ms_channels m2) = length (ms_channels m1)"
    "suffix cs2 cs1" "ms_hw m2 = settled_hw m1 ?a"
    using wait_chain [OF w k1(1)] by (auto simp: keeps_def)
  have act: "?a < length (ms_channels m2)" using chain_act [OF m2(2)] .
  have len: "length (ch_data (ms_channels m2 ! ?a)) = 7" using m2(2) act ms_wf_data by (auto simp: chain_def)
  have "0 < km_channel_count k1" using act k1(4) m2(3) by auto
  then have c: "?c < km_channel_count k1" by (simp add: next_channel_def)
  define ch where "ch = ch_channel_set_access 8 ((ms_channels m2 ! ?a)\<lparr>ch_data := (ch_data (ms_channels m2 ! ?a))[0 := of_nat ?c]\<rparr>)"
  have chp: "length (ch_data ch) = 7" "ch_control ch = request 8" "ch_data ch ! 0 = of_nat ?c" using len by (simp_all add: ch_def)
  have pend: "pending (km_channel_count k1) n cs2" using pending_suffix [OF m2(4) k1(2)] .
  have cs2: "cs2 \<noteq> []" "hd cs2 < km_channel_count k1" "last cs2 = ?a" using m2(2,3) k1(4) by (auto simp: chain_def)
  have "Suc n < channel_round (km_channel_count k1)" using rnd f(6) by (simp add: same_config_def)
  from next_not_pending [OF pend cs2(1,2) this] have fresh: "?c \<notin> set cs2" using cs2(3) by simp
  have cl: "?c < length (ms_channels m2)" using c k1(4) m2(3) by simp
  note sw = chain_switch [OF m2(2) chp cl fresh]
  obtain m4 cs4 where m4: "wait ?c (set_channel ?a ch m2) = Some m4" "chain m4 ?c cs4" "suffix cs4 (cs2 @ [?c])"
    "length (ms_channels m4) = length (ms_channels m2)" "ch_control (ms_channels m4 ! ?c) = 0" "ms_hw m4 = ms_hw m2"
    using wait_chain [OF w sw(1)] sw(2) by (auto simp: keeps_def)
  have pend4: "pending (km_channel_count k1) (Suc n) cs4"
    using pending_suffix [OF m4(3) pending_snoc [OF pend cs2(1)]] cs2(3) by simp
  let ?s = "km_count (st_channel_switches_update size_t_inc) (k1\<lparr>km_active_channel := ?c\<rparr>, m4)"
  have "(km_active_channel (fst s) + 5) mod km_channel_count (fst s) = ?c" "?c < km_channel_count (fst s)"
    using f(5,6) c by (simp_all add: next_channel_def same_config_def)
  then have "km_switch_channel wait s = Some ?s"
    using f(1) m2(1) act len m4(1) by (simp add: km_switch_channel_def km_switch_channel_to_def ch_def)
  moreover have "km_wf ?s (Suc n)" using m4(2,4) m2(3) k1 f(4) pend4 by (auto simp: km_wf_def km_count_def)
  moreover have "km_abs ?s = km_abs s"
    using m4(5,6) m2(5) f(3,4) by (simp add: km_abs_def settled_hw_def km_count_def)
  moreover have "same_config (fst s) (fst ?s)" using f(6) by (simp add: same_config_def km_count_def)
  ultimately show ?thesis by blast
qed

text \<open>A request that stands for one instruction, after a flush.\<close>

lemma special_refines:
  assumes w: "waits_for_idle poll wait" and wf: "km_wf s n" and sp: "special c = Some op"
    and f: "km_flush wait s = Some (k1, m1)" and m2: "wait (km_active_channel k1) m1 = Some m2"
    and s': "s' = (k1, set_channel (km_active_channel k1) (ch_channel_set_access c (ms_channels m2 ! km_active_channel k1)) m2)"
  shows "km_active_channel k1 < length (ms_channels m2)" "km_wf s' n" "km_abs s' = hw_exec p op (km_abs s)" "same_config (fst s) k1"
proof -
  let ?a = "km_active_channel k1"
  have f1: "km_wf (k1, m1) n" "km_abs (k1, m1) = km_abs s" "km_buffered k1 = 0" and cfg: "same_config (fst s) k1"
    using flush_refines [OF w wf] f by auto
  obtain cs1 where k1: "chain m1 ?a cs1" "pending (km_channel_count k1) n cs1" "length (km_buffer k1) = 7"
    "km_channel_count k1 = length (ms_channels m1)"
    using f1(1) by (blast elim: km_wf_E)
  obtain cs2 where c2: "chain m2 ?a cs2" "length (ms_channels m2) = length (ms_channels m1)" "suffix cs2 cs1"
    "ms_hw m2 = settled_hw m1 ?a"
    using wait_chain [OF w k1(1)] m2 by (auto simp: keeps_def)
  show act: "?a < length (ms_channels m2)" and "same_config (fst s) k1" using chain_act [OF c2(1)] cfg by simp_all
  let ?ch = "ch_channel_set_access c (ms_channels m2 ! ?a)"
  have len: "length (ch_data ?ch) = 7" using c2(1) act ms_wf_data by (auto simp: chain_def)
  have valid: "valid_request (ch_control ?ch)" using sp by (auto simp: valid_request_def)
  note sent = chain_send [OF c2(1) len valid]
  show "km_wf s' n" unfolding s' using sent(1) k1 c2(2) f1(3) pending_suffix [OF c2(3) k1(2)] by (auto simp: km_wf_def)
  show "km_abs s' = hw_exec p op (km_abs s)" unfolding s'
    using sent(2) request_effect_special [OF sp, of ?ch] c2(4) f1(2,3) by (simp add: km_abs_def)
qed

text \<open>A flush and a wait bring the processor to the abstract state.\<close>

lemma settle:
  assumes w: "waits_for_idle poll wait" and wf: "km_wf s n"
  shows "\<exists>k1 m1 m2. km_flush wait s = Some (k1, m1) \<and> wait (km_active_channel k1) m1 = Some m2 \<and> ms_hw m2 = km_abs s"
proof -
  obtain k1 m1 where f: "km_flush wait s = Some (k1, m1)" "km_wf (k1, m1) n" "km_abs (k1, m1) = km_abs s"
    "km_buffered k1 = 0"
    using flush_refines [OF w wf] by (metis prod.exhaust_sel)
  then obtain cs1 where "chain m1 (km_active_channel k1) cs1" by (blast elim: km_wf_E)
  with f(1,3,4) wait_chain [OF w this] show ?thesis by (fastforce simp: km_abs_def)
qed

end

section \<open>Programs on x86-64\<close>

text \<open>The operations of an x86 memory, and what they mean without buffer, channel and agent.\<close>

datatype x86_cmd =
  X_access uintptr | X_instrumented_access uintptr | X_clflush uintptr | X_wbinvd | X_flush | X_switch_channel

fun x86_step :: "'h idle_wait \<Rightarrow> pmu_handler \<Rightarrow> x86_cmd \<Rightarrow> 'h km_state \<Rightarrow> (nat list \<times> 'h km_state) option" where
  "x86_step wait handler (X_access a) s = map_option (Pair []) (km_access wait a s)"
| "x86_step wait handler (X_instrumented_access a) s =
     map_option (\<lambda>(r, s'). ([r], s')) (km_instrumented_access wait handler a s)"
| "x86_step wait handler (X_clflush a) s = map_option (Pair []) (km_clflush wait a s)"
| "x86_step wait handler X_wbinvd s = map_option (Pair []) (km_wbinvd wait s)"
| "x86_step wait handler X_flush s = map_option (Pair []) (km_flush wait s)"
| "x86_step wait handler X_switch_channel s = map_option (Pair []) (km_switch_channel wait s)"

fun x86_direct :: "'h processor \<Rightarrow> pmu_handler \<Rightarrow> x86_cmd \<Rightarrow> 'h \<Rightarrow> nat list \<times> 'h" where
  "x86_direct p handler (X_access a) h = ([], hw_exec p (Load a) h)"
| "x86_direct p handler (X_instrumented_access a) h =
     ([handle_pmc handler (hw_pmc p h) (hw_pmc p (hw_exec p (Load a) h))], hw_exec p (Load a) h)"
| "x86_direct p handler (X_clflush a) h = ([], hw_exec p (Clflush a) h)"
| "x86_direct p handler X_wbinvd h = ([], hw_exec p Wbinvd h)"
| "x86_direct p handler X_flush h = ([], h)"
| "x86_direct p handler X_switch_channel h = ([], h)"

text \<open>Programs, for operations that may fail and for operations that may not.\<close>

fun run_cmds :: "('c \<Rightarrow> 's \<Rightarrow> (nat list \<times> 's) option) \<Rightarrow> 'c list \<Rightarrow> 's \<Rightarrow> (nat list \<times> 's) option" where
  "run_cmds step [] s = Some ([], s)"
| "run_cmds step (c # cs) s = do { (r, s1) \<leftarrow> step c s; (rs, s2) \<leftarrow> run_cmds step cs s1; Some (r @ rs, s2) }"

fun run_direct :: "('c \<Rightarrow> 'h \<Rightarrow> nat list \<times> 'h) \<Rightarrow> 'c list \<Rightarrow> 'h \<Rightarrow> nat list \<times> 'h" where
  "run_direct step [] h = ([], h)"
| "run_direct step (c # cs) h = (let (r, h1) = step c h; (rs, h2) = run_direct step cs h1 in (r @ rs, h2))"

text \<open>
  How an operation changes the number of switches since the agent was last seen on the channel of the
  process, and the programs that switch less than \<open>rnd\<close> times in between.
\<close>

datatype pace = Waits | Switches | Keeps

definition pace_after :: "pace \<Rightarrow> nat \<Rightarrow> nat" where
  "pace_after pc n = (case pc of Waits \<Rightarrow> 0 | Switches \<Rightarrow> Suc n | Keeps \<Rightarrow> n)"

fun paced :: "('c \<Rightarrow> pace) \<Rightarrow> nat \<Rightarrow> nat \<Rightarrow> 'c list \<Rightarrow> bool" where
  "paced pace rnd n [] \<longleftrightarrow> True"
| "paced pace rnd n (c # cs) \<longleftrightarrow> (pace c = Switches \<longrightarrow> Suc n < rnd) \<and> paced pace rnd (pace_after (pace c) n) cs"

lemma pace_after_simps [simp]: "pace_after Waits n = 0" "pace_after Switches n = Suc n" "pace_after Keeps n = n"
  by (simp_all add: pace_after_def)

fun x86_pace :: "x86_cmd \<Rightarrow> pace" where
  "x86_pace (X_instrumented_access a) = Waits"
| "x86_pace X_switch_channel = Switches"
| "x86_pace c = Keeps"

text \<open>Kernel addresses have their upper 16 bits set.\<close>

definition kernel_address :: "uintptr \<Rightarrow> bool" where
  "kernel_address a \<longleftrightarrow> drop_bit 48 a = 0xFFFF"

fun x86_valid :: "kernel_memory \<Rightarrow> x86_cmd \<Rightarrow> bool" where
  "x86_valid k (X_access a) \<longleftrightarrow> kernel_address a \<and> ac_check a (km_address_checker k) = Some True"
| "x86_valid k (X_instrumented_access a) \<longleftrightarrow> kernel_address a \<and> ac_check a (km_address_checker k) = Some True"
| "x86_valid k (X_clflush a) \<longleftrightarrow> kernel_address a"
| "x86_valid k _ \<longleftrightarrow> True"

text \<open>A freshly constructed memory: nothing buffered, every channel idle, agent and process on the same channel.\<close>

definition km_fresh :: "kernel_memory \<Rightarrow> 'h machine \<Rightarrow> bool" where
  "km_fresh k m \<longleftrightarrow> ms_wf m \<and> \<not> ms_switching m \<and> (\<forall>ch \<in> set (ms_channels m). ch_control ch = 0) \<and>
     km_active_channel k < length (ms_channels m) \<and> ms_active_channel m = of_nat (km_active_channel k) \<and>
     length (km_buffer k) = 7 \<and> km_buffered k = 0 \<and> km_channel_count k = length (ms_channels m)"

lemma kernel_address_bits: "kernel_address a \<Longrightarrow> 48 \<le> i \<Longrightarrow> i < 64 \<Longrightarrow> bit a i"
proof -
  assume a: "kernel_address a" "48 \<le> i" "i < 64"
  have "(0xFFFF :: uintptr) = mask 16" by (simp add: mask_eq_exp_minus_1)
  then have "drop_bit 48 a = mask 16" using a(1) by (simp add: kernel_address_def)
  then have "bit (drop_bit 48 a) (i - 48)" using a(2,3) by (simp add: bit_mask_iff) arith
  then show ?thesis using a(2) by (simp add: bit_drop_bit_eq)
qed

lemma address_mask_bits: "bit x86_address_mask i \<longleftrightarrow> 48 \<le> i \<and> i < 64"
proof -
  have eq: "x86_address_mask = push_bit 48 (mask 16)" by (simp add: x86_address_mask_def mask_eq_exp_minus_1)
  show ?thesis unfolding eq by (auto simp: bit_push_bit_iff bit_mask_iff)
qed

lemma kernel_address_decode:
  assumes "kernel_address a"
  shows "x86_decode a = Load a" and "x86_decode (a AND 0x7FFFFFFFFFFFFFFF) = Clflush a"
    and "drop_bit 62 a = 3"
proof -
  have or: "a OR x86_address_mask = a" "a AND 0x7FFFFFFFFFFFFFFF OR x86_address_mask = a"
  proof -
    have low: "(0x7FFFFFFFFFFFFFFF :: uintptr) = mask 63" by (simp add: mask_eq_exp_minus_1)
    show "a OR x86_address_mask = a" "a AND 0x7FFFFFFFFFFFFFFF OR x86_address_mask = a"
      unfolding low
      by (rule bit_word_eqI; use kernel_address_bits [OF assms] in \<open>auto simp: bit_or_iff bit_and_iff bit_mask_iff address_mask_bits\<close>)+
  qed
  have sign: "bit a 63" "\<not> bit (a AND 0x7FFFFFFFFFFFFFFF) 63"
    using kernel_address_bits [OF assms, of 63] by (simp_all add: bit_and_iff)
  show "x86_decode a = Load a" "x86_decode (a AND 0x7FFFFFFFFFFFFFFF) = Clflush a"
    using or sign by (simp_all add: x86_decode_def)
  have three: "(3 :: uintptr) = mask 2" by (simp add: mask_eq_exp_minus_1)
  show "drop_bit 62 a = 3" unfolding three
    by (rule bit_word_eqI) (use kernel_address_bits [OF assms] in \<open>auto simp: bit_drop_bit_eq bit_mask_iff dest: bit_imp_le_length\<close>)
qed


lemma kernel_address_required:
  "kernel_address a \<Longrightarrow> ac_check a (km_address_checker k) = Some True \<Longrightarrow> km_require_address a k = Some ()"
  using kernel_address_decode(3) [of a] by (simp add: km_require_address_def)

lemma x86_valid_config: "same_config k k' \<Longrightarrow> x86_valid k' c = x86_valid k c"
  by (cases c) (simp_all add: same_config_def)

context channel_agent
begin

lemma fresh_wf:
  assumes "km_fresh k m"
  shows "km_wf (k, m) 0" and "km_abs (k, m) = ms_hw m"
proof -
  have ctl: "ch_control (ms_channels m ! c) = 0" if "c < length (ms_channels m)" for c
    using assms that by (auto simp: km_fresh_def)
  then have "chain m (km_active_channel k) [km_active_channel k]" using assms
    by (auto simp: km_fresh_def chain_def links_def valid_request_def)
  then show "km_wf (k, m) 0" using assms by (auto simp: km_wf_def km_fresh_def)
  show "km_abs (k, m) = ms_hw m" using assms ctl by (simp add: km_abs_def km_fresh_def settled_hw_def)
qed

text \<open>Refinement of single operations gives refinement of programs that keep the pace.\<close>

lemma run_refines:
  assumes step: "\<And>c s n. km_wf s n \<Longrightarrow> valid (fst s) c \<Longrightarrow>
      (pace c = Switches \<longrightarrow> Suc n < channel_round (km_channel_count (fst s))) \<Longrightarrow>
      \<exists>s'. cstep c s = Some (fst (direct c (km_abs s)), s') \<and> km_wf s' (pace_after (pace c) n) \<and>
        km_abs s' = snd (direct c (km_abs s)) \<and> same_config (fst s) (fst s')"
    and config: "\<And>k k' c. same_config k k' \<Longrightarrow> valid k' c = valid k c"
    and wf: "km_wf s n" and ok: "list_all (valid (fst s)) prog" and pc: "paced pace (channel_round (km_channel_count (fst s))) n prog"
  shows "\<exists>s' n'. run_cmds cstep prog s = Some (fst (run_direct direct prog (km_abs s)), s') \<and> km_wf s' n' \<and>
    km_abs s' = snd (run_direct direct prog (km_abs s))"
  using wf ok pc
proof (induction prog arbitrary: s n)
  case (Cons c prog)
  let ?h = "km_abs s"
  have now: "pace c = Switches \<longrightarrow> Suc n < channel_round (km_channel_count (fst s))"
    "paced pace (channel_round (km_channel_count (fst s))) (pace_after (pace c) n) prog" using Cons.prems(3) by simp_all
  obtain s1 where s1: "cstep c s = Some (fst (direct c ?h), s1)" "km_wf s1 (pace_after (pace c) n)"
    "km_abs s1 = snd (direct c ?h)" "same_config (fst s) (fst s1)"
    using step [OF Cons.prems(1) _ now(1)] Cons.prems(2) by (auto simp del: split_paired_Ex)
  have "list_all (valid (fst s1)) prog" using Cons.prems(2) config [OF s1(4)] by (simp add: list_all_iff)
  moreover have "paced pace (channel_round (km_channel_count (fst s1))) (pace_after (pace c) n) prog"
    using now(2) s1(4) by (simp add: same_config_def)
  ultimately obtain s2 n2 where
    "run_cmds cstep prog s1 = Some (fst (run_direct direct prog (km_abs s1)), s2)" "km_wf s2 n2"
    "km_abs s2 = snd (run_direct direct prog (km_abs s1))" using Cons.IH [OF s1(2)] by blast
  then show ?case using s1(1,3) by (intro exI [of _ s2] exI [of _ n2]) (simp add: Let_def split_beta)
qed auto

end

lemma wbinvd_refines:
  assumes w: "waits_for_idle (x86_agent_poll p) wait" and wf: "x86.km_wf s n"
  shows "\<exists>s'. km_wbinvd wait s = Some s' \<and> x86.km_wf s' n \<and>
    x86.km_abs p s' = hw_exec p Wbinvd (x86.km_abs p s) \<and> same_config (fst s) (fst s')"
proof -
  obtain k1 m1 m2 where f: "km_flush wait s = Some (k1, m1)" "wait (km_active_channel k1) m1 = Some m2"
    using x86.settle [OF w wf] by blast
  have sp: "x86_special 16 = Some Wbinvd" by (simp add: x86_special_def)
  define s1 where "s1 = (k1, set_channel (km_active_channel k1) (ch_channel_set_access 16 (ms_channels m2 ! km_active_channel k1)) m2)"
  note sr = x86.special_refines [OF w wf sp f s1_def]
  have "km_wbinvd wait s = Some (km_count (st_wbinvds_update size_t_inc) s1)"
    using f sr(1) by (simp add: km_wbinvd_def s1_def)
  then show ?thesis using sr by (intro exI [of _ "km_count (st_wbinvds_update size_t_inc) s1"]) (simp add: s1_def)
qed

lemma clflush_refines:
  assumes w: "waits_for_idle (x86_agent_poll p) wait" and wf: "x86.km_wf s n" and a: "kernel_address a"
  shows "\<exists>s'. km_clflush wait a s = Some s' \<and> x86.km_wf s' n \<and>
    x86.km_abs p s' = hw_exec p (Clflush a) (x86.km_abs p s) \<and> same_config (fst s) (fst s')"
proof -
  obtain s' where s': "km_internal_access wait (a AND 0x7FFFFFFFFFFFFFFF) s = Some s'" "x86.km_wf s' n"
    "x86.km_abs p s' = hw_exec p (x86_decode (a AND 0x7FFFFFFFFFFFFFFF)) (x86.km_abs p s)" "same_config (fst s) (fst s')"
    using x86.internal_access_refines [OF w wf] by blast
  then show ?thesis using kernel_address_decode(2) [OF a]
    by (intro exI [of _ "km_count (st_clflushes_update size_t_inc) s'"]) (simp add: km_clflush_def)
qed

lemma x86_step_refines:
  assumes w: "waits_for_idle (x86_agent_poll p) wait" and wf: "x86.km_wf s n" and ok: "x86_valid (fst s) c"
    and pc: "x86_pace c = Switches \<longrightarrow> Suc n < channel_round (km_channel_count (fst s))"
  shows "\<exists>s'. x86_step wait handler c s = Some (fst (x86_direct p handler c (x86.km_abs p s)), s') \<and>
    x86.km_wf s' (pace_after (x86_pace c) n) \<and> x86.km_abs p s' = snd (x86_direct p handler c (x86.km_abs p s)) \<and>
    same_config (fst s) (fst s')"
proof (cases c)
  case (X_access a)
  then have "kernel_address a" "km_require_address a (fst s) = Some ()" using ok kernel_address_required by auto
  then show ?thesis using x86.access_refines [OF w wf, of a] kernel_address_decode(1) [of a] X_access by fastforce
next
  case (X_instrumented_access a)
  then have a: "kernel_address a" "km_require_address a (fst s) = Some ()" using ok kernel_address_required by auto
  then have "is_load (x86_decode a)" using kernel_address_decode(1) by (simp add: is_load_def)
  from x86.instrumented_access_refines [OF w wf a(2) this, of handler] show ?thesis
    using kernel_address_decode(1) [OF a(1)] X_instrumented_access by fastforce
next
  case (X_clflush a)
  then show ?thesis using clflush_refines [OF w wf, of a] ok by fastforce
next
  case X_wbinvd
  then show ?thesis using wbinvd_refines [OF w wf] by fastforce
next
  case X_flush
  then show ?thesis using x86.flush_refines [OF w wf] by fastforce
next
  case X_switch_channel
  then show ?thesis using x86.switch_refines [OF w wf] pc by fastforce
qed


text \<open>A processor that records its accesses and counts those to a line it has not seen.\<close>

definition recording_processor :: "(hw_op list) processor" where
  "recording_processor = \<lparr>hw_exec = (\<lambda>op h. h @ [op]), hw_pmc = (\<lambda>h. (of_nat (length (remdups h)), 0, 0))\<rparr>"

definition two_channels :: "'h \<Rightarrow> 'h machine" where
  "two_channels h = \<lparr>ms_channels = replicate 2 \<lparr>ch_control = 0, ch_data = replicate 7 0\<rparr>, ms_active_channel = 0,
     ms_switching = False, ms_exited = False, ms_hw = h\<rparr>"

definition small_kernel_memory :: kernel_memory where
  "small_kernel_memory = \<lparr>km_active_channel = 0, km_channel_count = 2, km_regions = [],
     km_buffer = replicate 7 0, km_buffered = 0,
     km_address_checker = \<lparr>ac_regions = [(0xFFFF800000000000, 0x1000)]\<rparr>, km_stats = no_stats,
     km_cache_info = \<lparr>ci_levels = 1, ci_offset_bits = 6, ci_sets = [64], ci_ways = [8]\<rparr>\<rparr>"

lemma small_kernel_memory_fresh: "km_fresh small_kernel_memory (two_channels h)"
  by (simp add: km_fresh_def small_kernel_memory_def two_channels_def ms_wf_def)

lemma small_round: "channel_round 2 = 2"
proof -
  have "coprime (5 :: nat) 2" by (simp add: coprime_iff_gcd_eq_1 gcd_nat.simps)
  then show ?thesis by (simp add: channel_round_def)
qed


text \<open>
  Without the condition the agent can be led astray: after two switches on two channels the process is back on the
  first one, which the agent has given back but not read yet. The address of the access takes the place of the
  channel number, and the agent polls outside its channels.
\<close>

lemma eager_wait_step:
  "ch_idle (ms_channels m ! i) \<Longrightarrow> eager_wait poll i m = Some m"
  "\<not> ch_idle (ms_channels m ! i) \<Longrightarrow> eager_wait poll i m = do { m' \<leftarrow> poll m; eager_wait poll i m' }"
  by (simp_all add: eager_wait.simps [of poll i m])

lemma unpaced_switches_fail:
  "run_cmds (x86_step (eager_wait (x86_agent_poll recording_processor)) handler)
     [X_switch_channel, X_switch_channel, X_instrumented_access 0xFFFF800000000040] (small_kernel_memory, two_channels []) = None"
proof -
  let ?p = "x86_agent_poll recording_processor"
  let ?ch = "\<lambda>c (n :: uintptr). \<lparr>ch_control = c, ch_data = [n, 0, 0, 0, 0, 0, 0]\<rparr>"
  define ms where "ms c0 n0 c1 n1 a sw = \<lparr>ms_channels = [?ch c0 n0, ?ch c1 n1], ms_active_channel = a, ms_switching = sw,
    ms_exited = False, ms_hw = [] :: hw_op list\<rparr>" for c0 n0 c1 n1 a sw
  define km where "km a n = small_kernel_memory\<lparr>km_active_channel := a, km_stats := no_stats\<lparr>st_channel_switches := n\<rparr>\<rparr>" for a n
  have rep: "replicate 7 0 = [0, 0, 0, 0, 0, 0, 0 :: uintptr]" "replicate 2 x = [x, x]" for x :: ch_channel
    by (simp_all add: numeral_eq_Suc)
  have idle: "ch_idle \<lparr>ch_control = 0, ch_data = d\<rparr>" "\<not> ch_idle \<lparr>ch_control = 17, ch_data = d\<rparr>" for d
    by (simp_all add: ch_idle_iff)
  have req: "ch_channel_set_access 8 ch = ch\<lparr>ch_control := 17\<rparr>" for ch
    by (simp add: ch_channel_set_access_def ch_channel_write_control_def CH_CHANNEL_ACCESS_def)
  have eager: "ch_idle (ms_channels m ! i) \<Longrightarrow> eager_wait ?p i m = Some m"
    "\<not> ch_idle (ms_channels m ! i) \<Longrightarrow> ?p m = Some m' \<Longrightarrow> eager_wait ?p i m = eager_wait ?p i m'" for m m' i
    by (simp_all add: eager_wait.simps [of ?p i m])
  have start: "(small_kernel_memory, two_channels []) = (km 0 0, ms 0 0 0 0 0 False)"
    by (simp add: km_def ms_def small_kernel_memory_def two_channels_def rep no_stats_def)
  have switch1: "km_switch_channel (eager_wait ?p) (km 0 0, ms 0 0 0 0 0 False) = Some (km 1 1, ms 17 1 0 0 0 False)"
    by (simp add: km_switch_channel_def km_switch_channel_to_def km_flush_def km_def small_kernel_memory_def ms_def
      eager idle req km_count_def set_channel_def vec_at_def vec_set_def size_t_inc_def no_stats_def)
  have poll: "?p (ms 17 1 17 0 0 False) = Some (ms 0 1 17 0 0 True)" "?p (ms 3 a 17 0 0 True) = Some (ms 3 a 17 0 a False)" for a
    by (simp_all add: x86_agent_poll_def x86_channel_index_def ms_def vec_at_def set_channel_def Let_def)
  have switch2: "km_switch_channel (eager_wait ?p) (km 1 1, ms 17 1 0 0 0 False) = Some (km 0 2, ms 0 1 17 0 0 True)"
  proof -
    have "eager_wait ?p 0 (ms 17 1 17 0 0 False) = Some (ms 0 1 17 0 0 True)"
      using eager(2) [OF _ poll(1), of 0] eager(1) [of "ms 0 1 17 0 0 True" 0] idle by (simp add: ms_def)
    then show ?thesis
      by (simp add: km_switch_channel_def km_switch_channel_to_def km_flush_def km_def small_kernel_memory_def ms_def
        eager idle req km_count_def set_channel_def vec_at_def vec_set_def size_t_inc_def no_stats_def)
  qed
  have lost: "eager_wait ?p 0 (ms 3 0xFFFF800000000040 17 0 0 True) = None"
  proof -
    let ?m = "ms 3 0xFFFF800000000040 17 0 0xFFFF800000000040 False"
    have "?p ?m = None"
      by (simp add: x86_agent_poll_def x86_channel_index_def ms_def vec_at_def Let_def)
    moreover have "\<not> ch_idle (ms_channels ?m ! 0)" "\<not> ch_idle (ms_channels (ms 3 0xFFFF800000000040 17 0 0 True) ! 0)"
      by (simp_all add: ms_def ch_idle_iff)
    ultimately show ?thesis using eager(2) [OF _ poll(2) [of "0xFFFF800000000040"], of 0] eager_wait.simps [of ?p 0 ?m]
      by (simp only: if_False bind.simps simp_thms)
  qed
  have flush: "km_flush (eager_wait ?p) (k, ms 0 1 17 0 0 True) =
      Some (k\<lparr>km_buffered := 0, km_stats := st_flushes_update size_t_inc (km_stats k)\<rparr>, ms 3 (hd (km_buffer k)) 17 0 0 True)"
    if "km_buffered k = 1" "km_active_channel k = 0" "km_buffer k \<noteq> []" for k
    using that by (simp add: km_flush_def ms_def eager idle vec_at_def set_channel_def ch_channel_set_access_def
      ch_channel_write_control_def CH_CHANNEL_ACCESS_def take_Suc Suc_le_eq)
  have "km_instrumented_access (eager_wait ?p) handler 0xFFFF800000000040 (km 0 2, ms 0 1 17 0 0 True) = None"
    using lost by (simp add: km_instrumented_access_def vec_set_def flush km_def small_kernel_memory_def rep bind_eq_None_conv)
  then show ?thesis unfolding start by (simp add: switch1 [simplified] switch2 [simplified])
qed

end
