(* ===== verification/CH_Kernel_Arm.thy ===== *)
theory CH_Kernel_Arm
  imports CH_Kernel_Refinement
begin

text \<open>
  The kernel memory on ARMv8: the operand word of the maintenance instructions by set and way can be read back
  by the processor and by the agent, programs on the memory refine programs on the processor, and the
  number of index bits is that of the next power of two.
\<close>

section \<open>The operand of the maintenance instructions\<close>

text \<open>The fields of the operand as the architecture reads them.\<close>

definition dc_level :: "uintptr \<Rightarrow> nat" where
  "dc_level w = unat (take_bit 3 (drop_bit 1 w))"

definition dc_set :: "nat \<Rightarrow> nat \<Rightarrow> uintptr \<Rightarrow> nat" where
  "dc_set way_bits offset_bits w = unat (take_bit (32 - way_bits - offset_bits) (drop_bit offset_bits w))"

definition dc_way :: "nat \<Rightarrow> uintptr \<Rightarrow> nat" where
  "dc_way way_bits w = unat (take_bit way_bits (drop_bit (32 - way_bits) w))"

definition dc_op :: "bool \<Rightarrow> bool \<Rightarrow> uintptr \<Rightarrow> hw_op" where
  "dc_op clean invalidate w = (if clean then if invalidate then Cisw w else Csw w else Isw w)"

text \<open>Level, set and way fit into their fields.\<close>

definition cisw_fits :: "nat \<Rightarrow> nat \<Rightarrow> nat \<Rightarrow> nat \<Rightarrow> nat \<Rightarrow> bool" where
  "cisw_fits level set_index way way_bits offset_bits \<longleftrightarrow>
     0 < way_bits \<and> 4 \<le> offset_bits \<and> offset_bits + way_bits \<le> 32 \<and> offset_bits < 32 \<and>
     level < 8 \<and> way < 2 ^ way_bits \<and> set_index < 2 ^ (32 - way_bits - offset_bits)"

lemma nat_bit_bound: "n < 2 ^ k \<Longrightarrow> bit (n :: nat) i \<Longrightarrow> i < k"
  by (metis bit_take_bit_iff take_bit_nat_eq_self)

lemma cisw_word_bits:
  assumes "cisw_fits level set_index way way_bits offset_bits"
    and "cisw_word clean invalidate level set_index way way_bits offset_bits = Some w"
  shows "bit w i \<longleftrightarrow>
    (i < 32 \<and> ((1 \<le> i \<and> bit level (i - 1)) \<or> (32 - way_bits \<le> i \<and> bit way (i - (32 - way_bits))) \<or>
       (offset_bits \<le> i \<and> bit set_index (i - offset_bits)))) \<or> (i = 63 \<and> \<not> clean) \<or> (i = 62 \<and> \<not> invalidate)"
proof -
  have w: "w = ((ucast ((push_bit 1 (of_nat level) OR push_bit (32 - way_bits) (of_nat way)) OR
      push_bit offset_bits (of_nat set_index) :: 32 word) OR push_bit 63 (of_bool (\<not> clean))) OR push_bit 62 (of_bool (\<not> invalidate)))"
    using assms by (auto simp: cisw_word_def cisw_fits_def Let_def bind_eq_Some_conv require_def split: if_splits)
  have low: "bit ((push_bit 1 (of_nat level) OR push_bit (32 - way_bits) (of_nat way)) OR
      push_bit offset_bits (of_nat set_index) :: 32 word) i \<longleftrightarrow> i < 32 \<and> ((1 \<le> i \<and> bit level (i - 1)) \<or>
      (32 - way_bits \<le> i \<and> bit way (i - (32 - way_bits))) \<or> (offset_bits \<le> i \<and> bit set_index (i - offset_bits)))"
    unfolding bit_or_iff bit_push_bit_iff bit_of_nat_iff by auto
  have top: "bit (push_bit n (of_bool b) :: uintptr) i \<longleftrightarrow> i = n \<and> b" if "n < 64" for n b
    using that by (cases b) (auto simp: bit_exp_iff)
  show ?thesis unfolding w bit_or_iff [where 'a = "64 word"] bit_unsigned_iff low
    using top [of 63 "\<not> clean"] top [of 62 "\<not> invalidate"] by auto
qed

lemma unat_field:
  assumes "\<And>i. i < 64 \<Longrightarrow> bit (v :: uintptr) i \<longleftrightarrow> bit n i" and "n < 2 ^ 32"
  shows "unat v = n"
proof -
  have "v = of_nat n" by (rule bit_word_eqI) (use assms(1) in \<open>simp add: bit_of_nat_iff\<close>)
  then show ?thesis using assms(2) by (simp add: unat_of_nat)
qed

lemma cisw_word_fields:
  assumes "cisw_fits level set_index way way_bits offset_bits"
    and w: "cisw_word clean invalidate level set_index way way_bits offset_bits = Some w"
  shows "dc_level w = level" and "dc_way way_bits w = way" and "dc_set way_bits offset_bits w = set_index"
proof -
  have f: "0 < way_bits" "4 \<le> offset_bits" "offset_bits + way_bits \<le> 32" "offset_bits < 32"
    "level < 8" "way < 2 ^ way_bits" "set_index < 2 ^ (32 - way_bits - offset_bits)"
    using assms(1) unfolding cisw_fits_def by blast+
  note bits = cisw_word_bits [OF assms]
  have lb: "i < 3" if "bit level i" for i using nat_bit_bound [of level 3 i] f(5) that by simp
  have wb: "i < way_bits" if "bit way i" for i using nat_bit_bound [OF f(6) that] .
  have sb: "i < 32 - way_bits - offset_bits" if "bit set_index i" for i using nat_bit_bound [OF f(7) that] .
  show "dc_level w = level" unfolding dc_level_def
  proof (rule unat_field)
    show "level < 2 ^ 32" using f by simp
    fix i :: nat assume "i < 64"
    have "\<not> 32 - way_bits \<le> 1 + i" "\<not> offset_bits \<le> 1 + i" if "i < 3" using f(2,3) that by auto
    then show "bit (take_bit 3 (drop_bit 1 w)) i \<longleftrightarrow> bit level i"
      unfolding bit_take_bit_iff bit_drop_bit_eq comp_def bits using lb [of i] by auto
  qed
  show "dc_way way_bits w = way" unfolding dc_way_def
  proof (rule unat_field)
    have "(2::nat) ^ way_bits \<le> 2 ^ 32" using f by (intro power_increasing) auto
    then show "way < 2 ^ 32" using f(6) by linarith
    fix i :: nat assume "i < 64"
    have "\<not> bit level (32 - way_bits + i - 1)" using lb [of "32 - way_bits + i - 1"] f(2,3) by auto
    moreover have "\<not> bit set_index (32 - way_bits + i - offset_bits)"
      using sb [of "32 - way_bits + i - offset_bits"] f(2,3) by auto
    moreover have "32 - way_bits + i < 32" if "i < way_bits" using f(3) that by auto
    ultimately show "bit (take_bit way_bits (drop_bit (32 - way_bits) w)) i \<longleftrightarrow> bit way i"
      unfolding bit_take_bit_iff bit_drop_bit_eq comp_def bits using wb [of i] by auto
  qed
  show "dc_set way_bits offset_bits w = set_index" unfolding dc_set_def
  proof (rule unat_field)
    have "(2::nat) ^ (32 - way_bits - offset_bits) \<le> 2 ^ 32" by (intro power_increasing) auto
    then show "set_index < 2 ^ 32" using f(7) by linarith
    fix i :: nat assume "i < 64"
    have "\<not> bit level (offset_bits + i - 1)" using lb [of "offset_bits + i - 1"] f(2) by auto
    moreover have "offset_bits + i < 32" "\<not> 32 - way_bits \<le> offset_bits + i" if "i < 32 - way_bits - offset_bits"
      using f(3) that by auto
    ultimately show "bit (take_bit (32 - way_bits - offset_bits) (drop_bit offset_bits w)) i \<longleftrightarrow> bit set_index i"
      unfolding bit_take_bit_iff bit_drop_bit_eq comp_def bits using sb [of i] by auto
  qed
qed

lemma cisw_word_decode:
  assumes "cisw_fits level set_index way way_bits offset_bits" and "clean \<or> invalidate"
    and "cisw_word clean invalidate level set_index way way_bits offset_bits = Some w"
  shows "arm_decode w = dc_op clean invalidate w"
proof -
  have "drop_bit 62 w = (if clean then 0 else 2) OR (if invalidate then 0 else 1)"
  proof (rule bit_word_eqI)
    fix i :: nat
    have "bit ((if clean then 0 else 2) OR (if invalidate then 0 else 1) :: uintptr) i \<longleftrightarrow>
        (i = 1 \<and> \<not> clean) \<or> (i = 0 \<and> \<not> invalidate)"
      using bit_exp_iff [of 1 i, where 'a = "64 word"] by (auto simp: bit_or_iff bit_1_iff)
    then show "bit (drop_bit 62 w) i \<longleftrightarrow> bit ((if clean then 0 else 2) OR (if invalidate then 0 else 1) :: uintptr) i"
      unfolding bit_drop_bit_eq comp_def cisw_word_bits [OF assms(1,3)] by auto
  qed
  then show ?thesis using assms(2) by (auto simp: arm_decode_def dc_op_def)
qed

text \<open>
  C35. The operand of a cache maintenance instruction by set and way carries its fields: when level, set and way
  fit, the agent selects the instruction that was asked for, and the level, the set and the way the
  processor reads from the operand are the ones it was built from.
\<close>

theorem cisw_word_roundtrip:
  assumes "cisw_fits level set_index way way_bits offset_bits" and "clean \<or> invalidate"
  shows "\<exists>w. cisw_word clean invalidate level set_index way way_bits offset_bits = Some w \<and>
    arm_decode w = dc_op clean invalidate w \<and> dc_level w = level \<and>
    dc_set way_bits offset_bits w = set_index \<and> dc_way way_bits w = way"
proof -
  obtain w where w: "cisw_word clean invalidate level set_index way way_bits offset_bits = Some w"
    using assms(1) by (auto simp: cisw_word_def cisw_fits_def Let_def)
  with cisw_word_fields [OF assms(1) w] cisw_word_decode [OF assms w] show ?thesis by blast
qed

theorem cisw_word_roundtrip_witness:
  "cisw_fits 1 300 5 4 6 \<and> (\<exists>w. cisw_word True False 1 300 5 4 6 = Some w \<and> arm_decode w = Csw w \<and>
     dc_level w = 1 \<and> dc_set 4 6 w = 300 \<and> dc_way 4 w = 5)"
proof -
  have "cisw_fits 1 300 5 4 6" by (simp add: cisw_fits_def)
  then show ?thesis using cisw_word_roundtrip [of 1 300 5 4 6 True False] by (simp add: dc_op_def)
qed

section \<open>Index bits\<close>

text \<open>Or-ing a word with itself shifted doubles the window each bit looks at.\<close>

lemma smear_step:
  assumes "\<And>i. bit s i \<longleftrightarrow> (\<exists>j. i \<le> j \<and> j < i + n \<and> bit x j)"
  shows "bit (s OR drop_bit n s :: 32 word) i \<longleftrightarrow> (\<exists>j. i \<le> j \<and> j < i + 2 * n \<and> bit x j)"
proof -
  have "bit (s OR drop_bit n s) i \<longleftrightarrow> (\<exists>j. i \<le> j \<and> j < i + n \<and> bit x j) \<or> (\<exists>j. n + i \<le> j \<and> j < n + i + n \<and> bit x j)"
    by (simp add: bit_or_iff bit_drop_bit_eq assms)
  also have "\<dots> \<longleftrightarrow> (\<exists>j. i \<le> j \<and> j < i + 2 * n \<and> bit x j)"
  proof (intro iffI; elim disjE exE conjE)
    fix j assume "i \<le> j" "j < i + 2 * n" "bit x j"
    then show "(\<exists>j. i \<le> j \<and> j < i + n \<and> bit x j) \<or> (\<exists>j. n + i \<le> j \<and> j < n + i + n \<and> bit x j)"
      by (cases "j < i + n") auto
  next
    fix j assume "n + i \<le> j" "j < n + i + n" "bit x j"
    then show "\<exists>j. i \<le> j \<and> j < i + 2 * n \<and> bit x j" by (intro exI [of _ j]) simp
  qed auto
  finally show ?thesis .
qed

definition smear :: "32 word \<Rightarrow> 32 word" where
  "smear x = (let s = x; s = s OR drop_bit 1 s; s = s OR drop_bit 2 s; s = s OR drop_bit 4 s;
     s = s OR drop_bit 8 s in s OR drop_bit 16 s)"

lemma bit_smear: "bit (smear x) i \<longleftrightarrow> (\<exists>j. i \<le> j \<and> bit x j)"
proof -
  define s0 where "s0 = x"
  define s1 where "s1 = s0 OR drop_bit 1 s0"
  define s2 where "s2 = s1 OR drop_bit 2 s1"
  define s3 where "s3 = s2 OR drop_bit 4 s2"
  define s4 where "s4 = s3 OR drop_bit 8 s3"
  have 0: "bit s0 i \<longleftrightarrow> (\<exists>j. i \<le> j \<and> j < i + 1 \<and> bit x j)" for i
    unfolding s0_def by (auto simp: less_Suc_eq_le dest: le_antisym)
  have 1: "bit s1 i \<longleftrightarrow> (\<exists>j. i \<le> j \<and> j < i + 2 \<and> bit x j)" for i
    unfolding s1_def using smear_step [OF 0] by simp
  have 2: "bit s2 i \<longleftrightarrow> (\<exists>j. i \<le> j \<and> j < i + 4 \<and> bit x j)" for i
    unfolding s2_def using smear_step [OF 1] by simp
  have 3: "bit s3 i \<longleftrightarrow> (\<exists>j. i \<le> j \<and> j < i + 8 \<and> bit x j)" for i
    unfolding s3_def using smear_step [OF 2] by simp
  have 4: "bit s4 i \<longleftrightarrow> (\<exists>j. i \<le> j \<and> j < i + 16 \<and> bit x j)" for i
    unfolding s4_def using smear_step [OF 3] by simp
  have "bit (s4 OR drop_bit 16 s4) i \<longleftrightarrow> (\<exists>j. i \<le> j \<and> j < i + 32 \<and> bit x j)"
    using smear_step [OF 4] by simp
  also have "\<dots> \<longleftrightarrow> (\<exists>j. i \<le> j \<and> bit x j)"
    using bit_imp_le_length [of x] by fastforce
  finally show ?thesis by (simp add: smear_def Let_def s0_def s1_def s2_def s3_def s4_def)
qed


lemma smear_mask:
  assumes "x \<noteq> 0"
  shows "\<exists>n. n < 32 \<and> smear x = mask (Suc n) \<and> 2 ^ n \<le> unat x \<and> unat x < 2 ^ Suc n"
proof -
  have ex: "\<exists>j. bit x j" using assms bit_word_eqI [of x 0] by auto
  let ?n = "Max {j. bit x j}"
  have fin: "finite {j. bit x j}" by (rule finite_subset [of _ "{..<32}"]) (auto dest: bit_imp_le_length)
  have n: "bit x ?n" "\<And>j. bit x j \<Longrightarrow> j \<le> ?n" using Max_in [OF fin] Max_ge [OF fin] ex by auto
  have n32: "?n < 32" using bit_imp_le_length [OF n(1)] by simp
  have "smear x = mask (Suc ?n)"
    by (rule bit_word_eqI) (use n in \<open>auto simp: bit_smear bit_mask_iff less_Suc_eq_le intro: le_trans\<close>)
  moreover have "take_bit (Suc ?n) (unat x) = unat x"
    by (rule bit_eqI) (use n(2) in \<open>auto simp: bit_take_bit_iff bit_unsigned_iff less_Suc_eq_le\<close>)
  then have "unat x < 2 ^ Suc ?n" by (simp only: take_bit_nat_eq_self_iff)
  moreover have "bit (unat x) ?n" using n(1) by (simp add: bit_unsigned_iff)
  then have "2 ^ ?n \<le> unat x" by (metis bit_take_bit_iff less_irrefl not_less take_bit_nat_eq_self)
  ultimately show ?thesis using n32 by blast
qed

lemma power_test_unat: "w AND (w - 1) = 0 \<longleftrightarrow> is_power_of_two (unat w)" if "w \<noteq> 0" for w :: "32 word"
proof -
  have "unat (w - 1) = unat w - 1" using that by (metis unat_minus_one)
  then have "unat (w AND (w - 1)) = unat w AND (unat w - 1)" by (simp add: unsigned_and_eq)
  then show ?thesis using that by (metis is_power_of_two_def unat_eq_zero)
qed

text \<open>
  For up to \<open>2 ^ 31\<close> sets the number of index bits of the kernel memory is the number of bits of the next power
  of two: the sets can be numbered with that many bits, and not with one bit less.
\<close>

theorem round_up_sets_next_power:
  assumes "sets \<noteq> 0" and "unat sets \<le> 2 ^ 31"
  shows "unat sets \<le> 2 ^ countr_zero32 (round_up_sets sets) \<and> 2 ^ countr_zero32 (round_up_sets sets) < 2 * unat sets"
proof (cases "sets AND (sets - 1) = 0")
  case True
  then obtain k where "unat sets = 2 ^ k" "countr_zero (unat sets) = k"
    using power_test_unat [OF assms(1)] is_power_of_twoE by metis
  then show ?thesis using True assms(1) by (simp add: round_up_sets_def countr_zero32_def)
next
  case False
  then have "sets \<noteq> 1" by auto
  then have "sets - 1 \<noteq> 0" by simp
  have pred: "unat (sets - 1) = unat sets - 1" "1 < unat sets"
    using assms(1) \<open>sets \<noteq> 1\<close> by (metis unat_minus_one, metis less_one linorder_neqE_nat unat_1 unat_eq_zero word_unat_eq_iff)
  obtain n where n: "n < 32" "smear (sets - 1) = mask (Suc n)" "2 ^ n \<le> unat (sets - 1)" "unat (sets - 1) < 2 ^ Suc n"
    using smear_mask [OF \<open>sets - 1 \<noteq> 0\<close>] by blast
  have "(2::nat) ^ n < 2 ^ 31" using n(3) pred assms(2) by linarith
  then have "n < 31" by (rule power_less_imp_less_exp [rotated]) simp
  then have n31: "Suc n < 32" by simp
  have "round_up_sets sets = mask (Suc n) + 1"
    using False n(2) by (simp add: round_up_sets_def smear_def Let_def)
  also have "\<dots> = of_nat (2 ^ Suc n)" by (simp add: mask_eq_exp_minus_1)
  finally have eq: "round_up_sets sets = of_nat (2 ^ Suc n)" .
  have "(2::nat) ^ Suc n < 2 ^ 32" using n31 by (intro power_strict_increasing) auto
  then have r: "unat (round_up_sets sets) = 2 ^ Suc n" unfolding eq unat_of_nat by simp
  then have "round_up_sets sets \<noteq> 0" by auto
  then have "countr_zero32 (round_up_sets sets) = Suc n" using r by (simp add: countr_zero32_def del: power_Suc)
  moreover have "unat sets \<le> 2 ^ Suc n" "2 ^ Suc n < 2 * unat sets" using n(3,4) pred by simp_all
  ultimately show ?thesis by simp
qed

theorem round_up_sets_next_power_witness:
  "countr_zero32 (round_up_sets 1536) = 11 \<and> (1536::nat) \<le> 2 ^ 11 \<and> (2::nat) ^ 11 < 2 * 1536"
proof -
  have "countr_zero32 (round_up_sets 1536) = 11"
    by (simp add: round_up_sets_def Let_def countr_zero32_def) (simp add: countr_zero.simps)
  with round_up_sets_next_power [of 1536] show ?thesis by simp
qed

section \<open>Programs on ARMv8\<close>

datatype arm_cmd =
  A_access uintptr | A_instrumented_access uintptr | A_csw nat nat nat | A_isw nat nat nat | A_cisw nat nat nat
| A_flush | A_switch_channel

fun arm_step :: "'h idle_wait \<Rightarrow> pmu_handler \<Rightarrow> arm_cmd \<Rightarrow> 'h km_state \<Rightarrow> (nat list \<times> 'h km_state) option" where
  "arm_step wait handler (A_access a) s = map_option (Pair []) (km_access wait a s)"
| "arm_step wait handler (A_instrumented_access a) s =
     map_option (\<lambda>(r, s'). ([r], s')) (km_instrumented_access wait handler a s)"
| "arm_step wait handler (A_csw level set_index way) s = map_option (Pair []) (km_csw wait level set_index way s)"
| "arm_step wait handler (A_isw level set_index way) s = map_option (Pair []) (km_isw wait level set_index way s)"
| "arm_step wait handler (A_cisw level set_index way) s = map_option (Pair []) (km_cisw wait level set_index way s)"
| "arm_step wait handler A_flush s = map_option (Pair []) (km_flush wait s)"
| "arm_step wait handler A_switch_channel s = map_option (Pair []) (km_switch_channel wait s)"

text \<open>The operand for a level, a set and a way of the memory's caches.\<close>

definition arm_operand :: "kernel_memory \<Rightarrow> bool \<Rightarrow> bool \<Rightarrow> nat \<Rightarrow> nat \<Rightarrow> nat \<Rightarrow> uintptr option" where
  "arm_operand k clean invalidate level set_index way = do {
     require (level < km_levels k);
     ways \<leftarrow> km_ways k level;
     let way_bits = countr_zero (bit_ceil ways);
     require (cisw_fits level set_index way way_bits (km_offset_bits k));
     cisw_word clean invalidate level set_index way way_bits (km_offset_bits k) }"

fun arm_direct :: "'h processor \<Rightarrow> pmu_handler \<Rightarrow> kernel_memory \<Rightarrow> arm_cmd \<Rightarrow> 'h \<Rightarrow> nat list \<times> 'h" where
  "arm_direct p handler k (A_access a) h = ([], hw_exec p (Load a) h)"
| "arm_direct p handler k (A_instrumented_access a) h =
     ([handle_pmc handler (hw_pmc p h) (hw_pmc p (hw_exec p (Load a) h))], hw_exec p (Load a) h)"
| "arm_direct p handler k (A_csw level set_index way) h =
     ([], hw_exec p (Csw (the (arm_operand k True False level set_index way))) h)"
| "arm_direct p handler k (A_isw level set_index way) h =
     ([], hw_exec p (Isw (the (arm_operand k False True level set_index way))) h)"
| "arm_direct p handler k (A_cisw level set_index way) h =
     ([], hw_exec p (Cisw (the (arm_operand k True True level set_index way))) h)"
| "arm_direct p handler k A_flush h = ([], h)"
| "arm_direct p handler k A_switch_channel h = ([], h)"

fun arm_valid :: "kernel_memory \<Rightarrow> arm_cmd \<Rightarrow> bool" where
  "arm_valid k (A_access a) \<longleftrightarrow> drop_bit 62 a = 3 \<and> ac_check a (km_address_checker k) = Some True"
| "arm_valid k (A_instrumented_access a) \<longleftrightarrow> drop_bit 62 a = 3 \<and> ac_check a (km_address_checker k) = Some True"
| "arm_valid k (A_csw level set_index way) \<longleftrightarrow> arm_operand k True False level set_index way \<noteq> None"
| "arm_valid k (A_isw level set_index way) \<longleftrightarrow> arm_operand k False True level set_index way \<noteq> None"
| "arm_valid k (A_cisw level set_index way) \<longleftrightarrow> arm_operand k True True level set_index way \<noteq> None"
| "arm_valid k _ \<longleftrightarrow> True"

lemma arm_config:
  assumes "same_config k k'"
  shows "arm_operand k' = arm_operand k" and "arm_valid k' c = arm_valid k c"
proof -
  show op: "arm_operand k' = arm_operand k" using assms
    by (intro ext) (simp add: arm_operand_def same_config_def km_levels_def km_ways_def km_offset_bits_def)
  show "arm_valid k' c = arm_valid k c" using assms op by (cases c) (simp_all add: same_config_def)
qed

lemma arm_load: "drop_bit 62 a = 3 \<Longrightarrow> arm_decode a = Load a"
  by (simp add: arm_decode_def)

fun arm_pace :: "arm_cmd \<Rightarrow> pace" where
  "arm_pace (A_instrumented_access a) = Waits"
| "arm_pace A_switch_channel = Switches"
| "arm_pace c = Keeps"

lemma internal_cisw_refines:
  assumes w: "waits_for_idle (arm_agent_poll p) wait" and wf: "arm.km_wf s n"
    and ci: "clean \<or> invalidate" and op: "arm_operand (fst s) clean invalidate level set_index way = Some v"
  shows "\<exists>s'. km_internal_cisw wait clean invalidate level set_index way s = Some s' \<and> arm.km_wf s' n \<and>
    arm.km_abs p s' = hw_exec p (dc_op clean invalidate v) (arm.km_abs p s) \<and> same_config (fst s) (fst s')"
proof -
  obtain ways where o: "level < km_levels (fst s)" "km_ways (fst s) level = Some ways"
    "cisw_fits level set_index way (countr_zero (bit_ceil ways)) (km_offset_bits (fst s))"
    "cisw_word clean invalidate level set_index way (countr_zero (bit_ceil ways)) (km_offset_bits (fst s)) = Some v"
    using op by (auto simp: arm_operand_def Let_def bind_eq_Some_conv require_Some)
  have "km_internal_cisw wait clean invalidate level set_index way s = km_internal_access wait v s"
    using ci o by (simp add: km_internal_cisw_def)
  moreover have "arm_decode v = dc_op clean invalidate v" using cisw_word_decode [OF o(3) ci o(4)] .
  ultimately show ?thesis using arm.internal_access_refines [OF w wf, of v] by simp
qed

lemma arm_step_refines:
  assumes w: "waits_for_idle (arm_agent_poll p) wait" and wf: "arm.km_wf s n" and ok: "arm_valid (fst s) c"
    and cfg: "same_config k (fst s)" and pc: "arm_pace c = Switches \<longrightarrow> Suc n < channel_round (km_channel_count (fst s))"
  shows "\<exists>s'. arm_step wait handler c s = Some (fst (arm_direct p handler k c (arm.km_abs p s)), s') \<and>
    arm.km_wf s' (pace_after (arm_pace c) n) \<and> arm.km_abs p s' = snd (arm_direct p handler k c (arm.km_abs p s)) \<and> same_config (fst s) (fst s')"
proof (cases c)
  case (A_access a)
  then have "drop_bit 62 a = 3" "km_require_address a (fst s) = Some ()" using ok by (auto simp: km_require_address_def)
  then show ?thesis using arm.access_refines [OF w wf, of a] arm_load [of a] A_access by fastforce
next
  case (A_instrumented_access a)
  then have a: "drop_bit 62 a = 3" "km_require_address a (fst s) = Some ()" using ok by (auto simp: km_require_address_def)
  then have "is_load (arm_decode a)" using arm_load by (simp add: is_load_def)
  from arm.instrumented_access_refines [OF w wf a(2) this, of handler] show ?thesis
    using arm_load [OF a(1)] A_instrumented_access by fastforce
next
  case (A_csw level set_index way)
  then obtain v where v: "arm_operand (fst s) True False level set_index way = Some v" using ok by auto
  then have "arm_operand k True False level set_index way = Some v" using arm_config(1) [OF cfg] by simp
  then show ?thesis using internal_cisw_refines [OF w wf _ v] A_csw by (fastforce simp: km_csw_def dc_op_def)
next
  case (A_isw level set_index way)
  then obtain v where v: "arm_operand (fst s) False True level set_index way = Some v" using ok by auto
  then have "arm_operand k False True level set_index way = Some v" using arm_config(1) [OF cfg] by simp
  then show ?thesis using internal_cisw_refines [OF w wf _ v] A_isw by (fastforce simp: km_isw_def dc_op_def)
next
  case (A_cisw level set_index way)
  then obtain v where v: "arm_operand (fst s) True True level set_index way = Some v" using ok by auto
  then have "arm_operand k True True level set_index way = Some v" using arm_config(1) [OF cfg] by simp
  then show ?thesis using internal_cisw_refines [OF w wf _ v] A_cisw by (fastforce simp: km_cisw_def dc_op_def)
next
  case A_flush
  then show ?thesis using arm.flush_refines [OF w wf] by fastforce
next
  case A_switch_channel
  then show ?thesis using arm.switch_refines [OF w wf] pc by fastforce
qed


definition small_arm_memory :: kernel_memory where
  "small_arm_memory = small_kernel_memory\<lparr>km_cache_info :=
     \<lparr>ci_levels = 1, ci_offset_bits = 6, ci_sets = [2], ci_ways = [2]\<rparr>\<rparr>"

lemma small_arm_memory_fresh: "km_fresh small_arm_memory (two_channels h)"
  using small_kernel_memory_fresh [of h] by (simp add: km_fresh_def small_arm_memory_def)

lemma small_arm_operand:
  assumes "set_index < 2" and "way < 2"
  shows "\<exists>v. arm_operand small_arm_memory clean invalidate 0 set_index way = Some v"
proof -
  have geom: "km_levels small_arm_memory = 1" "km_ways small_arm_memory 0 = Some 2" "km_offset_bits small_arm_memory = 6"
    "countr_zero (bit_ceil 2) = 1"
    by (simp_all add: km_levels_def km_ways_def km_offset_bits_def small_arm_memory_def bit_ceil.simps countr_zero.simps)
  have "cisw_fits 0 set_index way 1 6" using assms by (simp add: cisw_fits_def)
  then show ?thesis using geom by (simp add: arm_operand_def cisw_word_def Let_def)
qed


section \<open>Resetting the caches\<close>

text \<open>Every line of the caches, in the order of the three loops.\<close>

definition cache_lines :: "kernel_memory \<Rightarrow> nat \<Rightarrow> (nat \<times> nat \<times> nat) list" where
  "cache_lines k level =
     concat (map (\<lambda>set_index. map (\<lambda>way. (level, set_index, way)) [0..<the (km_ways k level)])
       [0..<2 ^ the (km_index_bits k level)])"

definition reset_ops :: "kernel_memory \<Rightarrow> (nat \<times> nat \<times> nat) list \<Rightarrow> hw_op list" where
  "reset_ops k = map (\<lambda>(level, set_index, way). Cisw (the (arm_operand k True True level set_index way)))"

definition resettable :: "kernel_memory \<Rightarrow> bool" where
  "resettable k \<longleftrightarrow> list_all (\<lambda>level. km_ways k level \<noteq> None \<and> km_index_bits k level \<noteq> None \<and> the (km_index_bits k level) < 32 \<and>
     list_all (\<lambda>(l, s, w). arm_operand k True True l s w \<noteq> None) (cache_lines k level)) [0..<km_levels k]"

abbreviation hw_run :: "'h processor \<Rightarrow> hw_op list \<Rightarrow> 'h \<Rightarrow> 'h" where
  "hw_run p ops h \<equiv> foldl (\<lambda>h op. hw_exec p op h) h ops"

lemma km_config:
  assumes "same_config k k'"
  shows "km_ways k' = km_ways k" "km_index_bits k' = km_index_bits k" "km_levels k' = km_levels k"
  using assms by (simp_all add: fun_eq_iff same_config_def km_ways_def km_index_bits_def km_levels_def)

lemma reset_ways_refines:
  assumes "waits_for_idle (arm_agent_poll p) wait" and "arm.km_wf s n" and "same_config k (fst s)"
    and "list_all (\<lambda>way. arm_operand k True True level set_index way \<noteq> None) ws"
  shows "\<exists>s'. km_reset_ways wait level set_index ws s = Some s' \<and> arm.km_wf s' n \<and> same_config k (fst s') \<and>
    arm.km_abs p s' = hw_run p (reset_ops k (map (\<lambda>way. (level, set_index, way)) ws)) (arm.km_abs p s)"
  using assms(2-)
proof (induction ws arbitrary: s)
  case (Cons way ws)
  then obtain v where v: "arm_operand k True True level set_index way = Some v" by auto
  then have v': "arm_operand (fst s) True True level set_index way = Some v" using arm_config(1) [OF Cons.prems(2)] by simp
  obtain s1 where s1: "km_internal_cisw wait True True level set_index way s = Some s1" "arm.km_wf s1 n"
    "arm.km_abs p s1 = hw_exec p (Cisw v) (arm.km_abs p s)" "same_config (fst s) (fst s1)"
    using internal_cisw_refines [OF assms(1) Cons.prems(1) _ v'] by (auto simp: dc_op_def)
  let ?s1 = "km_count (st_cisws_update size_t_inc) s1"
  have "arm.km_wf ?s1 n" "same_config k (fst ?s1)" "list_all (\<lambda>way. arm_operand k True True level set_index way \<noteq> None) ws"
    using s1 Cons.prems same_config_trans by auto
  from Cons.IH [OF this] show ?case using s1 v by (simp add: km_cisw_def reset_ops_def)
qed (auto simp: reset_ops_def)

lemma reset_sets_refines:
  assumes "waits_for_idle (arm_agent_poll p) wait" and "arm.km_wf s n" and "same_config k (fst s)"
    and "km_ways k level = Some ways"
    and "list_all (\<lambda>set_index. list_all (\<lambda>way. arm_operand k True True level set_index way \<noteq> None) [0..<ways]) ss"
  shows "\<exists>s'. km_reset_sets wait level ss s = Some s' \<and> arm.km_wf s' n \<and> same_config k (fst s') \<and>
    arm.km_abs p s' = hw_run p (reset_ops k (concat (map (\<lambda>set_index. map (\<lambda>way. (level, set_index, way)) [0..<ways]) ss)))
      (arm.km_abs p s)"
  using assms(2,3,5)
proof (induction ss arbitrary: s)
  case (Cons set_index ss)
  have ways: "km_ways (fst s) level = Some ways" using km_config(1) [OF Cons.prems(2)] assms(4) by simp
  have "list_all (\<lambda>way. arm_operand k True True level set_index way \<noteq> None) [0..<ways]" using Cons.prems(3) by simp
  from reset_ways_refines [OF assms(1) Cons.prems(1,2) this] obtain s1 where
    s1: "km_reset_ways wait level set_index [0..<ways] s = Some s1" "arm.km_wf s1 n" "same_config k (fst s1)"
      "arm.km_abs p s1 = hw_run p (reset_ops k (map (\<lambda>way. (level, set_index, way)) [0..<ways])) (arm.km_abs p s)" by blast
  from Cons.IH [OF s1(2,3)] Cons.prems(3) s1(1,4) ways show ?case
    by (fastforce simp: reset_ops_def)
qed (auto simp: reset_ops_def)

lemma reset_levels_refines:
  assumes "waits_for_idle (arm_agent_poll p) wait" and "arm.km_wf s n" and "same_config k (fst s)"
    and "list_all (\<lambda>level. km_ways k level \<noteq> None \<and> km_index_bits k level \<noteq> None \<and> the (km_index_bits k level) < 32 \<and>
      list_all (\<lambda>(l, s, w). arm_operand k True True l s w \<noteq> None) (cache_lines k level)) ls"
  shows "\<exists>s'. km_reset_levels wait ls s = Some s' \<and> arm.km_wf s' n \<and> same_config k (fst s') \<and>
    arm.km_abs p s' = hw_run p (reset_ops k (concat (map (cache_lines k) ls))) (arm.km_abs p s)"
  using assms(2-)
proof (induction ls arbitrary: s)
  case (Cons level ls)
  obtain ways ib where g: "km_ways k level = Some ways" "km_index_bits k level = Some ib" "ib < 32" using Cons.prems(3) by auto
  have ib: "km_index_bits (fst s) level = Some ib" using km_config(2) [OF Cons.prems(2)] g by simp
  have "list_all (\<lambda>set_index. list_all (\<lambda>way. arm_operand k True True level set_index way \<noteq> None) [0..<ways]) [0..<2 ^ ib]"
    using Cons.prems(3) g by (auto simp: cache_lines_def list_all_iff)
  from reset_sets_refines [OF assms(1) Cons.prems(1,2) g(1) this] obtain s1 where
    s1: "km_reset_sets wait level [0..<2 ^ ib] s = Some s1" "arm.km_wf s1 n" "same_config k (fst s1)"
      "arm.km_abs p s1 = hw_run p (reset_ops k (cache_lines k level)) (arm.km_abs p s)"
    using g by (auto simp: cache_lines_def)
  from Cons.IH [OF s1(2,3)] Cons.prems(3) s1(1,4) ib g(3) show ?case by (fastforce simp: reset_ops_def)
qed (auto simp: reset_ops_def)

text \<open>
  A reset of the kernel memory on ARMv8 cleans and invalidates every way of every set of every level, each
  exactly once and in the order of the loops, after everything that was issued before.
\<close>

theorem km_reset_visits_every_line:
  assumes "waits_for_idle (arm_agent_poll p) wait" and "km_fresh k m" and "resettable k"
  shows "\<exists>k1 m1 m2. km_reset wait (k, m) = Some (k1, m1) \<and> wait (km_active_channel k1) m1 = Some m2 \<and>
    ms_hw m2 = hw_run p (reset_ops k (concat (map (cache_lines k) [0..<km_levels k]))) (ms_hw m)"
proof -
  have "same_config k (fst (k, m))" by simp
  from reset_levels_refines [OF assms(1) arm.fresh_wf(1) [OF assms(2)] this, of "[0..<km_levels k]"] assms(3)
  obtain s where s: "km_reset_levels wait [0..<km_levels k] (k, m) = Some s" "arm.km_wf s 0"
    "arm.km_abs p s = hw_run p (reset_ops k (concat (map (cache_lines k) [0..<km_levels k]))) (ms_hw m)"
    using arm.fresh_wf(2) [OF assms(2), of p] by (auto simp: resettable_def)
  from arm.settle [OF assms(1) s(2)] s show ?thesis by (auto simp: km_reset_def)
qed

theorem km_reset_visits_every_line_witness:
  "\<exists>k1 m1 m2. km_reset (eager_wait (arm_agent_poll recording_processor)) (small_arm_memory, two_channels []) = Some (k1, m1) \<and>
     eager_wait (arm_agent_poll recording_processor) (km_active_channel k1) m1 = Some m2 \<and>
     ms_hw m2 = reset_ops small_arm_memory [(0, 0, 0), (0, 0, 1), (0, 1, 0), (0, 1, 1)]"
proof -
  have geom: "km_levels small_arm_memory = 1" "km_ways small_arm_memory 0 = Some 2" "km_index_bits small_arm_memory 0 = Some 1"
    by (simp_all add: km_levels_def km_ways_def km_index_bits_def small_arm_memory_def round_up_sets_def countr_zero32_def countr_zero.simps)
  have lines: "cache_lines small_arm_memory 0 = [(0, 0, 0), (0, 0, 1), (0, 1, 0), (0, 1, 1)]"
    by (simp add: cache_lines_def geom upt_rec)
  have ok: "resettable small_arm_memory"
    using small_arm_operand [of 0 0 True True] small_arm_operand [of 0 1 True True]
      small_arm_operand [of 1 0 True True] small_arm_operand [of 1 1 True True]
    by (auto simp: resettable_def geom lines)
  have rec: "hw_run recording_processor ops h = h @ ops" for ops h
    by (induction ops arbitrary: h) (simp_all add: recording_processor_def)
  show ?thesis
    using km_reset_visits_every_line [OF eager_wait_waits small_arm_memory_fresh [of "[]"] ok, of recording_processor]
    by (simp add: geom lines rec two_channels_def)
qed

end
