(* ===== verification/CH_Hw_Info.thy ===== *)
theory CH_Hw_Info
  imports CH_Prelude
begin

text \<open>
  Cache geometry and performance counter configuration in the kernel: \<open>kernel/ch_plat.h\<close>,
  \<open>kernel/ch_cache_info.h\<close> and \<open>kernel/ch_pmc.h\<close>. What the processor answers (\<open>cpuid\<close>, \<open>CLIDR_EL1\<close>,
  \<open>CCSIDR_EL1\<close>, \<open>PMCR_EL0\<close>) is an argument; model specific registers are a function from register
  numbers to values.
\<close>

section \<open>Cache geometry\<close>

record cpuid_result =
  cpuid_eax :: "64 word"
  cpuid_ebx :: "64 word"
  cpuid_ecx :: "64 word"

type_synonym cpuid = "64 word \<Rightarrow> 64 word \<Rightarrow> cpuid_result"

definition ch_is_intel :: "cpuid \<Rightarrow> bool" where
  "ch_is_intel cpuid \<longleftrightarrow> cpuid_ecx (cpuid 0 0) = 0x6c65746e"

text \<open>The loops over the entries of leaf 4 end at the first entry of type 0.\<close>

partial_function (option) intel_levels_loop :: "cpuid \<Rightarrow> 64 word \<Rightarrow> 32 word \<Rightarrow> 32 word option" where
  [code]: "intel_levels_loop cpuid i levels =
     (let eax = cpuid_eax (cpuid 4 i) in
      if eax AND 15 = 0 then Some levels
      else intel_levels_loop cpuid (i + 1) (ucast (drop_bit 5 eax AND 7)))"

definition x86_cache_levels :: "cpuid \<Rightarrow> 32 word option" where
  "x86_cache_levels cpuid = (if ch_is_intel cpuid then intel_levels_loop cpuid 0 0 else Some 3)"

partial_function (option) intel_dcache_loop :: "cpuid \<Rightarrow> 32 word \<Rightarrow> 64 word \<Rightarrow> cpuid_result option option" where
  [code]: "intel_dcache_loop cpuid level i =
     (let r = cpuid 4 i in
      if cpuid_eax r AND 15 = 0 then Some None
      else if cpuid_eax r AND 15 = 2 then intel_dcache_loop cpuid level (i + 1)
      else if drop_bit 5 (cpuid_eax r) AND 7 \<noteq> ucast (level + 1) then intel_dcache_loop cpuid level (i + 1)
      else Some (Some r))"

definition x86_dcache_sets :: "cpuid \<Rightarrow> 32 word \<Rightarrow> 32 word option" where
  "x86_dcache_sets cpuid level =
     (if ch_is_intel cpuid then do {
        found \<leftarrow> intel_dcache_loop cpuid level 0;
        Some (case found of None \<Rightarrow> 0 | Some r \<Rightarrow> ucast (cpuid_ecx r + 1)) }
      else Some (if level = 0 then 64 else if level = 1 then 1024 else if level = 2 then 16384 else 0))"

definition x86_dcache_ways :: "cpuid \<Rightarrow> 32 word \<Rightarrow> 32 word option" where
  "x86_dcache_ways cpuid level =
     (if ch_is_intel cpuid then do {
        found \<leftarrow> intel_dcache_loop cpuid level 0;
        Some (case found of None \<Rightarrow> 0 | Some r \<Rightarrow> ucast ((drop_bit 22 (cpuid_ebx r) AND 1023) + 1)) }
      else Some (if level = 0 then 8 else if level = 1 then 8 else if level = 2 then 16 else 0))"

definition x86_cache_offset_bits :: "32 word" where
  "x86_cache_offset_bits = 6"

function arm_levels_loop :: "64 word \<Rightarrow> nat \<Rightarrow> nat" where
  "arm_levels_loop clidr levels =
     (if levels < 7 \<and> drop_bit (3 * levels) clidr AND 7 \<noteq> 0 then arm_levels_loop clidr (Suc levels) else levels)"
  by pat_completeness auto
termination
  by (relation "measure (\<lambda>(_, levels). 7 - levels)") auto

declare arm_levels_loop.simps [simp del]

definition arm_cache_levels :: "64 word \<Rightarrow> nat" where
  "arm_cache_levels clidr = arm_levels_loop clidr 0"

text \<open>\<open>CCSIDR_EL1\<close> as a function of the value in \<open>CSSELR_EL1\<close>.\<close>

definition arm_cache_offset_bits :: "(64 word \<Rightarrow> 64 word) \<Rightarrow> 64 word" where
  "arm_cache_offset_bits ccsidr = (ccsidr 0 AND 3) + 4"

definition arm_dcache_sets :: "(64 word \<Rightarrow> 64 word) \<Rightarrow> 64 word \<Rightarrow> 64 word" where
  "arm_dcache_sets ccsidr level = (drop_bit 13 (ccsidr (push_bit 1 level)) AND 0x7FFF) + 1"

definition arm_dcache_ways :: "(64 word \<Rightarrow> 64 word) \<Rightarrow> 64 word \<Rightarrow> 64 word" where
  "arm_dcache_ways ccsidr level = (drop_bit 3 (ccsidr (push_bit 1 level)) AND 0x1FF) + 1"

section \<open>Performance counters on x86-64\<close>

type_synonym msrs = "64 word \<Rightarrow> 64 word"

definition CH_IA32_PERFEVTSEL0 :: "64 word" where
  "CH_IA32_PERFEVTSEL0 = 0x186"

definition CH_PERF_LEGACY_CTL0 :: "64 word" where
  "CH_PERF_LEGACY_CTL0 = 0xc0010000"

definition x86_pmc_init :: "cpuid \<Rightarrow> 64 word" where
  "x86_pmc_init cpuid = (if ch_is_intel cpuid then CH_IA32_PERFEVTSEL0 else CH_PERF_LEGACY_CTL0)"

text \<open>\<open>rdmsr\<close> splits a register into two halves, \<open>wrmsr\<close> joins them.\<close>

definition wrmsr :: "64 word \<Rightarrow> 32 word \<Rightarrow> 32 word \<Rightarrow> msrs \<Rightarrow> msrs" where
  "wrmsr reg lo hi r = r(reg := push_bit 32 (ucast hi) OR ucast lo)"

definition rdmsr :: "64 word \<Rightarrow> msrs \<Rightarrow> 32 word \<times> 32 word" where
  "rdmsr reg r = (ucast (r reg), ucast (drop_bit 32 (r reg)))"

text \<open>The loops over the pairs of halves still to do.\<close>

fun x86_pmc_save_loop :: "64 word \<Rightarrow> nat \<Rightarrow> nat \<Rightarrow> msrs \<Rightarrow> 32 word list \<times> msrs" where
  "x86_pmc_save_loop base i 0 r = ([], r)"
| "x86_pmc_save_loop base i (Suc n) r =
     (let (lo, hi) = rdmsr (base + of_nat i) r;
          (rest, r') = x86_pmc_save_loop base (Suc i) n (wrmsr (base + of_nat i) 0 0 r)
      in (lo # hi # rest, r'))"

definition x86_pmc_save :: "64 word \<Rightarrow> msrs \<Rightarrow> 32 word list \<times> msrs" where
  "x86_pmc_save base r = x86_pmc_save_loop base 0 4 r"

fun x86_pmc_restore_loop :: "64 word \<Rightarrow> nat \<Rightarrow> 32 word list \<Rightarrow> msrs \<Rightarrow> msrs" where
  "x86_pmc_restore_loop base i (lo # hi # rest) r = x86_pmc_restore_loop base (Suc i) rest (wrmsr (base + of_nat i) lo hi r)"
| "x86_pmc_restore_loop base i _ r = r"

definition x86_pmc_restore :: "64 word \<Rightarrow> 32 word list \<Rightarrow> msrs \<Rightarrow> msrs" where
  "x86_pmc_restore base counters r = x86_pmc_restore_loop base 0 counters r"

definition x86_pmc_configure :: "64 word \<Rightarrow> 64 word \<Rightarrow> 64 word \<Rightarrow> msrs \<Rightarrow> msrs" where
  "x86_pmc_configure base reg evt r =
     wrmsr (base + reg) (ucast (evt AND (push_bit 32 1 - 1))) (ucast (drop_bit 32 evt)) r"

text \<open>The loop of the agent that programs the requested events, up to the first zero.\<close>

fun agent_configure :: "(64 word \<Rightarrow> 64 word \<Rightarrow> 's \<Rightarrow> 's) \<Rightarrow> nat \<Rightarrow> 64 word list \<Rightarrow> 's \<Rightarrow> 's" where
  "agent_configure configure i [] s = s"
| "agent_configure configure i (evt # evts) s =
     (if evt = 0 then s else agent_configure configure (Suc i) evts (configure (of_nat i) evt s))"

section \<open>Performance counters on ARMv8\<close>

record arm_pmu =
  pmevtyper :: "64 word list"
  pmcr :: "64 word"
  pmcntenset :: "64 word"
  pmselr :: "64 word"
  pmccfiltr :: "64 word"

definition arm_pmc_save :: "arm_pmu \<Rightarrow> 64 word list option" where
  "arm_pmc_save s = do {
     c0 \<leftarrow> vec_at (pmevtyper s) 0; c1 \<leftarrow> vec_at (pmevtyper s) 1;
     c2 \<leftarrow> vec_at (pmevtyper s) 2; c3 \<leftarrow> vec_at (pmevtyper s) 3;
     Some [c0, c1, c2, c3] }"

definition arm_pmc_restore :: "64 word list \<Rightarrow> arm_pmu \<Rightarrow> arm_pmu option" where
  "arm_pmc_restore counters s = do {
     c0 \<leftarrow> vec_at counters 0; c1 \<leftarrow> vec_at counters 1; c2 \<leftarrow> vec_at counters 2; c3 \<leftarrow> vec_at counters 3;
     r \<leftarrow> vec_set (pmevtyper s) 0 c0; r \<leftarrow> vec_set r 1 c1; r \<leftarrow> vec_set r 2 c2; r \<leftarrow> vec_set r 3 c3;
     Some (s\<lparr>pmevtyper := r\<rparr>) }"

text \<open>\<open>PMXEVTYPER_EL0\<close> is the event type register that \<open>PMSELR_EL0\<close> selects.\<close>

definition arm_pmc_configure :: "64 word \<Rightarrow> 64 word \<Rightarrow> arm_pmu \<Rightarrow> arm_pmu" where
  "arm_pmc_configure reg evt s =
     s\<lparr>pmselr := reg,
       pmevtyper := (pmevtyper s)[unat reg := (evt AND 0x3FF) OR push_bit 27 1],
       pmcr := 1,
       pmcntenset := pmcntenset s OR push_bit (unat reg) 1,
       pmccfiltr := 0\<rparr>"

definition arm_pmc_counters :: "64 word \<Rightarrow> 64 word" where
  "arm_pmc_counters pmcr_value = drop_bit 11 pmcr_value AND 15"

section \<open>Saving and restoring\<close>

lemma wrmsr_rdmsr [simp]: "wrmsr reg (fst (rdmsr reg r)) (snd (rdmsr reg r)) r' = r'(reg := r reg)"
proof -
  have "push_bit 32 (ucast (ucast (drop_bit 32 w) :: 32 word)) OR ucast (ucast w :: 32 word) = w" for w :: "64 word"
    by (rule bit_word_eqI) (auto simp: bit_or_iff bit_push_bit_iff bit_unsigned_iff bit_drop_bit_eq)
  then show ?thesis by (simp add: wrmsr_def rdmsr_def)
qed

lemma save_loop_outside:
  "(\<And>j. i \<le> j \<Longrightarrow> j < i + n \<Longrightarrow> reg \<noteq> base + of_nat j) \<Longrightarrow> snd (x86_pmc_save_loop base i n r) reg = r reg"
proof (induction n arbitrary: i r)
  case (Suc n)
  have "snd (x86_pmc_save_loop base (Suc i) n (wrmsr (base + of_nat i) 0 0 r)) reg = wrmsr (base + of_nat i) 0 0 r reg"
    by (rule Suc.IH) (use Suc.prems in auto)
  then show ?case using Suc.prems [of i] by (simp add: wrmsr_def split_beta Let_def)
qed simp

lemma reg_neq: "i \<noteq> j \<Longrightarrow> i < 2 ^ 64 \<Longrightarrow> j < 2 ^ 64 \<Longrightarrow> base + of_nat i \<noteq> (base + of_nat j :: 64 word)"
proof
  assume ij: "i \<noteq> j" "i < 2 ^ 64" "j < 2 ^ 64" and "base + of_nat i = (base + of_nat j :: 64 word)"
  then have "unat (of_nat i :: 64 word) = unat (of_nat j :: 64 word)" by simp
  with ij show False by (simp add: unat_of_nat)
qed

lemma restore_loop_saved:
  assumes "i + n < 2 ^ 64"
  shows "x86_pmc_restore_loop base i (fst (x86_pmc_save_loop base i n r)) r' reg =
    (if \<exists>j. i \<le> j \<and> j < i + n \<and> reg = base + of_nat j then r reg else r' reg)"
  using assms
proof (induction n arbitrary: i r r')
  case (Suc n)
  let ?reg = "base + of_nat i"
  have step: "x86_pmc_restore_loop base i (fst (x86_pmc_save_loop base i (Suc n) r)) r' reg =
      x86_pmc_restore_loop base (Suc i) (fst (x86_pmc_save_loop base (Suc i) n (wrmsr ?reg 0 0 r))) (r'(?reg := r ?reg)) reg"
    by (simp add: split_beta Let_def)
  have "\<dots> = (if \<exists>j. Suc i \<le> j \<and> j < Suc i + n \<and> reg = base + of_nat j then wrmsr ?reg 0 0 r reg else (r'(?reg := r ?reg)) reg)"
    using Suc.IH [of "Suc i"] Suc.prems by simp
  moreover have "?reg \<noteq> base + of_nat j" if "Suc i \<le> j" "j < Suc i + n" for j
    using reg_neq [of i j base] that Suc.prems by simp
  ultimately show ?case unfolding step by (auto simp: wrmsr_def) (metis Suc_leI le_neq_implies_less)+
qed auto

lemma configure_outside:
  "(\<And>j. i \<le> j \<Longrightarrow> j < i + length evts \<Longrightarrow> reg \<noteq> base + of_nat j) \<Longrightarrow>
     agent_configure (x86_pmc_configure base) i evts r reg = r reg"
proof (induction evts arbitrary: i r)
  case (Cons evt evts)
  have "agent_configure (x86_pmc_configure base) (Suc i) evts r' reg = r' reg" for r'
    by (rule Cons.IH) (use Cons.prems in auto)
  moreover have "x86_pmc_configure base (of_nat i) evt r reg = r reg"
    using Cons.prems [of i] by (simp add: x86_pmc_configure_def wrmsr_def)
  ultimately show ?case by simp
qed simp

text \<open>
  The agent leaves the event select registers of an x86 processor as it found them: after saving and
  clearing the four registers, programming up to four events and restoring, every register holds its
  old value, the ones outside the four included.
\<close>

theorem x86_pmc_restored:
  assumes "length evts \<le> 4"
  shows "x86_pmc_restore base (fst (x86_pmc_save base r))
    (agent_configure (x86_pmc_configure base) 0 evts (snd (x86_pmc_save base r))) = r"
proof
  fix reg
  let ?r = "agent_configure (x86_pmc_configure base) 0 evts (snd (x86_pmc_save base r))"
  show "x86_pmc_restore base (fst (x86_pmc_save base r)) ?r reg = r reg"
  proof (cases "\<exists>j. 0 \<le> j \<and> j < 0 + 4 \<and> reg = base + of_nat j")
    case True
    then show ?thesis using restore_loop_saved [of 0 4 base r ?r reg] unfolding x86_pmc_restore_def x86_pmc_save_def by simp
  next
    case False
    have "?r reg = snd (x86_pmc_save base r) reg"
    proof (rule configure_outside)
      fix j assume "j < 0 + length evts"
      then have "j < 0 + 4" using assms by simp
      then show "reg \<noteq> base + of_nat j" using False by blast
    qed
    also have "\<dots> = r reg" unfolding x86_pmc_save_def using False by (intro save_loop_outside) auto
    finally show ?thesis using False restore_loop_saved [of 0 4 base r ?r reg]
      unfolding x86_pmc_restore_def x86_pmc_save_def by auto
  qed
qed

theorem x86_pmc_restored_witness:
  "x86_pmc_restore CH_IA32_PERFEVTSEL0 (fst (x86_pmc_save CH_IA32_PERFEVTSEL0 (\<lambda>reg. reg + 5)))
     (agent_configure (x86_pmc_configure CH_IA32_PERFEVTSEL0) 0 [0x5301CB, 0x5302CB, 0]
       (snd (x86_pmc_save CH_IA32_PERFEVTSEL0 (\<lambda>reg. reg + 5)))) = (\<lambda>reg. reg + 5)"
  by (rule x86_pmc_restored) simp

lemma arm_configure_len [simp]: "length (pmevtyper (agent_configure arm_pmc_configure i evts s)) = length (pmevtyper s)"
  by (induction evts arbitrary: i s) (simp_all add: arm_pmc_configure_def)

lemma arm_configure_outside:
  "i + length evts \<le> 4 \<Longrightarrow> 4 \<le> j \<Longrightarrow> pmevtyper (agent_configure arm_pmc_configure i evts s) ! j = pmevtyper s ! j"
  by (induction evts arbitrary: i s) (auto simp: arm_pmc_configure_def unat_of_nat)

text \<open>
  On ARMv8 restoring brings the event types back, but not the enable bits: once an event was programmed,
  the performance monitor and the counter stay enabled.
\<close>

theorem arm_pmc_restore_keeps_enabled:
  assumes "4 \<le> length (pmevtyper s)" and "evt \<noteq> 0" and "length evts \<le> 2"
  shows "\<exists>counters s'. arm_pmc_save s = Some counters \<and>
    arm_pmc_restore counters (agent_configure arm_pmc_configure 0 (evt # evts) s) = Some s' \<and>
    pmevtyper s' = pmevtyper s \<and> pmcr s' = 1 \<and> bit (pmcntenset s') 0"
proof -
  define t where "t = agent_configure arm_pmc_configure 0 (evt # evts) s"
  let ?r = "(((pmevtyper t)[0 := pmevtyper s ! 0])[1 := pmevtyper s ! 1])[2 := pmevtyper s ! 2, 3 := pmevtyper s ! 3]"
  have len: "length (pmevtyper t) = length (pmevtyper s)" unfolding t_def by (rule arm_configure_len)
  have out: "pmevtyper t ! j = pmevtyper s ! j" if "4 \<le> j" for j
    unfolding t_def using arm_configure_outside [of 0 "evt # evts" j s] assms(3) that by simp
  have z: "(pmevtyper t)[0 := x] ! 0 = x" for x using assms(1) len by (intro nth_list_update_eq) linarith
  have "?r = pmevtyper s"
  proof (rule nth_equalityI)
    fix j assume "j < length ?r"
    then consider "j = 0" | "j = 1" | "j = 2" | "j = 3" | "4 \<le> j" by linarith
    then show "?r ! j = pmevtyper s ! j"
      using assms(1) len out z by cases auto
  qed (simp add: len)
  have en: "pmcr (agent_configure arm_pmc_configure i es t) = 1 \<and> bit (pmcntenset (agent_configure arm_pmc_configure i es t)) 0"
    if "pmcr t = 1" "bit (pmcntenset t) 0" for i es t
    using that by (induction es arbitrary: i t) (auto simp: arm_pmc_configure_def bit_or_iff)
  have "pmcr t = 1" "bit (pmcntenset t) 0"
    unfolding t_def
    using en [of "arm_pmc_configure 0 evt s" "Suc 0" evts] assms(2) by (simp_all add: arm_pmc_configure_def bit_or_iff bit_1_iff)
  moreover have "vec_at (pmevtyper s) 0 = Some (pmevtyper s ! 0)" "vec_set (pmevtyper t) 0 x = Some ((pmevtyper t)[0 := x])" for x
    using assms(1) len by (intro vec_at_in vec_set_in; linarith)+
  ultimately show ?thesis using assms(1) len \<open>?r = pmevtyper s\<close>
    unfolding t_def [symmetric] by (simp add: arm_pmc_save_def arm_pmc_restore_def)
qed

theorem arm_pmc_restore_keeps_enabled_witness:
  "\<exists>counters s'. arm_pmc_save \<lparr>pmevtyper = [1, 2, 3, 4, 5, 6], pmcr = 0, pmcntenset = 0, pmselr = 0, pmccfiltr = 0\<rparr> = Some counters \<and>
     arm_pmc_restore counters (agent_configure arm_pmc_configure 0 [0x42, 0x52, 0x2A]
       \<lparr>pmevtyper = [1, 2, 3, 4, 5, 6], pmcr = 0, pmcntenset = 0, pmselr = 0, pmccfiltr = 0\<rparr>) = Some s' \<and>
     pmevtyper s' = [1, 2, 3, 4, 5, 6] \<and> pmcr s' = 1 \<and> bit (pmcntenset s') 0"
  using arm_pmc_restore_keeps_enabled [of "\<lparr>pmevtyper = [1, 2, 3, 4, 5, 6], pmcr = 0, pmcntenset = 0, pmselr = 0, pmccfiltr = 0\<rparr>"
    "0x42" "[0x52, 0x2A]"] by simp

section \<open>Reading the ARM registers\<close>

lemma arm_levels_loop_bound: "levels \<le> 7 \<Longrightarrow> levels \<le> arm_levels_loop clidr levels \<and> arm_levels_loop clidr levels \<le> 7"
  by (induction clidr levels rule: arm_levels_loop.induct) (subst (1 2) arm_levels_loop.simps, auto simp: arm_levels_loop.simps)

text \<open>
  The line size field of \<open>CCSIDR_EL1\<close> has three bits and the code reads two of them: the number of offset
  bits is right exactly when the upper bit of the field is clear, that is for lines of up to 128 bytes.
\<close>

theorem arm_offset_bits_exact_iff:
  "arm_cache_offset_bits ccsidr = (ccsidr 0 AND 7) + 4 \<longleftrightarrow> \<not> bit (ccsidr 0) 2"
proof -
  have m: "(3 :: 64 word) = mask 2" "(7 :: 64 word) = mask 3" by (simp_all add: mask_eq_exp_minus_1)
  have "c AND 3 = c AND 7 \<longleftrightarrow> \<not> bit c 2" for c :: "64 word"
  proof
    assume "c AND 3 = c AND 7"
    then have "bit (c AND 3) 2 = bit (c AND 7) 2" by simp
    then show "\<not> bit c 2" unfolding m by (simp add: bit_and_iff bit_mask_iff)
  next
    assume "\<not> bit c 2"
    then show "c AND 3 = c AND 7" unfolding m
      by (intro bit_word_eqI) (auto simp: bit_and_iff bit_mask_iff less_Suc_eq numeral_3_eq_3 numeral_2_eq_2)
  qed
  then show ?thesis by (simp add: arm_cache_offset_bits_def)
qed

end
