(* ===== verification/CH_Device.thy ===== *)
theory CH_Device
  imports CH_Channel CH_Hw_Info CH_Kernel_Memory "HOL-Library.Multiset"
begin

text \<open>
  The character device of the kernel module (\<open>kernel/cachehound.c\<close>): the state behind an open file, its
  reference counter, the memory regions it owns, and the file operations. The kernel's allocators are
  modelled by the resources that are live and by the answers they give: each allocation takes the next
  answer, which may be a failure. Releasing a resource that is not live has no defined result.

  The singly linked list of regions, which is only appended to at its tail and walked from its head, is a
  list.
\<close>

section \<open>Kernel services\<close>

record kernel_world =
  kw_answers :: "uintptr option list"
  kw_pages :: "(uintptr \<times> nat) list"
  kw_maps :: "uintptr list"
  kw_objects :: "uintptr list"

definition kw_next :: "kernel_world \<Rightarrow> uintptr option \<times> kernel_world" where
  "kw_next w = (case kw_answers w of [] \<Rightarrow> (None, w) | a # as \<Rightarrow> (a, w\<lparr>kw_answers := as\<rparr>))"

definition alloc_pages :: "nat \<Rightarrow> kernel_world \<Rightarrow> uintptr option \<times> kernel_world" where
  "alloc_pages ord w = (case kw_next w of
     (None, w1) \<Rightarrow> (None, w1) | (Some page, w1) \<Rightarrow> (Some page, w1\<lparr>kw_pages := (page, ord) # kw_pages w1\<rparr>))"

definition memremap :: "uintptr \<Rightarrow> kernel_world \<Rightarrow> uintptr option \<times> kernel_world" where
  "memremap page w = (case kw_next w of
     (None, w1) \<Rightarrow> (None, w1) | (Some base, w1) \<Rightarrow> (Some base, w1\<lparr>kw_maps := base # kw_maps w1\<rparr>))"

definition kmalloc :: "kernel_world \<Rightarrow> uintptr option \<times> kernel_world" where
  "kmalloc w = (case kw_next w of
     (None, w1) \<Rightarrow> (None, w1) | (Some obj, w1) \<Rightarrow> (Some obj, w1\<lparr>kw_objects := obj # kw_objects w1\<rparr>))"

definition free_pages :: "uintptr \<Rightarrow> nat \<Rightarrow> kernel_world \<Rightarrow> kernel_world option" where
  "free_pages page ord w =
     (if (page, ord) \<in> set (kw_pages w) then Some (w\<lparr>kw_pages := remove1 (page, ord) (kw_pages w)\<rparr>) else None)"

definition memunmap :: "uintptr \<Rightarrow> kernel_world \<Rightarrow> kernel_world option" where
  "memunmap base w = (if base \<in> set (kw_maps w) then Some (w\<lparr>kw_maps := remove1 base (kw_maps w)\<rparr>) else None)"

definition kfree :: "uintptr \<Rightarrow> kernel_world \<Rightarrow> kernel_world option" where
  "kfree obj w = (if obj \<in> set (kw_objects w) then Some (w\<lparr>kw_objects := remove1 obj (kw_objects w)\<rparr>) else None)"

section \<open>The state of an open file\<close>

datatype errno = ENOMEM | EIO | EINVAL | EBUSY | EFAULT_bytes nat

record ch_memory_region =
  mr_self :: uintptr
  mr_base :: uintptr
  mr_page :: uintptr
  mr_order :: nat

record ch_state =
  cs_self :: uintptr
  cs_ref_counter :: int
  cs_channels_page :: uintptr
  cs_channels :: uintptr
  cs_active_channel :: uintptr
  cs_started :: nat
  cs_isolation_level :: nat
  cs_evts :: "64 word list"
  cs_regions :: "ch_memory_region list"

definition CH_ISOLATION_OFF :: nat where "CH_ISOLATION_OFF = 0"
definition NR_CH_ISOLATION :: nat where "NR_CH_ISOLATION = 3"

text \<open>The uninitialised event numbers of a new state do not matter, they are set before the agent starts.\<close>

definition alloc_ch_state :: "kernel_world \<Rightarrow> (ch_state option \<times> kernel_world) option" where
  "alloc_ch_state w = (case alloc_pages 0 w of
     (None, w1) \<Rightarrow> Some (None, w1)
   | (Some channels_page, w1) \<Rightarrow> (case memremap channels_page w1 of
       (None, w2) \<Rightarrow> do { w3 \<leftarrow> free_pages channels_page 0 w2; Some (None, w3) }
     | (Some channels, w2) \<Rightarrow> (case kmalloc w2 of
         (None, w3) \<Rightarrow> do { w4 \<leftarrow> memunmap channels w3; w5 \<leftarrow> free_pages channels_page 0 w4; Some (None, w5) }
       | (Some state, w3) \<Rightarrow>
           Some (Some \<lparr>cs_self = state, cs_ref_counter = 1, cs_channels_page = channels_page, cs_channels = channels,
             cs_active_channel = 0, cs_started = 0, cs_isolation_level = CH_ISOLATION_OFF, cs_evts = [],
             cs_regions = []\<rparr>, w3))))"

fun free_regions :: "ch_memory_region list \<Rightarrow> kernel_world \<Rightarrow> kernel_world option" where
  "free_regions [] w = Some w"
| "free_regions (region # rs) w = do {
     w1 \<leftarrow> kfree (mr_self region) w;
     w2 \<leftarrow> memunmap (mr_base region) w1;
     w3 \<leftarrow> free_pages (mr_page region) (mr_order region) w2;
     free_regions rs w3 }"

definition ch_state_free :: "ch_state \<Rightarrow> kernel_world \<Rightarrow> kernel_world option" where
  "ch_state_free st w = do {
     w1 \<leftarrow> free_regions (cs_regions st) w;
     w2 \<leftarrow> kfree (cs_self st) w1;
     w3 \<leftarrow> memunmap (cs_channels st) w2;
     free_pages (cs_channels_page st) 0 w3 }"

definition ch_state_get :: "ch_state \<Rightarrow> ch_state" where
  "ch_state_get st = st\<lparr>cs_ref_counter := cs_ref_counter st + 1\<rparr>"

text \<open>The state that is left, if any.\<close>

definition ch_state_put :: "ch_state \<Rightarrow> kernel_world \<Rightarrow> (ch_state option \<times> kernel_world) option" where
  "ch_state_put st w =
     (let new_ref = cs_ref_counter st - 1 in
      if new_ref = 0 then do { w1 \<leftarrow> ch_state_free st w; Some (None, w1) }
      else Some (Some (st\<lparr>cs_ref_counter := new_ref\<rparr>), w))"

definition ch_state_try_start :: "ch_state \<Rightarrow> bool \<times> ch_state" where
  "ch_state_try_start st = (if cs_started st = 0 then (True, st\<lparr>cs_started := 1\<rparr>) else (False, st))"

definition ch_state_alloc_memory :: "ch_state \<Rightarrow> nat \<Rightarrow> kernel_world \<Rightarrow>
    ((errno + unit) \<times> ch_state \<times> kernel_world) option" where
  "ch_state_alloc_memory st ord w = (case alloc_pages ord w of
     (None, w1) \<Rightarrow> Some (Inl ENOMEM, st, w1)
   | (Some page, w1) \<Rightarrow> (case memremap page w1 of
       (None, w2) \<Rightarrow> do { w3 \<leftarrow> free_pages page ord w2; Some (Inl EIO, st, w3) }
     | (Some base, w2) \<Rightarrow> (case kmalloc w2 of
         (None, w3) \<Rightarrow> do { w4 \<leftarrow> memunmap base w3; w5 \<leftarrow> free_pages page ord w4; Some (Inl ENOMEM, st, w5) }
       | (Some region, w3) \<Rightarrow>
           Some (Inr (), st\<lparr>cs_regions := cs_regions st @ [\<lparr>mr_self = region, mr_base = base, mr_page = page, mr_order = ord\<rparr>]\<rparr>,
             w3))))"

section \<open>File operations\<close>

definition PAGE_SIZE :: nat where "PAGE_SIZE = 4096"
definition NR_CPUS :: nat where "NR_CPUS = 8192"

definition device_open :: "kernel_world \<Rightarrow> ((errno + ch_state) \<times> kernel_world) option" where
  "device_open w = do {
     (state, w1) \<leftarrow> alloc_ch_state w;
     case state of None \<Rightarrow> Some (Inl ENOMEM, w1) | Some st \<Rightarrow> Some (Inr st, w1) }"

text \<open>
  Closing a file with a running agent first waits for the agent's channel to become idle and sends the
  terminating request; \<open>None\<close> also stands for the wait that is not over.
\<close>

definition device_release :: "ch_channel list \<Rightarrow> ch_state \<Rightarrow> kernel_world \<Rightarrow>
    (ch_channel list \<times> ch_state option \<times> kernel_world) option" where
  "device_release chs st w = do {
     chs1 \<leftarrow> (if cs_started st \<noteq> 0 then do {
               ch \<leftarrow> vec_at chs (unat (cs_active_channel st));
               ch1 \<leftarrow> ch_channel_terminate ch;
               vec_set chs (unat (cs_active_channel st)) ch1 }
             else Some chs);
     (st1, w1) \<leftarrow> ch_state_put st w;
     Some (chs1, st1, w1) }"

record ch_ioc_start_config =
  sc_cpu :: nat
  sc_evts :: "64 word list"
  sc_isolation_level :: nat

text \<open>
  A request with the structure the kernel got from the user and the number of bytes \<open>copy_from_user\<close> and
  \<open>copy_to_user\<close> could not copy, which is what these functions return; the answer of \<open>kthread_create\<close>.
\<close>

datatype ioc_request =
  CH_IOC_ALLOC_MEMORY (alloc_order: nat) (not_copied_in: nat) (not_copied_out: nat)
| CH_IOC_CACHE_INFO (not_copied_out: nat)
| CH_IOC_START_AGENT (start_config: ch_ioc_start_config) (not_copied_in: nat) (not_copied_out: nat) (thread: "uintptr option")
| Unknown_request

datatype ioc_reply =
  Alloc_reply (reply_virtual: uintptr) (reply_physical: uintptr)
| Info_reply ch_ioc_cache_info
| Start_reply (reply_channels: uintptr) (reply_active: uintptr) (reply_count: nat)

record cache_geometry =
  geo_levels :: nat
  geo_offset_bits :: nat
  geo_sets :: "nat \<Rightarrow> 32 word"
  geo_ways :: "nat \<Rightarrow> nat"

text \<open>The loop over the levels writes into arrays of three elements.\<close>

fun cache_info_loop :: "cache_geometry \<Rightarrow> nat list \<Rightarrow> ch_ioc_cache_info \<Rightarrow> ch_ioc_cache_info option" where
  "cache_info_loop geo [] info = Some info"
| "cache_info_loop geo (level # ls) info = do {
     sets \<leftarrow> vec_set (ci_sets info) level (geo_sets geo level);
     ways \<leftarrow> vec_set (ci_ways info) level (geo_ways geo level);
     cache_info_loop geo ls (info\<lparr>ci_sets := sets, ci_ways := ways\<rparr>) }"

definition ioctl_cache_info :: "cache_geometry \<Rightarrow> nat \<Rightarrow> (errno + ioc_reply) option" where
  "ioctl_cache_info geo not_copied = do {
     info \<leftarrow> cache_info_loop geo [0..<geo_levels geo]
       \<lparr>ci_levels = geo_levels geo, ci_offset_bits = geo_offset_bits geo, ci_sets = replicate 3 0, ci_ways = replicate 3 0\<rparr>;
     Some (if int not_copied < 0 then Inl (EFAULT_bytes not_copied) else Inr (Info_reply info)) }"

definition ioctl_alloc_memory :: "nat \<Rightarrow> nat \<Rightarrow> nat \<Rightarrow> ch_state \<Rightarrow> kernel_world \<Rightarrow>
    ((errno + ioc_reply) \<times> ch_state \<times> kernel_world) option" where
  "ioctl_alloc_memory ord not_in not_out st w =
     (if int not_in < 0 then Some (Inl (EFAULT_bytes not_in), st, w)
      else do {
        (res, st1, w1) \<leftarrow> ch_state_alloc_memory st ord w;
        case res of
          Inl e \<Rightarrow> Some (Inl e, st1, w1)
        | Inr _ \<Rightarrow> do {
            require (cs_regions st1 \<noteq> []);
            let tail = last (cs_regions st1);
            Some (if int not_out < 0 then Inl (EFAULT_bytes not_out) else Inr (Alloc_reply (mr_base tail) (mr_page tail)), st1, w1) } })"

text \<open>\<open>kthread_bind\<close> of a task that could not be created has no defined result.\<close>

definition ioctl_start_agent :: "ch_ioc_start_config \<Rightarrow> nat \<Rightarrow> nat \<Rightarrow> uintptr option \<Rightarrow> ch_state \<Rightarrow>
    ((errno + ioc_reply) \<times> bool \<times> ch_state) option" where
  "ioctl_start_agent config not_in not_out task st =
     (if cs_regions st = [] then Some (Inl EINVAL, False, st)
      else if int not_in < 0 then Some (Inl (EFAULT_bytes not_in), False, st)
      else if sc_cpu config \<ge> NR_CPUS then Some (Inl EINVAL, False, st)
      else if sc_isolation_level config \<ge> NR_CH_ISOLATION then Some (Inl EINVAL, False, st)
      else case ch_state_try_start st of
        (False, st1) \<Rightarrow> Some (Inl EBUSY, False, st1)
      | (True, st1) \<Rightarrow>
          let st2 = st1\<lparr>cs_isolation_level := sc_isolation_level config, cs_evts := take 3 (sc_evts config)\<rparr> in
          if int not_out < 0 then Some (Inl (EFAULT_bytes not_out), False, st2)
          else do {
            _ \<leftarrow> task;
            Some (Inr (Start_reply (cs_channels st2) (cs_active_channel st2) (PAGE_SIZE div 64)), True, ch_state_get st2) })"

text \<open>The result, whether an agent was started, and the new state.\<close>

definition device_ioctl :: "cache_geometry \<Rightarrow> ioc_request \<Rightarrow> ch_state \<Rightarrow> kernel_world \<Rightarrow>
    ((errno + ioc_reply) \<times> bool \<times> ch_state \<times> kernel_world) option" where
  "device_ioctl geo req st w = (case req of
     CH_IOC_ALLOC_MEMORY ord not_in not_out \<Rightarrow> do {
       (r, st1, w1) \<leftarrow> ioctl_alloc_memory ord not_in not_out st w; Some (r, False, st1, w1) }
   | CH_IOC_CACHE_INFO not_out \<Rightarrow> do { r \<leftarrow> ioctl_cache_info geo not_out; Some (r, False, st, w) }
   | CH_IOC_START_AGENT config not_in not_out task \<Rightarrow> do {
       (r, started, st1) \<leftarrow> ioctl_start_agent config not_in not_out task st; Some (r, started, st1, w) }
   | Unknown_request \<Rightarrow> Some (Inl EINVAL, False, st, w))"

end
