(* ===== verification/CH_Device_Safety.thy ===== *)
theory CH_Device_Safety
  imports CH_Device
begin

text \<open>
  The life of an open device: for every order of file operations and of the agent's exit, and for every
  pattern of failing allocations, the state is freed exactly when its last user is gone, nothing is
  released twice, and nothing stays allocated.
\<close>

section \<open>Resources\<close>

definition owned_pages :: "ch_state \<Rightarrow> (uintptr \<times> nat) list" where
  "owned_pages st = (cs_channels_page st, 0) # map (\<lambda>r. (mr_page r, mr_order r)) (cs_regions st)"

definition owned_maps :: "ch_state \<Rightarrow> uintptr list" where
  "owned_maps st = cs_channels st # map mr_base (cs_regions st)"

definition owned_objects :: "ch_state \<Rightarrow> uintptr list" where
  "owned_objects st = cs_self st # map mr_self (cs_regions st)"

text \<open>The live resources of \<open>w\<close> are those of \<open>w0\<close>, or those and the ones the state owns.\<close>

definition same_resources :: "kernel_world \<Rightarrow> kernel_world \<Rightarrow> bool" where
  "same_resources w0 w \<longleftrightarrow> mset (kw_pages w) = mset (kw_pages w0) \<and> mset (kw_maps w) = mset (kw_maps w0) \<and>
     mset (kw_objects w) = mset (kw_objects w0)"

definition holds :: "kernel_world \<Rightarrow> ch_state \<Rightarrow> kernel_world \<Rightarrow> bool" where
  "holds w0 st w \<longleftrightarrow> mset (kw_pages w) = mset (owned_pages st) + mset (kw_pages w0) \<and>
     mset (kw_maps w) = mset (owned_maps st) + mset (kw_maps w0) \<and>
     mset (kw_objects w) = mset (owned_objects st) + mset (kw_objects w0)"

lemma same_resources_refl [simp]: "same_resources w w"
  by (simp add: same_resources_def)

lemma same_resources_trans: "same_resources w w' \<Longrightarrow> same_resources w' w'' \<Longrightarrow> same_resources w w''"
  by (simp add: same_resources_def)

lemma holds_same: "same_resources w w' \<Longrightarrow> holds w0 st w' = holds w0 st w"
  by (simp add: holds_def same_resources_def)

lemma kw_next_same: "kw_next w = (a, w1) \<Longrightarrow>
    kw_pages w1 = kw_pages w \<and> kw_maps w1 = kw_maps w \<and> kw_objects w1 = kw_objects w"
  by (auto simp: kw_next_def split: list.splits)

lemma free_pages_ok:
  assumes "mset (kw_pages w) = add_mset (page, ord) P"
  shows "\<exists>w'. free_pages page ord w = Some w' \<and> mset (kw_pages w') = P \<and> kw_maps w' = kw_maps w \<and> kw_objects w' = kw_objects w"
proof -
  have "(page, ord) \<in> set (kw_pages w)" using assms by (metis set_mset_mset union_single_eq_member)
  with assms show ?thesis by (simp add: free_pages_def)
qed

lemma memunmap_ok:
  assumes "mset (kw_maps w) = add_mset base M"
  shows "\<exists>w'. memunmap base w = Some w' \<and> mset (kw_maps w') = M \<and> kw_pages w' = kw_pages w \<and> kw_objects w' = kw_objects w"
proof -
  have "base \<in> set (kw_maps w)" using assms by (metis set_mset_mset union_single_eq_member)
  with assms show ?thesis by (simp add: memunmap_def)
qed

lemma kfree_ok:
  assumes "mset (kw_objects w) = add_mset obj Q"
  shows "\<exists>w'. kfree obj w = Some w' \<and> mset (kw_objects w') = Q \<and> kw_pages w' = kw_pages w \<and> kw_maps w' = kw_maps w"
proof -
  have "obj \<in> set (kw_objects w)" using assms by (metis set_mset_mset union_single_eq_member)
  with assms show ?thesis by (simp add: kfree_def)
qed

text \<open>A page, a mapping and an object, or nothing: the pattern both allocating functions follow.\<close>

lemma alloc_pages_cases:
  obtains w1 where "alloc_pages ord w = (None, w1)" "same_resources w w1"
  | page w1 where "alloc_pages ord w = (Some page, w1)" "kw_pages w1 = (page, ord) # kw_pages w"
      "kw_maps w1 = kw_maps w" "kw_objects w1 = kw_objects w"
proof (cases "kw_next w")
  case (Pair a w1)
  then show ?thesis using that kw_next_same [OF Pair] by (cases a) (auto simp: alloc_pages_def same_resources_def)
qed

lemma memremap_cases:
  obtains w1 where "memremap page w = (None, w1)" "kw_pages w1 = kw_pages w" "kw_maps w1 = kw_maps w" "kw_objects w1 = kw_objects w"
  | base w1 where "memremap page w = (Some base, w1)" "kw_pages w1 = kw_pages w" "kw_maps w1 = base # kw_maps w"
      "kw_objects w1 = kw_objects w"
proof (cases "kw_next w")
  case (Pair a w1)
  then show ?thesis using that kw_next_same [OF Pair] by (cases a) (auto simp: memremap_def)
qed

lemma kmalloc_cases:
  obtains w1 where "kmalloc w = (None, w1)" "kw_pages w1 = kw_pages w" "kw_maps w1 = kw_maps w" "kw_objects w1 = kw_objects w"
  | obj w1 where "kmalloc w = (Some obj, w1)" "kw_pages w1 = kw_pages w" "kw_maps w1 = kw_maps w"
      "kw_objects w1 = obj # kw_objects w"
proof (cases "kw_next w")
  case (Pair a w1)
  then show ?thesis using that kw_next_same [OF Pair] by (cases a) (auto simp: kmalloc_def)
qed

lemma release_page_map:
  assumes "kw_pages w = (page, ord) # P" and "kw_maps w = base # M"
  shows "\<exists>w' w''. memunmap base w = Some w' \<and> free_pages page ord w' = Some w'' \<and>
    mset (kw_pages w'') = mset P \<and> mset (kw_maps w'') = mset M \<and> kw_objects w'' = kw_objects w"
proof -
  obtain w1 where w1: "memunmap base w = Some w1" "mset (kw_maps w1) = mset M" "kw_pages w1 = kw_pages w" "kw_objects w1 = kw_objects w"
    using memunmap_ok [of w base "mset M"] assms(2) by auto
  obtain w2 where "free_pages page ord w1 = Some w2" "mset (kw_pages w2) = mset P" "kw_maps w2 = kw_maps w1" "kw_objects w2 = kw_objects w1"
    using free_pages_ok [of w1 page ord "mset P"] assms(1) w1(3) by auto
  with w1 show ?thesis by auto
qed

lemma alloc_ch_state_ok:
  "\<exists>r w'. alloc_ch_state w = Some (r, w') \<and>
     (case r of None \<Rightarrow> same_resources w w'
      | Some st \<Rightarrow> holds w st w' \<and> cs_ref_counter st = 1 \<and> cs_started st = 0 \<and> cs_regions st = [] \<and> cs_active_channel st = 0)"
proof (cases rule: alloc_pages_cases [of 0 w])
  case (1 w1)
  then show ?thesis by (simp add: alloc_ch_state_def)
next
  case (2 page w1)
  show ?thesis
  proof (cases rule: memremap_cases [of page w1])
    case (1 w2)
    obtain w3 where "free_pages page 0 w2 = Some w3" "mset (kw_pages w3) = mset (kw_pages w)"
      "kw_maps w3 = kw_maps w2" "kw_objects w3 = kw_objects w2"
      using free_pages_ok [of w2 page 0 "mset (kw_pages w)"] 1 2 by auto
    with 1 2 show ?thesis by (auto simp: alloc_ch_state_def same_resources_def)
  next
    case (2 base w2)
    note m = 2 \<open>alloc_pages 0 w = (Some page, w1)\<close> \<open>kw_pages w1 = (page, 0) # kw_pages w\<close> \<open>kw_maps w1 = kw_maps w\<close> \<open>kw_objects w1 = kw_objects w\<close>
    show ?thesis
    proof (cases rule: kmalloc_cases [of w2])
      case (1 w3)
      obtain w4 w5 where "memunmap base w3 = Some w4" "free_pages page 0 w4 = Some w5"
        "mset (kw_pages w5) = mset (kw_pages w)" "mset (kw_maps w5) = mset (kw_maps w)" "kw_objects w5 = kw_objects w3"
        using release_page_map [of w3 page 0 "kw_pages w" base "kw_maps w"] 1 m by auto
      with 1 m show ?thesis by (auto simp: alloc_ch_state_def same_resources_def)
    next
      case (2 obj w3)
      with m show ?thesis
        by (simp add: alloc_ch_state_def holds_def owned_pages_def owned_maps_def owned_objects_def)
    qed
  qed
qed

lemma alloc_memory_ok:
  assumes h: "holds w0 st w"
  shows "\<exists>r st' w'. ch_state_alloc_memory st ord w = Some (r, st', w') \<and> holds w0 st' w' \<and>
    cs_ref_counter st' = cs_ref_counter st \<and> cs_started st' = cs_started st \<and>
    (case r of Inl _ \<Rightarrow> st' = st | Inr _ \<Rightarrow> cs_regions st' \<noteq> [] \<and> mr_order (last (cs_regions st')) = ord)"
proof (cases rule: alloc_pages_cases [of ord w])
  case (1 w1)
  then show ?thesis using h holds_same by (simp add: ch_state_alloc_memory_def)
next
  case (2 page w1)
  show ?thesis
  proof (cases rule: memremap_cases [of page w1])
    case (1 w2)
    obtain w3 where "free_pages page ord w2 = Some w3" "mset (kw_pages w3) = mset (kw_pages w)"
      "kw_maps w3 = kw_maps w2" "kw_objects w3 = kw_objects w2"
      using free_pages_ok [of w2 page ord "mset (kw_pages w)"] 1 2 by auto
    with 1 2 h show ?thesis by (auto simp: ch_state_alloc_memory_def holds_def)
  next
    case (2 base w2)
    note m = 2 \<open>alloc_pages ord w = (Some page, w1)\<close> \<open>kw_pages w1 = (page, ord) # kw_pages w\<close> \<open>kw_maps w1 = kw_maps w\<close> \<open>kw_objects w1 = kw_objects w\<close>
    show ?thesis
    proof (cases rule: kmalloc_cases [of w2])
      case (1 w3)
      obtain w4 w5 where "memunmap base w3 = Some w4" "free_pages page ord w4 = Some w5"
        "mset (kw_pages w5) = mset (kw_pages w)" "mset (kw_maps w5) = mset (kw_maps w)" "kw_objects w5 = kw_objects w3"
        using release_page_map [of w3 page ord "kw_pages w" base "kw_maps w"] 1 m by auto
      with 1 m h show ?thesis by (auto simp: ch_state_alloc_memory_def holds_def)
    next
      case (2 obj w3)
      with m h show ?thesis
        by (simp add: ch_state_alloc_memory_def holds_def owned_pages_def owned_maps_def owned_objects_def)
    qed
  qed
qed

lemma free_regions_ok:
  assumes "mset (kw_pages w) = mset (map (\<lambda>r. (mr_page r, mr_order r)) rs) + P"
    and "mset (kw_maps w) = mset (map mr_base rs) + M" and "mset (kw_objects w) = mset (map mr_self rs) + Q"
  shows "\<exists>w'. free_regions rs w = Some w' \<and> mset (kw_pages w') = P \<and> mset (kw_maps w') = M \<and> mset (kw_objects w') = Q"
  using assms
proof (induction rs arbitrary: w)
  case (Cons r rs)
  obtain w1 where w1: "kfree (mr_self r) w = Some w1" "mset (kw_objects w1) = mset (map mr_self rs) + Q"
    "kw_pages w1 = kw_pages w" "kw_maps w1 = kw_maps w"
    using kfree_ok [of w "mr_self r" "mset (map mr_self rs) + Q"] Cons.prems(3) by auto
  obtain w2 where w2: "memunmap (mr_base r) w1 = Some w2" "mset (kw_maps w2) = mset (map mr_base rs) + M"
    "kw_pages w2 = kw_pages w1" "kw_objects w2 = kw_objects w1"
    using memunmap_ok [of w1 "mr_base r" "mset (map mr_base rs) + M"] Cons.prems(2) w1(4) by auto
  obtain w3 where w3: "free_pages (mr_page r) (mr_order r) w2 = Some w3"
    "mset (kw_pages w3) = mset (map (\<lambda>r. (mr_page r, mr_order r)) rs) + P" "kw_maps w3 = kw_maps w2" "kw_objects w3 = kw_objects w2"
    using free_pages_ok [of w2 "mr_page r" "mr_order r" "mset (map (\<lambda>r. (mr_page r, mr_order r)) rs) + P"]
      Cons.prems(1) w1(3) w2(3) by auto
  have "\<exists>w'. free_regions rs w3 = Some w' \<and> mset (kw_pages w') = P \<and> mset (kw_maps w') = M \<and> mset (kw_objects w') = Q"
    using w1 w2 w3 by (intro Cons.IH) simp_all
  then show ?case using w1(1) w2(1) w3(1) by simp
qed simp

lemma ch_state_free_ok:
  assumes "holds w0 st w"
  shows "\<exists>w'. ch_state_free st w = Some w' \<and> same_resources w0 w'"
proof -
  obtain w1 where w1: "free_regions (cs_regions st) w = Some w1"
    "mset (kw_pages w1) = add_mset (cs_channels_page st, 0) (mset (kw_pages w0))"
    "mset (kw_maps w1) = add_mset (cs_channels st) (mset (kw_maps w0))"
    "mset (kw_objects w1) = add_mset (cs_self st) (mset (kw_objects w0))"
    using free_regions_ok [of w "cs_regions st" "add_mset (cs_channels_page st, 0) (mset (kw_pages w0))"
        "add_mset (cs_channels st) (mset (kw_maps w0))" "add_mset (cs_self st) (mset (kw_objects w0))"] assms
    by (auto simp: holds_def owned_pages_def owned_maps_def owned_objects_def)
  obtain w2 where w2: "kfree (cs_self st) w1 = Some w2" "mset (kw_objects w2) = mset (kw_objects w0)"
    "kw_pages w2 = kw_pages w1" "kw_maps w2 = kw_maps w1" using kfree_ok [OF w1(4)] by auto
  obtain w3 where w3: "memunmap (cs_channels st) w2 = Some w3" "mset (kw_maps w3) = mset (kw_maps w0)"
    "kw_pages w3 = kw_pages w2" "kw_objects w3 = kw_objects w2"
    using memunmap_ok [of w2 "cs_channels st" "mset (kw_maps w0)"] w1(3) w2(4) by auto
  obtain w4 where "free_pages (cs_channels_page st) 0 w3 = Some w4" "mset (kw_pages w4) = mset (kw_pages w0)"
    "kw_maps w4 = kw_maps w3" "kw_objects w4 = kw_objects w3"
    using free_pages_ok [of w3 "cs_channels_page st" 0 "mset (kw_pages w0)"] w1(2) w2(3) w3(3) by auto
  with w1 w2 w3 show ?thesis by (auto simp: ch_state_free_def same_resources_def)
qed

section \<open>The life of a device\<close>

record dev_system =
  dv_file :: bool
  dv_agent :: bool
  dv_state :: "ch_state option"
  dv_channels :: "ch_channel list"
  dv_world :: kernel_world

text \<open>
  The steps of a device: the file is opened, used and closed, the agent leaves its loop and drops its
  reference, and process and agent change the channels in the shared page in any way.
\<close>

inductive dev_step :: "cache_geometry \<Rightarrow> dev_system \<Rightarrow> dev_system \<Rightarrow> bool" for geo where
  open_ok: "\<not> dv_file s \<Longrightarrow> \<not> dv_agent s \<Longrightarrow> device_open (dv_world s) = Some (Inr st, w) \<Longrightarrow>
     dev_step geo s (s\<lparr>dv_file := True, dv_state := Some st, dv_world := w\<rparr>)"
| open_fail: "\<not> dv_file s \<Longrightarrow> \<not> dv_agent s \<Longrightarrow> device_open (dv_world s) = Some (Inl e, w) \<Longrightarrow>
     dev_step geo s (s\<lparr>dv_world := w\<rparr>)"
| ioctl: "dv_file s \<Longrightarrow> dv_state s = Some st \<Longrightarrow> device_ioctl geo req st (dv_world s) = Some (r, started, st', w) \<Longrightarrow>
     dev_step geo s (s\<lparr>dv_agent := (dv_agent s \<or> started), dv_state := Some st', dv_world := w\<rparr>)"
| release: "dv_file s \<Longrightarrow> dv_state s = Some st \<Longrightarrow> device_release (dv_channels s) st (dv_world s) = Some (chs, st', w) \<Longrightarrow>
     dev_step geo s (s\<lparr>dv_file := False, dv_state := st', dv_channels := chs, dv_world := w\<rparr>)"
| agent_exit: "dv_agent s \<Longrightarrow> dv_state s = Some st \<Longrightarrow> ch_state_put st (dv_world s) = Some (st', w) \<Longrightarrow>
     dev_step geo s (s\<lparr>dv_agent := False, dv_state := st', dv_world := w\<rparr>)"
| channels: "dev_step geo s (s\<lparr>dv_channels := chs\<rparr>)"

inductive_cases dev_stepE: "dev_step geo s s'"

definition dev_inv :: "kernel_world \<Rightarrow> dev_system \<Rightarrow> bool" where
  "dev_inv w0 s \<longleftrightarrow> (case dv_state s of
     None \<Rightarrow> \<not> dv_file s \<and> \<not> dv_agent s \<and> same_resources w0 (dv_world s)
   | Some st \<Rightarrow> (dv_file s \<or> dv_agent s) \<and> holds w0 st (dv_world s) \<and>
       cs_ref_counter st = of_bool (dv_file s) + of_bool (dv_agent s) \<and> (dv_agent s \<longrightarrow> cs_started st \<noteq> 0))"

lemma holds_cong:
  "cs_self st' = cs_self st \<Longrightarrow> cs_channels_page st' = cs_channels_page st \<Longrightarrow> cs_channels st' = cs_channels st \<Longrightarrow>
   cs_regions st' = cs_regions st \<Longrightarrow> holds w0 st' w = holds w0 st w"
  by (simp add: holds_def owned_pages_def owned_maps_def owned_objects_def)

lemma put_ok:
  assumes "holds w0 st w" and "1 \<le> cs_ref_counter st"
  shows "\<exists>r w'. ch_state_put st w = Some (r, w') \<and>
    (if cs_ref_counter st = 1 then r = None \<and> same_resources w0 w'
     else r = Some (st\<lparr>cs_ref_counter := cs_ref_counter st - 1\<rparr>) \<and> w' = w)"
  using ch_state_free_ok [OF assms(1)] by (auto simp: ch_state_put_def Let_def)

lemma holds_base: "same_resources w0 w1 \<Longrightarrow> holds w1 st w = holds w0 st w"
  by (simp add: holds_def same_resources_def)

lemma start_cases:
  assumes "ioctl_start_agent config i j task st = Some (r, started, st')"
  shows "(\<not> started \<and> holds w0 st' w = holds w0 st w \<and> cs_ref_counter st' = cs_ref_counter st \<and> (cs_started st \<noteq> 0 \<longrightarrow> cs_started st' \<noteq> 0)) \<or>
    (started \<and> holds w0 st' w = holds w0 st w \<and> cs_started st = 0 \<and> cs_started st' \<noteq> 0 \<and> cs_ref_counter st' = cs_ref_counter st + 1)"
  using assms
  by (auto simp: ioctl_start_agent_def ch_state_try_start_def ch_state_get_def Let_def bind_eq_Some_conv
      holds_def owned_pages_def owned_maps_def owned_objects_def split: if_splits)

lemma ioctl_ok:
  assumes "holds w0 st w" and "device_ioctl geo req st w = Some (r, started, st', w')"
  shows "holds w0 st' w' \<and>
    (\<not> started \<and> cs_ref_counter st' = cs_ref_counter st \<and> (cs_started st \<noteq> 0 \<longrightarrow> cs_started st' \<noteq> 0) \<or>
     started \<and> cs_started st = 0 \<and> cs_started st' \<noteq> 0 \<and> cs_ref_counter st' = cs_ref_counter st + 1)"
proof (cases req)
  case (CH_IOC_ALLOC_MEMORY ord i j)
  obtain q st1 w1 where "ch_state_alloc_memory st ord w = Some (q, st1, w1)" "holds w0 st1 w1"
    "cs_ref_counter st1 = cs_ref_counter st" "cs_started st1 = cs_started st"
    using alloc_memory_ok [OF assms(1), of ord] by blast
  then show ?thesis using assms(2) CH_IOC_ALLOC_MEMORY
    by (auto simp: device_ioctl_def ioctl_alloc_memory_def bind_eq_Some_conv Let_def split: sum.splits)
next
  case (CH_IOC_CACHE_INFO j)
  then show ?thesis using assms by (auto simp: device_ioctl_def bind_eq_Some_conv)
next
  case (CH_IOC_START_AGENT config i j task)
  then have "ioctl_start_agent config i j task st = Some (r, started, st')" "w' = w"
    using assms(2) by (auto simp: device_ioctl_def bind_eq_Some_conv)
  then show ?thesis using start_cases assms(1) by blast
next
  case Unknown_request
  then show ?thesis using assms by (auto simp: device_ioctl_def)
qed

lemma dev_step_inv:
  assumes "dev_step geo s s'" and "dev_inv w0 s"
  shows "dev_inv w0 s'"
  using assms
proof (cases rule: dev_step.cases)
  case (open_ok st w)
  have none: "dv_state s = None" "same_resources w0 (dv_world s)" using assms(2) open_ok by (auto simp: dev_inv_def split: option.splits)
  then show ?thesis using open_ok alloc_ch_state_ok [of "dv_world s"] holds_base [OF none(2)]
    by (auto simp: dev_inv_def device_open_def split: option.splits)
next
  case (open_fail e w)
  have none: "dv_state s = None" "same_resources w0 (dv_world s)" using assms(2) open_fail by (auto simp: dev_inv_def split: option.splits)
  then show ?thesis using open_fail alloc_ch_state_ok [of "dv_world s"] same_resources_trans [OF none(2)]
    by (auto simp: dev_inv_def device_open_def split: option.splits)
next
  case (ioctl st req r started st' w)
  have "holds w0 st (dv_world s)" using assms(2) ioctl by (simp add: dev_inv_def)
  from ioctl_ok [OF this ioctl(4)] show ?thesis using assms(2) ioctl by (auto simp: dev_inv_def)
next
  case (release st chs st' w)
  then have h: "holds w0 st (dv_world s)" "cs_ref_counter st = 1 + of_bool (dv_agent s)" "dv_agent s \<longrightarrow> cs_started st \<noteq> 0"
    using assms(2) by (auto simp: dev_inv_def)
  have "ch_state_put st (dv_world s) = Some (st', w)" using release by (auto simp: device_release_def bind_eq_Some_conv)
  then show ?thesis using release h put_ok [OF h(1)] holds_cong [of "st\<lparr>cs_ref_counter := cs_ref_counter st - 1\<rparr>" st w0]
    by (cases "dv_agent s") (auto simp: dev_inv_def)
next
  case (agent_exit st st' w)
  then have h: "holds w0 st (dv_world s)" "cs_ref_counter st = 1 + of_bool (dv_file s)"
    using assms(2) by (auto simp: dev_inv_def)
  then show ?thesis using agent_exit put_ok [OF h(1)] holds_cong [of "st\<lparr>cs_ref_counter := cs_ref_counter st - 1\<rparr>" st w0]
    by (cases "dv_file s") (auto simp: dev_inv_def)
next
  case (channels chs)
  then show ?thesis using assms(2) by (cases "dv_state s") (simp_all add: dev_inv_def)
qed

definition dev_closed :: "dev_system \<Rightarrow> bool" where
  "dev_closed s \<longleftrightarrow> \<not> dv_file s \<and> \<not> dv_agent s \<and> dv_state s = None"

lemma dev_reachable_inv:
  assumes "(dev_step geo)\<^sup>*\<^sup>* s0 s" and "dev_closed s0"
  shows "dev_inv (dv_world s0) s"
  using assms(1)
proof (induction rule: rtranclp_induct)
  case base
  then show ?case using assms(2) by (simp add: dev_inv_def dev_closed_def)
next
  case (step s s')
  then show ?case using dev_step_inv by blast
qed

text \<open>
  C11. In every state a device can reach, its state exists exactly as long as the file is open or the agent
  runs; once both are gone all pages, mappings and objects allocated in between have been released, whichever
  allocations failed on the way. Dropping a reference never releases a resource twice, and closing the
  file succeeds as soon as the active channel is idle.
\<close>

theorem device_lifecycle_safe:
  assumes "(dev_step geo)\<^sup>*\<^sup>* s0 s" and "dev_closed s0"
  shows "(dv_state s = None \<longleftrightarrow> \<not> dv_file s \<and> \<not> dv_agent s) \<and>
    (dv_state s = None \<longrightarrow> same_resources (dv_world s0) (dv_world s)) \<and>
    (\<forall>st. dv_state s = Some st \<longrightarrow> ch_state_put st (dv_world s) \<noteq> None \<and>
       (dv_file s \<longrightarrow> unat (cs_active_channel st) < length (dv_channels s) \<longrightarrow>
        ch_control (dv_channels s ! unat (cs_active_channel st)) = 0 \<longrightarrow> device_release (dv_channels s) st (dv_world s) \<noteq> None))"
proof -
  have inv: "dev_inv (dv_world s0) s" using dev_reachable_inv [OF assms] .
  have put: "\<exists>r. ch_state_put st (dv_world s) = Some r" if "dv_state s = Some st" for st
  proof -
    have "holds (dv_world s0) st (dv_world s)" "1 \<le> cs_ref_counter st" using inv that by (auto simp: dev_inv_def)
    then show ?thesis using put_ok by blast
  qed
  have "device_release (dv_channels s) st (dv_world s) \<noteq> None"
    if "dv_state s = Some st" "unat (cs_active_channel st) < length (dv_channels s)"
      "ch_control (dv_channels s ! unat (cs_active_channel st)) = 0" for st
    using that put [OF that(1)] by (auto simp: device_release_def ch_channel_terminate_def CH_CHANNEL_IDLE_def)
  then show ?thesis using inv put by (auto simp: dev_inv_def split: option.splits)
qed

text \<open>A run with a failing and a successful allocation, in which the file is closed before the agent leaves.\<close>

definition run_world :: kernel_world where
  "run_world = \<lparr>kw_answers = [Some 0x1000, Some 0x2000, Some 0x3000, Some 0x8000, None, Some 0x9000, Some 0xA000, Some 0xB000],
     kw_pages = [], kw_maps = [], kw_objects = []\<rparr>"

definition run_start :: dev_system where
  "run_start = \<lparr>dv_file = False, dv_agent = False, dv_state = None,
     dv_channels = replicate 64 \<lparr>ch_control = 0, ch_data = replicate 7 0\<rparr>, dv_world = run_world\<rparr>"

definition one_level :: cache_geometry where
  "one_level = \<lparr>geo_levels = 1, geo_offset_bits = 6, geo_sets = (\<lambda>_. 64), geo_ways = (\<lambda>_. 8)\<rparr>"

lemmas device_eval = device_open_def alloc_ch_state_def alloc_pages_def memremap_def kmalloc_def kw_next_def free_pages_def
  memunmap_def kfree_def device_ioctl_def ioctl_alloc_memory_def ch_state_alloc_memory_def ioctl_start_agent_def
  ch_state_try_start_def ch_state_get_def device_release_def ch_state_put_def ch_state_free_def ch_channel_terminate_def
  CH_CHANNEL_IDLE_def CH_CHANNEL_ACCESS_def NR_CPUS_def NR_CH_ISOLATION_def run_world_def

theorem device_lifecycle_safe_witness:
  "\<exists>s. (dev_step one_level)\<^sup>*\<^sup>* run_start s \<and> dv_state s = None \<and> kw_answers (dv_world s) = [] \<and> same_resources run_world (dv_world s)"
proof -
  let ?st = "\<lparr>cs_self = 0x3000, cs_ref_counter = 1, cs_channels_page = 0x1000, cs_channels = 0x2000, cs_active_channel = 0,
     cs_started = 0, cs_isolation_level = CH_ISOLATION_OFF, cs_evts = [], cs_regions = []\<rparr>"
  let ?w1 = "\<lparr>kw_answers = [Some 0x8000, None, Some 0x9000, Some 0xA000, Some 0xB000],
     kw_pages = [(0x1000, 0)], kw_maps = [0x2000], kw_objects = [0x3000]\<rparr> :: kernel_world"
  let ?w2 = "?w1\<lparr>kw_answers := [Some 0x9000, Some 0xA000, Some 0xB000]\<rparr>"
  let ?w3 = "\<lparr>kw_answers = [], kw_pages = [(0x9000, 2), (0x1000, 0)], kw_maps = [0xA000, 0x2000], kw_objects = [0xB000, 0x3000]\<rparr> :: kernel_world"
  let ?st3 = "?st\<lparr>cs_regions := [\<lparr>mr_self = 0xB000, mr_base = 0xA000, mr_page = 0x9000, mr_order = 2\<rparr>]\<rparr>"
  let ?cfg = "\<lparr>sc_cpu = 1, sc_evts = [5, 6, 0], sc_isolation_level = 1\<rparr>"
  let ?st4 = "?st3\<lparr>cs_started := 1, cs_isolation_level := 1, cs_evts := [5, 6, 0], cs_ref_counter := 2\<rparr>"
  let ?chs = "(dv_channels run_start)[0 := \<lparr>ch_control = 1, ch_data = replicate 7 0\<rparr>]"
  define s1 where "s1 = run_start\<lparr>dv_file := True, dv_state := Some ?st, dv_world := ?w1\<rparr>"
  define s2 where "s2 = s1\<lparr>dv_agent := (dv_agent s1 \<or> False), dv_state := Some ?st, dv_world := ?w2\<rparr>"
  define s3 where "s3 = s2\<lparr>dv_agent := (dv_agent s2 \<or> False), dv_state := Some ?st3, dv_world := ?w3\<rparr>"
  define s4 where "s4 = s3\<lparr>dv_agent := (dv_agent s3 \<or> True), dv_state := Some ?st4, dv_world := ?w3\<rparr>"
  define s5 where "s5 = s4\<lparr>dv_file := False, dv_state := Some (?st4\<lparr>cs_ref_counter := 1\<rparr>), dv_channels := ?chs, dv_world := ?w3\<rparr>"
  define s6 where "s6 = s5\<lparr>dv_agent := False, dv_state := None, dv_world := run_world\<lparr>kw_answers := []\<rparr>\<rparr>"
  have 1: "dev_step one_level run_start s1" unfolding s1_def
    by (rule open_ok) (simp_all add: run_start_def device_eval)
  have 2: "dev_step one_level s1 s2" unfolding s2_def
    by (rule ioctl [of _ ?st _ "CH_IOC_ALLOC_MEMORY 6 0 0" "Inl EIO"]) (simp_all add: s1_def device_eval)
  have 3: "dev_step one_level s2 s3" unfolding s3_def
    by (rule ioctl [of _ ?st _ "CH_IOC_ALLOC_MEMORY 2 0 0" "Inr (Alloc_reply 0xA000 0x9000)"]) (simp_all add: s1_def s2_def device_eval)
  have 4: "dev_step one_level s3 s4" unfolding s4_def
    by (rule ioctl [of _ ?st3 _ "CH_IOC_START_AGENT ?cfg 0 0 (Some 7)" "Inr (Start_reply 0x2000 0 (PAGE_SIZE div 64))"])
      (simp_all add: s1_def s2_def s3_def device_eval)
  have 5: "dev_step one_level s4 s5" unfolding s5_def
    by (rule release [of _ ?st4]) (simp_all add: s1_def s2_def s3_def s4_def run_start_def device_eval)
  have 6: "dev_step one_level s5 s6" unfolding s6_def
    by (rule agent_exit [of _ "?st4\<lparr>cs_ref_counter := 1\<rparr>"]) (simp_all add: s1_def s2_def s3_def s4_def s5_def device_eval)
  have steps: "(dev_step one_level)\<^sup>*\<^sup>* run_start s6" using 1 2 3 4 5 6 by (meson rtranclp.rtrancl_into_rtrancl rtranclp.rtrancl_refl)
  have "dev_closed run_start" by (simp add: dev_closed_def run_start_def)
  from device_lifecycle_safe [OF steps this] have "same_resources run_world (dv_world s6)"
    by (simp add: s6_def run_start_def)
  then show ?thesis using steps by (intro exI [of _ s6]) (simp add: s6_def)
qed

end
