(* ===== verification/CH_Refcount.thy ===== *)
theory CH_Refcount
  imports CH_Prelude "HOL-Library.Multiset"
begin

text \<open>
  The reference counter of the kernel state under concurrency: several threads run \<open>ch_state_put\<close> of
  \<open>kernel/cachehound.c\<close> at the same time. Each reads the counter, tries to exchange it for one less, and
  starts again when another thread was faster; the one that stores 0 frees the state.
\<close>

section \<open>Steps\<close>

datatype put_pc = Put_start | Put_read int | Put_done int

inductive put_step :: "int \<times> put_pc list \<Rightarrow> int \<times> put_pc list \<Rightarrow> bool" where
  read: "i < length pcs \<Longrightarrow> pcs ! i = Put_start \<Longrightarrow> put_step (ref, pcs) (ref, pcs[i := Put_read ref])"
| cmpxchg_ok: "i < length pcs \<Longrightarrow> pcs ! i = Put_read old_ref \<Longrightarrow> ref = old_ref \<Longrightarrow>
     put_step (ref, pcs) (old_ref - 1, pcs[i := Put_done (old_ref - 1)])"
| cmpxchg_fail: "i < length pcs \<Longrightarrow> pcs ! i = Put_read old_ref \<Longrightarrow> ref \<noteq> old_ref \<Longrightarrow>
     put_step (ref, pcs) (ref, pcs[i := Put_start])"

inductive_cases put_stepE: "put_step (ref, pcs) s'"

fun done_value :: "put_pc \<Rightarrow> int option" where
  "done_value (Put_done v) = Some v"
| "done_value _ = None"

fun done_values :: "put_pc list \<Rightarrow> int list" where
  "done_values [] = []"
| "done_values (pc # pcs) = (case done_value pc of None \<Rightarrow> done_values pcs | Some v \<Rightarrow> v # done_values pcs)"

section \<open>Exactly one thread frees\<close>

lemma done_values_append: "done_values (xs @ ys) = done_values xs @ done_values ys"
  by (induction xs) (auto split: option.splits)

lemma done_values_update:
  assumes "i < length pcs" and "done_value (pcs ! i) = None"
  shows "mset (done_values (pcs[i := pc])) = (case done_value pc of None \<Rightarrow> {#} | Some v \<Rightarrow> {#v#}) + mset (done_values pcs)"
    and "length (done_values pcs) < length pcs"
proof -
  have split: "pcs = take i pcs @ pcs ! i # drop (Suc i) pcs" using id_take_nth_drop [OF assms(1)] .
  have vals: "done_values pcs = done_values (take i pcs) @ done_values (drop (Suc i) pcs)"
    using arg_cong [OF split, of done_values] assms(2) by (simp add: done_values_append)
  have "pcs[i := pc] = take i pcs @ pc # drop (Suc i) pcs" using assms(1) by (simp add: upd_conv_take_nth_drop)
  then show "mset (done_values (pcs[i := pc])) = (case done_value pc of None \<Rightarrow> {#} | Some v \<Rightarrow> {#v#}) + mset (done_values pcs)"
    using vals by (auto simp: done_values_append split: option.splits)
  have le: "length (done_values xs) \<le> length xs" for xs by (induction xs) (auto split: option.splits)
  have "length (done_values pcs) \<le> length (take i pcs) + length (drop (Suc i) pcs)"
    using vals le [of "take i pcs"] le [of "drop (Suc i) pcs"] by (metis add_mono length_append)
  also have "\<dots> < length pcs" using assms(1) by simp
  finally show "length (done_values pcs) < length pcs" .
qed

definition put_inv :: "nat \<Rightarrow> int \<times> put_pc list \<Rightarrow> bool" where
  "put_inv n s \<longleftrightarrow> (case s of (ref, pcs) \<Rightarrow>
     length pcs = n \<and> 0 \<le> ref \<and> ref \<le> int n \<and> mset (done_values pcs) = mset [ref..int n - 1])"

lemma put_inv_count:
  assumes "put_inv n (ref, pcs)"
  shows "int (length (done_values pcs)) = int n - ref"
proof -
  have r: "mset (done_values pcs) = mset [ref..int n - 1]" "0 \<le> ref" "ref \<le> int n" using assms by (simp_all add: put_inv_def)
  have "length (done_values pcs) = length [ref..int n - 1]" using mset_eq_length [OF r(1)] .
  then show ?thesis using r(2,3) by simp
qed

lemma put_step_inv:
  assumes "put_step s s'" and "put_inv n s"
  shows "put_inv n s'"
  using assms
proof (cases rule: put_step.cases)
  case (read i pcs ref)
  then show ?thesis using assms(2) done_values_update(1) [of i pcs "Put_read ref"] by (simp add: put_inv_def)
next
  case (cmpxchg_ok i pcs old ref)
  have pos: "1 \<le> ref" using put_inv_count [of n ref pcs] done_values_update(2) [of i pcs] cmpxchg_ok assms(2)
    by (auto simp: put_inv_def)
  have "[ref - 1..int n - 1] = (ref - 1) # [ref..int n - 1]"
    using assms(2) cmpxchg_ok(1) by (subst upto_rec1) (auto simp: put_inv_def)
  then show ?thesis using assms(2) pos cmpxchg_ok done_values_update(1) [of i pcs "Put_done (ref - 1)"]
    by (simp add: put_inv_def)
next
  case (cmpxchg_fail i pcs old ref)
  then show ?thesis using assms(2) done_values_update(1) [of i pcs "Put_start"] by (simp add: put_inv_def)
qed

lemma put_reachable_inv:
  assumes "put_step\<^sup>*\<^sup>* (int n, replicate n Put_start) s"
  shows "put_inv n s"
  using assms
proof (induction rule: rtranclp_induct)
  case base
  have "done_values (replicate n Put_start) = []" by (induction n) simp_all
  then show ?case by (simp add: put_inv_def)
next
  case (step s s')
  then show ?case using put_step_inv by blast
qed

lemma upto_count: "count (mset [a..b]) x = of_bool (a \<le> x \<and> x \<le> b)"
  using distinct_count_atmost_1 [of "[a..b]"] by simp

text \<open>
  C22. When the holders of all references drop them concurrently, in any interleaving, at most one of them sees
  the counter reach 0 and frees the state, and it does so only when no other thread is still at work on the
  counter; once all are done, exactly one has freed it.
\<close>

theorem put_frees_exactly_once:
  assumes "put_step\<^sup>*\<^sup>* (int n, replicate n Put_start) (ref, pcs)" and "0 < n"
  shows "count (mset pcs) (Put_done 0) \<le> 1 \<and>
    (Put_done 0 \<in> set pcs \<longrightarrow> (\<forall>pc \<in> set pcs. done_value pc \<noteq> None)) \<and>
    ((\<forall>pc \<in> set pcs. done_value pc \<noteq> None) \<longrightarrow> count (mset pcs) (Put_done 0) = 1 \<and> ref = 0)"
proof -
  have inv: "put_inv n (ref, pcs)" using put_reachable_inv [OF assms(1)] .
  then have r: "0 \<le> ref" "ref \<le> int n" "length pcs = n" "mset (done_values pcs) = mset [ref..int n - 1]"
    by (auto simp: put_inv_def)
  have cnt: "count (mset pcs) (Put_done v) = count (mset (done_values pcs)) v" for v
  proof (induction pcs)
    case (Cons pc pcs)
    then show ?case by (cases pc) auto
  qed simp
  have c0: "count (mset pcs) (Put_done 0) = of_bool (ref = 0)"
    using cnt [of 0] r upto_count [of ref "int n - 1" 0] assms(2) by simp
  have all: "(\<forall>pc \<in> set pcs. done_value pc \<noteq> None) \<longleftrightarrow> length (done_values pcs) = length pcs"
  proof (induction pcs)
    case (Cons pc pcs)
    have "length (done_values xs) \<le> length xs" for xs by (induction xs) (auto split: option.splits)
    from this [of pcs] Cons show ?case by (cases "done_value pc") (auto simp: Suc_le_eq)
  qed simp
  have "length (done_values pcs) = length pcs \<longleftrightarrow> ref = 0" using put_inv_count [OF inv] r by auto
  moreover have "Put_done 0 \<in> set pcs \<longleftrightarrow> ref = 0" using c0 by (metis count_eq_zero_iff of_bool_eq_0_iff set_mset_mset)
  ultimately show ?thesis using c0 all by auto
qed

theorem put_frees_exactly_once_witness:
  "put_step\<^sup>*\<^sup>* (int 2, replicate 2 Put_start) (0, [Put_done 0, Put_done 1]) \<and>
   count (mset [Put_done 0, Put_done 1]) (Put_done 0) = 1"
proof -
  have 1: "put_step (2, [Put_start, Put_start]) (2, [Put_read 2, Put_start])" using put_step.read [of 0 "[Put_start, Put_start]" 2] by simp
  have 2: "put_step (2, [Put_read 2, Put_start]) (2, [Put_read 2, Put_read 2])" using put_step.read [of 1 "[Put_read 2, Put_start]" 2] by simp
  have 3: "put_step (2, [Put_read 2, Put_read 2]) (1, [Put_read 2, Put_done 1])" using cmpxchg_ok [of 1 "[Put_read 2, Put_read 2]" 2 2] by simp
  have 4: "put_step (1, [Put_read 2, Put_done 1]) (1, [Put_start, Put_done 1])" using cmpxchg_fail [of 0 "[Put_read 2, Put_done 1]" 2 1] by simp
  have 5: "put_step (1, [Put_start, Put_done 1]) (1, [Put_read 1, Put_done 1])" using put_step.read [of 0 "[Put_start, Put_done 1]" 1] by simp
  have 6: "put_step (1, [Put_read 1, Put_done 1]) (0, [Put_done 0, Put_done 1])" using cmpxchg_ok [of 0 "[Put_read 1, Put_done 1]" 1 1] by simp
  have start: "(int 2, replicate 2 Put_start) = (2, [Put_start, Put_start])" by (simp add: numeral_2_eq_2)
  have steps: "put_step\<^sup>*\<^sup>* (int 2, replicate 2 Put_start) (0, [Put_done 0, Put_done 1])" unfolding start
    using 1 2 3 4 5 6 by (meson rtranclp.rtrancl_into_rtrancl rtranclp.rtrancl_refl)
  with put_frees_exactly_once [OF steps] show ?thesis by simp
qed

end
