(* ===== verification/CH_Kernel_Setup.thy ===== *)
theory CH_Kernel_Setup
  imports CH_Kernel_Memory
begin

text \<open>
  Constructing a kernel memory: the constructor in \<open>backends/impl/kernel_memory.hpp\<close> with the calls of the
  device it makes (\<open>kernel_memory.ipp\<close>). The device is a parameter, a record of what its calls return;
  \<open>None\<close> of such a call is a negative return value.
\<close>

section \<open>Definitions\<close>

record 'f device_calls =
  call_open :: "'f \<Rightarrow> bool \<times> 'f"
  call_alloc :: "nat \<Rightarrow> 'f \<Rightarrow> (uintptr \<times> uintptr) option \<times> 'f"
  call_cache_info :: "'f \<Rightarrow> ch_ioc_cache_info option \<times> 'f"
  call_start :: "nat \<Rightarrow> 64 word list \<Rightarrow> nat \<Rightarrow> 'f \<Rightarrow> (nat \<times> nat) option \<times> 'f"
  call_mmap :: "'f \<Rightarrow> bool \<times> 'f"
  call_close :: "'f \<Rightarrow> 'f"

datatype km_error = Open_failed | Alloc_failed | Info_failed | Start_failed | Mmap_failed

definition obtain_ch_fd :: "'f device_calls \<Rightarrow> 'f \<Rightarrow> (km_error + unit) \<times> 'f" where
  "obtain_ch_fd d f = (case call_open d f of (ok, f1) \<Rightarrow> (if ok then Inr () else Inl Open_failed, f1))"

definition read_cache_info :: "'f device_calls \<Rightarrow> 'f \<Rightarrow> (km_error + ch_ioc_cache_info) \<times> 'f" where
  "read_cache_info d f = (case call_cache_info d f of
     (None, f1) \<Rightarrow> (Inl Info_failed, f1) | (Some info, f1) \<Rightarrow> (Inr info, f1))"

definition start_agent :: "'f device_calls \<Rightarrow> nat \<Rightarrow> 64 word list \<Rightarrow> nat \<Rightarrow> 'f \<Rightarrow> (km_error + nat \<times> nat) \<times> 'f" where
  "start_agent d cpu evts isolation f = (case call_start d cpu evts isolation f of
     (None, f1) \<Rightarrow> (Inl Start_failed, f1) | (Some r, f1) \<Rightarrow> (Inr r, f1))"

definition mmap_channels :: "'f device_calls \<Rightarrow> 'f \<Rightarrow> (km_error + unit) \<times> 'f" where
  "mmap_channels d f = (case call_mmap d f of (ok, f1) \<Rightarrow> (if ok then Inr () else Inl Mmap_failed, f1))"

text \<open>
  The loop that allocates regions until the requested size is reached, lowering the order after a failure.
  Not returning is \<open>None\<close>, as is a shift of \<open>1\<close> by 31 or more.
\<close>

partial_function (option) km_alloc_loop :: "'f device_calls \<Rightarrow> nat \<Rightarrow> nat \<Rightarrow> nat \<Rightarrow>
    basic_extended_memory_region list \<Rightarrow> 'f \<Rightarrow> ((km_error + basic_extended_memory_region list) \<times> 'f) option" where
  [code]: "km_alloc_loop d page_size min_size ord regions f =
     (if min_size = 0 then Some (Inr regions, f)
      else case call_alloc d ord f of
        (None, f1) \<Rightarrow>
          if ord = 0 then Some (Inl Alloc_failed, f1)
          else km_alloc_loop d page_size min_size (ord - 1) regions f1
      | (Some (virtual_base, physical_base), f1) \<Rightarrow>
          if 31 \<le> ord then None
          else let sz = 2 ^ ord * page_size in
            km_alloc_loop d page_size (min_size - min min_size sz) ord
              (regions @ [extended_region virtual_base physical_base sz]) f1)"

text \<open>
  The body of the \<open>try\<close> block, and the constructor, which closes the device on every path that opened it. \<open>evts\<close>
  has three elements, the ones not given are 0.
\<close>

definition km_setup :: "'f device_calls \<Rightarrow> nat \<Rightarrow> nat \<Rightarrow> nat \<Rightarrow> 64 word list \<Rightarrow> nat \<Rightarrow> nat \<Rightarrow> 'f \<Rightarrow>
    ((km_error + kernel_memory) \<times> 'f) option" where
  "km_setup d page_size min_size cpu evts isolation max_order f = do {
     (alloc, f1) \<leftarrow> km_alloc_loop d page_size min_size max_order [] f;
     case alloc of
       Inl e \<Rightarrow> Some (Inl e, f1)
     | Inr allocated \<Rightarrow>
         let regions = defragment_regions allocated;
             checker = foldl (\<lambda>c region. ac_add_region region c) \<lparr>ac_regions = []\<rparr> regions
         in case read_cache_info d f1 of
              (Inl e, f2) \<Rightarrow> Some (Inl e, f2)
            | (Inr info, f2) \<Rightarrow> (case start_agent d cpu (evts @ replicate (3 - length evts) 0) isolation f2 of
                (Inl e, f3) \<Rightarrow> Some (Inl e, f3)
              | (Inr (active_channel, channel_count), f3) \<Rightarrow> (case mmap_channels d f3 of
                  (Inl e, f4) \<Rightarrow> Some (Inl e, f4)
                | (Inr _, f4) \<Rightarrow> Some (Inr \<lparr>km_active_channel = active_channel, km_channel_count = channel_count,
                    km_regions = regions, km_buffer = replicate 7 0, km_buffered = 0, km_address_checker = checker,
                    km_stats = no_stats, km_cache_info = info\<rparr>, f4))) }"

definition km_construct :: "'f device_calls \<Rightarrow> nat \<Rightarrow> nat \<Rightarrow> nat \<Rightarrow> 64 word list \<Rightarrow> nat \<Rightarrow> nat \<Rightarrow> 'f \<Rightarrow>
    ((km_error + kernel_memory) \<times> 'f) option" where
  "km_construct d page_size min_size cpu evts isolation max_order f = do {
     require (min_size > 0);
     require (length evts \<le> 3);
     case obtain_ch_fd d f of
       (Inl e, f1) \<Rightarrow> Some (Inl e, f1)
     | (Inr _, f1) \<Rightarrow> do {
         (r, f2) \<leftarrow> km_setup d page_size min_size cpu evts isolation max_order f1;
         Some (r, call_close d f2) } }"

section \<open>The allocation ends\<close>

definition total_size :: "basic_extended_memory_region list \<Rightarrow> nat" where
  "total_size rs = sum_list (map region_size rs)"

lemma total_size_append [simp]: "total_size (rs @ rs') = total_size rs + total_size rs'"
  by (simp add: total_size_def)

lemma total_size_single [simp]: "total_size [extended_region v p n] = n" "total_size [] = 0"
  by (simp_all add: total_size_def extended_region_def)

text \<open>What the loop returns: enough memory in regions of the orders tried, or a failure at order 0.\<close>

definition alloc_result :: "'f device_calls \<Rightarrow> nat \<Rightarrow> nat \<Rightarrow> nat \<Rightarrow> basic_extended_memory_region list \<Rightarrow>
    (km_error + basic_extended_memory_region list) \<Rightarrow> bool" where
  "alloc_result d page_size min_size ord regions r \<longleftrightarrow> (case r of
     Inl e \<Rightarrow> e = Alloc_failed \<and> (\<exists>f. fst (call_alloc d 0 f) = None)
   | Inr regions' \<Rightarrow> \<exists>new. regions' = regions @ new \<and> min_size \<le> total_size new \<and>
       total_size new < min_size + 2 ^ ord * page_size \<and> (min_size = 0 \<longrightarrow> new = []) \<and>
       (\<forall>region \<in> set new. \<exists>k \<le> ord. region_size region = 2 ^ k * page_size))"

lemma alloc_result_lower:
  assumes "alloc_result d page_size min_size ord regions r"
  shows "alloc_result d page_size min_size (Suc ord) regions r"
proof -
  have "2 ^ ord * page_size \<le> 2 ^ Suc ord * page_size" by (intro mult_le_mono1 power_increasing) auto
  then have "n < min_size + 2 ^ Suc ord * page_size" if "n < min_size + 2 ^ ord * page_size" for n using that by linarith
  moreover have "\<exists>k \<le> Suc ord. region_size region = 2 ^ k * page_size"
    if "\<exists>k \<le> ord. region_size region = 2 ^ k * page_size" for region :: basic_extended_memory_region
    using that le_SucI by blast
  ultimately show ?thesis using assms unfolding alloc_result_def
    by (cases r) (auto simp del: power_Suc)
qed

lemma alloc_result_region:
  assumes "alloc_result d page_size (min_size - min min_size sz) ord (regions @ [extended_region v q sz]) r"
    and "sz = 2 ^ ord * page_size" and "0 < min_size"
  shows "alloc_result d page_size min_size ord regions r"
proof (cases r)
  case (Inr regions')
  then obtain new where new: "regions' = (regions @ [extended_region v q sz]) @ new"
    "min_size - min min_size sz \<le> total_size new"
    "total_size new < min_size - min min_size sz + 2 ^ ord * page_size"
    "min_size - min min_size sz = 0 \<Longrightarrow> new = []"
    "\<forall>region \<in> set new. \<exists>k \<le> ord. region_size region = 2 ^ k * page_size"
    using assms(1) by (auto simp: alloc_result_def)
  let ?new = "extended_region v q sz # new"
  have tot: "total_size ?new = sz + total_size new" by (simp add: total_size_def)
  have "total_size ?new < min_size + sz"
  proof (cases "min_size \<le> sz")
    case True
    then show ?thesis using new(4) tot assms(3) by simp
  next
    case False
    then show ?thesis using new(3) tot assms(2) by simp
  qed
  moreover have "min_size \<le> total_size ?new" using new(2) tot by simp
  moreover have "\<forall>region \<in> set ?new. \<exists>k \<le> ord. region_size region = 2 ^ k * page_size"
    using new(5) assms(2) by (auto simp: extended_region_def)
  ultimately show ?thesis using Inr new(1) assms(2,3) unfolding alloc_result_def
    by (auto intro!: exI [of _ ?new])
qed (use assms(1) in \<open>simp add: alloc_result_def\<close>)

lemma alloc_loop_ends:
  assumes page: "0 < page_size" and "ord < 31"
  shows "\<exists>r f'. km_alloc_loop d page_size min_size ord regions f = Some (r, f') \<and>
    alloc_result d page_size min_size ord regions r"
  using assms(2)
proof (induction min_size arbitrary: ord regions f rule: less_induct)
  case (less min_size)
  note smaller = less.IH
  show ?case
  proof (cases "min_size = 0")
    case True
    then show ?thesis using page by (subst km_alloc_loop.simps) (simp add: alloc_result_def)
  next
    case pos: False
    then have gt: "0 < min_size" by simp
    show ?thesis using less.prems
    proof (induction ord arbitrary: f)
      case zero: 0
      obtain ans f1 where ans: "call_alloc d 0 f = (ans, f1)" by fastforce
      show ?case
      proof (cases ans)
        case None
        then have "fst (call_alloc d 0 f) = None" using ans by simp
        then have "\<exists>f. fst (call_alloc d 0 f) = None" by blast
        with None show ?thesis using pos ans by (subst km_alloc_loop.simps) (simp add: alloc_result_def)
      next
        case (Some vp)
        obtain v q where vp: "vp = (v, q)" by fastforce
        have step: "km_alloc_loop d page_size min_size 0 regions f =
            km_alloc_loop d page_size (min_size - min min_size (2 ^ 0 * page_size)) 0 (regions @ [extended_region v q (2 ^ 0 * page_size)]) f1"
          using pos Some ans vp by (subst km_alloc_loop.simps) simp
        have "min_size - min min_size (2 ^ 0 * page_size) < min_size" using pos page by simp
        from smaller [OF this zero, of "regions @ [extended_region v q (2 ^ 0 * page_size)]" f1] show ?thesis
          unfolding step using alloc_result_region [OF _ refl, where ord = 0] gt by blast
      qed
    next
      case (Suc ord)
      obtain ans f1 where ans: "call_alloc d (Suc ord) f = (ans, f1)" by fastforce
      show ?case
      proof (cases ans)
        case None
        have step: "km_alloc_loop d page_size min_size (Suc ord) regions f = km_alloc_loop d page_size min_size ord regions f1"
          using pos None ans by (subst km_alloc_loop.simps) simp
        have "ord < 31" using Suc.prems by simp
        from Suc.IH [OF this, of f1] show ?thesis unfolding step using alloc_result_lower by blast
      next
        case (Some vp)
        obtain v q where vp: "vp = (v, q)" by fastforce
        let ?sz = "2 ^ Suc ord * page_size"
        have step: "km_alloc_loop d page_size min_size (Suc ord) regions f =
            km_alloc_loop d page_size (min_size - min min_size ?sz) (Suc ord) (regions @ [extended_region v q ?sz]) f1"
          using pos Some ans vp Suc.prems by (subst km_alloc_loop.simps) (simp add: Let_def)
        have "min_size - min min_size ?sz < min_size" using pos page by simp
        from smaller [OF this Suc.prems, of "regions @ [extended_region v q ?sz]" f1] show ?thesis
          unfolding step using alloc_result_region [OF _ refl, where ord = "Suc ord"] gt by blast
      qed
    qed
  qed
qed

text \<open>
  C20. Constructing a kernel memory always comes to an end, whatever the allocations of the device answer, and the
  device is closed again on every path after it was opened. On success the merged regions come from allocations
  that cover the requested size, with less than one allocation of the largest order to spare; running out of
  memory is only reported after a single page could not be allocated.
\<close>

theorem km_construct_allocates_enough:
  assumes "0 < page_size" and "max_order < 31" and "0 < min_size" and "length evts \<le> 3"
    and "call_open d f = (True, f1)"
  shows "\<exists>r f'. km_construct d page_size min_size cpu evts isolation max_order f = Some (r, call_close d f') \<and>
    (case r of
       Inl e \<Rightarrow> e \<noteq> Open_failed \<and> (e = Alloc_failed \<longrightarrow> (\<exists>g. fst (call_alloc d 0 g) = None))
     | Inr k \<Rightarrow> km_buffered k = 0 \<and> (\<exists>allocated. km_regions k = defragment_regions allocated \<and>
         min_size \<le> total_size allocated \<and> total_size allocated < min_size + 2 ^ max_order * page_size))"
proof -
  obtain r f2 where loop: "km_alloc_loop d page_size min_size max_order [] f1 = Some (r, f2)"
    "alloc_result d page_size min_size max_order [] r"
    using alloc_loop_ends [OF assms(1,2), of d min_size "[]" f1] by blast
  have fd: "obtain_ch_fd d f = (Inr (), f1)" using assms(5) by (simp add: obtain_ch_fd_def)
  show ?thesis
  proof (cases r)
    case (Inl e)
    then show ?thesis using loop fd assms(3,4)
      by (auto simp: km_construct_def km_setup_def alloc_result_def)
  next
    case (Inr allocated)
    have size: "min_size \<le> total_size allocated" "total_size allocated < min_size + 2 ^ max_order * page_size"
      using loop(2) Inr by (auto simp: alloc_result_def)
    show ?thesis using loop(1) fd assms(3,4) Inr size
      by (auto simp: km_construct_def km_setup_def read_cache_info_def start_agent_def mmap_channels_def Let_def
          split: prod.splits option.splits)
  qed
qed

text \<open>A device that hands out at most two pages at a time and counts the pages it gave.\<close>

definition small_device :: "nat device_calls" where
  "small_device = \<lparr>call_open = (\<lambda>f. (True, f)),
     call_alloc = (\<lambda>ord f. if 1 < ord then (None, f)
       else (Some (0xFFFF800000000000 + of_nat (4096 * f), of_nat (4096 * f)), f + 2 ^ ord)),
     call_cache_info = (\<lambda>f. (Some \<lparr>ci_levels = 1, ci_offset_bits = 6, ci_sets = [64, 0, 0], ci_ways = [8, 0, 0]\<rparr>, f)),
     call_start = (\<lambda>_ _ _ f. (Some (0, 64), f)), call_mmap = (\<lambda>f. (True, f)), call_close = id\<rparr>"

theorem km_construct_allocates_enough_witness:
  "\<exists>k f'. km_construct small_device 4096 10000 0 [1, 2] 1 6 0 = Some (Inr k, f') \<and>
     (\<exists>allocated. km_regions k = defragment_regions allocated \<and> 10000 \<le> total_size allocated)"
proof -
  have "km_construct small_device 4096 10000 0 [1, 2] 1 6 0 \<noteq> Some (Inl e, f')" for e f'
    by (simp add: km_construct_def km_setup_def obtain_ch_fd_def read_cache_info_def start_agent_def mmap_channels_def
        small_device_def km_alloc_loop.simps Let_def)
  moreover have "call_open small_device 0 = (True, 0)" by (simp add: small_device_def)
  ultimately show ?thesis
    using km_construct_allocates_enough [of 4096 6 10000 "[1, 2]" small_device 0 0 0 1] by (fastforce split: sum.splits)
qed

end
