(* ===== verification/CH_Gf2.thy ===== *)
theory CH_Gf2
  imports Complex_Main CH_Prelude
begin

text \<open>
  Linear algebra over the two-element field for the reversal of placement policies
  (\<open>cli/placement/bit.hpp\<close>, \<open>stack.hpp\<close>, \<open>determinant.hpp\<close>, \<open>linearly_independent.hpp\<close>,
  \<open>affinely_independent.hpp\<close>, \<open>affine_solver.hpp\<close>).

  A vector is a list of bits and a matrix the list of its rows. The class \<open>bit\<close> of the sources is the type
  \<open>bit_t\<close>, made a commutative ring with the operators of the class, so that the sums and products
  of the library apply to it. The determinant of the code is computed with exact rationals by
  Eigen, a library outside the sources: it is the parameter \<open>eigen_det\<close>, and the theorems assume what its
  documentation says, that the result is the determinant (\<open>exact_determinant\<close>).
\<close>

section \<open>Bits\<close>

datatype bit_t = Bit (bit_value: bool)

instantiation bit_t :: comm_ring_1
begin

definition zero_bit_t :: bit_t where "zero_bit_t = Bit False"

definition one_bit_t :: bit_t where "one_bit_t = Bit True"

fun plus_bit_t :: "bit_t \<Rightarrow> bit_t \<Rightarrow> bit_t" where
  "plus_bit_t (Bit a) (Bit b) = Bit (b \<noteq> a)"

fun minus_bit_t :: "bit_t \<Rightarrow> bit_t \<Rightarrow> bit_t" where
  "minus_bit_t (Bit a) (Bit b) = Bit (b \<noteq> a)"

definition uminus_bit_t :: "bit_t \<Rightarrow> bit_t" where "uminus_bit_t a = a"

fun times_bit_t :: "bit_t \<Rightarrow> bit_t \<Rightarrow> bit_t" where
  "times_bit_t (Bit a) (Bit b) = Bit (b \<and> a)"

instance
proof
  fix a b c :: bit_t
  show "a + b + c = a + (b + c)" "a + b = b + a" "a * b * c = a * (b * c)" "a * b = b * a"
    "(a + b) * c = a * c + b * c" "a - b = a + - b"
    by (cases a; cases b; cases c; auto simp: uminus_bit_t_def)+
  show "0 + a = a" "1 * a = a" "- a + a = 0"
    by (cases a; simp add: zero_bit_t_def one_bit_t_def uminus_bit_t_def)+
  show "(0 :: bit_t) \<noteq> 1" by (simp add: zero_bit_t_def one_bit_t_def)
qed

end

section \<open>The operations\<close>

text \<open>\<open>hstack\<close>: the vectors become the columns of a matrix.\<close>

definition hstack :: "bit_t list list \<Rightarrow> bit_t list list option" where
  "hstack vector_range = do {
     first_vec \<leftarrow> vec_at vector_range 0;
     require (list_all (\<lambda>vec. length vec = length first_vec) (drop 1 vector_range));
     Some (map (\<lambda>r. map (\<lambda>vec. vec ! r) vector_range) [0..<length first_vec]) }"

text \<open>Conversion of a rational to an integer drops the fraction.\<close>

definition convert_to_mpz :: "rat \<Rightarrow> int" where
  "convert_to_mpz d = (if d < 0 then - \<lfloor>- d\<rfloor> else \<lfloor>d\<rfloor>)"

definition determinant :: "(rat list list \<Rightarrow> rat) \<Rightarrow> bit_t list list \<Rightarrow> bit_t option" where
  "determinant eigen_det matrix = do {
     require (list_all (\<lambda>row. length row = length matrix) matrix);
     require (1 < length matrix);
     let copy = map (map (\<lambda>b. if bit_value b then 1 else 0)) matrix;
         i = convert_to_mpz (eigen_det copy)
     in Some (Bit (i mod 2 \<noteq> 0)) }"

definition linearly_independent :: "(rat list list \<Rightarrow> rat) \<Rightarrow> bit_t list list \<Rightarrow> bool option" where
  "linearly_independent eigen_det vectors = do {
     matrix \<leftarrow> hstack vectors;
     require (list_all (\<lambda>row. length row = length matrix) matrix);
     require (1 < length matrix);
     d \<leftarrow> determinant eigen_det matrix;
     Some (d \<noteq> Bit False) }"

text \<open>\<open>vec += first_vec\<close> adds element by element; Eigen asserts equal sizes.\<close>

definition vec_add :: "bit_t list \<Rightarrow> bit_t list \<Rightarrow> bit_t list option" where
  "vec_add v w = do { require (length v = length w); Some (map2 (+) v w) }"

fun add_first :: "bit_t list \<Rightarrow> bit_t list list \<Rightarrow> bit_t list list option" where
  "add_first first_vec [] = Some []"
| "add_first first_vec (v # vs) = do {
     w \<leftarrow> vec_add v first_vec;
     ws \<leftarrow> add_first first_vec vs;
     Some (w # ws) }"

definition affinely_independent :: "(rat list list \<Rightarrow> rat) \<Rightarrow> bit_t list list \<Rightarrow> bool option" where
  "affinely_independent eigen_det vectors = do {
     require (1 < length vectors);
     first_vec \<leftarrow> vec_at vectors 0;
     vs \<leftarrow> add_first first_vec (drop 1 vectors);
     linearly_independent eigen_det vs }"

text \<open>
  \<open>affine_solver\<close>. \<open>solve_matrix\<close> is the matrix \<open>B\<close>: the inputs as columns, with a row of ones at the bottom;
  \<open>solve_entry\<close> is \<open>entry(r, d)\<close>, the determinant of \<open>B\<close> with row \<open>d\<close> taken out and \<open>r\<close> put on top.
  The assertions of Eigen on sizes and of \<open>determinant\<close> leave no result for inputs that do not fit.
\<close>

definition solve_matrix :: "bit_t list list \<Rightarrow> bit_t list list" where
  "solve_matrix input_matrix = input_matrix @ [replicate (length (hd input_matrix)) 1]"

definition solve_entry :: "(rat list list \<Rightarrow> rat) \<Rightarrow> bit_t list list \<Rightarrow> bit_t list \<Rightarrow> nat \<Rightarrow> bit_t option" where
  "solve_entry eigen_det B r d = determinant eigen_det (r # take d B @ drop (Suc d) B)"

fun solve_row :: "(rat list list \<Rightarrow> rat) \<Rightarrow> bit_t list list \<Rightarrow> bit_t list \<Rightarrow> nat list \<Rightarrow> bit_t list option" where
  "solve_row eigen_det B r [] = Some []"
| "solve_row eigen_det B r (j # js) = do {
     e \<leftarrow> solve_entry eigen_det B r j;
     es \<leftarrow> solve_row eigen_det B r js;
     Some (e # es) }"

fun solve_rows :: "(rat list list \<Rightarrow> rat) \<Rightarrow> bit_t list list \<Rightarrow> nat \<Rightarrow> bit_t list list \<Rightarrow> bit_t list list option" where
  "solve_rows eigen_det B cols [] = Some []"
| "solve_rows eigen_det B cols (r # rs) = do {
     m \<leftarrow> solve_row eigen_det B r [0..<cols];
     ms \<leftarrow> solve_rows eigen_det B cols rs;
     Some (m # ms) }"

definition affine_solve ::
    "(rat list list \<Rightarrow> rat) \<Rightarrow> bit_t list list \<Rightarrow> bit_t list list \<Rightarrow> (bit_t list list \<times> bit_t list) option" where
  "affine_solve eigen_det inputs outputs = do {
     input_matrix \<leftarrow> hstack inputs;
     output_matrix \<leftarrow> hstack outputs;
     require (input_matrix \<noteq> []);
     let B = solve_matrix input_matrix in do {
       D \<leftarrow> determinant eigen_det B;
       require (D \<noteq> Bit False);
       M \<leftarrow> solve_rows eigen_det B (length outputs) output_matrix;
       require (0 < length outputs \<and> length inputs - 1 \<le> length outputs);
       Some (map (take (length inputs - 1)) M, map last M) } }"

section \<open>Determinants\<close>

text \<open>
  The determinant by expansion along the first row; \<open>cols\<close> holds the columns that are left. This is what
  the documentation of Eigen promises for its result.
\<close>

fun laplace :: "'a::comm_ring_1 list list \<Rightarrow> nat list \<Rightarrow> 'a" where
  "laplace [] cols = 1"
| "laplace (r # rs) cols =
     (\<Sum>i\<leftarrow>[0..<length cols]. (- 1) ^ i * r ! (cols ! i) * laplace rs (take i cols @ drop (Suc i) cols))"

definition exact_determinant :: "(rat list list \<Rightarrow> rat) \<Rightarrow> bool" where
  "exact_determinant eigen_det \<longleftrightarrow>
     (\<forall>M. list_all (\<lambda>row. length row = length M) M \<longrightarrow> eigen_det M = laplace M [0..<length M])"

text \<open>
  Over the bits signs do not matter and the columns that are left are just a set; in this form the
  determinant is easy to reason about.
\<close>

fun gdet :: "(nat \<Rightarrow> bit_t) list \<Rightarrow> nat set \<Rightarrow> bit_t" where
  "gdet [] C = 1"
| "gdet (r # rs) C = (\<Sum>j\<in>C. r j * gdet rs (C - {j}))"

lemma bit_add_self [simp]: "(a :: bit_t) + a = 0"
  by (cases a) (simp add: zero_bit_t_def)

lemma bit_add_self_left [simp]: "(a :: bit_t) + (a + b) = b"
  by (simp flip: add.assoc)

lemma bit_uminus [simp]: "- (a :: bit_t) = a"
  by (simp add: uminus_bit_t_def)

lemma bit_neq_0: "(a :: bit_t) \<noteq> 0 \<longleftrightarrow> a = 1"
  by (cases a) (simp add: zero_bit_t_def one_bit_t_def)

lemma of_int_bit: "(of_int k :: bit_t) = Bit (odd k)"
proof -
  have nat: "(of_nat n :: bit_t) = Bit (odd n)" for n
    by (induction n) (auto simp: zero_bit_t_def one_bit_t_def)
  show ?thesis by (cases k) (simp_all add: nat del: of_nat_Suc)
qed

lemma laplace_hom:
  fixes f :: "int \<Rightarrow> 'a::comm_ring_1"
  assumes "f = of_int" and "list_all (\<lambda>r. \<forall>c \<in> set cols. c < length r) M"
  shows "laplace (map (map f) M) cols = f (laplace M cols)"
  using assms(2)
proof (induction M arbitrary: cols)
  case (Cons r rs)
  have "laplace (map (map f) rs) (take i cols @ drop (Suc i) cols) = f (laplace rs (take i cols @ drop (Suc i) cols))" for i
    by (rule Cons.IH) (use Cons.prems in \<open>auto simp: list_all_iff dest!: in_set_takeD in_set_dropD\<close>)
  moreover have "cols ! i < length r" if "i < length cols" for i using that Cons.prems by simp
  ultimately show ?case using assms(1)
    by (simp add: interv_sum_list_conv_sum_set_nat)
qed (simp add: assms(1))

lemma remove_nth:
  assumes "distinct xs" and "i < length xs"
  shows "set (take i xs @ drop (Suc i) xs) = set xs - {xs ! i}" and "distinct (take i xs @ drop (Suc i) xs)"
proof -
  have eq: "xs = take i xs @ xs ! i # drop (Suc i) xs" using assms(2) by (rule id_take_nth_drop)
  then have "distinct (take i xs @ xs ! i # drop (Suc i) xs)" using assms(1) by metis
  moreover have "set xs = set (take i xs @ xs ! i # drop (Suc i) xs)" using eq by metis
  ultimately show "set (take i xs @ drop (Suc i) xs) = set xs - {xs ! i}" "distinct (take i xs @ drop (Suc i) xs)"
    by auto
qed

lemma laplace_gdet: "distinct cols \<Longrightarrow> laplace M cols = gdet (map (!) M) (set cols)"
proof (induction M arbitrary: cols)
  case (Cons r rs)
  have "laplace (r # rs) cols = (\<Sum>i<length cols. r ! (cols ! i) * gdet (map (!) rs) (set cols - {cols ! i}))"
    using Cons.IH remove_nth [OF Cons.prems]
    by (simp add: interv_sum_list_conv_sum_set_nat atLeast0LessThan)
  also have "\<dots> = (\<Sum>j\<in>set cols. r ! j * gdet (map (!) rs) (set cols - {j}))"
    by (rule sum.reindex_bij_betw [OF bij_betw_nth [OF Cons.prems]]) auto
  finally show ?case by simp
qed simp

lemma gdet_cong:
  "length rs = length rs' \<Longrightarrow> (\<And>i j. i < length rs \<Longrightarrow> j \<in> C \<Longrightarrow> (rs ! i) j = (rs' ! i) j) \<Longrightarrow> gdet rs C = gdet rs' C"
proof (induction rs rs' arbitrary: C rule: list_induct2)
  case (Cons r rs r' rs')
  have "gdet rs (C - {j}) = gdet rs' (C - {j})" for j
    using Cons.prems [of "Suc _"] by (intro Cons.IH) auto
  moreover have "r j = r' j" if "j \<in> C" for j using Cons.prems [of 0] that by simp
  ultimately show ?case by simp
qed simp

text \<open>Sums over pairs of different columns.\<close>

lemma pairs_swap:
  fixes f :: "nat \<Rightarrow> nat \<Rightarrow> bit_t"
  assumes "finite C"
  shows "(\<Sum>j\<in>C. \<Sum>k\<in>C - {j}. f j k) = (\<Sum>j\<in>C. \<Sum>k\<in>C - {j}. f k j)"
proof -
  have eq: "C - {j} = {k \<in> C. k \<noteq> j}" "C - {j} = {k \<in> C. j \<noteq> k}" for j by auto
  show ?thesis
    unfolding eq(2) [abs_def] using sum.swap_restrict [OF assms assms, of f "\<lambda>j k. j \<noteq> k"] unfolding eq(1) [symmetric] eq(2) [symmetric] by simp
qed

lemma pairs_cancel:
  fixes f :: "nat \<Rightarrow> nat \<Rightarrow> bit_t"
  assumes "finite C" and sym: "\<And>j k. f j k = f k j"
  shows "(\<Sum>j\<in>C. \<Sum>k\<in>C - {j}. f j k) = 0"
  using assms(1)
proof (induction C)
  case (insert x C)
  have "(\<Sum>k\<in>insert x C - {j}. f j k) = f j x + (\<Sum>k\<in>C - {j}. f j k)" if "j \<in> C" for j
  proof -
    have "insert x C - {j} = insert x (C - {j})" using that insert.hyps(2) by auto
    then show ?thesis using insert.hyps by simp
  qed
  moreover have "insert x C - {x} = C" using insert.hyps(2) by auto
  ultimately show ?case using insert sym [of x] by (simp add: sum.distrib)
qed simp

lemma gdet_swap: "finite C \<Longrightarrow> gdet (r # s # rs) C = gdet (s # r # rs) C"
proof -
  assume C: "finite C"
  have "gdet (r # s # rs) C = (\<Sum>j\<in>C. \<Sum>k\<in>C - {j}. r j * s k * gdet rs (C - {j} - {k}))" for r s
    by (simp add: sum_distrib_left mult.assoc)
  note expand = this
  have "C - {k} - {j} = C - {j} - {k}" for j k by auto
  then show ?thesis unfolding expand by (subst pairs_swap [OF C]) (simp add: mult.commute)
qed

lemma gdet_front: "finite C \<Longrightarrow> gdet (xs @ r # ys) C = gdet (r # xs @ ys) C"
proof (induction xs arbitrary: C)
  case (Cons x xs)
  then have "gdet (x # xs @ r # ys) C = gdet (x # r # xs @ ys) C" by simp
  then show ?case using gdet_swap [OF Cons.prems] by simp
qed simp

lemma gdet_same:
  assumes "finite C"
  shows "gdet (r # xs @ r # ys) C = 0"
proof -
  have "gdet (r # xs @ r # ys) C = gdet (r # r # xs @ ys) C"
    using gdet_front [of "C - {_}" xs r ys] assms by simp
  also have "\<dots> = (\<Sum>j\<in>C. \<Sum>k\<in>C - {j}. r j * r k * gdet (xs @ ys) (C - {j} - {k}))"
    by (simp add: sum_distrib_left mult.assoc)
  also have "\<dots> = 0"
  proof (rule pairs_cancel [OF assms])
    show "r j * r k * gdet (xs @ ys) (C - {j} - {k}) = r k * r j * gdet (xs @ ys) (C - {k} - {j})" for j k
      by (simp only: mult.commute [of "r j"] Diff_insert2 [symmetric] insert_commute [of j k])
  qed
  finally show ?thesis .
qed

lemma gdet_linear:
  "gdet ((\<lambda>j. \<Sum>k<n. x k * B k j) # rs) C = (\<Sum>k<n. x k * gdet (B k # rs) C)"
proof -
  have "gdet ((\<lambda>j. \<Sum>k<n. x k * B k j) # rs) C = (\<Sum>j\<in>C. \<Sum>k<n. x k * (B k j * gdet rs (C - {j})))"
    by (simp add: sum_distrib_right mult.assoc)
  also have "\<dots> = (\<Sum>k<n. \<Sum>j\<in>C. x k * (B k j * gdet rs (C - {j})))" by (rule sum.swap)
  finally show ?thesis by (simp add: sum_distrib_left)
qed

text \<open>Cramer's rule in the form of the solver: a combination of the rows replaces row \<open>d\<close>, and moves to the top.\<close>

lemma gdet_cramer:
  assumes "finite C" and "d < length rs" and "\<And>j. j \<in> C \<Longrightarrow> r j = (\<Sum>k<length rs. x k * (rs ! k) j)"
  shows "gdet (r # take d rs @ drop (Suc d) rs) C = x d * gdet rs C"
proof -
  let ?rs = "take d rs @ drop (Suc d) rs"
  have other: "gdet (rs ! k # ?rs) C = 0" if k: "k < length rs" "k \<noteq> d" for k
  proof -
    have "take d rs ! k \<in> set (take d rs)" if "k < d" using that assms(2) by (intro nth_mem) simp
    moreover have "drop (Suc d) rs ! (k - Suc d) \<in> set (drop (Suc d) rs)" if "d < k"
      using that k(1) by (intro nth_mem) simp
    ultimately have "rs ! k \<in> set ?rs" using k assms(2) by (cases "k < d") auto
    then obtain xs ys where "?rs = xs @ rs ! k # ys" using split_list [of "rs ! k" ?rs] by blast
    then show ?thesis using gdet_same [OF assms(1)] by metis
  qed
  have same: "gdet (rs ! d # ?rs) C = gdet rs C"
    using gdet_front [OF assms(1), of "take d rs" "rs ! d" "drop (Suc d) rs"] id_take_nth_drop [OF assms(2)] by metis
  have "gdet (r # ?rs) C = gdet ((\<lambda>j. \<Sum>k<length rs. x k * (rs ! k) j) # ?rs) C"
    using assms(3) by simp
  also have "\<dots> = (\<Sum>k<length rs. x k * gdet (rs ! k # ?rs) C)" by (rule gdet_linear)
  also have "\<dots> = (\<Sum>k<length rs. if k = d then x d * gdet rs C else 0)"
    by (rule sum.cong) (auto simp: same other simp del: gdet.simps)
  finally show ?thesis using assms(2) by simp
qed

text \<open>Renaming the columns, and adding one column to others.\<close>

lemma gdet_relabel: "inj_on f C \<Longrightarrow> gdet (map (\<lambda>r. r \<circ> f) rs) C = gdet rs (f ` C)"
proof (induction rs arbitrary: C)
  case (Cons r rs)
  have "f ` (C - {j}) = f ` C - {f j}" if "j \<in> C" for j
    using Cons.prems that by (simp add: inj_on_image_set_diff)
  moreover have "gdet (map (\<lambda>r. r \<circ> f) rs) (C - {j}) = gdet rs (f ` (C - {j}))" for j
    by (rule Cons.IH [OF inj_on_subset [OF Cons.prems]]) auto
  ultimately have "gdet (map (\<lambda>r. r \<circ> f) (r # rs)) C = (\<Sum>j\<in>C. r (f j) * gdet rs (f ` C - {f j}))" by simp
  also have "\<dots> = (\<Sum>i\<in>f ` C. r i * gdet rs (f ` C - {i}))"
    by (simp add: sum.reindex [OF Cons.prems])
  finally show ?case by (simp only: gdet.simps)
qed simp

definition add_column :: "nat \<Rightarrow> nat \<Rightarrow> (nat \<Rightarrow> bit_t) \<Rightarrow> nat \<Rightarrow> bit_t" where
  "add_column z k r j = (if j = k then r k + r z else r j)"

lemma add_column_simps [simp]: "add_column z k r k = r k + r z" "j \<noteq> k \<Longrightarrow> add_column z k r j = r j"
  by (simp_all add: add_column_def)

lemma gdet_add_column_absent: "k \<notin> C \<Longrightarrow> gdet (map (add_column z k) rs) C = gdet rs C"
  by (rule gdet_cong) (auto simp: add_column_def)

lemma gdet_add_column_out:
  "finite C \<Longrightarrow> k \<in> C \<Longrightarrow> z \<notin> C \<Longrightarrow> card C = length rs \<Longrightarrow>
     gdet (map (add_column z k) rs) C = gdet rs C + gdet rs (insert z (C - {k}))"
proof (induction rs arbitrary: C)
  case (Cons r rs)
  have ne: "z \<noteq> k" using Cons.prems by auto
  have rec: "gdet (map (add_column z k) rs) (C - {j}) = gdet rs (C - {j}) + gdet rs (insert z (C - {k}) - {j})"
    if "j \<in> C - {k}" for j
  proof -
    have "insert z (C - {j} - {k}) = insert z (C - {k}) - {j}" using that Cons.prems(3) by auto
    then show ?thesis using that Cons.prems Cons.IH [of "C - {j}"] by simp
  qed
  have split: "C = insert k (C - {k})" "finite (C - {k})" "k \<notin> C - {k}" using Cons.prems by auto
  have "gdet (map (add_column z k) (r # rs)) C =
      (r k + r z) * gdet rs (C - {k}) + (\<Sum>j\<in>C - {k}. r j * (gdet rs (C - {j}) + gdet rs (insert z (C - {k}) - {j})))"
    using rec gdet_add_column_absent [of k "C - {k}"] by (simp add: sum.remove [OF Cons.prems(1,2)])
  moreover have "gdet (r # rs) C = r k * gdet rs (C - {k}) + (\<Sum>j\<in>C - {k}. r j * gdet rs (C - {j}))"
    by (simp add: sum.remove [OF Cons.prems(1,2)])
  moreover have "gdet (r # rs) (insert z (C - {k})) =
      r z * gdet rs (C - {k}) + (\<Sum>j\<in>C - {k}. r j * gdet rs (insert z (C - {k}) - {j}))"
    using Cons.prems by simp
  ultimately show ?case by (simp add: algebra_simps sum.distrib)
qed auto

lemma gdet_add_column:
  "finite C \<Longrightarrow> k \<in> C \<Longrightarrow> z \<in> C \<Longrightarrow> z \<noteq> k \<Longrightarrow> card C = length rs \<Longrightarrow> gdet (map (add_column z k) rs) C = gdet rs C"
proof (induction rs arbitrary: C)
  case (Cons r rs)
  have fin: "finite (C - {k})" "z \<in> C - {k}" "finite C" using Cons.prems by auto
  have z: "gdet (map (add_column z k) rs) (C - {z}) = gdet rs (C - {z}) + gdet rs (C - {k})"
  proof -
    have "insert z (C - {z} - {k}) = C - {k}" using Cons.prems by auto
    then show ?thesis using Cons.prems gdet_add_column_out [of "C - {z}" k z rs] by simp
  qed
  have rec: "gdet (map (add_column z k) rs) (C - {j}) = gdet rs (C - {j})" if "j \<in> C - {k} - {z}" for j
    using that Cons.prems by (intro Cons.IH) auto
  have "gdet (map (add_column z k) (r # rs)) C =
      (r k + r z) * gdet rs (C - {k}) + (r z * (gdet rs (C - {z}) + gdet rs (C - {k})) +
        (\<Sum>j\<in>C - {k} - {z}. r j * gdet rs (C - {j})))"
    using rec z gdet_add_column_absent [of k "C - {k}"] Cons.prems(4)
    by (simp add: sum.remove [OF fin(3) Cons.prems(2)] sum.remove [OF fin(1,2)])
  moreover have "gdet (r # rs) C =
      r k * gdet rs (C - {k}) + (r z * gdet rs (C - {z}) + (\<Sum>j\<in>C - {k} - {z}. r j * gdet rs (C - {j})))"
    by (simp add: sum.remove [OF fin(3) Cons.prems(2)] sum.remove [OF fin(1,2)])
  ultimately show ?case by (simp add: algebra_simps)
qed auto

lemma gdet_add_columns:
  assumes "finite K" and "finite C" and "K \<subseteq> C" and "z \<in> C" and "z \<notin> K" and "card C = length rs"
  shows "gdet (map (\<lambda>r j. if j \<in> K then r j + r z else r j) rs) C = gdet rs C"
  using assms(1,3,5)
proof (induction K)
  case (insert k K)
  let ?f = "\<lambda>K r j. if j \<in> K then r j + r z else (r j :: bit_t)"
  have "add_column z k (?f K r) = ?f (insert k K) r" for r
    using insert.hyps(2) insert.prems by (auto simp: add_column_def)
  then have "gdet (map (?f (insert k K)) rs) C = gdet (map (add_column z k) (map (?f K) rs)) C" by (simp add: comp_def)
  also have "\<dots> = gdet (map (?f K) rs) C" using insert.prems assms by (intro gdet_add_column) auto
  also have "\<dots> = gdet rs C" using insert by simp
  finally show ?case .
qed simp

lemma gdet_unit_row:
  assumes "finite C" and "z \<in> C" and "\<And>j. j \<in> C \<Longrightarrow> r j = of_bool (j = z)"
  shows "gdet (r # rs) C = gdet rs (C - {z})"
proof -
  have "gdet (r # rs) C = r z * gdet rs (C - {z}) + (\<Sum>j\<in>C - {z}. r j * gdet rs (C - {j}))"
    by (simp add: sum.remove [OF assms(1,2)])
  moreover have "(\<Sum>j\<in>C - {z}. r j * gdet rs (C - {j})) = 0" using assms(3) by (intro sum.neutral) auto
  ultimately show ?thesis using assms(2,3) by simp
qed

section \<open>The operations compute with determinants\<close>

abbreviation square :: "'a list list \<Rightarrow> bool" where
  "square M \<equiv> list_all (\<lambda>row. length row = length M) M"

lemma convert_to_mpz_of_int [simp]: "convert_to_mpz (of_int k) = k"
  by (simp add: convert_to_mpz_def flip: of_int_minus)

lemma determinant_gdet:
  assumes "exact_determinant eigen_det" and "square M" and "1 < length M"
  shows "determinant eigen_det M = Some (gdet (map (!) M) {..<length M})"
proof -
  define MI :: "int list list" where "MI = map (map (\<lambda>b. if bit_value b then 1 else 0)) M"
  have cols: "list_all (\<lambda>r. \<forall>c \<in> set [0..<length M]. c < length r) MI"
    using assms(2) by (auto simp: MI_def list_all_iff)
  have "map (map (\<lambda>b. if bit_value b then 1 else 0 :: rat)) M = map (map of_int) MI"
    by (simp add: MI_def)
  moreover have "eigen_det (map (map of_int) MI) = of_int (laplace MI [0..<length M])"
    using assms(1,2) laplace_hom [OF refl cols, where 'a = rat]
    by (auto simp: exact_determinant_def MI_def list_all_iff)
  moreover have "(of_int (if bit_value b then 1 else 0) :: bit_t) = b" for b
    by (cases b) (simp add: one_bit_t_def zero_bit_t_def)
  then have "map (map of_int) MI = M" by (simp add: MI_def comp_def)
  with laplace_hom [OF refl cols, where 'a = bit_t]
  have "laplace M [0..<length M] = Bit (odd (laplace MI [0..<length M]))" by (simp add: of_int_bit)
  ultimately show ?thesis using assms(2,3) laplace_gdet [of "[0..<length M]" M]
    by (simp add: determinant_def Let_def odd_iff_mod_2_eq_one mod2_eq_if atLeast0LessThan)
qed

text \<open>The rows of the matrix with columns \<open>vs\<close>.\<close>

definition column_rows :: "nat \<Rightarrow> bit_t list list \<Rightarrow> bit_t list list" where
  "column_rows n vs = map (\<lambda>r. map (\<lambda>v. v ! r) vs) [0..<n]"

lemma length_column_rows [simp]: "length (column_rows n vs) = n"
  by (simp add: column_rows_def)

lemma nth_column_rows [simp]: "r < n \<Longrightarrow> column_rows n vs ! r = map (\<lambda>v. v ! r) vs"
  by (simp add: column_rows_def)

lemma square_column_rows: "length vs = n \<Longrightarrow> square (column_rows n vs)"
  by (simp add: column_rows_def list_all_iff)

lemma hstack_columns:
  "vs \<noteq> [] \<Longrightarrow> list_all (\<lambda>v. length v = n) vs \<Longrightarrow> hstack vs = Some (column_rows n vs)"
  by (cases vs) (auto simp: hstack_def column_rows_def)

lemma linearly_independent_gdet:
  assumes "exact_determinant eigen_det" and "length vs = n" and "1 < n" and "list_all (\<lambda>v. length v = n) vs"
  shows "linearly_independent eigen_det vs = Some (gdet (map (!) (column_rows n vs)) {..<n} \<noteq> 0)"
proof -
  have "vs \<noteq> []" using assms(2,3) by auto
  then show ?thesis
    using hstack_columns [OF _ assms(4)] determinant_gdet [OF assms(1) square_column_rows [OF assms(2)]]
      square_column_rows [OF assms(2)] assms(3)
    by (simp add: linearly_independent_def zero_bit_t_def)
qed

lemma add_first_columns:
  "list_all (\<lambda>v. length v = length w) vs \<Longrightarrow> add_first w vs = Some (map (\<lambda>v. map2 (+) v w) vs)"
  by (induction vs) (simp_all add: vec_add_def)

text \<open>The rows of the matrix \<open>B\<close> of the solver, as functions of the column.\<close>

abbreviation solve_fun :: "nat \<Rightarrow> bit_t list list \<Rightarrow> (nat \<Rightarrow> bit_t) list" where
  "solve_fun n vs \<equiv> map (!) (solve_matrix (column_rows n vs))"

lemma length_solve_matrix [simp]: "length (solve_matrix M) = Suc (length M)"
  by (simp add: solve_matrix_def)

lemma solve_matrix_nth:
  assumes "0 < n" and "r \<le> n"
  shows "solve_matrix (column_rows n vs) ! r = (if r < n then map (\<lambda>v. v ! r) vs else replicate (length vs) 1)"
proof -
  have "hd (column_rows n vs) = map (\<lambda>v. v ! 0) vs" using assms(1) nth_column_rows [of 0 n vs] by (metis hd_conv_nth length_0_conv length_column_rows less_irrefl)
  then show ?thesis using assms by (auto simp: solve_matrix_def nth_append)
qed

lemma solve_square: "length vs = Suc n \<Longrightarrow> 0 < n \<Longrightarrow> square (solve_matrix (column_rows n vs))"
  using solve_matrix_nth [of n _ vs] by (auto simp: list_all_length)

lemma affinely_independent_gdet:
  assumes "exact_determinant eigen_det" and "length vs = Suc n" and "1 < n" and "list_all (\<lambda>v. length v = n) vs"
  shows "affinely_independent eigen_det vs = Some (gdet (solve_fun n vs) {..n} \<noteq> 0)"
proof -
  obtain v0 ws where vs: "vs = v0 # ws" using assms(2) by (cases vs) auto
  let ?us = "map (\<lambda>v. map2 (+) v v0) ws"
  let ?rows = "map (!) (column_rows n vs)"
  let ?add = "\<lambda>r j. if j \<in> {1..n} then r j + r 0 else (r j :: bit_t)"
  have len: "length ws = n" "length v0 = n" "list_all (\<lambda>v. length v = n) ws" using assms(2,4) vs by auto
  have us: "length ?us = n" "list_all (\<lambda>v. length v = n) ?us" using len by (auto simp: list_all_iff)
  have "affinely_independent eigen_det vs = Some (gdet (map (!) (column_rows n ?us)) {..<n} \<noteq> 0)"
    using add_first_columns [of v0 ws] len linearly_independent_gdet [OF assms(1) us(1) assms(3) us(2)] vs assms(3)
    by (simp add: affinely_independent_def)
  moreover have "gdet (map (!) (column_rows n ?us)) {..<n} = gdet (map ?add ?rows) {1..n}"
  proof -
    have "gdet (map (!) (column_rows n ?us)) {..<n} = gdet (map (\<lambda>r. r \<circ> Suc) (map ?add ?rows)) {..<n}"
    proof (rule gdet_cong)
      fix i j assume "i < length (map (!) (column_rows n ?us))" and "j \<in> {..<n}"
      then have "i < n" "j < n" by simp_all
      then show "(map (!) (column_rows n ?us) ! i) j = (map (\<lambda>r. r \<circ> Suc) (map ?add ?rows) ! i) j"
        using len by (simp add: vs list_all_length)
    qed simp
    also have "\<dots> = gdet (map ?add ?rows) (Suc ` {..<n})" by (rule gdet_relabel) simp
    also have "Suc ` {..<n} = {1..n}" by (simp add: lessThan_atLeast0 atLeastLessThanSuc_atLeastAtMost)
    finally show ?thesis .
  qed
  moreover have "gdet (solve_fun n vs) {..n} = gdet (map ?add ?rows) {1..n}"
  proof -
    let ?one = "\<lambda>j. of_bool (j = 0)"
    have "gdet (solve_fun n vs) {..n} = gdet (map ?add (solve_fun n vs)) {..n}"
      using gdet_add_columns [of "{1..n}" "{..n}" 0 "solve_fun n vs"] by (simp add: subset_iff)
    also have "\<dots> = gdet (map ?add ?rows @ [?one]) {..n}"
    proof (rule gdet_cong)
      fix i j assume "i < length (map ?add (solve_fun n vs))" and "j \<in> {..n}"
      then have "i \<le> n" "j \<le> n" by simp_all
      then show "(map ?add (solve_fun n vs) ! i) j = ((map ?add ?rows @ [?one]) ! i) j"
        using assms(2,3) by (auto simp: solve_matrix_nth nth_append simp del: map_append replicate_Suc)
    qed simp
    also have "\<dots> = gdet (?one # map ?add ?rows) {..n}" using gdet_front [of "{..n}" "map ?add ?rows" ?one "[]"] by simp
    also have "\<dots> = gdet (map ?add ?rows) ({..n} - {0})" by (rule gdet_unit_row) auto
    also have "{..n} - {0} = {1..n}" by auto
    finally show ?thesis .
  qed
  ultimately show ?thesis by simp
qed

section \<open>The solver\<close>

lemma solve_entry_exact:
  assumes "exact_determinant eigen_det" and "length vs = Suc n" and "0 < n" and "d \<le> n" and "length r = Suc n"
    and D: "gdet (solve_fun n vs) {..n} = 1"
    and r: "\<And>c. c \<le> n \<Longrightarrow> r ! c = (\<Sum>k<n. a ! k * vs ! c ! k) + b"
    and x: "length a = n"
  shows "solve_entry eigen_det (solve_matrix (column_rows n vs)) r d = Some ((a @ [b]) ! d)"
proof -
  let ?B = "solve_matrix (column_rows n vs)"
  let ?M = "r # take d ?B @ drop (Suc d) ?B"
  have "square ?M"
    using solve_square [OF assms(2,3)] assms(4,5) by (auto simp: list_all_iff dest: in_set_takeD in_set_dropD)
  moreover have "length ?M = Suc n" using assms(4) by simp
  ultimately have "solve_entry eigen_det ?B r d = Some (gdet (map (!) ?M) {..<Suc n})"
    using determinant_gdet [OF assms(1)] assms(3) by (simp add: solve_entry_def)
  also have "gdet (map (!) ?M) {..<Suc n} = gdet ((!) r # take d (solve_fun n vs) @ drop (Suc d) (solve_fun n vs)) {..<Suc n}"
    by (simp add: take_map drop_map)
  also have "\<dots> = (a @ [b]) ! d * gdet (solve_fun n vs) {..<Suc n}"
  proof (rule gdet_cramer)
    fix j assume "j \<in> {..<Suc n}"
    then have j: "j \<le> n" by simp
    have "(solve_fun n vs ! k) j = (if k < n then vs ! j ! k else 1)" if "k \<le> n" for k
      using that j assms(2,3) by (simp add: solve_matrix_nth del: replicate_Suc)
    then show "r ! j = (\<Sum>k<length (solve_fun n vs). (a @ [b]) ! k * (solve_fun n vs ! k) j)"
      using r [OF j] x by (simp add: nth_append)
  qed (use assms(4) in simp_all)
  finally show ?thesis using D by (simp add: lessThan_Suc_atMost)
qed

lemma solve_row_map:
  "(\<And>j. j \<in> set js \<Longrightarrow> solve_entry eigen_det B r j = Some (f j)) \<Longrightarrow> solve_row eigen_det B r js = Some (map f js)"
  by (induction js) simp_all

lemma solve_rows_map:
  "(\<And>i. i < length rs \<Longrightarrow> solve_row eigen_det B (rs ! i) [0..<cols] = Some (f i)) \<Longrightarrow>
     solve_rows eigen_det B cols rs = Some (map f [0..<length rs])"
proof (induction rs arbitrary: f)
  case (Cons r rs)
  from Cons.prems [of 0] Cons.prems [of "Suc _"] Cons.IH [of "\<lambda>i. f (Suc i)"] show ?case
    by (simp add: upt_conv_Cons map_Suc_upt [symmetric] comp_def del: upt_Suc)
qed simp

lemma affine_solve_exact:
  assumes eigen: "exact_determinant eigen_det"
    and inputs: "length inputs = Suc n" "1 < n" "list_all (\<lambda>v. length v = n) inputs"
    and indep: "affinely_independent eigen_det inputs = Some True"
    and outputs: "length outputs = Suc n" "list_all (\<lambda>v. length v = m) outputs"
    and A: "length A = m" "list_all (\<lambda>a. length a = n) A" "length t = m"
    and affine: "\<And>c i. c \<le> n \<Longrightarrow> i < m \<Longrightarrow> outputs ! c ! i = (\<Sum>k<n. A ! i ! k * inputs ! c ! k) + t ! i"
  shows "affine_solve eigen_det inputs outputs = Some (A, t)"
proof -
  let ?B = "solve_matrix (column_rows n inputs)"
  have D: "gdet (solve_fun n inputs) {..n} = 1"
    using indep affinely_independent_gdet [OF eigen inputs] by (simp add: bit_neq_0)
  have det: "determinant eigen_det ?B = Some 1"
    using determinant_gdet [OF eigen solve_square [of inputs n]] inputs D by (simp add: lessThan_Suc_atMost)
  have row: "solve_row eigen_det ?B (column_rows m outputs ! i) [0..<length outputs] = Some (A ! i @ [t ! i])" if i: "i < m" for i
  proof -
    have "solve_entry eigen_det ?B (column_rows m outputs ! i) j = Some ((A ! i @ [t ! i]) ! j)" if "j \<in> set [0..<Suc n]" for j
      using that i inputs outputs A(1,2) affine D eigen
      by (intro solve_entry_exact) (simp_all add: list_all_length less_Suc_eq_le del: upt_Suc)
    from solve_row_map [of "[0..<Suc n]", OF this] have "solve_row eigen_det ?B (column_rows m outputs ! i) [0..<length outputs] =
        Some (map ((!) (A ! i @ [t ! i])) [0..<length (A ! i @ [t ! i])])"
      using outputs(1) A(1,2) i by (simp add: list_all_length del: upt_Suc)
    then show ?thesis by (simp only: map_nth)
  qed
  have "solve_rows eigen_det ?B (length outputs) (column_rows m outputs) = Some (map (\<lambda>i. A ! i @ [t ! i]) [0..<m])"
    using solve_rows_map [of "column_rows m outputs" eigen_det ?B "length outputs" "\<lambda>i. A ! i @ [t ! i]"] row
    unfolding length_column_rows by blast
  moreover have "inputs \<noteq> []" "outputs \<noteq> []" using inputs(1) outputs(1) by auto
  then have "hstack inputs = Some (column_rows n inputs)" "hstack outputs = Some (column_rows m outputs)"
    using hstack_columns inputs(3) outputs(2) by blast+
  moreover have "map (take n) (map (\<lambda>i. A ! i @ [t ! i]) [0..<m]) = A" "map last (map (\<lambda>i. A ! i @ [t ! i]) [0..<m]) = t"
    using A by (auto intro!: nth_equalityI simp: list_all_length)
  moreover have "column_rows n inputs \<noteq> []" using inputs(2) by (metis length_column_rows list.size(3) not_less_zero)
  ultimately show ?thesis using det inputs(1) outputs(1)
    by (simp add: affine_solve_def Let_def one_bit_t_def)
qed

end
