(* ===== verification/CH_Affine.thy ===== *)
theory CH_Affine
  imports CH_Gf2 CH_Placement
begin

text \<open>
  Reversal of affine placement policies (\<open>cli/placement/affine_placement_reverser.hpp\<close>): pairs of an address and
  its set are fed to the reverser, which keeps the affinely independent ones and solves for the matrix and
  the vector of the policy.

  The theorem of this theory: whatever affine function of the address bits above the offset produced the
  sets, the policy that the reverser returns is that function, on all addresses.
\<close>

section \<open>Bit vectors\<close>

text \<open>
  \<open>uints_to_bit_vectors\<close>: the loop writes from the last element to the first; \<open>k\<close> counts what is left.
\<close>

fun uint_loop :: "nat \<Rightarrow> uintptr \<Rightarrow> bit_t list \<Rightarrow> bit_t list" where
  "uint_loop 0 num vec = vec"
| "uint_loop (Suc k) num vec = uint_loop k (drop_bit 1 num) (vec[k := Bit (num AND 1 \<noteq> 0)])"

definition uint_to_bit_vector :: "nat \<Rightarrow> nat \<Rightarrow> uintptr \<Rightarrow> bit_t list" where
  "uint_to_bit_vector off bits num = uint_loop bits (drop_bit off num) (replicate bits (Bit False))"

definition uints_to_bit_vectors :: "uintptr list \<Rightarrow> nat \<Rightarrow> nat \<Rightarrow> bit_t list list option" where
  "uints_to_bit_vectors uint_range off bits = do {
     require (off + bits \<le> 64);
     Some (map (uint_to_bit_vector off bits) uint_range) }"

fun bit_vector_loop :: "bit_t list \<Rightarrow> uintptr \<Rightarrow> uintptr" where
  "bit_vector_loop [] val = val"
| "bit_vector_loop (b # bs) val = bit_vector_loop bs (push_bit 1 val OR of_bool (bit_value b))"

definition bit_vector_to_uint :: "bit_t list \<Rightarrow> nat \<Rightarrow> uintptr" where
  "bit_vector_to_uint vec off = push_bit off (bit_vector_loop vec 0)"

definition bit_vectors_to_uints :: "bit_t list list \<Rightarrow> nat \<Rightarrow> uintptr list" where
  "bit_vectors_to_uints bit_vectors off = map (\<lambda>row. bit_vector_to_uint row off) bit_vectors"

section \<open>The reverser\<close>

record affine_placement_reverser =
  ar_offset_bits :: nat
  ar_index_bits :: nat
  ar_addresses :: "uintptr list"
  ar_sets :: "uintptr list"
  ar_fail :: nat

definition reverser_init :: "nat \<Rightarrow> nat \<Rightarrow> affine_placement_reverser" where
  "reverser_init offset_bits index_bits =
     \<lparr>ar_offset_bits = offset_bits, ar_index_bits = index_bits, ar_addresses = [], ar_sets = [], ar_fail = 0\<rparr>"

text \<open>
  The test of \<open>feed_mapping\<close> whether the last address is dependent on the others. The mask of the assertion
  is an \<open>int\<close> shift, defined for fewer than 31 offset bits.
\<close>

definition dependent_mapping :: "(rat list list \<Rightarrow> rat) \<Rightarrow> nat \<Rightarrow> uintptr list \<Rightarrow> bool option" where
  "dependent_mapping eigen_det off addresses = (
     if length addresses = 2 then do {
       vs \<leftarrow> uints_to_bit_vectors addresses off (length addresses);
       i \<leftarrow> linearly_independent eigen_det vs;
       Some (\<not> i) }
     else if length addresses > 2 then do {
       vs \<leftarrow> uints_to_bit_vectors addresses off (length addresses - 1);
       i \<leftarrow> affinely_independent eigen_det vs;
       Some (\<not> i) }
     else Some False)"

definition feed_mapping ::
    "(rat list list \<Rightarrow> rat) \<Rightarrow> uintptr \<Rightarrow> uintptr \<Rightarrow> affine_placement_reverser \<Rightarrow> (bool \<times> affine_placement_reverser) option" where
  "feed_mapping eigen_det aligned_address st r = do {
     require (ar_offset_bits r < 31);
     require (aligned_address AND (push_bit (ar_offset_bits r) 1 - 1) = 0);
     if ar_addresses r = [] then
       if drop_bit (ar_offset_bits r) aligned_address AND 0b11 \<noteq> 0
       then Some (False, r\<lparr>ar_addresses := [aligned_address], ar_sets := ar_sets r @ [st]\<rparr>)
       else Some (False, r)
     else do {
       let addresses = ar_addresses r @ [aligned_address];
       dependent \<leftarrow> dependent_mapping eigen_det (ar_offset_bits r) addresses;
       if dependent then do {
         let fail = ar_fail r + 1;
         require (fail \<noteq> 100000);
         Some (False, r\<lparr>ar_fail := fail\<rparr>) }
       else Some (True, r\<lparr>ar_addresses := addresses, ar_sets := ar_sets r @ [st]\<rparr>) } }"

definition reversed_bits :: "affine_placement_reverser \<Rightarrow> nat" where
  "reversed_bits r = (if length (ar_addresses r) \<le> 2 then 0 else length (ar_addresses r) - 1)"

text \<open>The matrix and the vector, extended by zeros for the offset bits.\<close>

definition adjust_matrix :: "nat \<Rightarrow> nat \<Rightarrow> bit_t list list \<Rightarrow> bit_t list list" where
  "adjust_matrix off cols A = map (\<lambda>row. row @ replicate off 0) A @ replicate off (replicate (cols + off) 0)"

definition reverse :: "(rat list list \<Rightarrow> rat) \<Rightarrow> affine_placement_reverser \<Rightarrow> affine_placement_policy option" where
  "reverse eigen_det r = do {
     require (reversed_bits r > 0);
     inputs \<leftarrow> uints_to_bit_vectors (ar_addresses r) (ar_offset_bits r) (reversed_bits r);
     i \<leftarrow> affinely_independent eigen_det inputs;
     require i;
     outputs \<leftarrow> uints_to_bit_vectors (ar_sets r) 0 (ar_index_bits r);
     (A, t) \<leftarrow> affine_solve eigen_det inputs outputs;
     affine_init (bit_vectors_to_uints (adjust_matrix (ar_offset_bits r) (length inputs - 1) A) 0)
       (bit_vector_to_uint (t @ replicate (ar_offset_bits r) 0) 0) (ar_offset_bits r) }"

text \<open>Feeding a sequence of mappings.\<close>

fun feed_all :: "(rat list list \<Rightarrow> rat) \<Rightarrow> (uintptr \<times> uintptr) list \<Rightarrow> affine_placement_reverser \<Rightarrow>
    affine_placement_reverser option" where
  "feed_all eigen_det [] r = Some r"
| "feed_all eigen_det ((a, s) # ms) r = do {
     (fed, r') \<leftarrow> feed_mapping eigen_det a s r;
     feed_all eigen_det ms r' }"

section \<open>Bits of vectors and words\<close>

lemma length_uint_loop [simp]: "length (uint_loop k num vec) = length vec"
  by (induction k num vec rule: uint_loop.induct) simp_all

lemma length_uint_to_bit_vector [simp]: "length (uint_to_bit_vector off bits num) = bits"
  by (simp add: uint_to_bit_vector_def)

lemma and_1_bit: "(num :: uintptr) AND 1 \<noteq> 0 \<longleftrightarrow> bit num 0"
  by (simp add: and_one_eq odd_iff_mod_2_eq_one bit_0 mod2_eq_if)

lemma uint_loop_nth:
  "k \<le> length vec \<Longrightarrow> i < length vec \<Longrightarrow>
     uint_loop k num vec ! i = (if i < k then Bit (bit num (k - 1 - i)) else vec ! i)"
proof (induction k num vec rule: uint_loop.induct)
  case (2 k num vec)
  then show ?case by (auto simp: and_1_bit bit_drop_bit_eq nth_list_update less_Suc_eq Suc_diff_Suc)
qed simp

lemma uint_to_bit_vector_nth:
  "i < bits \<Longrightarrow> uint_to_bit_vector off bits num ! i = Bit (bit num (off + (bits - 1 - i)))"
  by (simp add: uint_to_bit_vector_def uint_loop_nth bit_drop_bit_eq)

lemma bit_vector_loop_bit:
  "bit (bit_vector_loop bs val) n \<longleftrightarrow>
     (if n < length bs then n < 64 \<and> bit_value (bs ! (length bs - 1 - n)) else n < 64 \<and> bit val (n - length bs))"
proof (induction bs arbitrary: val)
  case Nil
  then show ?case by (auto dest: bit_imp_le_length)
next
  case (Cons b bs)
  have "bit (push_bit 1 val OR of_bool (bit_value b)) k \<longleftrightarrow> (if k = 0 then bit_value b else k < 64 \<and> bit val (k - 1))" for k
    unfolding bit_or_iff bit_push_bit_iff by (auto simp: bit_1_iff)
  then show ?case unfolding bit_vector_loop.simps Cons.IH by (auto simp: nth_Cons' less_Suc_eq not_less)
qed

lemma bit_vector_to_uint_bit:
  "bit (bit_vector_to_uint vec 0) n \<longleftrightarrow> n < length vec \<and> n < 64 \<and> bit_value (vec ! (length vec - 1 - n))"
  by (simp add: bit_vector_to_uint_def bit_vector_loop_bit)

text \<open>A word of at most 64 bits survives the way into a bit vector and back.\<close>

lemma bit_vector_roundtrip:
  "bits \<le> 64 \<Longrightarrow> bit_vector_to_uint (uint_to_bit_vector 0 bits w) 0 = take_bit bits w"
  by (rule bit_eqI) (auto simp: bit_vector_to_uint_bit uint_to_bit_vector_nth bit_take_bit_iff)

section \<open>Affine functions of the address\<close>

text \<open>
  What the reverser assumes of the placement function: it is affine over the two-element field, reads only the
  \<open>n\<close> bits above the offset and produces \<open>m\<close> bits.
\<close>

definition affine_index :: "nat \<Rightarrow> nat \<Rightarrow> nat \<Rightarrow> (uintptr \<Rightarrow> uintptr) \<Rightarrow> bool" where
  "affine_index off n m g \<longleftrightarrow> (\<forall>a b c. g (a XOR b XOR c) = g a XOR g b XOR g c) \<and>
     (\<forall>a. g (a AND push_bit off (mask n)) = g a) \<and> (\<forall>a i. bit (g a) i \<longrightarrow> i < m)"

text \<open>The coefficients of such a function: the matrix and the vector, most significant bits first.\<close>

definition index_matrix :: "nat \<Rightarrow> nat \<Rightarrow> nat \<Rightarrow> (uintptr \<Rightarrow> uintptr) \<Rightarrow> bit_t list list" where
  "index_matrix off n m g =
     map (\<lambda>i. map (\<lambda>k. Bit (bit (g (push_bit (off + (n - 1 - k)) 1) XOR g 0) (m - 1 - i))) [0..<n]) [0..<m]"

definition index_vector :: "nat \<Rightarrow> (uintptr \<Rightarrow> uintptr) \<Rightarrow> bit_t list" where
  "index_vector m g = map (\<lambda>i. Bit (bit (g 0) (m - 1 - i))) [0..<m]"

lemma affine_index_more:
  assumes "affine_index off n m h" and "n \<le> n'"
  shows "affine_index off n' m h"
proof -
  have "(a AND push_bit off (mask n')) AND push_bit off (mask n) = a AND push_bit off (mask n)" for a :: uintptr
    using assms(2) by (intro bit_eqI) (auto simp: bit_simps)
  then have "h (a AND push_bit off (mask n')) = h a" for a
    using assms(1) by (metis affine_index_def)
  with assms(1) show ?thesis by (simp add: affine_index_def)
qed

lemma Bit_add: "Bit a + Bit b = Bit (a \<noteq> b)"
  by auto

lemma bit_sum_card: "finite S \<Longrightarrow> (\<Sum>k\<in>S. Bit (P k)) = Bit (odd (card {k \<in> S. P k}))"
proof (induction S rule: finite_induct)
  case empty
  then show ?case by (simp add: zero_bit_t_def)
next
  case (insert x S)
  have "{k \<in> insert x S. P k} = (if P x then insert x {k \<in> S. P k} else {k \<in> S. P k})" by auto
  with insert show ?case by simp
qed

lemma sum_reverse_bits: "(\<Sum>k<n. f (n - 1 - k)) = (\<Sum>k<n. f (k :: nat) :: bit_t)"
  using sum.nat_diff_reindex [of f n] by simp

text \<open>An affine function is determined by its values on the words with at most one bit.\<close>

lemma affine_index_bits_sum:
  assumes "affine_index off n m g" and "off + n \<le> 64"
  shows "Bit (bit (g (a AND push_bit off (mask j))) b) =
    (\<Sum>k<j. Bit (bit (g (push_bit (off + k) 1) XOR g 0) b \<and> bit a (off + k))) + Bit (bit (g 0) b)"
  using assms
proof (induction j)
  case (Suc j)
  let ?x = "a AND push_bit off (mask j)" and ?e = "push_bit (off + j) (1 :: uintptr)"
  have step: "a AND push_bit off (mask (Suc j)) = (if bit a (off + j) then ?x XOR ?e XOR 0 else ?x)"
    by (rule bit_eqI) (auto simp: bit_simps less_Suc_eq)
  have "g (?x XOR ?e XOR 0) = g ?x XOR g ?e XOR g 0" using Suc.prems(1) unfolding affine_index_def by blast
  with step have "Bit (bit (g (a AND push_bit off (mask (Suc j)))) b) =
      Bit (bit (g ?x) b) + Bit (bit (g ?e XOR g 0) b \<and> bit a (off + j))"
    by (auto simp: bit_xor_iff)
  then show ?case using Suc.IH [OF Suc.prems] by (simp add: algebra_simps)
qed (simp add: zero_bit_t_def)

lemma affine_index_equation:
  assumes "affine_index off n m g" and "off + n \<le> 64" and "i < m"
  shows "Bit (bit (g a) (m - 1 - i)) =
    (\<Sum>k<n. index_matrix off n m g ! i ! k * uint_to_bit_vector off n a ! k) + index_vector m g ! i"
proof -
  let ?f = "\<lambda>k. Bit (bit (g (push_bit (off + k) 1) XOR g 0) (m - 1 - i) \<and> bit a (off + k))"
  have "(\<Sum>k<n. index_matrix off n m g ! i ! k * uint_to_bit_vector off n a ! k) = (\<Sum>k<n. ?f (n - 1 - k))"
    using assms(3) by (intro sum.cong) (auto simp: index_matrix_def uint_to_bit_vector_nth)
  also have "\<dots> = (\<Sum>k<n. ?f k)" by (rule sum_reverse_bits)
  finally show ?thesis
    using affine_index_bits_sum [OF assms(1,2), of a n "m - 1 - i"] assms(1,3)
    by (simp add: index_vector_def affine_index_def)
qed

text \<open>The parity that the affine policy computes is the same sum.\<close>

lemma parity_sum:
  assumes "length row = n" and "off + n \<le> 64"
  shows "Bit (odd (popcount (bit_vector_to_uint (row @ replicate off 0) 0 AND a))) =
    (\<Sum>k<n. row ! k * uint_to_bit_vector off n a ! k)"
proof -
  let ?P = "\<lambda>k. bit_value (row ! k) \<and> bit a (off + (n - 1 - k))"
  let ?w = "bit_vector_to_uint (row @ replicate off 0) 0"
  have w: "bit ?w k \<longleftrightarrow> off \<le> k \<and> k < off + n \<and> bit_value (row ! (n - 1 - (k - off)))" for k
    using assms by (auto simp: bit_vector_to_uint_bit nth_append zero_bit_t_def)
  have "bij_betw (\<lambda>k. off + (n - 1 - k)) {k \<in> {..<n}. ?P k} {k. k < 64 \<and> bit (?w AND a) k}"
    by (rule bij_betw_byWitness [of _ "\<lambda>k. n - 1 - (k - off)"])
      (use assms(2) in \<open>auto simp: bit_and_iff w\<close>)
  then have "card {k \<in> {..<n}. ?P k} = popcount (?w AND a)"
    unfolding popcount_card by (rule bij_betw_same_card)
  moreover have "row ! k * uint_to_bit_vector off n a ! k = Bit (?P k)" if "k < n" for k
    using that by (cases "row ! k") (auto simp: uint_to_bit_vector_nth)
  ultimately show ?thesis using bit_sum_card [of "{..<n}" ?P] by simp
qed

section \<open>Recovery of the policy\<close>

text \<open>
  The invariant of the reverser while it is fed with mappings of \<open>g\<close>: what it keeps are mappings of \<open>g\<close>, and from
  the third address on they are affinely independent in the bits that are counted as reversed.
\<close>

definition reverser_inv :: "(rat list list \<Rightarrow> rat) \<Rightarrow> (uintptr \<Rightarrow> uintptr) \<Rightarrow> affine_placement_reverser \<Rightarrow> bool" where
  "reverser_inv eigen_det g r \<longleftrightarrow> ar_sets r = map g (ar_addresses r) \<and>
     (2 < length (ar_addresses r) \<longrightarrow> (\<exists>vs.
        uints_to_bit_vectors (ar_addresses r) (ar_offset_bits r) (length (ar_addresses r) - 1) = Some vs \<and>
        affinely_independent eigen_det vs = Some True))"

lemma reverser_init_inv: "reverser_inv eigen_det g (reverser_init off m)"
  by (simp add: reverser_inv_def reverser_init_def)

lemma feed_mapping_inv:
  assumes "reverser_inv eigen_det g r" and "feed_mapping eigen_det a (g a) r = Some (fed, r')"
  shows "reverser_inv eigen_det g r'" and "ar_offset_bits r' = ar_offset_bits r" and "ar_index_bits r' = ar_index_bits r"
    and "ar_offset_bits r < 31"
  using assms
  by (auto simp: feed_mapping_def reverser_inv_def dependent_mapping_def bind_eq_Some_conv vec_simps Let_def split: if_splits)

lemma feed_all_inv:
  "feed_all eigen_det (map (\<lambda>a. (a, g a)) as) r = Some r' \<Longrightarrow> reverser_inv eigen_det g r \<Longrightarrow>
     reverser_inv eigen_det g r' \<and> ar_offset_bits r' = ar_offset_bits r \<and> ar_index_bits r' = ar_index_bits r"
proof (induction as arbitrary: r)
  case (Cons a as)
  from Cons.prems obtain fed r1 where r1: "feed_mapping eigen_det a (g a) r = Some (fed, r1)"
    "feed_all eigen_det (map (\<lambda>a. (a, g a)) as) r1 = Some r'" by (auto simp: bind_eq_Some_conv)
  with Cons.IH [OF r1(2)] feed_mapping_inv [OF Cons.prems(2) r1(1)] show ?case by simp
qed simp

lemma index_shapes:
  "length (index_matrix off n m g) = m" "list_all (\<lambda>a. length a = n) (index_matrix off n m g)" "length (index_vector m g) = m"
  by (simp_all add: index_matrix_def index_vector_def list_all_iff)

text \<open>The policy that is built from the coefficients.\<close>

definition coefficient_policy :: "nat \<Rightarrow> nat \<Rightarrow> nat \<Rightarrow> (uintptr \<Rightarrow> uintptr) \<Rightarrow> affine_placement_policy" where
  "coefficient_policy off n m g =
     \<lparr>ap_matrix = bit_vectors_to_uints (adjust_matrix off n (index_matrix off n m g)) 0,
      ap_vector = bit_vector_to_uint (index_vector m g @ replicate off 0) 0, ap_offset_bits = off\<rparr>"

lemma coefficient_policy_init:
  assumes "off + m < 31"
  shows "affine_init (bit_vectors_to_uints (adjust_matrix off n (index_matrix off n m g)) 0)
      (bit_vector_to_uint (index_vector m g @ replicate off 0) 0) off = Some (coefficient_policy off n m g)"
proof -
  have len: "length (bit_vectors_to_uints (adjust_matrix off n (index_matrix off n m g)) 0) = m + off"
    by (simp add: bit_vectors_to_uints_def adjust_matrix_def index_shapes)
  let ?v = "bit_vector_to_uint (index_vector m g @ replicate off 0) 0"
  have "?v = ?v AND (push_bit (m + off) 1 - 1)"
    unfolding push_bit_1_minus_1_mask by (rule bit_eqI) (auto simp: bit_simps bit_vector_to_uint_bit index_shapes)
  then show ?thesis using assms len by (simp add: affine_init_def coefficient_policy_def)
qed

lemma coefficient_policy_place:
  assumes "affine_index off n m g" and "off + n \<le> 64" and "off + m < 31"
  shows "affine_place (coefficient_policy off n m g) a = unat (g a)"
proof -
  let ?q = "coefficient_policy off n m g"
  let ?rows = "bit_vectors_to_uints (adjust_matrix off n (index_matrix off n m g)) 0"
  let ?t = "bit_vector_to_uint (index_vector m g @ replicate off 0) 0"
  have len: "length ?rows = m + off"
    by (simp add: bit_vectors_to_uints_def adjust_matrix_def index_shapes)
  have row: "?rows ! i = bit_vector_to_uint (index_matrix off n m g ! i @ replicate off 0) 0" if "i < m" for i
    using that by (simp add: bit_vectors_to_uints_def adjust_matrix_def index_shapes nth_append)
  have "bit (affine_loop ?rows a 0 XOR ?t) (off + b) \<longleftrightarrow> bit (g a) b" for b
  proof (cases "b < m")
    case True
    let ?i = "m - 1 - b"
    have i: "?i < m" "m - 1 - ?i = b" "off + b < 64" using True assms(3) by auto
    have "length (index_matrix off n m g ! ?i) = n" using i(1) by (simp add: index_matrix_def)
    from parity_sum [OF this assms(2), of a]
    have "Bit (odd (popcount (?rows ! ?i AND a))) + index_vector m g ! ?i = Bit (bit (g a) b)"
      unfolding row [OF i(1)] using affine_index_equation [OF assms(1,2) i(1), of a] i(2) by simp
    moreover have "bit (affine_loop ?rows a 0) (off + b) \<longleftrightarrow> odd (popcount (?rows ! ?i AND a))"
      using True i(3) len by (simp add: affine_loop_bit)
    moreover have "bit ?t (off + b) \<longleftrightarrow> bit_value (index_vector m g ! ?i)"
      using True i(3) by (simp add: bit_vector_to_uint_bit index_shapes nth_append)
    ultimately show ?thesis unfolding bit_xor_iff by (cases "index_vector m g ! ?i") auto
  next
    case False
    then show ?thesis
      using assms(1) len by (auto simp: bit_xor_iff affine_loop_bit bit_vector_to_uint_bit index_shapes affine_index_def)
  qed
  then have "drop_bit off (affine_loop ?rows a 0 XOR ?t) = g a" by (intro bit_eqI) (simp only: bit_drop_bit_eq comp_apply)
  then show ?thesis by (simp add: affine_place_def coefficient_policy_def)
qed

lemma reverser_recovers:
  assumes eigen: "exact_determinant eigen_det" and inv: "reverser_inv eigen_det g r"
    and g: "affine_index (ar_offset_bits r) (reversed_bits r) (ar_index_bits r) g"
    and bits: "0 < reversed_bits r" "ar_offset_bits r + ar_index_bits r < 31"
  shows "reverse eigen_det r = Some (coefficient_policy (ar_offset_bits r) (reversed_bits r) (ar_index_bits r) g)"
    and "affine_place (coefficient_policy (ar_offset_bits r) (reversed_bits r) (ar_index_bits r) g) a = unat (g a)"
proof -
  let ?off = "ar_offset_bits r" and ?n = "reversed_bits r" and ?m = "ar_index_bits r"
  let ?in = "map (uint_to_bit_vector ?off ?n) (ar_addresses r)" and ?out = "map (uint_to_bit_vector 0 ?m) (ar_sets r)"
  have n: "length (ar_addresses r) = Suc ?n" "1 < ?n" using bits(1) by (auto simp: reversed_bits_def split: if_splits)
  then have 64: "?off + ?n \<le> 64" and ind: "affinely_independent eigen_det ?in = Some True"
    using inv by (auto simp: reverser_inv_def uints_to_bit_vectors_def bind_eq_Some_conv vec_simps)
  have sets: "ar_sets r = map g (ar_addresses r)" using inv by (simp add: reverser_inv_def)
  have "affine_solve eigen_det ?in ?out = Some (index_matrix ?off ?n ?m g, index_vector ?m g)"
  proof (rule affine_solve_exact [OF eigen, where n = ?n and m = ?m])
    fix c i assume c: "c \<le> ?n" and i: "i < ?m"
    then have "?out ! c ! i = Bit (bit (g (ar_addresses r ! c)) (?m - 1 - i))"
      using sets n(1) by (simp add: uint_to_bit_vector_nth)
    then show "?out ! c ! i = (\<Sum>k<?n. index_matrix ?off ?n ?m g ! i ! k * ?in ! c ! k) + index_vector ?m g ! i"
      using affine_index_equation [OF g 64 i, of "ar_addresses r ! c"] c n(1) by simp
  qed (use n sets ind index_shapes in \<open>auto simp: list_all_iff\<close>)
  then show "reverse eigen_det r = Some (coefficient_policy ?off ?n ?m g)"
    using 64 ind bits coefficient_policy_init [of ?off ?m ?n g] n(1)
    by (simp add: reverse_def uints_to_bit_vectors_def)
  show "affine_place (coefficient_policy ?off ?n ?m g) a = unat (g a)"
    by (rule coefficient_policy_place [OF g 64 bits(2)])
qed

text \<open>
  C3. The reverser recovers the placement function: when it was fed with the sets that any affine function of the
  address bits above the offset assigns to a sequence of addresses, and it counts all the bits the
  function reads as reversed, the policy it returns computes that function on every address.
\<close>

theorem reverse_recovers_placement:
  assumes "exact_determinant eigen_det"
    and "feed_all eigen_det (map (\<lambda>a. (a, g a)) as) (reverser_init offset_bits index_bits) = Some r"
    and "0 < reversed_bits r" and "affine_index offset_bits (reversed_bits r) index_bits g"
    and "offset_bits + index_bits < 31"
  shows "\<exists>q. reverse eigen_det r = Some q \<and> (\<forall>a. affine_place q a = unat (g a))"
proof -
  have "reverser_inv eigen_det g r" "ar_offset_bits r = offset_bits" "ar_index_bits r = index_bits"
    using feed_all_inv [OF assms(2) reverser_init_inv] by (simp_all add: reverser_init_def)
  then show ?thesis using reverser_recovers [of eigen_det g r] assms(1,3,4,5) by auto
qed

definition small_index :: "uintptr \<Rightarrow> uintptr" where
  "small_index a = (drop_bit 2 a AND mask 2) XOR (drop_bit 3 a AND mask 1) XOR 1"

lemma small_index_affine: "affine_index 2 2 2 small_index"
  unfolding affine_index_def small_index_def
  by (auto intro!: bit_eqI simp: bit_simps)

theorem reverse_recovers_placement_witness:
  "\<exists>r q. feed_all (\<lambda>M. laplace M [0..<length M]) [(4, 0), (8, 2), (12, 3)] (reverser_init 2 2) = Some r \<and>
     reverse (\<lambda>M. laplace M [0..<length M]) r = Some q \<and> affine_place q 0x12345678 = unat (small_index 0x12345678)"
proof -
  let ?e = "\<lambda>M. laplace M [0..<length M] :: rat"
  let ?r = "\<lparr>ar_offset_bits = 2, ar_index_bits = 2, ar_addresses = [4, 8, 12], ar_sets = [0, 2, 3], ar_fail = 0\<rparr>"
  have e: "exact_determinant ?e" by (simp add: exact_determinant_def)
  have ms: "map (\<lambda>a. (a, small_index a)) [4, 8, 12] = [(4, 0), (8, 2), (12, 3)]"
    by (simp add: small_index_def mask_eq_exp_minus_1)
  have r: "feed_all ?e [(4, 0), (8, 2), (12, 3)] (reverser_init 2 2) = Some ?r"
    by code_simp
  have "reversed_bits ?r = 2" by (simp add: reversed_bits_def)
  with reverse_recovers_placement [OF e, of small_index "[4, 8, 12]" 2 2 ?r] ms r small_index_affine
  obtain q where "reverse ?e ?r = Some q" "\<forall>a. affine_place q a = unat (small_index a)" by auto
  with r show ?thesis by blast
qed

end
