(* ===== verification/CH_Reverse_Replacement.thy ===== *)
theory CH_Reverse_Replacement
  imports CH_Measure
begin

text \<open>
  The command \<open>reverse replacement\<close> (\<open>cli/commands/impl/reverse_replacement_command.hpp\<close>): in rounds, a random
  sequence is measured several times on addresses of one set, the majority of the measured hit counters is
  taken, and the candidate policies whose simulation disagrees are dropped, until one is left.

  Randomness is a parameter: \<open>draw_address\<close> is a draw of \<open>uniform_address_distribution\<close> from the random
  device, \<open>draw\<close> one of \<open>std::uniform_int_distribution\<close> from the generator. The loops that end only with luck
  are partial functions; the theorems say when they end.
\<close>

section \<open>The command\<close>

text \<open>\<open>majority_element\<close>: the loop visits the first element again.\<close>

fun majority_loop :: "'a list \<Rightarrow> 'a \<Rightarrow> nat \<Rightarrow> 'a" where
  "majority_loop [] maj cnt = maj"
| "majority_loop (x # xs) maj cnt =
     (if x = maj then majority_loop xs maj (cnt + 1)
      else if cnt = 1 then majority_loop xs x cnt
      else majority_loop xs maj (cnt - 1))"

definition majority_element :: "'a list \<Rightarrow> 'a option" where
  "majority_element xs = (case xs of [] \<Rightarrow> None | x # _ \<Rightarrow> Some (majority_loop xs x 1))"

text \<open>Selection of 50 different addresses of the set \<open>index\<close>.\<close>

partial_function (option) select_addresses ::
    "('r \<Rightarrow> uintptr \<times> 'r) \<Rightarrow> (uintptr \<Rightarrow> nat) \<Rightarrow> nat \<Rightarrow> uintptr list \<Rightarrow> uintptr set \<Rightarrow> 'r \<Rightarrow>
     (uintptr list \<times> uintptr set \<times> 'r) option" where
  [code]: "select_addresses draw_address placement index addresses blacklist r =
     (if length addresses < 50 then
        let (address, r') = draw_address r in
        if placement address \<noteq> index then select_addresses draw_address placement index addresses blacklist r'
        else if address \<in> blacklist then select_addresses draw_address placement index addresses blacklist r'
        else select_addresses draw_address placement index (addresses @ [address]) (insert address blacklist) r'
      else Some (addresses, blacklist, r))"

text \<open>Cache pollution: \<open>n\<close> accesses to addresses that are not blacklisted.\<close>

partial_function (option) pollute ::
    "(uintptr \<Rightarrow> 'm \<Rightarrow> 'm option) \<Rightarrow> ('r \<Rightarrow> uintptr \<times> 'r) \<Rightarrow> uintptr set \<Rightarrow> nat \<Rightarrow> 'm \<Rightarrow> 'r \<Rightarrow> ('m \<times> 'r) option" where
  [code]: "pollute acc draw_address blacklist n m r =
     (if n = 0 then Some (m, r)
      else let (address, r') = draw_address r in
        if address \<in> blacklist then pollute acc draw_address blacklist n m r'
        else do { m' \<leftarrow> acc address m; pollute acc draw_address blacklist (n - 1) m' r' })"

text \<open>
  One attempt of a measurement. \<open>reset\<close> is \<open>memory.reset()\<close>, \<open>memory.wbinvd()\<close> or nothing, depending on the type
  of the memory.
\<close>

definition measure_attempt ::
    "(uintptr \<Rightarrow> 'm \<Rightarrow> (nat \<times> 'm) option) \<Rightarrow> (uintptr \<Rightarrow> 'm \<Rightarrow> 'm option) \<Rightarrow> ('m \<Rightarrow> 'm option) \<Rightarrow> ('r \<Rightarrow> uintptr \<times> 'r) \<Rightarrow>
     nat \<Rightarrow> uintptr set \<Rightarrow> uintptr list \<Rightarrow> nat list \<Rightarrow> 'm \<times> 'r \<Rightarrow> (nat option \<times> 'm \<times> 'r) option" where
  "measure_attempt iacc acc reset draw_address pollution blacklist addresses seq = (\<lambda>(m, r). do {
     m1 \<leftarrow> reset m;
     (m2, r2) \<leftarrow> pollute acc draw_address blacklist pollution m1 r;
     (measured_hit_counter, m3) \<leftarrow> safe_measure_sequence iacc acc seq addresses m2;
     Some (measured_hit_counter, m3, r2) })"

partial_function (option) measure_repeat ::
    "('w \<Rightarrow> (nat option \<times> 'w) option) \<Rightarrow> nat \<Rightarrow> nat list \<Rightarrow> 'w \<Rightarrow> (nat list \<times> 'w) option" where
  [code]: "measure_repeat attempt repetitions measurements w =
     (if length measurements < repetitions then do {
        (measured_hit_counter, w') \<leftarrow> attempt w;
        case measured_hit_counter of
          None \<Rightarrow> measure_repeat attempt repetitions measurements w'
        | Some n \<Rightarrow> measure_repeat attempt repetitions (measurements @ [n]) w' }
      else Some (measurements, w))"

text \<open>
  One round of elimination; \<open>n\<close> is the number of addresses. The exception of an unknown policy name
  ends the command.
\<close>

definition reversal_round ::
    "(nat list \<Rightarrow> 'w \<Rightarrow> (nat option \<times> 'w) option) \<Rightarrow> (nat \<Rightarrow> nat \<Rightarrow> 'g \<Rightarrow> nat \<times> 'g) \<Rightarrow> nat \<Rightarrow> nat \<Rightarrow> nat \<Rightarrow> nat \<Rightarrow>
     string list \<times> 'g \<times> 'w \<Rightarrow> (string list \<times> 'g \<times> 'w) option" where
  "reversal_round attempt draw len repetitions ways n = (\<lambda>(candidates, g, w). do {
     (seq, g') \<leftarrow> generate_sequence draw len (min (2 * ways) n) g;
     (measurements, w') \<leftarrow> measure_repeat (attempt seq) repetitions [] w;
     majority_hit_counter \<leftarrow> majority_element measurements;
     r \<leftarrow> filter_replacement_policies candidates seq majority_hit_counter ways;
     case r of Inl e \<Rightarrow> None | Inr (it, candidates') \<Rightarrow> Some (take it candidates', g', w') })"

partial_function (option) reversal_loop ::
    "(string list \<times> 'g \<times> 'w \<Rightarrow> (string list \<times> 'g \<times> 'w) option) \<Rightarrow> nat \<Rightarrow> nat \<Rightarrow> string list \<times> 'g \<times> 'w \<Rightarrow>
     (string list \<times> 'g \<times> 'w) option" where
  [code]: "reversal_loop round minimum_rounds rounds s =
     (if length (fst s) > 1 \<or> rounds < minimum_rounds then do {
        s' \<leftarrow> round s;
        reversal_loop round minimum_rounds (rounds + 1) s' }
      else Some s)"

text \<open>
  \<open>main\<close>: the found policy is the first of the remaining candidates, if one is left.
\<close>

definition reverse_replacement_main ::
    "(uintptr \<Rightarrow> 'm \<Rightarrow> (nat \<times> 'm) option) \<Rightarrow> (uintptr \<Rightarrow> 'm \<Rightarrow> 'm option) \<Rightarrow> ('m \<Rightarrow> 'm option) \<Rightarrow> ('r \<Rightarrow> uintptr \<times> 'r) \<Rightarrow>
     (nat \<Rightarrow> nat \<Rightarrow> 'g \<Rightarrow> nat \<times> 'g) \<Rightarrow> nat \<Rightarrow> nat \<Rightarrow> nat \<Rightarrow> nat \<Rightarrow> nat \<Rightarrow> nat \<Rightarrow> nat \<Rightarrow> nat \<Rightarrow> 'm \<Rightarrow> 'r \<Rightarrow> 'g \<Rightarrow> string option option" where
  "reverse_replacement_main iacc acc reset draw_address draw offset_bits index_bits ways
       index pollution repetitions len minimum_rounds m r g = do {
     placement \<leftarrow> modular_init offset_bits (2 ^ index_bits);
     (addresses, blacklist, r1) \<leftarrow> select_addresses draw_address (modular_place placement) index [] {} r;
     candidates \<leftarrow> get_replacement_policies ways;
     (found, g', w') \<leftarrow> reversal_loop
       (reversal_round (measure_attempt iacc acc reset draw_address pollution blacklist addresses) draw len repetitions ways
         (length addresses)) minimum_rounds 0 (candidates, g, m, r1);
     Some (if found = [] then None else Some (hd found)) }"

section \<open>The majority\<close>

text \<open>
  The invariant: \<open>d\<close> is how often \<open>x\<close> has been seen more than something else so far. As long as another element is
  held, its counter is a debt of \<open>x\<close>.
\<close>

lemma majority_loop_invariant:
  assumes "0 < cnt" and "if maj = x then d \<le> int cnt else d \<le> 1 - int cnt"
    and "0 < d + int (count_list xs x) - (int (length xs) - int (count_list xs x))"
  shows "majority_loop xs maj cnt = x"
  using assms
proof (induction xs maj cnt arbitrary: d rule: majority_loop.induct)
  case (1 maj cnt)
  then show ?case by (auto split: if_splits)
next
  case (2 y ys maj cnt)
  let ?d = "d + (if y = x then 1 else - 1)"
  have d: "0 < ?d + int (count_list ys x) - (int (length ys) - int (count_list ys x))"
    using 2(6) by (cases "y = x") simp_all
  consider (same) "y = maj" | (switch) "y \<noteq> maj" "cnt = 1" | (pay) "y \<noteq> maj" "cnt \<noteq> 1" by blast
  then show ?case
  proof cases
    case same
    then show ?thesis using 2(1) [OF same, of ?d] d 2(4,5) by (cases "maj = x") (auto simp: algebra_simps)
  next
    case switch
    then show ?thesis using 2(2) [OF switch, of ?d] d 2(5) by (cases "maj = x"; cases "y = x") auto
  next
    case pay
    then show ?thesis using 2(3) [OF pay, of ?d] d 2(4,5) by (cases "maj = x"; cases "y = x") (auto simp: of_nat_diff)
  qed
qed

lemma majority_element_majority:
  assumes "length xs < 2 * count_list xs x"
  shows "majority_element xs = Some x"
proof (cases xs)
  case Nil
  with assms show ?thesis by simp
next
  case (Cons y ys)
  have "majority_loop xs y 1 = x"
    by (rule majority_loop_invariant [of _ _ _ 0]) (use assms in auto)
  with Cons show ?thesis by (simp add: majority_element_def)
qed

section \<open>Rounds\<close>

text \<open>\<open>n\<close> rounds in a row, and the sequences that are generated for them.\<close>

fun rounds_n :: "('s \<Rightarrow> 's option) \<Rightarrow> nat \<Rightarrow> 's \<Rightarrow> 's option" where
  "rounds_n round 0 s = Some s"
| "rounds_n round (Suc n) s = do { s' \<leftarrow> round s; rounds_n round n s' }"

fun sequences :: "(nat \<Rightarrow> nat \<Rightarrow> 'g \<Rightarrow> nat \<times> 'g) \<Rightarrow> nat \<Rightarrow> nat \<Rightarrow> nat \<Rightarrow> 'g \<Rightarrow> nat list list" where
  "sequences draw len mx 0 g = []"
| "sequences draw len mx (Suc n) g =
     (let (seq, g') = generate_loop draw mx len [] g in seq # sequences draw len mx n g')"

definition draw_in_range :: "(nat \<Rightarrow> nat \<Rightarrow> 'g \<Rightarrow> nat \<times> 'g) \<Rightarrow> bool" where
  "draw_in_range draw \<longleftrightarrow> (\<forall>lo hi g. lo \<le> hi \<longrightarrow> lo \<le> fst (draw lo hi g) \<and> fst (draw lo hi g) \<le> hi)"

text \<open>More than half of the measurements of a sequence agree with the policy \<open>name\<close>, in the states that satisfy \<open>ok\<close>.\<close>

definition majority_right :: "(nat list \<Rightarrow> 'w \<Rightarrow> (nat option \<times> 'w) option) \<Rightarrow> nat \<Rightarrow> nat \<Rightarrow> string \<Rightarrow> nat \<Rightarrow> ('w \<Rightarrow> bool) \<Rightarrow> bool" where
  "majority_right attempt repetitions mx name ways ok \<longleftrightarrow> (\<forall>seq w. ok w \<and> (\<forall>x \<in> set seq. x < mx) \<longrightarrow>
     (\<exists>ms w' n. measure_repeat (attempt seq) repetitions [] w = Some (ms, w') \<and> ok w' \<and>
        simulate_sequence_named seq name ways = Some (Inr n) \<and> length ms < 2 * count_list ms n))"

abbreviation agree :: "nat \<Rightarrow> string \<Rightarrow> nat list list \<Rightarrow> string \<Rightarrow> bool" where
  "agree ways name seqs c \<equiv> \<forall>seq \<in> set seqs. simulate_sequence_named seq c ways = simulate_sequence_named seq name ways"

lemma generate_loop_range:
  assumes "draw_in_range draw" and "0 < mx"
  shows "\<forall>x \<in> set out. x < mx \<Longrightarrow> \<forall>x \<in> set (fst (generate_loop draw mx n out g)). x < mx"
proof (induction n arbitrary: out g)
  case (Suc n)
  obtain x g' where x: "draw 0 (mx - 1) g = (x, g')" by fastforce
  then have "x < mx" using assms unfolding draw_in_range_def by (metis fst_conv le0 le_imp_less_Suc Suc_pred')
  with Suc.prems have "\<forall>y \<in> set (out @ [x]). y < mx" by simp
  from Suc.IH [OF this, of g'] x show ?case by simp
qed simp

lemma reversal_round_filters:
  assumes ways: "0 < ways" "ways < 2 ^ 31" "get_replacement_policies ways = Some cs"
    and draw: "draw_in_range draw" and n: "0 < n" "min (2 * ways) n \<le> dirty"
    and right: "majority_right attempt repetitions (min (2 * ways) n) name ways ok"
    and s: "set candidates \<subseteq> set cs" "ok w" and seq: "generate_loop draw (min (2 * ways) n) len [] g = (seq, g')"
  shows "\<exists>w'. reversal_round attempt draw len repetitions ways n (candidates, g, w) =
      Some (filter (agree ways name [seq]) candidates, g', w') \<and> ok w'"
proof -
  have mx: "0 < min (2 * ways) n" using ways(1) n(1) by simp
  have "\<forall>x \<in> set seq. x < min (2 * ways) n"
    using generate_loop_range [OF draw mx, of "[]" len g] seq by simp
  with right s(2) obtain ms w' h where ms: "measure_repeat (attempt seq) repetitions [] w = Some (ms, w')" "ok w'"
    "simulate_sequence_named seq name ways = Some (Inr h)" "length ms < 2 * count_list ms h"
    unfolding majority_right_def by blast
  have "\<forall>x \<in> set seq. x < dirty" using \<open>\<forall>x \<in> set seq. x < min (2 * ways) n\<close> n(2) by auto
  from filter_policies_matching [OF ways s(1) this, of h] obtain out names' where
    f: "filter_replacement_policies candidates seq h ways = Some (Inr (out, names'))"
      "take out names' = filter (\<lambda>c. simulate_sequence_named seq c ways = Some (Inr h)) candidates" by blast
  have "filter (agree ways name [seq]) candidates = filter (\<lambda>c. simulate_sequence_named seq c ways = Some (Inr h)) candidates"
    using ms(3) by simp
  with f ms(1,2) majority_element_majority [OF ms(4)] mx seq show ?thesis
    by (simp add: reversal_round_def generate_sequence_def)
qed

text \<open>After \<open>k\<close> rounds the candidates are those that agree with the true policy on all sequences so far.\<close>

lemma rounds_filter:
  assumes ways: "0 < ways" "ways < 2 ^ 31" "get_replacement_policies ways = Some cs"
    and draw: "draw_in_range draw" and n: "0 < n" "min (2 * ways) n \<le> dirty"
    and right: "majority_right attempt repetitions (min (2 * ways) n) name ways ok"
    and s: "set candidates \<subseteq> set cs" "ok w"
  shows "\<exists>g' w'. rounds_n (reversal_round attempt draw len repetitions ways n) k (candidates, g, w) =
      Some (filter (agree ways name (sequences draw len (min (2 * ways) n) k g)) candidates, g', w') \<and> ok w'"
  using s
proof (induction k arbitrary: candidates g w)
  case (Suc k)
  obtain seq g1 where seq: "generate_loop draw (min (2 * ways) n) len [] g = (seq, g1)" by fastforce
  from reversal_round_filters [OF ways draw n right Suc.prems seq] obtain w1 where
    w1: "reversal_round attempt draw len repetitions ways n (candidates, g, w) =
      Some (filter (agree ways name [seq]) candidates, g1, w1)" "ok w1" by blast
  have "set (filter (agree ways name [seq]) candidates) \<subseteq> set cs" using Suc.prems(1) by auto
  from Suc.IH [OF this w1(2), of g1] w1(1) seq show ?case by (simp add: conj_commute)
qed simp

section \<open>The loop\<close>

lemma reversal_loop_unfold:
  assumes "rounds_n round k s = Some s'" and "\<not> (1 < length (fst s') \<or> rounds + k < minimum_rounds)"
    and "\<And>j sj. j < k \<Longrightarrow> rounds_n round j s = Some sj \<Longrightarrow> 1 < length (fst sj) \<or> rounds + j < minimum_rounds"
  shows "reversal_loop round minimum_rounds rounds s = Some s'"
  using assms
proof (induction k arbitrary: s rounds)
  case 0
  then show ?case by (subst reversal_loop.simps) simp
next
  case (Suc k)
  then obtain s1 where s1: "round s = Some s1" "rounds_n round k s1 = Some s'" by (auto simp: bind_eq_Some_conv)
  have "1 < length (fst s) \<or> rounds < minimum_rounds" using Suc.prems(3) [of 0 s] by simp
  moreover have "reversal_loop round minimum_rounds (Suc rounds) s1 = Some s'"
  proof (rule Suc.IH [OF s1(2)])
    show "1 < length (fst sj) \<or> Suc rounds + j < minimum_rounds" if "j < k" "rounds_n round j s1 = Some sj" for j sj
      using Suc.prems(3) [of "Suc j" sj] that s1(1) by simp
  qed (use Suc.prems(2) in simp)
  ultimately show ?case using s1(1) by (subst reversal_loop.simps) simp
qed

lemma reversal_loop_ends:
  assumes "reversal_loop round minimum_rounds rounds s = Some s'"
  shows "\<exists>k. rounds_n round k s = Some s' \<and> length (fst s') \<le> 1"
proof (rule reversal_loop.raw_induct
    [where P = "\<lambda>round minimum_rounds rounds s s'. \<exists>k. rounds_n round k s = Some s' \<and> length (fst s') \<le> 1", OF _ assms])
  fix loop round minimum_rounds rounds and s s' :: "string list \<times> 'a \<times> 'b"
  assume 1: "\<And>round minimum_rounds rounds s s'. loop round minimum_rounds rounds s = Some s' \<Longrightarrow>
      \<exists>k. rounds_n round k s = Some s' \<and> length (fst s') \<le> 1"
    "(if 1 < length (fst s) \<or> rounds < minimum_rounds then do { s' \<leftarrow> round s; loop round minimum_rounds (rounds + 1) s' }
      else Some s) = Some s'"
  show "\<exists>k. rounds_n round k s = Some s' \<and> length (fst s') \<le> 1"
  proof (cases "1 < length (fst s) \<or> rounds < minimum_rounds")
    case True
    with 1(2) obtain s1 where "round s = Some s1" "loop round minimum_rounds (rounds + 1) s1 = Some s'"
      by (auto simp: bind_eq_Some_conv)
    with 1(1) [of round minimum_rounds "rounds + 1" s1 s'] obtain k where
      "rounds_n round k s1 = Some s'" "length (fst s') \<le> 1" by blast
    with \<open>round s = Some s1\<close> show ?thesis by (intro exI [of _ "Suc k"]) simp
  next
    case False
    with 1(2) show ?thesis by (intro exI [of _ 0]) auto
  qed
qed

lemma sequences_mono: "j \<le> k \<Longrightarrow> set (sequences draw len mx j g) \<subseteq> set (sequences draw len mx k g)"
proof (induction j arbitrary: k g)
  case (Suc j)
  then obtain k' where "k = Suc k'" "j \<le> k'" by (cases k) auto
  with Suc.IH show ?case by (force split: prod.splits)
qed simp

lemma filter_length_mono: "(\<And>x. P x \<Longrightarrow> Q x) \<Longrightarrow> length (filter P xs) \<le> length (filter Q xs)"
  by (induction xs) (auto intro: le_SucI)

lemma singleton_list: "length xs \<le> 1 \<Longrightarrow> x \<in> set xs \<Longrightarrow> xs = [x]"
  by (cases xs) auto

section \<open>Properties\<close>

text \<open>
  C4. The command finds the replacement policy: if in every round more than half of the measurements agree with
  the policy \<open>name\<close>, and the generated sequences eventually tell the other candidates apart from it, the
  rounds end with \<open>name\<close> as the only candidate.
\<close>

theorem reversal_identifies_policy:
  assumes "0 < ways" and "ways < 2 ^ 31" and "get_replacement_policies ways = Some cs" and "name \<in> set cs"
    and "draw_in_range draw" and "0 < n" and "min (2 * ways) n \<le> dirty"
    and "majority_right attempt repetitions (min (2 * ways) n) name ways ok" and "ok w"
    and separated: "\<exists>k. length (filter (agree ways name (sequences draw len (min (2 * ways) n) k g)) cs) \<le> 1"
  shows "\<exists>g' w'. reversal_loop (reversal_round attempt draw len repetitions ways n) minimum_rounds 0 (cs, g, w) =
    Some ([name], g', w')"
proof -
  let ?round = "reversal_round attempt draw len repetitions ways n"
  let ?F = "\<lambda>k. filter (agree ways name (sequences draw len (min (2 * ways) n) k g)) cs"
  let ?stop = "\<lambda>k. \<not> (1 < length (?F k) \<or> k < minimum_rounds)"
  note rounds = rounds_filter [OF assms(1-3,5-8) order_refl assms(9), of len _ g]
  from separated obtain k where k: "length (?F k) \<le> 1" by blast
  have "length (?F (max k minimum_rounds)) \<le> length (?F k)"
    using sequences_mono [of k "max k minimum_rounds" draw len "min (2 * ways) n" g] by (intro filter_length_mono) auto
  then have "?stop (max k minimum_rounds)" using k by simp
  then have K: "?stop (Least ?stop)" by (rule LeastI [of ?stop])
  from rounds obtain g' w' where r: "rounds_n ?round (Least ?stop) (cs, g, w) = Some (?F (Least ?stop), g', w')" by blast
  have "reversal_loop ?round minimum_rounds 0 (cs, g, w) = Some (?F (Least ?stop), g', w')"
  proof (rule reversal_loop_unfold [OF r])
    fix j sj assume j: "j < Least ?stop" "rounds_n ?round j (cs, g, w) = Some sj"
    then have "fst sj = ?F j" using rounds [of j] by auto
    with not_less_Least [OF j(1)] show "1 < length (fst sj) \<or> 0 + j < minimum_rounds" by auto
  qed (use K in simp)
  moreover have "?F (Least ?stop) = [name]" using K assms(4) by (intro singleton_list) auto
  ultimately show ?thesis by simp
qed

text \<open>Measurements that are always right, and a generator that reads its numbers from a list.\<close>

definition ideal_attempt :: "string \<Rightarrow> nat \<Rightarrow> nat list \<Rightarrow> unit \<Rightarrow> (nat option \<times> unit) option" where
  "ideal_attempt name ways seq w =
     (case simulate_sequence_named seq name ways of Some (Inr n) \<Rightarrow> Some (Some n, w) | _ \<Rightarrow> None)"

definition list_draw :: "nat \<Rightarrow> nat \<Rightarrow> nat list \<Rightarrow> nat \<times> nat list" where
  "list_draw lo hi g = (case g of [] \<Rightarrow> (lo, []) | x # xs \<Rightarrow> (max lo (min hi x), xs))"

lemma list_draw_in_range: "draw_in_range list_draw"
  by (auto simp: draw_in_range_def list_draw_def split: list.splits)

lemma ideal_majority_right:
  assumes "0 < ways" and "ways < 2 ^ 31" and "get_replacement_policies ways = Some cs" and "name \<in> set cs" and "mx \<le> dirty"
  shows "majority_right (ideal_attempt name ways) 1 mx name ways (\<lambda>w. True)"
  unfolding majority_right_def
proof (intro allI impI)
  fix seq :: "nat list" and w assume "True \<and> (\<forall>x \<in> set seq. x < mx)"
  with assms(5) have "\<forall>x \<in> set seq. x < dirty" by auto
  then obtain h where h: "simulate_sequence_named seq name ways = Some (Inr h)"
    using simulate_candidate [OF assms(1-4)] by blast
  have "measure_repeat (ideal_attempt name ways seq) 1 [] w = Some ([h], w)"
    by (subst measure_repeat.simps, subst measure_repeat.simps) (simp add: ideal_attempt_def h)
  with h show "\<exists>ms w' n. measure_repeat (ideal_attempt name ways seq) 1 [] w = Some (ms, w') \<and> True \<and>
      simulate_sequence_named seq name ways = Some (Inr n) \<and> length ms < 2 * count_list ms n" by auto
qed

lemma simulate_named_reference:
  assumes "make_replacement_policy name a = Some (Some p)" and "any_wf p" and "any_ways p = a" and "\<forall>x \<in> set seq. x < dirty"
    and "\<exists>c q. ref_run any_hit any_miss seq (replicate a None) p = Some (hs, c, q)"
  shows "simulate_sequence_named seq name a = Some (Inr (hit_count hs))"
  using any.simulate_sequence_ref [OF assms(2,4)] assms(1,3,5) by (auto simp: simulate_sequence_named_def)

text \<open>Three ways: the first sequence tells FIFO from LRU, the second SRRIP.\<close>

lemma three_ways: "[0..<3] = [0, 1, 2]" "{0, 1, 2} = {..<3::nat}"
  by (auto simp: upt_rec)

lemma fifo_three_ways: "simulate_sequence_named [0, 1, 2, 0, 3, 0] ''FIFO'' 3 = Some (Inr 1)"
proof -
  let ?p = "Any_Fifo \<lparr>fifo_order = [0, 1, 2]\<rparr>"
  have "\<exists>c q. ref_run any_hit any_miss [0, 1, 2, 0, 3, 0 :: nat] (replicate 3 None) ?p =
      Some ([False, False, False, True, False, False], c, q)"
    by (simp add: ref_step_def fifo_hit_def fifo_miss_def fifo_hit_it_def rotate_front_def numeral_3_eq_3)
  from simulate_named_reference [OF _ _ _ _ this, of "''FIFO''"] three_ways show ?thesis
    by (simp add: make_replacement_policy_def fifo_init_def fifo_wf_def order_wf_def fifo_ways_def dirty_def)
qed

lemma lru_three_ways:
  "simulate_sequence_named [0, 1, 2, 0, 3, 0] ''LRU'' 3 = Some (Inr 2)"
  "simulate_sequence_named [0, 0, 1, 2, 3, 0] ''LRU'' 3 = Some (Inr 1)"
proof -
  let ?p = "Any_Lru \<lparr>lru_order = [0, 1, 2]\<rparr>"
  have "\<exists>c q. ref_run any_hit any_miss [0, 1, 2, 0, 3, 0 :: nat] (replicate 3 None) ?p =
      Some ([False, False, False, True, False, True], c, q)"
    "\<exists>c q. ref_run any_hit any_miss [0, 0, 1, 2, 3, 0 :: nat] (replicate 3 None) ?p =
      Some ([False, True, False, False, False, False], c, q)"
    by (simp_all add: ref_step_def lru_hit_def lru_miss_def lru_hit_it_def rotate_front_def numeral_3_eq_3)
  note runs = this
  from simulate_named_reference [OF _ _ _ _ runs(1), of "''LRU''"] simulate_named_reference [OF _ _ _ _ runs(2), of "''LRU''"]
    three_ways show "simulate_sequence_named [0, 1, 2, 0, 3, 0] ''LRU'' 3 = Some (Inr 2)"
      "simulate_sequence_named [0, 0, 1, 2, 3, 0] ''LRU'' 3 = Some (Inr 1)"
    by (simp_all add: make_replacement_policy_def lru_init_def lru_wf_def order_wf_def lru_ways_def dirty_def)
qed

lemma srrip_three_ways: "simulate_sequence_named [0, 0, 1, 2, 3, 0] ''SRRIP'' 3 = Some (Inr 2)"
proof -
  let ?p = "Any_Srrip \<lparr>srrip_entries = [3, 3, 3]\<rparr>"
  have "\<exists>c q. ref_run any_hit any_miss [0, 0, 1, 2, 3, 0 :: nat] (replicate 3 None) ?p =
      Some ([False, True, False, False, False, True], c, q)"
    by (simp add: ref_step_def srrip_miss_eq srrip_wf_def srrip_hit_def hit_priority_def numeral_3_eq_3)
  from simulate_named_reference [OF _ _ _ _ this, of "''SRRIP''"] show ?thesis
    by (simp add: make_replacement_policy_def starts_with_def srrip_init_def distant_future_eq srrip_wf_def srrip_ways_def dirty_def
        numeral_3_eq_3)
qed

lemma two_sequences:
  "sequences list_draw 6 6 2 [0, 1, 2, 0, 3, 0, 0, 0, 1, 2, 3, 0] = [[0, 1, 2, 0, 3, 0], [0, 0, 1, 2, 3, 0]]"
  by code_simp

lemma separated_three_ways:
  "length (filter (agree 3 ''LRU'' [[0, 1, 2, 0, 3, 0], [0, 0, 1, 2, 3, 0]]) [''FIFO'', ''LRU'', ''SRRIP'']) \<le> 1"
proof -
  have "\<not> agree 3 ''LRU'' [[0, 1, 2, 0, 3, 0], [0, 0, 1, 2, 3, 0]] ''FIFO''"
    unfolding list.set ball_simps fifo_three_ways lru_three_ways by simp
  moreover have "\<not> agree 3 ''LRU'' [[0, 1, 2, 0, 3, 0], [0, 0, 1, 2, 3, 0]] ''SRRIP''"
    unfolding list.set ball_simps srrip_three_ways lru_three_ways by simp
  ultimately show ?thesis by (simp only: filter.simps if_False) simp
qed

lemma candidates_three_ways: "get_replacement_policies 3 = Some [''FIFO'', ''LRU'', ''SRRIP'']"
  by code_simp

lemma right_three_ways: "majority_right (ideal_attempt ''LRU'' 3) 1 (min (2 * 3) 50) ''LRU'' 3 (\<lambda>w. True)"
  by (rule ideal_majority_right [OF _ _ candidates_three_ways]) (simp_all add: dirty_def)

theorem reversal_identifies_policy_witness:
  "\<exists>g' w'. reversal_loop (reversal_round (ideal_attempt ''LRU'' 3) list_draw 6 1 3 50) 1 0
      ([''FIFO'', ''LRU'', ''SRRIP''], [0, 1, 2, 0, 3, 0, 0, 0, 1, 2, 3, 0], ()) = Some ([''LRU''], g', w')"
proof -
  have mn: "min (2 * 3) (50 :: nat) = 6" by simp
  have sep: "\<exists>k. length (filter (agree 3 ''LRU'' (sequences list_draw 6 (min (2 * 3) 50) k
      [0, 1, 2, 0, 3, 0, 0, 0, 1, 2, 3, 0])) [''FIFO'', ''LRU'', ''SRRIP'']) \<le> 1"
    unfolding mn by (rule exI [of _ 2]) (unfold two_sequences, rule separated_three_ways)
  have "''LRU'' \<in> set [''FIFO'', ''LRU'', ''SRRIP'']" "(0 :: nat) < 3" "(3 :: nat) < 2 ^ 31" "(0 :: nat) < 50"
    "min (2 * 3) 50 \<le> dirty"
    by (simp_all add: dirty_def)
  from reversal_identifies_policy [OF this(2,3) candidates_three_ways this(1) list_draw_in_range this(4,5) right_three_ways TrueI sep,
      of 1]
  show ?thesis .
qed

text \<open>
  C23. A tree-PLRU cache is never identified: for a power of two of ways the candidates hold the policy under two
  names, \<open>PLRU\<close> and \<open>PLRUl\<close>, that are built alike. When the measurements of every round are right, both stay
  candidates in every round, and the loop, which waits for a single candidate, does not end.
\<close>

theorem plru_reversal_never_ends:
  assumes "is_power_of_two ways" and "ways < 2 ^ 31" and "get_replacement_policies ways = Some cs"
    and "draw_in_range draw" and "0 < n" and "min (2 * ways) n \<le> dirty"
    and "majority_right attempt repetitions (min (2 * ways) n) ''PLRU'' ways ok" and "ok w"
  shows "(\<forall>k. \<exists>candidates g' w'. rounds_n (reversal_round attempt draw len repetitions ways n) k (cs, g, w) =
       Some (candidates, g', w') \<and> {''PLRU'', ''PLRUl''} \<subseteq> set candidates) \<and>
    reversal_loop (reversal_round attempt draw len repetitions ways n) minimum_rounds 0 (cs, g, w) = None"
proof (intro conjI allI)
  let ?round = "reversal_round attempt draw len repetitions ways n"
  have pos: "0 < ways" using assms(1) by (rule is_power_of_two_pos)
  have mem: "{''PLRU'', ''PLRUl''} \<subseteq> set cs"
    using assms(1,3) pos by (auto simp: get_replacement_policies_def is_power_of_two_def)
  have same: "simulate_sequence_named seq ''PLRUl'' ways = simulate_sequence_named seq ''PLRU'' ways" for seq
    using assms(1) and.commute [of ways "ways - 1"]
    by (cases "plru_init ways") (simp_all add: simulate_sequence_named_def make_replacement_policy_def is_power_of_two_def)
  show both: "\<exists>candidates g' w'. rounds_n ?round k (cs, g, w) = Some (candidates, g', w') \<and> {''PLRU'', ''PLRUl''} \<subseteq> set candidates" for k
    using rounds_filter [OF pos assms(2-7) order_refl assms(8), of len k g] mem same by auto
  show "reversal_loop ?round minimum_rounds 0 (cs, g, w) = None"
  proof (rule ccontr)
    assume "reversal_loop ?round minimum_rounds 0 (cs, g, w) \<noteq> None"
    then obtain s where s: "reversal_loop ?round minimum_rounds 0 (cs, g, w) = Some s" by blast
    from reversal_loop_ends [OF s] obtain k where k: "rounds_n ?round k (cs, g, w) = Some s" "length (fst s) \<le> 1" by blast
    with both [of k] have "{''PLRU'', ''PLRUl''} \<subseteq> set (fst s)" by auto
    then have "card {''PLRU'', ''PLRUl''} \<le> length (fst s)" by (meson List.finite_set card_length card_mono le_trans)
    with k(2) show False by simp
  qed
qed

theorem plru_reversal_never_ends_witness:
  "reversal_loop (reversal_round (ideal_attempt ''PLRU'' 2) list_draw 6 1 2 50) 1 0
     ([''FIFO'', ''LRU'', ''PLRU'', ''PLRUl'', ''SRRIP''], [], ()) = None"
proof -
  have cs: "get_replacement_policies 2 = Some [''FIFO'', ''LRU'', ''PLRU'', ''PLRUl'', ''SRRIP'']" by code_simp
  have "is_power_of_two 2" using is_power_of_two_power [of 1] by simp
  then show ?thesis
    using plru_reversal_never_ends [OF _ _ cs list_draw_in_range _ _ ideal_majority_right [OF _ _ cs]]
    by (simp add: dirty_def)
qed

end
