(* ===== verification/CH_Loops.thy ===== *)
theory CH_Loops
  imports CH_Prelude
begin

text \<open>
  Loops that end only with luck. The search loops of the library and of the commands draw random
  addresses or repeat a measurement until something works out. Such a loop is \<open>retry step s\<close>: \<open>step\<close> is the
  body on the state \<open>s\<close>, which either faults, goes on (\<open>None\<close>) or leaves the loop with a value.

  A run of the loop that never ends has the value \<open>None\<close>, like a fault. \<open>attempts\<close> bounds the number of passes, and
  \<open>retry_iff\<close> relates the two: the loop returns a value exactly when some number of passes does. The other
  lemmas are the rules for invariants, for loops that end after a known number of passes, and for loops
  that never end.
\<close>

partial_function (option) retry :: "('s \<Rightarrow> ('a option \<times> 's) option) \<Rightarrow> 's \<Rightarrow> ('a \<times> 's) option" where
  [code]: "retry step s = do {
     (r, s') \<leftarrow> step s;
     case r of None \<Rightarrow> retry step s' | Some v \<Rightarrow> Some (v, s') }"

fun attempts :: "('s \<Rightarrow> ('a option \<times> 's) option) \<Rightarrow> nat \<Rightarrow> 's \<Rightarrow> ('a option \<times> 's) option" where
  "attempts step 0 s = Some (None, s)"
| "attempts step (Suc k) s = do {
     (r, s') \<leftarrow> step s;
     case r of None \<Rightarrow> attempts step k s' | Some v \<Rightarrow> Some (Some v, s') }"

lemma retry_step:
  "retry step s = (case step s of None \<Rightarrow> None | Some (None, s') \<Rightarrow> retry step s' | Some (Some v, s') \<Rightarrow> Some (v, s'))"
  by (subst retry.simps) (auto split: option.splits prod.splits bind_splits)

lemma retry_again [simp]: "step s = Some (None, s') \<Longrightarrow> retry step s = retry step s'"
  by (simp add: retry_step [of step s])

lemma retry_leave [simp]: "step s = Some (Some v, s') \<Longrightarrow> retry step s = Some (v, s')"
  by (simp add: retry_step [of step s])

lemma retry_attempts:
  fixes step :: "'s \<Rightarrow> ('a option \<times> 's) option"
  assumes "retry step s = Some (v, s')"
  shows "\<exists>k. attempts step k s = Some (Some v, s')"
proof -
  have "case (v, s') of (v, s') \<Rightarrow> \<exists>k. attempts step k s = Some (Some v, s')"
  proof (rule retry.raw_induct [where P = "\<lambda>step s r. case r of (v, s') \<Rightarrow> \<exists>k. attempts step k s = Some (Some v, s')", OF _ assms])
    fix loop and step :: "'s \<Rightarrow> ('a option \<times> 's) option" and s r
    assume IH: "\<And>step s r. loop step s = Some r \<Longrightarrow> case r of (v, s') \<Rightarrow> \<exists>k. attempts step k s = Some (Some v, s')"
      and eq: "do { (r, s') \<leftarrow> step s; case r of None \<Rightarrow> loop step s' | Some v \<Rightarrow> Some (v, s') } = Some r"
    from eq obtain o1 s1 where o1: "step s = Some (o1, s1)" "(case o1 of None \<Rightarrow> loop step s1 | Some v \<Rightarrow> Some (v, s1)) = Some r"
      by (auto simp: bind_eq_Some_conv)
    show "case r of (v, s') \<Rightarrow> \<exists>k. attempts step k s = Some (Some v, s')"
    proof (cases o1)
      case None
      with o1 IH [of step s1 r] obtain k where "attempts step k s1 = Some (Some (fst r), snd r)" by (cases r) auto
      with None o1(1) show ?thesis by (cases r) (auto intro: exI [of _ "Suc k"])
    next
      case (Some v)
      with o1 show ?thesis by (cases r) (auto intro: exI [of _ "Suc 0"])
    qed
  qed
  then show ?thesis by simp
qed

lemma attempts_retry: "attempts step k s = Some (Some v, s') \<Longrightarrow> retry step s = Some (v, s')"
proof (induction k arbitrary: s)
  case (Suc k)
  then obtain r s1 where "step s = Some (r, s1)" "(case r of None \<Rightarrow> attempts step k s1 | Some v \<Rightarrow> Some (Some v, s1)) = Some (Some v, s')"
    by (auto simp: bind_eq_Some_conv)
  with Suc.IH show ?case by (cases r) auto
qed simp

lemma retry_iff: "retry step s = Some (v, s') \<longleftrightarrow> (\<exists>k. attempts step k s = Some (Some v, s'))"
  by (auto dest: retry_attempts attempts_retry)

text \<open>Passes that go on can be left out.\<close>

lemma attempts_skip: "attempts step k s = Some (None, s') \<Longrightarrow> retry step s = retry step s'"
proof (induction k arbitrary: s)
  case (Suc k)
  then obtain r s1 where "step s = Some (r, s1)" "(case r of None \<Rightarrow> attempts step k s1 | Some v \<Rightarrow> Some (Some v, s1)) = Some (None, s')"
    by (auto simp: bind_eq_Some_conv)
  with Suc.IH show ?case by (cases r) auto
qed simp

lemma attempts_add:
  "attempts step j s = Some (None, s1) \<Longrightarrow> attempts step (j + k) s = attempts step k s1"
proof (induction j arbitrary: s)
  case (Suc j)
  then obtain r s2 where "step s = Some (r, s2)" "(case r of None \<Rightarrow> attempts step j s2 | Some v \<Rightarrow> Some (Some v, s2)) = Some (None, s1)"
    by (auto simp: bind_eq_Some_conv)
  with Suc.IH show ?case by (cases r) auto
qed simp

text \<open>The rule for invariants.\<close>

lemma retry_invariant:
  assumes "retry step s = Some (v, s')" and "I s"
    and "\<And>s s'. I s \<Longrightarrow> step s = Some (None, s') \<Longrightarrow> I s'"
    and "\<And>s v s'. I s \<Longrightarrow> step s = Some (Some v, s') \<Longrightarrow> Q v s'"
  shows "Q v s'"
proof -
  from assms(1) obtain k where "attempts step k s = Some (Some v, s')" by (auto simp: retry_iff)
  then show ?thesis using assms(2)
  proof (induction k arbitrary: s)
    case (Suc k)
    then obtain r s1 where r: "step s = Some (r, s1)"
      "(case r of None \<Rightarrow> attempts step k s1 | Some v \<Rightarrow> Some (Some v, s1)) = Some (Some v, s')" by (auto simp: bind_eq_Some_conv)
    show ?case
    proof (cases r)
      case None
      with r Suc.IH assms(3) [OF Suc.prems(2)] show ?thesis by simp
    next
      case (Some w)
      with r assms(4) [OF Suc.prems(2)] show ?thesis by simp
    qed
  qed simp
qed

text \<open>A loop whose body always goes on in the states that satisfy \<open>I\<close> never ends.\<close>

lemma retry_never_ends:
  assumes "I s" and "\<And>s. I s \<Longrightarrow> \<exists>s'. step s = Some (None, s') \<and> I s'"
  shows "retry step s = None"
proof (rule ccontr)
  assume "retry step s \<noteq> None"
  then obtain v s' where "retry step s = Some (v, s')" by auto
  then show False
    by (rule retry_invariant [where I = I and Q = "\<lambda>_ _. False"]) (use assms in fastforce)+
qed

text \<open>A loop that makes progress: a measure falls with every pass that goes on.\<close>

lemma retry_progress:
  assumes "I s" and "\<And>s. I s \<Longrightarrow> (\<exists>s'. step s = Some (None, s') \<and> I s' \<and> m s' < (m s :: nat)) \<or> (\<exists>v s'. step s = Some (Some v, s') \<and> Q v s')"
  shows "\<exists>v s'. retry step s = Some (v, s') \<and> Q v s'"
  using assms(1)
proof (induction "m s" arbitrary: s rule: less_induct)
  case less
  from assms(2) [OF less.prems] show ?case
  proof (elim disjE exE conjE)
    fix s' assume s': "step s = Some (None, s')" "I s'" "m s' < m s"
    from less.hyps [OF s'(3,2)] s'(1) show ?thesis by simp
  next
    fix v s' assume "step s = Some (Some v, s')" "Q v s'"
    then show ?thesis by auto
  qed
qed

end
