(* ===== verification/CH_Distributions.thy ===== *)
theory CH_Distributions
  imports CH_Regions CH_Loops
begin

text \<open>
  Distributions of memory addresses: \<open>util/uniform_address_distribution.hpp\<close>,
  \<open>util/concatenated_address_distribution.hpp\<close>, \<open>util/blacklisted_address_distribution.hpp\<close>,
  \<open>util/set_cycling_address_distribution.hpp\<close>, and \<open>util/warmup.hpp\<close>, which draws from one.

  The number distributions of the C++ library are a parameter, the record \<open>random_source\<close> over the state \<open>'g\<close> of the
  generator. Beyond their parameters they have no state that \<open>reset\<close> could change. What the standard says
  of their results is \<open>source_ok\<close>.

  The locale \<open>address_distribution\<close> is the concept of the same name, with the set of addresses a distribution draws
  from. It is interpreted on the uniform distribution; the sublocale on \<open>distribution_pair\<close> shows that the
  concatenation of two distributions is one again.
\<close>

section \<open>Random numbers\<close>

text \<open>\<open>std::discrete_distribution\<close> with the given weights and \<open>std::uniform_int_distribution\<close> between two bounds.\<close>

record 'g random_source =
  rs_discrete :: "nat list \<Rightarrow> 'g \<Rightarrow> nat \<times> 'g"
  rs_uniform :: "uintptr \<Rightarrow> uintptr \<Rightarrow> 'g \<Rightarrow> uintptr \<times> 'g"

definition source_ok :: "'g random_source \<Rightarrow> bool" where
  "source_ok rs \<longleftrightarrow>
     (\<forall>ws g. (\<exists>w \<in> set ws. 0 < w) \<longrightarrow> fst (rs_discrete rs ws g) < length ws \<and> 0 < ws ! fst (rs_discrete rs ws g)) \<and>
     (\<forall>lo hi g. lo \<le> hi \<longrightarrow> lo \<le> fst (rs_uniform rs lo hi g) \<and> fst (rs_uniform rs lo hi g) \<le> hi)"

section \<open>The distributions\<close>

subsection \<open>uniform_address_distribution\<close>

record uniform_address_distribution =
  uad_alignment :: nat
  uad_offset :: uintptr
  uad_regions :: "nat list"
  uad_addresses :: "(uintptr \<times> uintptr) list"

definition derive_distributions :: "'z basic_memory_region_scheme list \<Rightarrow> nat \<Rightarrow> nat list \<times> (uintptr \<times> uintptr) list" where
  "derive_distributions regions alignment =
     (map region_size regions,
      map (\<lambda>region. (drop_bit alignment (region_base region),
                    drop_bit alignment (region_base region + of_nat (region_size region)) - 1)) regions)"

text \<open>The bound of the assertion is an \<open>int\<close> shift.\<close>

definition uad_init :: "'z basic_memory_region_scheme list \<Rightarrow> nat \<Rightarrow> uintptr \<Rightarrow> uniform_address_distribution option" where
  "uad_init regions alignment offset = do {
     let (sizes, addresses) = derive_distributions regions alignment;
     require (alignment < 31);
     require (offset < push_bit alignment 1);
     Some \<lparr>uad_alignment = alignment, uad_offset = offset, uad_regions = sizes, uad_addresses = addresses\<rparr> }"

definition uad_of_memory :: "'z basic_memory_region_scheme list \<Rightarrow> nat \<Rightarrow> uniform_address_distribution option" where
  "uad_of_memory regions offset_bits = uad_init regions offset_bits 0"

definition uad_draw :: "'g random_source \<Rightarrow> uniform_address_distribution \<Rightarrow> 'g \<Rightarrow>
    (uintptr \<times> uniform_address_distribution \<times> 'g) option" where
  "uad_draw rs d g = do {
     let (region, g1) = rs_discrete rs (uad_regions d) g;
     (lo, hi) \<leftarrow> vec_at (uad_addresses d) region;
     require (lo \<le> hi);
     let (x, g2) = rs_uniform rs lo hi g1;
     Some (push_bit (uad_alignment d) x + uad_offset d, d, g2) }"

text \<open>The two distributions of the standard library hold nothing between draws, so a reset leaves them as they are.\<close>

definition uad_reset :: "uniform_address_distribution \<Rightarrow> uniform_address_distribution" where
  "uad_reset d = d"

subsection \<open>concatenated_address_distribution\<close>

record ('d, 'e) concatenated_address_distribution =
  ca_draws :: nat
  ca_current_draws :: nat
  ca_d1 :: 'd
  ca_d2 :: 'e

definition concat_init :: "'d \<Rightarrow> nat \<Rightarrow> 'e \<Rightarrow> ('d, 'e) concatenated_address_distribution" where
  "concat_init d1 draws d2 = \<lparr>ca_draws = draws, ca_current_draws = 0, ca_d1 = d1, ca_d2 = d2\<rparr>"

definition concat_draw ::
    "('d \<Rightarrow> 'g \<Rightarrow> (uintptr \<times> 'd \<times> 'g) option) \<Rightarrow> ('e \<Rightarrow> 'g \<Rightarrow> (uintptr \<times> 'e \<times> 'g) option) \<Rightarrow>
     ('d, 'e) concatenated_address_distribution \<Rightarrow> 'g \<Rightarrow> (uintptr \<times> ('d, 'e) concatenated_address_distribution \<times> 'g) option" where
  "concat_draw draw1 draw2 c g =
     (if ca_current_draws c = ca_draws c then do {
        (address, d2, g') \<leftarrow> draw2 (ca_d2 c) g;
        Some (address, c\<lparr>ca_d2 := d2\<rparr>, g') }
      else do {
        (address, d1, g') \<leftarrow> draw1 (ca_d1 c) g;
        Some (address, c\<lparr>ca_current_draws := ca_current_draws c + 1, ca_d1 := d1\<rparr>, g') })"

definition concat_reset :: "('d \<Rightarrow> 'd) \<Rightarrow> ('e \<Rightarrow> 'e) \<Rightarrow> ('d, 'e) concatenated_address_distribution \<Rightarrow>
    ('d, 'e) concatenated_address_distribution" where
  "concat_reset reset1 reset2 c =
     (let c' = (if ca_current_draws c = ca_draws c then c\<lparr>ca_d2 := reset2 (ca_d2 c)\<rparr> else c)
      in c'\<lparr>ca_current_draws := 0, ca_d1 := reset1 (ca_d1 c')\<rparr>)"

subsection \<open>blacklisted_address_distribution\<close>

record 'd blacklisted_address_distribution =
  bl_distribution :: 'd
  bl_blacklist :: "uintptr set"

definition blacklisted_init :: "'d \<Rightarrow> 'd blacklisted_address_distribution" where
  "blacklisted_init d = \<lparr>bl_distribution = d, bl_blacklist = {}\<rparr>"

definition blacklist_address :: "uintptr \<Rightarrow> 'd blacklisted_address_distribution \<Rightarrow> 'd blacklisted_address_distribution" where
  "blacklist_address address b = b\<lparr>bl_blacklist := insert address (bl_blacklist b)\<rparr>"

fun blacklist_addresses :: "uintptr list \<Rightarrow> 'd blacklisted_address_distribution \<Rightarrow> 'd blacklisted_address_distribution" where
  "blacklist_addresses [] b = b"
| "blacklist_addresses (address # addresses) b = blacklist_addresses addresses (blacklist_address address b)"

text \<open>The \<open>do\<close>-\<open>while\<close> loop.\<close>

definition blacklisted_draw ::
    "('d \<Rightarrow> 'g \<Rightarrow> (uintptr \<times> 'd \<times> 'g) option) \<Rightarrow> 'd blacklisted_address_distribution \<Rightarrow> 'g \<Rightarrow>
     (uintptr \<times> 'd blacklisted_address_distribution \<times> 'g) option" where
  "blacklisted_draw draw = curry (retry (\<lambda>(b, g). do {
     (address, d, g') \<leftarrow> draw (bl_distribution b) g;
     Some (if address \<in> bl_blacklist b then None else Some address, b\<lparr>bl_distribution := d\<rparr>, g') }))"

definition blacklisted_reset :: "('d \<Rightarrow> 'd) \<Rightarrow> 'd blacklisted_address_distribution \<Rightarrow> 'd blacklisted_address_distribution" where
  "blacklisted_reset reset b = b\<lparr>bl_distribution := reset (bl_distribution b)\<rparr>"

subsection \<open>set_cycling_address_distribution\<close>

record set_cycling_address_distribution =
  sc_sets :: nat
  sc_starting_set :: nat
  sc_base_distribution :: uniform_address_distribution
  sc_next_set :: nat
  sc_index_function :: "uintptr \<Rightarrow> nat"

text \<open>The constructor for a placement policy with \<open>index_bits\<close>; \<open>1 << index_bits\<close> is an \<open>int\<close> shift.\<close>

definition set_cycling_init :: "'z basic_memory_region_scheme list \<Rightarrow> nat \<Rightarrow> nat \<Rightarrow> (uintptr \<Rightarrow> nat) \<Rightarrow> nat \<Rightarrow>
    set_cycling_address_distribution option" where
  "set_cycling_init regions offset_bits index_bits placement starting_set = do {
     require (index_bits < 31);
     base \<leftarrow> uad_of_memory regions offset_bits;
     Some \<lparr>sc_sets = 2 ^ index_bits, sc_starting_set = starting_set, sc_base_distribution = base,
       sc_next_set = starting_set, sc_index_function = placement\<rparr> }"

definition set_cycling_of_memory :: "'z basic_memory_region_scheme list \<Rightarrow> nat \<Rightarrow> nat \<Rightarrow> nat \<Rightarrow>
    set_cycling_address_distribution option" where
  "set_cycling_of_memory regions offset_bits index_bits starting_set = do {
     placement \<leftarrow> modular_init offset_bits (2 ^ index_bits);
     set_cycling_init regions offset_bits (modular_index_bits placement) (modular_place placement) starting_set }"

definition set_cycling_loop ::
    "'g random_source \<Rightarrow> (uintptr \<Rightarrow> nat) \<Rightarrow> nat \<Rightarrow> uniform_address_distribution \<Rightarrow> 'g \<Rightarrow>
     (uintptr \<times> uniform_address_distribution \<times> 'g) option" where
  "set_cycling_loop rs index_function next_set = curry (retry (\<lambda>(base, g). do {
     (address, base', g') \<leftarrow> uad_draw rs base g;
     Some (if index_function address \<noteq> next_set then None else Some address, base', g') }))"

definition set_cycling_draw :: "'g random_source \<Rightarrow> set_cycling_address_distribution \<Rightarrow> 'g \<Rightarrow>
    (uintptr \<times> set_cycling_address_distribution \<times> 'g) option" where
  "set_cycling_draw rs d g = do {
     (address, base, g') \<leftarrow> set_cycling_loop rs (sc_index_function d) (sc_next_set d) (sc_base_distribution d) g;
     Some (address, d\<lparr>sc_base_distribution := base, sc_next_set := (sc_next_set d + 1) mod sc_sets d\<rparr>, g') }"

definition set_cycling_reset :: "set_cycling_address_distribution \<Rightarrow> set_cycling_address_distribution" where
  "set_cycling_reset d =
     d\<lparr>sc_base_distribution := uad_reset (sc_base_distribution d), sc_next_set := sc_starting_set d\<rparr>"

subsection \<open>warmup\<close>

fun warmup_loop :: "'g random_source \<Rightarrow> (uintptr \<Rightarrow> 'm \<Rightarrow> 'm option) \<Rightarrow> nat \<Rightarrow> uniform_address_distribution \<Rightarrow> 'm \<Rightarrow> 'g \<Rightarrow>
    ('m \<times> 'g) option" where
  "warmup_loop rs acc 0 d m g = Some (m, g)"
| "warmup_loop rs acc (Suc accesses) d m g = do {
     (address, d', g') \<leftarrow> uad_draw rs d g;
     m' \<leftarrow> acc address m;
     warmup_loop rs acc accesses d' m' g' }"

definition warmup :: "'g random_source \<Rightarrow> 'z basic_memory_region_scheme list \<Rightarrow> (uintptr \<Rightarrow> 'm \<Rightarrow> 'm option) \<Rightarrow> nat \<Rightarrow> 'm \<Rightarrow> 'g \<Rightarrow>
    ('m \<times> 'g) option" where
  "warmup rs regions acc accesses m g = do {
     d \<leftarrow> uad_init regions 0 0;
     warmup_loop rs acc accesses d m g }"

section \<open>The interface\<close>

text \<open>A number of draws in a row.\<close>

fun draw_n :: "('d \<Rightarrow> 'g \<Rightarrow> (uintptr \<times> 'd \<times> 'g) option) \<Rightarrow> nat \<Rightarrow> 'd \<Rightarrow> 'g \<Rightarrow> (uintptr list \<times> 'd \<times> 'g) option" where
  "draw_n draw 0 d g = Some ([], d, g)"
| "draw_n draw (Suc k) d g = do {
     (a, d1, g1) \<leftarrow> draw d g;
     (as, d2, g2) \<leftarrow> draw_n draw k d1 g1;
     Some (a # as, d2, g2) }"

text \<open>
  \<open>address_draws\<close> says where the addresses come from that are drawn, \<open>address_distribution\<close> also that drawing never
  faults.
\<close>

locale address_draws =
  fixes draw :: "'d \<Rightarrow> 'g \<Rightarrow> (uintptr \<times> 'd \<times> 'g) option"
    and reset :: "'d \<Rightarrow> 'd"
    and invar :: "'d \<Rightarrow> bool"
    and S :: "uintptr set"
  assumes draw_Some: "draw d g = Some (a, d', g') \<Longrightarrow> invar d \<Longrightarrow> a \<in> S \<and> invar d'"
    and reset_ok: "invar d \<Longrightarrow> invar (reset d)"
begin

text \<open>A blacklisted distribution draws from the rest of the addresses.\<close>

lemma blacklisted_step:
  assumes "(case s of (b, g) \<Rightarrow> do {
      (address, d, g') \<leftarrow> draw (bl_distribution b) g;
      Some (if address \<in> bl_blacklist b then None else Some address, b\<lparr>bl_distribution := d\<rparr>, g') }) = Some (r, s')"
    and "invar (bl_distribution (fst s))"
  shows "invar (bl_distribution (fst s')) \<and> bl_blacklist (fst s') = bl_blacklist (fst s) \<and>
    (\<forall>a. r = Some a \<longrightarrow> a \<in> S - bl_blacklist (fst s))"
proof -
  obtain b g where s: "s = (b, g)" by (cases s)
  with assms obtain a d g' where "draw (bl_distribution b) g = Some (a, d, g')"
    "r = (if a \<in> bl_blacklist b then None else Some a)" "s' = (b\<lparr>bl_distribution := d\<rparr>, g')" "invar (bl_distribution b)"
    by (auto simp: bind_eq_Some_conv)
  with draw_Some [of "bl_distribution b" g a d g'] s show ?thesis by simp
qed

lemma blacklisted_draw_in:
  assumes "blacklisted_draw draw b g = Some (a, b', g')" and "invar (bl_distribution b)"
  shows "a \<in> S - bl_blacklist b \<and> invar (bl_distribution b') \<and> bl_blacklist b' = bl_blacklist b"
proof -
  let ?I = "\<lambda>s. invar (bl_distribution (fst s)) \<and> bl_blacklist (fst s) = bl_blacklist b"
  have "a \<in> S - bl_blacklist b \<and> ?I (b', g')"
    using assms(1) unfolding blacklisted_draw_def curry_def
    by (rule retry_invariant [where I = ?I and Q = "\<lambda>a s. a \<in> S - bl_blacklist b \<and> ?I s"])
      (use assms(2) in simp, (drule blacklisted_step, blast, simp)+)
  then show ?thesis by simp
qed

end

locale address_distribution = address_draws +
  assumes draw_total: "invar d \<Longrightarrow> draw d g \<noteq> None"
begin

lemma draw_ok: "invar d \<Longrightarrow> \<exists>a d' g'. draw d g = Some (a, d', g') \<and> a \<in> S \<and> invar d'"
  using draw_total [of d g] draw_Some [of d g] by auto

lemma draw_n_ok:
  "invar d \<Longrightarrow> \<exists>as d' g'. draw_n draw k d g = Some (as, d', g') \<and> length as = k \<and> set as \<subseteq> S \<and> invar d'"
proof (induction k arbitrary: d g)
  case (Suc k)
  from draw_ok [OF Suc.prems, of g] obtain a d1 g1 where a: "draw d g = Some (a, d1, g1)" "a \<in> S" "invar d1" by blast
  from Suc.IH [OF a(3), of g1] a show ?case by auto
qed simp

end

lemma address_distributionI:
  assumes "\<And>d g. invar d \<Longrightarrow> \<exists>a d' g'. draw d g = Some (a, d', g') \<and> a \<in> S \<and> invar d'" and "\<And>d. invar d \<Longrightarrow> invar (reset d)"
  shows "address_distribution draw reset invar S"
proof
  show "a \<in> S \<and> invar d'" if "draw d g = Some (a, d', g')" "invar d" for d g a d' g'
    using assms(1) [OF that(2), of g] that(1) by auto
  show "draw d g \<noteq> None" if "invar d" for d g using assms(1) [OF that, of g] by auto
qed (rule assms(2))

section \<open>The uniform distribution\<close>

text \<open>
  Regions from which addresses can be drawn with an alignment: none touches the end of the address space,
  and bases and sizes are multiples of the alignment.
\<close>

definition aligned_regions :: "nat \<Rightarrow> 'z basic_memory_region_scheme list \<Rightarrow> bool" where
  "aligned_regions alignment regions \<longleftrightarrow> regions \<noteq> [] \<and> (\<forall>r \<in> set regions. span_ok (virtual_span r) \<and>
     2 ^ alignment dvd unat (region_base r) \<and> 2 ^ alignment dvd region_size r)"

definition aligned_addresses :: "nat \<Rightarrow> uintptr \<Rightarrow> 'z basic_memory_region_scheme list \<Rightarrow> uintptr set" where
  "aligned_addresses alignment offset regions =
     {a. (\<exists>r \<in> set regions. in_span a (virtual_span r)) \<and> take_bit alignment a = offset}"

lemma unat_exp: "k < 64 \<Longrightarrow> unat (2 ^ k :: uintptr) = 2 ^ k"
proof -
  assume "k < 64"
  then have "(2 :: nat) ^ k < 2 ^ 64" by (intro power_strict_increasing) simp_all
  then have "unat (of_nat (2 ^ k) :: uintptr) = 2 ^ k" by (subst unat_of_nat) (simp add: take_bit_nat_eq_self)
  then show ?thesis by simp
qed

text \<open>An aligned region in units of the alignment: it starts with unit \<open>B\<close> and has \<open>Z\<close> units.\<close>

lemma aligned_region_units:
  assumes "span_ok (virtual_span r)" "2 ^ al dvd unat (region_base r)" "2 ^ al dvd region_size r"
  shows "\<exists>B Z. unat (region_base r) = 2 ^ al * B \<and> region_size r = 2 ^ al * Z \<and> 0 < Z \<and> 2 ^ al * (B + Z) < (2 :: nat) ^ 64 \<and>
    unat (drop_bit al (region_base r)) = B \<and>
    unat (drop_bit al (region_base r + of_nat (region_size r)) - 1) = B + Z - 1"
proof -
  let ?b = "region_base r"
  obtain B where B: "unat ?b = 2 ^ al * B" using assms(2) ..
  obtain Z where Z: "region_size r = 2 ^ al * Z" using assms(3) ..
  have size: "0 < Z" "2 ^ al * (B + Z) < (2 :: nat) ^ 64"
    using assms(1) B Z by (auto simp: span_ok_def virtual_span_def distrib_left)
  have last: "unat (?b + of_nat (region_size r)) = 2 ^ al * (B + Z)"
    using span_end_word [of ?b "region_size r"] assms(1) B Z by (simp add: virtual_span_def distrib_left)
  have div: "drop_bit al (2 ^ al * n) = n" for n :: nat by (simp add: drop_bit_eq_div)
  have "unat (drop_bit al (?b + of_nat (region_size r))) = B + Z" unfolding unat_drop_bit_eq last div ..
  then have "unat (drop_bit al (?b + of_nat (region_size r)) - 1) = B + Z - 1"
    using size(1) by (subst unat_minus_one) (auto simp: unat_eq_zero [symmetric])
  moreover have "unat (drop_bit al ?b) = B" unfolding unat_drop_bit_eq B div ..
  ultimately show ?thesis using B Z size by blast
qed

lemma aligned_draw_in_span:
  assumes r: "span_ok (virtual_span r)" "2 ^ al dvd unat (region_base r)" "2 ^ al dvd region_size r"
    and al: "al < 64" "offset < push_bit al 1"
    and x: "drop_bit al (region_base r) \<le> x" "x \<le> drop_bit al (region_base r + of_nat (region_size r)) - 1"
  shows "in_span (push_bit al x + offset) (virtual_span r)" and "take_bit al (push_bit al x + offset) = offset"
proof -
  let ?w = "push_bit al x"
  obtain B Z where B: "unat (region_base r) = 2 ^ al * B" and Z: "region_size r = 2 ^ al * Z"
    and size: "0 < Z" "2 ^ al * (B + Z) < (2 :: nat) ^ 64" and lo: "B \<le> unat x" and hi: "unat x < B + Z"
    using aligned_region_units [OF r] x unfolding word_le_nat_alt by fastforce
  have above: "2 ^ al * B \<le> 2 ^ al * unat x" using lo by simp
  have "2 ^ al * Suc (unat x) \<le> 2 ^ al * (B + Z)" using hi by (intro mult_le_mono2) simp
  then have fits: "2 ^ al * unat x + 2 ^ al \<le> 2 ^ al * (B + Z)" by simp
  have w: "unat ?w = 2 ^ al * unat x"
    using fits size(2) al(1) by (simp add: push_bit_eq_mult unat_word_ariths take_bit_eq_mod unat_exp mult.commute)
  have off: "unat offset < 2 ^ al" using al by (simp add: word_less_nat_alt unat_exp)
  have sum: "unat (?w + offset) = 2 ^ al * unat x + unat offset"
    using w off fits size(2) by (simp add: unat_word_ariths take_bit_eq_mod)
  have "2 ^ al * unat x + unat offset < 2 ^ al * B + 2 ^ al * Z" using off fits by (simp add: distrib_left)
  with above show "in_span (?w + offset) (virtual_span r)"
    unfolding in_span_def virtual_span_def fst_conv snd_conv B Z sum by linarith
  have "unat (take_bit al (?w + offset)) = unat offset"
    unfolding take_bit_eq_mod unat_mod_distrib sum unat_exp [OF al(1)] using off by simp
  then show "take_bit al (?w + offset) = offset" by (simp add: word_unat_eq_iff)
qed

lemma aligned_bounds:
  assumes "span_ok (virtual_span r)" "2 ^ al dvd unat (region_base r)" "2 ^ al dvd region_size r"
  shows "drop_bit al (region_base r) \<le> drop_bit al (region_base r + of_nat (region_size r)) - 1"
  using aligned_region_units [OF assms] unfolding word_le_nat_alt by auto

lemma uad_draw_in:
  assumes "source_ok rs" and "aligned_regions al regions" and d: "uad_init regions al offset = Some d"
  shows "\<exists>a g'. uad_draw rs d g = Some (a, d, g') \<and> a \<in> aligned_addresses al offset regions"
proof -
  from d have al: "al < 31" "offset < push_bit al 1"
    and d': "uad_alignment d = al" "uad_offset d = offset" "uad_regions d = map region_size regions"
      "uad_addresses d = map (\<lambda>r. (drop_bit al (region_base r), drop_bit al (region_base r + of_nat (region_size r)) - 1)) regions"
    by (auto simp: uad_init_def derive_distributions_def bind_eq_Some_conv vec_simps)
  obtain i g1 where i: "rs_discrete rs (map region_size regions) g = (i, g1)" by fastforce
  have "\<exists>w \<in> set (map region_size regions). 0 < w"
    using assms(2) by (cases regions) (auto simp: aligned_regions_def span_ok_def virtual_span_def)
  with assms(1) have "fst (rs_discrete rs (map region_size regions) g) < length (map region_size regions)"
    unfolding source_ok_def by blast
  then have "i < length regions" using i by simp
  let ?r = "regions ! i"
  let ?lo = "drop_bit al (region_base ?r)" and ?hi = "drop_bit al (region_base ?r + of_nat (region_size ?r)) - 1"
  have r: "span_ok (virtual_span ?r)" "2 ^ al dvd unat (region_base ?r)" "2 ^ al dvd region_size ?r"
    using assms(2) \<open>i < length regions\<close> by (auto simp: aligned_regions_def)
  note le = aligned_bounds [OF r]
  obtain x g2 where x: "rs_uniform rs ?lo ?hi g1 = (x, g2)" by fastforce
  then have "?lo \<le> x" "x \<le> ?hi" using assms(1) le unfolding source_ok_def by (metis fst_conv)+
  from aligned_draw_in_span [OF r _ al(2) this] al(1)
  have "push_bit al x + offset \<in> aligned_addresses al offset regions"
    using \<open>i < length regions\<close> by (auto simp: aligned_addresses_def)
  then show ?thesis using i x le \<open>i < length regions\<close> by (simp add: uad_draw_def d')
qed

interpretation uniform: address_distribution "uad_draw rs" uad_reset
    "\<lambda>d. source_ok rs \<and> aligned_regions al regions \<and> uad_init regions al offset = Some d" "aligned_addresses al offset regions"
  for rs and regions :: "'z basic_memory_region_scheme list" and al offset
  by (rule address_distributionI) (use uad_draw_in in \<open>fastforce simp: uad_reset_def\<close>)+

section \<open>Concatenation\<close>

definition pair_invar :: "('d \<Rightarrow> bool) \<Rightarrow> ('e \<Rightarrow> bool) \<Rightarrow> ('d, 'e) concatenated_address_distribution \<Rightarrow> bool" where
  "pair_invar invar1 invar2 c \<longleftrightarrow> ca_current_draws c \<le> ca_draws c \<and> invar1 (ca_d1 c) \<and> invar2 (ca_d2 c)"

locale distribution_pair =
  d1: address_distribution draw1 reset1 invar1 S1 + d2: address_distribution draw2 reset2 invar2 S2
  for draw1 :: "'d \<Rightarrow> 'g \<Rightarrow> (uintptr \<times> 'd \<times> 'g) option" and reset1 invar1 S1
    and draw2 :: "'e \<Rightarrow> 'g \<Rightarrow> (uintptr \<times> 'e \<times> 'g) option" and reset2 invar2 S2
begin

text \<open>The first draws come from the first distribution.\<close>

lemma first_draws:
  "pair_invar invar1 invar2 c \<Longrightarrow> ca_current_draws c + k \<le> ca_draws c \<Longrightarrow>
     \<exists>as c' g'. draw_n (concat_draw draw1 draw2) k c g = Some (as, c', g') \<and> length as = k \<and> set as \<subseteq> S1 \<and> pair_invar invar1 invar2 c'"
proof (induction k arbitrary: c g)
  case (Suc k)
  from d1.draw_ok [of "ca_d1 c" g] Suc.prems(1) obtain a d g1 where
    a: "draw1 (ca_d1 c) g = Some (a, d, g1)" "a \<in> S1" "invar1 d" by (auto simp: pair_invar_def)
  let ?c = "c\<lparr>ca_current_draws := ca_current_draws c + 1, ca_d1 := d\<rparr>"
  have "pair_invar invar1 invar2 ?c" "ca_current_draws ?c + k \<le> ca_draws ?c" using Suc.prems a(3) by (auto simp: pair_invar_def)
  from Suc.IH [OF this, of g1] a Suc.prems(2) show ?case by (auto simp: concat_draw_def)
qed simp

end

sublocale distribution_pair \<subseteq> concat: address_distribution "concat_draw draw1 draw2" "concat_reset reset1 reset2" "pair_invar invar1 invar2" "S1 \<union> S2"
proof (rule address_distributionI)
  fix c g assume c: "pair_invar invar1 invar2 c"
  show "\<exists>a c' g'. concat_draw draw1 draw2 c g = Some (a, c', g') \<and> a \<in> S1 \<union> S2 \<and> pair_invar invar1 invar2 c'"
  proof (cases "ca_current_draws c = ca_draws c")
    case True
    from d2.draw_ok [of "ca_d2 c" g] c obtain a d g1 where
      "draw2 (ca_d2 c) g = Some (a, d, g1)" "a \<in> S2" "invar2 d" by (auto simp: pair_invar_def)
    with True c show ?thesis by (auto simp: concat_draw_def pair_invar_def)
  next
    case False
    from d1.draw_ok [of "ca_d1 c" g] c obtain a d g1 where
      "draw1 (ca_d1 c) g = Some (a, d, g1)" "a \<in> S1" "invar1 d" by (auto simp: pair_invar_def)
    with False c show ?thesis by (auto simp: concat_draw_def pair_invar_def)
  qed
next
  fix c assume c: "pair_invar invar1 invar2 c"
  show "pair_invar invar1 invar2 (concat_reset reset1 reset2 c)"
    using c d1.reset_ok d2.reset_ok by (auto simp: concat_reset_def pair_invar_def Let_def)
qed

interpretation optimistic: distribution_pair "uad_draw rs" uad_reset
    "\<lambda>d. source_ok rs \<and> aligned_regions al regions \<and> uad_init regions al offset = Some d" "aligned_addresses al offset regions"
    "uad_draw rs" uad_reset
    "\<lambda>d. source_ok rs \<and> aligned_regions al' regions \<and> uad_init regions al' offset' = Some d" "aligned_addresses al' offset' regions"
  for rs and regions :: "'z basic_memory_region_scheme list" and al offset al' offset'
  by unfold_locales


section \<open>Cycling through the sets\<close>

lemma set_cycling_loop_result:
  assumes "set_cycling_loop rs f s d g = Some (a, d', g')"
    and "source_ok rs" and "aligned_regions al regions" and "uad_init regions al offset = Some d"
  shows "f a = s \<and> a \<in> aligned_addresses al offset regions \<and> d' = d"
proof -
  have step: "snd s' \<in> UNIV \<and> fst s' = d \<and> (\<forall>a. r = Some a \<longrightarrow> f a = s \<and> a \<in> aligned_addresses al offset regions)"
    if "(case st of (base, g) \<Rightarrow> do { (address, base', g') \<leftarrow> uad_draw rs base g;
        Some (if f address \<noteq> s then None else Some address, base', g') }) = Some (r, s')" "fst st = d" for st r s'
    using that uad_draw_in [OF assms(2-4), of "snd st"] by (cases st) (auto split: if_splits)
  have "(\<lambda>a st. f a = s \<and> a \<in> aligned_addresses al offset regions \<and> fst st = d) a (d', g')"
    using assms(1) unfolding set_cycling_loop_def curry_def
    by (rule retry_invariant [where I = "\<lambda>st. fst st = d"]) (simp, (drule step, simp, simp)+)
  then show ?thesis by simp
qed

text \<open>The search ends as soon as one of the next uniform draws falls into the wanted set.\<close>

lemma set_cycling_loop_ends:
  assumes "draw_n (uad_draw rs) k d g = Some (as, d1, g1)" and "\<exists>a \<in> set as. f a = s"
  shows "\<exists>a d' g'. set_cycling_loop rs f s d g = Some (a, d', g')"
  using assms
proof (induction k arbitrary: d g as)
  case (Suc k)
  then obtain a as1 d2 g2 where a: "uad_draw rs d g = Some (a, d2, g2)" "draw_n (uad_draw rs) k d2 g2 = Some (as1, d1, g1)" "as = a # as1"
    by (auto simp: bind_eq_Some_conv)
  show ?case
  proof (cases "f a = s")
    case True
    with a(1) show ?thesis by (simp add: set_cycling_loop_def)
  next
    case False
    with Suc.IH [OF a(2)] Suc.prems(2) a show ?thesis by (simp add: set_cycling_loop_def)
  qed
qed simp

section \<open>Properties\<close>

text \<open>
  Drawing from a uniform address distribution never faults, and every drawn address lies in one of the regions of the
  memory and has the given offset in its low bits, for regions whose bases and sizes are multiples of the alignment.
\<close>

theorem uniform_draws_in_regions:
  assumes "source_ok rs" and "aligned_regions alignment regions" and "uad_init regions alignment offset = Some d"
  shows "\<exists>as d' g'. draw_n (uad_draw rs) k d g = Some (as, d', g') \<and> length as = k \<and>
    (\<forall>a \<in> set as. (\<exists>r \<in> set regions. in_span a (virtual_span r)) \<and> take_bit alignment a = offset)"
proof -
  from uniform.draw_n_ok [of rs alignment regions offset d k g] assms obtain as d' g' where
    "draw_n (uad_draw rs) k d g = Some (as, d', g')" "length as = k" "set as \<subseteq> aligned_addresses alignment offset regions" by blast
  then show ?thesis by (auto simp: aligned_addresses_def)
qed

text \<open>A source that counts: each number drawn is one more than the one before.\<close>

definition counting_source :: "nat random_source" where
  "counting_source = \<lparr>rs_discrete = (\<lambda>ws g. (std_find_if (\<lambda>w. 0 < w) ws, g)),
     rs_uniform = (\<lambda>lo hi g. (lo + of_nat (g mod (unat (hi - lo) + 1)), g + 1))\<rparr>"

lemma std_find_if_found: "\<exists>w \<in> set ws. P w \<Longrightarrow> std_find_if P ws < length ws \<and> P (ws ! std_find_if P ws)"
  by (induction ws) auto

lemma counting_source_ok: "source_ok counting_source"
proof -
  have "lo \<le> lo + of_nat (g mod (unat (hi - lo) + 1)) \<and> lo + of_nat (g mod (unat (hi - lo) + 1)) \<le> hi"
    if "lo \<le> hi" for lo hi :: uintptr and g :: nat
  proof -
    have "unat (hi - lo) = unat hi - unat lo" using that by (simp add: unat_sub)
    then have k: "g mod (unat (hi - lo) + 1) \<le> unat hi - unat lo"
      using mod_less_divisor [of "unat (hi - lo) + 1" g] by linarith
    have le: "unat lo \<le> unat hi" using that by (simp add: word_le_nat_alt)
    have "unat hi < 2 ^ 64" using unsigned_less [of hi] by simp
    then have "unat (lo + of_nat (g mod (unat (hi - lo) + 1))) = unat lo + g mod (unat (hi - lo) + 1)"
      using k le by (simp add: unat_word_ariths unat_of_nat take_bit_eq_mod)
    with k le show ?thesis by (simp add: word_le_nat_alt)
  qed
  then show ?thesis unfolding source_ok_def counting_source_def using std_find_if_found [of _ "\<lambda>w :: nat. 0 < w"] by simp
qed

definition two_pages :: "basic_memory_region list" where
  "two_pages = [\<lparr>region_base = 0x1000, region_size = 0x1000\<rparr>, \<lparr>region_base = 0x4000, region_size = 0x1000\<rparr>]"

lemma two_pages_aligned: "aligned_regions 6 two_pages"
  by (simp add: aligned_regions_def two_pages_def virtual_span_def span_ok_def)

theorem uniform_draws_in_regions_witness:
  "\<exists>d as d' g'. uad_init two_pages 6 8 = Some d \<and> draw_n (uad_draw counting_source) 3 d 0 = Some (as, d', g') \<and>
     length as = 3 \<and> (\<forall>a \<in> set as. take_bit 6 a = 8)"
proof -
  obtain d where d: "uad_init two_pages 6 8 = Some d" by (auto simp: uad_init_def derive_distributions_def)
  from uniform_draws_in_regions [OF counting_source_ok two_pages_aligned d, of 3 0] d show ?thesis by auto
qed

text \<open>
  C38. A set-cycling distribution draws addresses of one set after the other: the \<open>i\<close>-th address lies in the memory, is
  aligned to a cache line, and belongs to set \<open>starting_set + i\<close> modulo the number of sets. A draw returns as
  soon as one of the addresses that the uniform distribution below yields belongs to the set.
\<close>

theorem set_cycling_draws_cycle:
  assumes "source_ok rs" and "aligned_regions offset_bits regions" and "starting_set < 2 ^ index_bits"
    and "set_cycling_of_memory regions offset_bits index_bits starting_set = Some d"
  shows "(\<forall>k g as d' g'. draw_n (set_cycling_draw rs) k d g = Some (as, d', g') \<longrightarrow>
      (\<forall>i < k. unat (drop_bit offset_bits (as ! i)) mod 2 ^ index_bits = (starting_set + i) mod 2 ^ index_bits \<and>
         (\<exists>r \<in> set regions. in_span (as ! i) (virtual_span r)) \<and> take_bit offset_bits (as ! i) = 0)) \<and>
    (\<forall>k g as d' g'. draw_n (uad_draw rs) k (sc_base_distribution d) g = Some (as, d', g') \<longrightarrow>
      (\<exists>a \<in> set as. unat (drop_bit offset_bits a) mod 2 ^ index_bits = starting_set) \<longrightarrow>
      set_cycling_draw rs d g \<noteq> None)"
proof -
  let ?f = "\<lambda>a. unat (drop_bit offset_bits a) mod 2 ^ index_bits"
  from assms(4) obtain base where base: "uad_init regions offset_bits 0 = Some base"
    and d: "d = \<lparr>sc_sets = 2 ^ index_bits, sc_starting_set = starting_set, sc_base_distribution = base,
       sc_next_set = starting_set, sc_index_function = ?f\<rparr>"
    by (auto simp: set_cycling_of_memory_def set_cycling_init_def modular_init_def modular_place_def [abs_def]
        modular_index_bits_def uad_of_memory_def bind_eq_Some_conv vec_simps)
  have cycle: "\<forall>i < k. ?f (as ! i) = (sc_next_set e + i) mod 2 ^ index_bits \<and> as ! i \<in> aligned_addresses offset_bits 0 regions"
    if "draw_n (set_cycling_draw rs) k e g = Some (as, d', g')" "sc_base_distribution e = base" "sc_index_function e = ?f"
      "sc_sets e = 2 ^ index_bits" "sc_next_set e < 2 ^ index_bits" for k e g as d' g'
    using that
  proof (induction k arbitrary: e g as)
    case (Suc k)
    from Suc.prems(1) obtain a e1 g1 as1 where a: "set_cycling_draw rs e g = Some (a, e1, g1)"
      "draw_n (set_cycling_draw rs) k e1 g1 = Some (as1, d', g')" "as = a # as1" by (auto simp: bind_eq_Some_conv)
    from a(1) Suc.prems(2-4) obtain base1 where
      l: "set_cycling_loop rs ?f (sc_next_set e) base g = Some (a, base1, g1)"
      "e1 = e\<lparr>sc_base_distribution := base1, sc_next_set := (sc_next_set e + 1) mod 2 ^ index_bits\<rparr>"
      by (auto simp: set_cycling_draw_def bind_eq_Some_conv)
    from set_cycling_loop_result [OF l(1) assms(1,2) base]
    have a': "?f a = sc_next_set e" "a \<in> aligned_addresses offset_bits 0 regions" "base1 = base" by auto
    have "\<forall>i < k. ?f (as1 ! i) = ((sc_next_set e + 1) mod 2 ^ index_bits + i) mod 2 ^ index_bits \<and>
        as1 ! i \<in> aligned_addresses offset_bits 0 regions"
      using Suc.IH [OF a(2)] l(2) a'(3) Suc.prems(3,4) by simp
    then show ?case using a(3) a'(1,2) Suc.prems(5) by (auto simp: nth_Cons' mod_simps less_Suc_eq_0_disj)
  qed simp
  show ?thesis
  proof (intro conjI allI impI)
    fix k g as d' g' and i :: nat
    assume "draw_n (set_cycling_draw rs) k d g = Some (as, d', g')" "i < k"
    from cycle [OF this(1)] this(2) d assms(3) show "?f (as ! i) = (starting_set + i) mod 2 ^ index_bits"
      "\<exists>r \<in> set regions. in_span (as ! i) (virtual_span r)" "take_bit offset_bits (as ! i) = 0"
      by (auto simp: aligned_addresses_def)
  next
    fix k g as d' g'
    assume "draw_n (uad_draw rs) k (sc_base_distribution d) g = Some (as, d', g')" "\<exists>a \<in> set as. ?f a = starting_set"
    from set_cycling_loop_ends [OF this] d show "set_cycling_draw rs d g \<noteq> None" by (auto simp: set_cycling_draw_def)
  qed
qed

text \<open>With the counting source the third line of the first page is in set 2 of 4.\<close>

theorem set_cycling_draws_cycle_witness:
  "\<exists>d. set_cycling_of_memory two_pages 6 2 2 = Some d \<and> set_cycling_draw counting_source d 0 \<noteq> None"
proof -
  let ?base = "\<lparr>uad_alignment = 6, uad_offset = 0, uad_regions = [0x1000, 0x1000],
       uad_addresses = [(0x40, 0x7F), (0x100, 0x13F)]\<rparr>"
  have "modular_init 6 (2 ^ 2) = Some \<lparr>mp_offset_bits = 6, mp_sets = 2 ^ 2\<rparr>"
    using is_power_of_two_power [of 2] by (simp add: modular_init_def is_power_of_two_def)
  moreover have "modular_index_bits \<lparr>mp_offset_bits = 6, mp_sets = 2 ^ 2\<rparr> = 2"
    using countr_zero_power [of 2] by (simp add: modular_index_bits_def)
  ultimately obtain d where d: "set_cycling_of_memory two_pages 6 2 2 = Some d" "sc_base_distribution d = ?base"
    by (simp add: set_cycling_of_memory_def set_cycling_init_def uad_of_memory_def uad_init_def derive_distributions_def two_pages_def)
  have "draw_n (uad_draw counting_source) 3 ?base 0 = Some ([0x1000, 0x1040, 0x1080], ?base, 3)"
    by (simp add: numeral_3_eq_3 uad_draw_def counting_source_def)
  with set_cycling_draws_cycle [OF counting_source_ok two_pages_aligned _ d(1)] d show ?thesis by fastforce
qed

end
