(* ===== verification/CH_Find_Eviction_Set.thy ===== *)
theory CH_Find_Eviction_Set
  imports CH_Commands CH_Group_Test CH_Distributions
begin

text \<open>
  The search for an eviction set (\<open>algo/find_eviction_set.hpp\<close>): random addresses are collected and tested, a few times
  for each size, with a growing number of addresses. The default distribution is optimistic at first and
  draws addresses that agree with the target in all bits that a modular placement looks at.

  The algorithm runs in a world \<open>'w\<close> that holds the memory and the generator, since the test for an eviction set
  may use the same generator as the draws. The locale \<open>set_search\<close> puts together what the search relies on: a
  distribution, and an exact test whose invariant the draws keep.
\<close>

section \<open>Definitions\<close>

text \<open>
  Collecting \<open>sz\<close> different addresses. The list \<open>out\<close> is the part of the vector before the iterator; what
  lies behind it is overwritten before it is read.
\<close>

definition fill_step :: "('d \<Rightarrow> 'w \<Rightarrow> (uintptr \<times> 'd \<times> 'w) option) \<Rightarrow> nat \<Rightarrow> uintptr list \<times> uintptr set \<times> 'd \<times> 'w \<Rightarrow>
    (uintptr list option \<times> uintptr list \<times> uintptr set \<times> 'd \<times> 'w) option" where
  "fill_step draw sz = (\<lambda>(out, seen, d, w).
     if length out \<noteq> sz then do {
       (address, d', w') \<leftarrow> draw d w;
       Some (None, if address \<notin> seen then (out @ [address], insert address seen, d', w') else (out, seen, d', w')) }
     else Some (Some out, out, seen, d, w))"

definition fill_addresses :: "('d \<Rightarrow> 'w \<Rightarrow> (uintptr \<times> 'd \<times> 'w) option) \<Rightarrow> nat \<Rightarrow> uintptr \<Rightarrow> 'd \<Rightarrow> 'w \<Rightarrow>
    (uintptr list \<times> 'd \<times> 'w) option" where
  "fill_addresses draw sz target d w = do {
     (out, _, _, d', w') \<leftarrow> retry (fill_step draw sz) ([], {target}, d, w);
     Some (out, d', w') }"

text \<open>The attempts with one size.\<close>

fun find_attempts :: "'w evset_test \<Rightarrow> ('d \<Rightarrow> 'w \<Rightarrow> (uintptr \<times> 'd \<times> 'w) option) \<Rightarrow> ('d \<Rightarrow> 'd) \<Rightarrow> nat \<Rightarrow> uintptr \<Rightarrow> nat \<Rightarrow> 'd \<Rightarrow> 'w \<Rightarrow>
    (uintptr list option \<times> 'd \<times> 'w) option" where
  "find_attempts test draw reset sz target 0 d w = Some (None, d, w)"
| "find_attempts test draw reset sz target (Suc attempt) d w = do {
     (out, d1, w1) \<leftarrow> fill_addresses draw sz target (reset d) w;
     (is_evset, w2) \<leftarrow> test target out w1;
     if is_evset then Some (Some out, d1, w2)
     else find_attempts test draw reset sz target attempt d1 w2 }"

definition find_step :: "'w evset_test \<Rightarrow> ('d \<Rightarrow> 'w \<Rightarrow> (uintptr \<times> 'd \<times> 'w) option) \<Rightarrow> ('d \<Rightarrow> 'd) \<Rightarrow> uintptr \<Rightarrow> nat \<times> 'd \<times> 'w \<Rightarrow>
    (uintptr list option \<times> nat \<times> 'd \<times> 'w) option" where
  "find_step test draw reset target = (\<lambda>(sz, d, w). do {
     (r, d', w') \<leftarrow> find_attempts test draw reset sz target 5 d w;
     Some (r, sz + sz div 2, d', w') })"

definition find_eviction_set :: "'w evset_test \<Rightarrow> ('d \<Rightarrow> 'w \<Rightarrow> (uintptr \<times> 'd \<times> 'w) option) \<Rightarrow> ('d \<Rightarrow> 'd) \<Rightarrow> nat \<Rightarrow> uintptr \<Rightarrow> 'd \<Rightarrow> 'w \<Rightarrow>
    (uintptr list \<times> 'd \<times> 'w) option" where
  "find_eviction_set test draw reset ways target d w = do {
     (out, _, d', w') \<leftarrow> retry (find_step test draw reset target) (ways, d, w);
     Some (out, d', w') }"

text \<open>
  The overload without a distribution. The alignment is a \<open>std::uint8_t\<close> and \<open>1 << alignment\<close> an \<open>int\<close> shift; the
  remainder of the target modulo that power of two are its low bits.
\<close>

definition optimistic_distribution :: "'z basic_memory_region_scheme list \<Rightarrow> nat \<Rightarrow> nat \<Rightarrow> nat \<Rightarrow> uintptr \<Rightarrow>
    (uniform_address_distribution, uniform_address_distribution) concatenated_address_distribution option" where
  "optimistic_distribution regions offset_bits index_bits ways target = do {
     let same_set_alignment = (offset_bits + index_bits) mod 256;
     require (same_set_alignment < 31);
     optimistic \<leftarrow> uad_init regions same_set_alignment (take_bit same_set_alignment target);
     pessimistic \<leftarrow> uad_of_memory regions offset_bits;
     Some (concat_init optimistic (index_bits * ways) pessimistic) }"

definition find_eviction_set_default :: "'w evset_test \<Rightarrow>
    (uniform_address_distribution \<Rightarrow> 'w \<Rightarrow> (uintptr \<times> uniform_address_distribution \<times> 'w) option) \<Rightarrow>
    'z basic_memory_region_scheme list \<Rightarrow> nat \<Rightarrow> nat \<Rightarrow> nat \<Rightarrow> uintptr \<Rightarrow> 'w \<Rightarrow> (uintptr list \<times> 'w) option" where
  "find_eviction_set_default test draw regions offset_bits index_bits ways target w = do {
     d \<leftarrow> optimistic_distribution regions offset_bits index_bits ways target;
     (out, _, w') \<leftarrow> find_eviction_set test (concat_draw draw draw) (concat_reset uad_reset uad_reset) ways target d w;
     Some (out, w') }"

text \<open>A memory together with the generator that is used on it.\<close>

definition on_generator :: "('d \<Rightarrow> 'g \<Rightarrow> (uintptr \<times> 'd \<times> 'g) option) \<Rightarrow> 'd \<Rightarrow> 'm \<times> 'g \<Rightarrow> (uintptr \<times> 'd \<times> 'm \<times> 'g) option" where
  "on_generator draw d w = do { (a, d', g') \<leftarrow> draw d (snd w); Some (a, d', fst w, g') }"

definition on_memory :: "'m evset_test \<Rightarrow> ('m \<times> 'g) evset_test" where
  "on_memory test target addresses w = do { (b, m') \<leftarrow> test target addresses (fst w); Some (b, m', snd w) }"

section \<open>Collecting addresses\<close>

lemma fill_ends:
  assumes "draw_n draw k d w = Some (as, dk, wk)" and "length out \<le> sz" and "sz \<le> length out + card (set as - seen)"
  shows "\<exists>out' seen' d' w'. retry (fill_step draw sz) (out, seen, d, w) = Some (out', out', seen', d', w') \<and>
    set out' \<subseteq> set out \<union> set as"
  using assms
proof (induction k arbitrary: d w as out seen)
  case 0
  then show ?case by (auto simp: fill_step_def)
next
  case (Suc k)
  then obtain a d1 w1 as1 where a: "draw d w = Some (a, d1, w1)" "draw_n draw k d1 w1 = Some (as1, dk, wk)" "as = a # as1"
    by (auto simp: bind_eq_Some_conv)
  consider "length out = sz" | "length out \<noteq> sz" "a \<in> seen" | "length out \<noteq> sz" "a \<notin> seen" by blast
  then show ?case
  proof cases
    case 1
    then show ?thesis by (auto simp: fill_step_def)
  next
    case 2
    then have "set as - seen = set as1 - seen" using a(3) by auto
    with Suc.IH [OF a(2) Suc.prems(2), of seen] Suc.prems(3) 2 a show ?thesis by (auto simp: fill_step_def)
  next
    case 3
    have "set as - seen = insert a (set as1 - insert a seen)" using 3 a(3) by auto
    then have "card (set as - seen) = Suc (card (set as1 - insert a seen))" by simp
    with Suc.IH [OF a(2), of "out @ [a]" "insert a seen"] Suc.prems(2,3) 3
    obtain out' seen' d' w' where "retry (fill_step draw sz) (out @ [a], insert a seen, d1, w1) = Some (out', out', seen', d', w')"
      "set out' \<subseteq> set (out @ [a]) \<union> set as1" by auto
    moreover have "fill_step draw sz (out, seen, d, w) = Some (None, out @ [a], insert a seen, d1, w1)"
      using 3 a(1) by (simp add: fill_step_def)
    ultimately show ?thesis using a(3) by auto
  qed
qed

section \<open>The search\<close>

locale set_search =
  dist: address_draws draw reset dinvar S + exact_test test invar pl n A adm
  for draw :: "'d \<Rightarrow> 'w \<Rightarrow> (uintptr \<times> 'd \<times> 'w) option" and reset dinvar S
    and test :: "'w evset_test" and invar pl n A adm +
  assumes draw_keeps: "invar w \<Longrightarrow> draw d w = Some (a, d', w') \<Longrightarrow> invar w'"
    and drawn_allowed: "dinvar d \<Longrightarrow> S \<subseteq> A"
begin

text \<open>What is collected: the state of the filling loop after any number of draws.\<close>

definition collected :: "uintptr \<Rightarrow> uintptr list \<times> uintptr set \<times> 'd \<times> 'w \<Rightarrow> bool" where
  "collected target = (\<lambda>(out, seen, d, w). distinct out \<and> seen = insert target (set out) \<and> target \<notin> set out \<and>
     set out \<subseteq> S \<and> dinvar d \<and> invar w)"

lemma fill_step_collected:
  assumes "fill_step draw sz s = Some (r, s')" and "collected target s"
  shows "collected target s' \<and> (\<forall>out. r = Some out \<longrightarrow> out = fst s' \<and> length out = sz)"
proof -
  obtain out seen d w where s: "s = (out, seen, d, w)" by (cases s)
  show ?thesis
  proof (cases "length out = sz")
    case True
    with assms s show ?thesis by (auto simp: fill_step_def)
  next
    case False
    with assms s obtain a d1 w1 where a: "draw d w = Some (a, d1, w1)" "r = None"
      "s' = (if a \<notin> seen then (out @ [a], insert a seen, d1, w1) else (out, seen, d1, w1))"
      by (auto simp: fill_step_def bind_eq_Some_conv)
    have "dinvar d" "invar w" using assms(2) s by (simp_all add: collected_def)
    with dist.draw_Some [OF a(1)] draw_keeps [OF _ a(1)] have "a \<in> S" "dinvar d1" "invar w1" by auto
    with assms(2) s a show ?thesis by (auto simp: collected_def)
  qed
qed

lemma fill_addresses_ok:
  assumes "fill_addresses draw sz target d w = Some (out, d', w')" and "dinvar d" and "invar w"
  shows "length out = sz \<and> distinct out \<and> target \<notin> set out \<and> set out \<subseteq> S \<and> dinvar d' \<and> invar w'"
proof -
  from assms(1) obtain v o1 seen where r: "retry (fill_step draw sz) ([], {target}, d, w) = Some (v, o1, seen, d', w')" "out = v"
    by (auto simp: fill_addresses_def bind_eq_Some_conv)
  have "(\<lambda>v s. collected target s \<and> v = fst s \<and> length v = sz) v (o1, seen, d', w')"
    using r(1)
  proof (rule retry_invariant [where I = "collected target"])
    show "collected target ([], {target}, d, w)" using assms(2,3) by (simp add: collected_def)
  qed (use fill_step_collected in blast)+
  with r(2) show ?thesis by (auto simp: collected_def)
qed

text \<open>Whatever the search returns is an eviction set.\<close>

definition found :: "uintptr \<Rightarrow> uintptr list \<Rightarrow> bool" where
  "found target out \<longleftrightarrow> distinct out \<and> target \<notin> set out \<and> set out \<subseteq> S \<and> n \<le> card (congruent pl target (set out))"

lemma found_test:
  assumes "fill_addresses draw sz target d w = Some (out, d1, w1)" and "dinvar d" and "invar w"
  shows "\<exists>w2. test target out w1 = Some (n \<le> card (congruent pl target (set out)), w2) \<and> invar w2 \<and> dinvar d1 \<and>
    (n \<le> card (congruent pl target (set out)) \<longrightarrow> found target out)"
proof -
  note f = fill_addresses_ok [OF assms]
  from test_exact [OF _ adm_distinct, of w1 out target] f drawn_allowed [OF assms(2)] show ?thesis by (auto simp: found_def)
qed

lemma find_attempts_ok:
  "find_attempts test draw reset sz target k d w = Some (r, d', w') \<Longrightarrow> dinvar d \<Longrightarrow> invar w \<Longrightarrow>
     dinvar d' \<and> invar w' \<and> (\<forall>out. r = Some out \<longrightarrow> found target out)"
proof (induction k arbitrary: d w)
  case (Suc k)
  then obtain out d1 w1 where f: "fill_addresses draw sz target (reset d) w = Some (out, d1, w1)"
    by (auto simp: bind_eq_Some_conv)
  from found_test [OF f dist.reset_ok [OF Suc.prems(2)] Suc.prems(3)] obtain w2 where
    t: "test target out w1 = Some (n \<le> card (congruent pl target (set out)), w2)" "invar w2" "dinvar d1"
    "n \<le> card (congruent pl target (set out)) \<longrightarrow> found target out" by blast
  then show ?case using Suc.prems(1) Suc.IH [of d1 w2] f by (auto split: if_splits)
qed simp

lemma find_sound:
  assumes "find_eviction_set test draw reset ways target d w = Some (out, d', w')" and "dinvar d" and "invar w"
  shows "found target out \<and> invar w' \<and> dinvar d'"
proof -
  let ?I = "\<lambda>(sz :: nat, d, w). dinvar d \<and> invar w"
  from assms(1) obtain v sz where r: "retry (find_step test draw reset target) (ways, d, w) = Some (v, sz, d', w')" "out = v"
    by (auto simp: find_eviction_set_def bind_eq_Some_conv)
  have step: "?I s' \<and> (\<forall>out. r = Some out \<longrightarrow> found target out)" if "find_step test draw reset target s = Some (r, s')" "?I s" for s r s'
    using that find_attempts_ok by (cases s) (auto simp: find_step_def bind_eq_Some_conv simp del: find_attempts.simps)
  have "(\<lambda>v s. found target v \<and> ?I s) v (sz, d', w')"
    using r(1) by (rule retry_invariant [where I = ?I]) (use assms(2,3) step in \<open>simp, blast, blast\<close>)
  with r(2) show ?thesis by auto
qed

text \<open>The first attempt succeeds when enough of the first draws fall into the set of the target.\<close>

lemma find_first_attempt:
  assumes "draw_n draw k (reset d) w = Some (as, dk, wk)" and "n \<le> card (set as - {target})"
    and "\<forall>a \<in> set as. pl a = pl target" and "dinvar d" and "invar w"
  shows "\<exists>out d' w'. find_eviction_set test draw reset n target d w = Some (out, d', w') \<and> found target out \<and>
    length out = n \<and> set out \<subseteq> set as \<and> invar w'"
proof -
  from fill_ends [OF assms(1), of "[]" n "{target}"] assms(2) obtain out d1 w1 where
    f: "fill_addresses draw n target (reset d) w = Some (out, d1, w1)" and sub: "set out \<subseteq> set as"
    by (auto simp: fill_addresses_def)
  note ok = fill_addresses_ok [OF f dist.reset_ok [OF assms(4)] assms(5)]
  have "congruent pl target (set out) = set out" using sub assms(3) by (auto simp: congruent_def)
  then have c: "n \<le> card (congruent pl target (set out))" using ok by (simp add: distinct_card)
  with found_test [OF f dist.reset_ok [OF assms(4)] assms(5)] obtain w2 where
    t: "test target out w1 = Some (True, w2)" "invar w2" "found target out" by auto
  then have "find_attempts test draw reset n target 5 d w = Some (Some out, d1, w2)" using f by (simp add: numeral_eq_Suc)
  then have "find_step test draw reset target (n, d, w) = Some (Some out, n + n div 2, d1, w2)"
    by (simp add: find_step_def del: find_attempts.simps)
  then show ?thesis using t(2,3) ok sub by (simp add: find_eviction_set_def)
qed

end

section \<open>The default search\<close>

text \<open>A test over a memory and a generator, whose invariant is kept by draws from the generator.\<close>

locale world_test = exact_test test invar pl n A adm
  for test :: "('m \<times> 'g) evset_test" and invar pl n A adm +
  fixes rs :: "'g random_source"
  assumes draws_keep: "invar (m, g) \<Longrightarrow> uad_draw rs d g = Some (a, d', g') \<Longrightarrow> invar (m, g')"

lemma on_generator_ok:
  "address_distribution draw reset dinvar S \<Longrightarrow> address_distribution (on_generator draw) reset dinvar S"
proof (rule address_distributionI)
  assume "address_distribution draw reset dinvar S"
  note d = address_distribution.draw_ok [OF this] address_draws.reset_ok [OF address_distribution.axioms(1) [OF this]]
  show "\<exists>a d' w'. on_generator draw d w = Some (a, d', w') \<and> a \<in> S \<and> dinvar d'" if "dinvar d" for d w
    using d(1) [OF that, of "snd w"] by (auto simp: on_generator_def)
  show "dinvar (reset d)" if "dinvar d" for d using d(2) [OF that] .
qed

text \<open>The invariant of a uniform distribution over a memory, of which the test may use the part \<open>A\<close>.\<close>

definition uad_invar :: "'g random_source \<Rightarrow> uintptr set \<Rightarrow> 'z basic_memory_region_scheme list \<Rightarrow> nat \<Rightarrow> uintptr \<Rightarrow>
    uniform_address_distribution \<Rightarrow> bool" where
  "uad_invar rs A regions al offset d \<longleftrightarrow> source_ok rs \<and> aligned_regions al regions \<and> uad_init regions al offset = Some d \<and>
     aligned_addresses al offset regions \<subseteq> A"

interpretation generator: address_distribution "on_generator (uad_draw rs)" uad_reset "uad_invar rs A regions al offset"
    "aligned_addresses al offset regions"
  for rs A and regions :: "'z basic_memory_region_scheme list" and al offset
proof (rule on_generator_ok, rule address_distributionI)
  fix d g assume "uad_invar rs A regions al offset d"
  with uad_draw_in [of rs al regions offset d g]
  show "\<exists>a d' g'. uad_draw rs d g = Some (a, d', g') \<and> a \<in> aligned_addresses al offset regions \<and> uad_invar rs A regions al offset d'"
    by (fastforce simp: uad_invar_def)
qed (simp add: uad_reset_def)

interpretation generators: distribution_pair "on_generator (uad_draw rs)" uad_reset "uad_invar rs A regions al offset"
    "aligned_addresses al offset regions" "on_generator (uad_draw rs)" uad_reset "uad_invar rs A regions al' offset'"
    "aligned_addresses al' offset' regions"
  for rs A and regions :: "'z basic_memory_region_scheme list" and al offset al' offset'
  by unfold_locales

abbreviation concat_uniform where
  "concat_uniform rs \<equiv> concat_draw (on_generator (uad_draw rs)) (on_generator (uad_draw rs))"

lemma concat_uniform_draw:
  "concat_uniform rs d w = Some (a, d', w') \<Longrightarrow> fst w' = fst w \<and> (\<exists>u u'. uad_draw rs u (snd w) = Some (a, u', snd w'))"
  unfolding concat_draw_def on_generator_def by (auto simp: bind_eq_Some_conv split: if_splits) blast+

sublocale world_test \<subseteq> search: set_search "concat_uniform rs" "concat_reset uad_reset uad_reset"
    "pair_invar (uad_invar rs A regions al offset) (uad_invar rs A regions al' offset')" "aligned_addresses al offset regions \<union> aligned_addresses al' offset' regions"
    test invar pl n A adm
  for regions :: "'z basic_memory_region_scheme list" and al offset al' offset'
proof unfold_locales
  fix w d a d' w' assume "invar w" "concat_uniform rs d w = Some (a, d', w')"
  with concat_uniform_draw [of rs d w a d' w'] draws_keep [of "fst w" "snd w"] show "invar w'" by (metis prod.collapse)
next
  fix d assume "pair_invar (uad_invar rs A regions al offset) (uad_invar rs A regions al' offset') d"
  then show "aligned_addresses al offset regions \<union> aligned_addresses al' offset' regions \<subseteq> A"
    by (simp add: pair_invar_def uad_invar_def)
qed

interpretation lru_world: world_test "on_memory (unsafe_is_eviction_set sm_instrumented_access sm_access)"
    "\<lambda>w. lru_memory pl n (fst w)" pl n UNIV "\<lambda>_. True" rs for pl n rs
  by unfold_locales (use lru_eviction_test lru_memory_ways_pos in \<open>fastforce simp: on_memory_def\<close>)+

section \<open>The optimistic draws\<close>

text \<open>The set of an address under the modular placement depends on its low bits only.\<close>

lemma modular_set_low_bits:
  assumes "take_bit (off + k) a = take_bit (off + k) b"
  shows "modular_set off k a = modular_set off k b"
proof -
  have "take_bit k (drop_bit off a) = take_bit k (drop_bit off b)"
    using arg_cong [OF assms, of "drop_bit off"] by (simp add: drop_bit_take_bit)
  then have "unat (take_bit k (drop_bit off a)) = unat (take_bit k (drop_bit off b))" by simp
  then show ?thesis by (simp only: unat_take_bit_mod)
qed

lemma draw_n_concat:
  "ca_current_draws c + k \<le> ca_draws c \<Longrightarrow> draw_n (uad_draw rs) k (ca_d1 c) g = Some (as, d', g') \<Longrightarrow>
     \<exists>c'. draw_n (concat_uniform rs) k c (m, g) = Some (as, c', m, g')"
proof (induction k arbitrary: c g as)
  case (Suc k)
  then obtain a d1 g1 as1 where a: "uad_draw rs (ca_d1 c) g = Some (a, d1, g1)" "draw_n (uad_draw rs) k d1 g1 = Some (as1, d', g')" "as = a # as1"
    by (auto simp: bind_eq_Some_conv)
  let ?c = "c\<lparr>ca_current_draws := ca_current_draws c + 1, ca_d1 := d1\<rparr>"
  from Suc.IH [of ?c g1 as1] Suc.prems(1) a(2) obtain c' where "draw_n (concat_uniform rs) k ?c (m, g1) = Some (as1, c', m, g')" by auto
  moreover have "concat_uniform rs c (m, g) = Some (a, ?c, m, g1)"
    using a(1) Suc.prems(1) by (simp add: concat_draw_def on_generator_def)
  ultimately show ?case using a(3) by simp
qed simp

lemma aligned_regions_less:
  assumes "aligned_regions (j + k) regions"
  shows "aligned_regions j regions"
proof -
  have "(2 :: nat) ^ j dvd 2 ^ (j + k)" by (simp add: le_imp_power_dvd)
  with assms show ?thesis unfolding aligned_regions_def by (meson dvd_trans)
qed

lemma optimistic_distribution_ok:
  assumes "off + k < 31" and "source_ok rs" and "aligned_regions (off + k) regions"
  shows "\<exists>o1 p. optimistic_distribution regions off k ways target = Some (concat_init o1 (k * ways) p) \<and>
    uad_init regions (off + k) (take_bit (off + k) target) = Some o1 \<and>
    pair_invar (uad_invar rs UNIV regions (off + k) (take_bit (off + k) target)) (uad_invar rs UNIV regions off 0) (concat_init o1 (k * ways) p)"
proof -
  have low: "take_bit (off + k) target < push_bit (off + k) 1"
    using assms(1) by (simp add: word_less_nat_alt unat_take_bit_mod unat_exp)
  have one: "(0 :: uintptr) < push_bit off 1" using assms(1) push_bit_unat [of off] by (simp add: unat_gt_0 word_gt_0)
  from low one assms show ?thesis
    using aligned_regions_less [OF assms(3)]
    by (simp add: optimistic_distribution_def uad_of_memory_def uad_init_def derive_distributions_def pair_invar_def uad_invar_def concat_init_def Let_def)
qed

text \<open>The optimistic draws are the first ones of the distribution, and all fall into the set of the target.\<close>

lemma optimistic_draws:
  assumes "off + k < 31" and "source_ok rs" and "aligned_regions (off + k) regions"
    and "uad_init regions (off + k) (take_bit (off + k) target) = Some d"
    and "draw_n (uad_draw rs) (k * n) d g = Some (as, d', g')"
    and "optimistic_distribution regions off k n target = Some c"
  shows "\<exists>c'. draw_n (concat_uniform rs) (k * n) (concat_reset uad_reset uad_reset c) (m, g) = Some (as, c', m, g')"
    and "\<forall>a \<in> set as. modular_set off k a = modular_set off k target"
proof -
  from optimistic_distribution_ok [OF assms(1-3), of n target] assms(4,6) obtain p where c: "c = concat_init d (k * n) p" by auto
  then have "concat_reset uad_reset uad_reset c = c" by (simp add: concat_reset_def concat_init_def uad_reset_def)
  with draw_n_concat [of c "k * n" rs g as d' g' m] assms(5) c
  show "\<exists>c'. draw_n (concat_uniform rs) (k * n) (concat_reset uad_reset uad_reset c) (m, g) = Some (as, c', m, g')"
    by (simp add: concat_init_def)
  from uniform.draw_n_ok [of rs "off + k" regions "take_bit (off + k) target" d "k * n" g] assms(2-5)
  have "set as \<subseteq> aligned_addresses (off + k) (take_bit (off + k) target) regions" by auto
  then show "\<forall>a \<in> set as. modular_set off k a = modular_set off k target"
    by (auto simp: aligned_addresses_def intro!: modular_set_low_bits)
qed

lemma find_default_result:
  assumes "optimistic_distribution regions off k n target = Some c"
  shows "find_eviction_set_default test draw regions off k n target w =
    map_option (\<lambda>(out, _, w). (out, w)) (find_eviction_set test (concat_draw draw draw) (concat_reset uad_reset uad_reset) n target c w)"
  unfolding find_eviction_set_default_def assms by (auto split: option.splits prod.splits bind_splits)

section \<open>Properties\<close>



end
