(* ===== verification/CH_Evset_Test.thy ===== *)
theory CH_Evset_Test
  imports CH_Find_Eviction_Set
begin

text \<open>
  The test for an eviction set that the commands use (\<open>provide_is_eviction_set\<close> in
  \<open>cli/commands/detail/impl/eviction_strategy_command_base.hpp\<close>): the memory is reset, the cache is polluted with
  accesses to other addresses, and \<open>safe_is_eviction_set\<close> runs on it, which gives up when an address
  was cached beforehand; then everything is repeated. The positive answer is confirmed a number of times.

  Over a hierarchy with an LRU first level the test is right whenever it returns (\<open>CH_Strategy\<close>), it is exact and needs
  one pass when the polluting accesses reach as many other lines of each tested set as there are ways
  (\<open>provided_test_exact\<close>), and it never ends when the target is one of the given addresses and is not evicted before
  its turn (\<open>provided_test_never_ends\<close>). A simulated memory can neither be reset nor executes \<open>wbinvd\<close>, so nothing but
  the pollution removes the tested addresses from its caches.
\<close>

section \<open>Definitions\<close>

text \<open>The state next to the memory: the generator, the distribution for the pollution, and the counter of failures.\<close>

record 'g search_state =
  ss_generator :: 'g
  ss_distribution :: "uniform_address_distribution blacklisted_address_distribution"
  ss_global_fails :: nat

text \<open>Cache pollution: \<open>pollution\<close> accesses to addresses that are not in \<open>blacklist\<close>.\<close>

definition pollution_step :: "'g random_source \<Rightarrow> (uintptr \<Rightarrow> 'm \<Rightarrow> 'm option) \<Rightarrow> nat \<Rightarrow> uintptr set \<Rightarrow>
    nat \<times> 'm \<times> 'g search_state \<Rightarrow> (unit option \<times> nat \<times> 'm \<times> 'g search_state) option" where
  "pollution_step rs acc pollution blacklist = (\<lambda>(i, m, s).
     if i < pollution then do {
       (address, dist, g) \<leftarrow> blacklisted_draw (uad_draw rs) (ss_distribution s) (ss_generator s);
       let s' = s\<lparr>ss_generator := g, ss_distribution := dist\<rparr>;
       if address \<in> blacklist then Some (None, i, m, s')
       else do { m' \<leftarrow> acc address m; Some (None, i + 1, m', s') } }
     else Some (Some (), i, m, s))"

definition cache_pollution :: "'g random_source \<Rightarrow> (uintptr \<Rightarrow> 'm \<Rightarrow> 'm option) \<Rightarrow> nat \<Rightarrow> uintptr set \<Rightarrow> 'm \<Rightarrow> 'g search_state \<Rightarrow>
    ('m \<times> 'g search_state) option" where
  "cache_pollution rs acc pollution blacklist m s = do {
     (_, _, m', s') \<leftarrow> retry (pollution_step rs acc pollution blacklist) (0, m, s);
     Some (m', s') }"

text \<open>
  One pass of \<open>is_eviction_set_single\<close>; \<open>reset\<close> is \<open>memory.reset()\<close>, \<open>memory.wbinvd()\<close> or nothing, depending on the type
  of the memory. The counters decide about warnings only.
\<close>

definition single_step :: "'g random_source \<Rightarrow> (uintptr \<Rightarrow> 'm \<Rightarrow> (nat \<times> 'm) option) \<Rightarrow> (uintptr \<Rightarrow> 'm \<Rightarrow> 'm option) \<Rightarrow> ('m \<Rightarrow> 'm option) \<Rightarrow>
    nat \<Rightarrow> uintptr \<Rightarrow> uintptr list \<Rightarrow> nat \<times> 'm \<times> 'g search_state \<Rightarrow> (bool option \<times> nat \<times> 'm \<times> 'g search_state) option" where
  "single_step rs iacc acc reset pollution target addresses = (\<lambda>(local_fails, m, s). do {
     let blacklist = insert target (set addresses);
     m1 \<leftarrow> reset m;
     (m2, s2) \<leftarrow> cache_pollution rs acc pollution blacklist m1 s;
     (result, m3) \<leftarrow> safe_is_eviction_set iacc target addresses m2;
     case result of
       Some b \<Rightarrow> Some (Some b, local_fails, m3, s2)
     | None \<Rightarrow>
         let local_fails' = local_fails + 1;
             s3 = (if local_fails' = 5 then s2\<lparr>ss_global_fails := ss_global_fails s2 + 1\<rparr> else s2)
         in Some (None, local_fails', m3, s3) })"

definition is_eviction_set_single :: "'g random_source \<Rightarrow> (uintptr \<Rightarrow> 'm \<Rightarrow> (nat \<times> 'm) option) \<Rightarrow> (uintptr \<Rightarrow> 'm \<Rightarrow> 'm option) \<Rightarrow>
    ('m \<Rightarrow> 'm option) \<Rightarrow> nat \<Rightarrow> ('m \<times> 'g search_state) evset_test" where
  "is_eviction_set_single rs iacc acc reset pollution target addresses w = do {
     (b, _, w') \<leftarrow> retry (single_step rs iacc acc reset pollution target addresses) (0, w);
     Some (b, w') }"

fun repeat_test :: "'w evset_test \<Rightarrow> nat \<Rightarrow> 'w evset_test" where
  "repeat_test single 0 target addresses w = Some (True, w)"
| "repeat_test single (Suc k) target addresses w = do {
     (result, w') \<leftarrow> single target addresses w;
     if result then repeat_test single k target addresses w' else Some (False, w') }"

definition provided_test :: "'g random_source \<Rightarrow> (uintptr \<Rightarrow> 'm \<Rightarrow> (nat \<times> 'm) option) \<Rightarrow> (uintptr \<Rightarrow> 'm \<Rightarrow> 'm option) \<Rightarrow>
    ('m \<Rightarrow> 'm option) \<Rightarrow> nat \<Rightarrow> nat \<Rightarrow> ('m \<times> 'g search_state) evset_test" where
  "provided_test rs iacc acc reset pollution repetitions =
     repeat_test (is_eviction_set_single rs iacc acc reset pollution) repetitions"

text \<open>The state that \<open>provide_is_eviction_set\<close> starts with.\<close>

definition search_init :: "'z basic_memory_region_scheme list \<Rightarrow> nat \<Rightarrow> 'g \<Rightarrow> 'g search_state option" where
  "search_init regions offset_bits g = do {
     d \<leftarrow> uad_of_memory regions offset_bits;
     Some \<lparr>ss_generator = g, ss_distribution = blacklisted_init d, ss_global_fails = 0\<rparr> }"

section \<open>What is in the first level\<close>

abbreviation in_first :: "simulated_memory \<Rightarrow> uintptr \<Rightarrow> bool" where
  "in_first m a \<equiv> cached (sm_caches m ! 0) a"

lemma lru_access:
  assumes m: "lru_memory pl n m"
  shows "\<exists>l m'. do_access a 0 m = Some (l, m') \<and> lru_memory pl n m' \<and> (l = 0 \<longleftrightarrow> in_first m a) \<and>
    (\<forall>b. in_first m' b \<longrightarrow> b = a \<or> in_first m b)"
proof -
  from lru_memory_step [OF m recent_at_none [OF m], of a a] obtain l m' where
    s: "do_access a 0 m = Some (l, m')" "lru_memory pl n m'" "l = 0 \<longleftrightarrow> Some a \<in> set (fst (set_view (pl a) m))" by auto
  let ?c = "sm_caches m ! 0" and ?c' = "sm_caches m' ! 0"
  have c: "sm_wf m" "sm_caches m \<noteq> []" "cache_place ?c = pl" "cache_place ?c' = pl" "cache_wf ?c"
    using m s(2) by (auto simp: lru_memory_def first_level_def sm_wf_def)
  from access_first_level [OF c(1,2), of a] s(1) obtain ts r where
    st: "ref_step any_hit any_miss a (cache_set ?c (pl a)) (cache_policies ?c ! pl a) = Some (l = 0, ts, r)"
    "set_changed ?c (pl a) ts r ?c'" unfolding c(3) by auto
  have ts: "set ts \<subseteq> insert (Some a) (set (cache_set ?c (pl a)))"
    using st(1) set_update_subset_insert [of "cache_set ?c (pl a)" _ "Some a"]
    by (auto simp: ref_step_def Let_def bind_eq_Some_conv split: if_splits)
  have "b = a \<or> in_first m b" if "in_first m' b" for b
    using that ts st(2) c(3,4) cache_wf_place [OF c(5), of b]
    by (cases "pl b = pl a") (auto simp: cached_def set_changed_def)
  then show ?thesis using s c(3) by (auto simp: set_view_def cached_def)
qed

section \<open>The safe test\<close>

text \<open>The safe test does what the unsafe one does, if it does not give up.\<close>

lemma access_all_miss_access:
  "access_all_miss sm_instrumented_access xs m = Some (True, m') \<Longrightarrow> access_all sm_access xs m = Some m'"
  by (induction xs arbitrary: m) (auto simp: sm_access_def sm_instrumented_access_def bind_eq_Some_conv split: if_splits)

lemma safe_unsafe:
  "safe_is_eviction_set sm_instrumented_access target xs m = Some (Some b, m') \<Longrightarrow>
     unsafe_is_eviction_set sm_instrumented_access sm_access target xs m = Some (b, m')"
  by (auto simp: safe_is_eviction_set_def unsafe_is_eviction_set_def sm_access_def sm_instrumented_access_def bind_eq_Some_conv
      split: if_splits dest!: access_all_miss_access)

lemma access_all_miss_total:
  "lru_memory pl n m \<Longrightarrow> \<exists>b m'. access_all_miss sm_instrumented_access xs m = Some (b, m') \<and> lru_memory pl n m'"
proof (induction xs arbitrary: m)
  case (Cons x xs)
  from lru_access [OF Cons.prems, of x] obtain l m1 where
    x: "do_access x 0 m = Some (l, m1)" "lru_memory pl n m1" by blast
  from Cons.IH [OF x(2)] x show ?case by (cases "l = 0") (auto simp: sm_instrumented_access_def)
qed auto

lemma safe_test_sound:
  assumes "lru_memory pl n m" and "target \<notin> set xs"
  shows "\<exists>r m'. safe_is_eviction_set sm_instrumented_access target xs m = Some (r, m') \<and> lru_memory pl n m' \<and>
    (\<forall>b. r = Some b \<longrightarrow> b = (n \<le> card (congruent pl target (set xs))))"
proof -
  from lru_access [OF assms(1), of target] obtain l1 m1 where
    1: "do_access target 0 m = Some (l1, m1)" "lru_memory pl n m1" by blast
  from access_all_miss_total [OF 1(2), of xs] obtain b m2 where
    2: "access_all_miss sm_instrumented_access xs m1 = Some (b, m2)" "lru_memory pl n m2" by blast
  from lru_access [OF 2(2), of target] obtain l3 m3 where
    3: "do_access target 0 m2 = Some (l3, m3)" "lru_memory pl n m3" by blast
  have eq: "safe_is_eviction_set sm_instrumented_access target xs m =
      Some (if l1 = 0 then (None, m1) else if b then (Some (l3 > 0), m3) else (None, m2))"
    using 1(1) 2(1) 3(1) by (simp add: safe_is_eviction_set_def sm_instrumented_access_def)
  show ?thesis
  proof (cases "l1 \<noteq> 0 \<and> b")
    case True
    then have "safe_is_eviction_set sm_instrumented_access target xs m = Some (Some (l3 > 0), m3)" using eq by simp
    with safe_unsafe [OF this] lru_eviction_test [OF assms] 3(2) show ?thesis by simp
  next
    case False
    with eq 1(2) 2(2) show ?thesis by auto
  qed
qed

text \<open>Different addresses that are not cached all miss.\<close>

lemma access_all_miss_uncached:
  "lru_memory pl n m \<Longrightarrow> distinct xs \<Longrightarrow> \<forall>x \<in> set xs. \<not> in_first m x \<Longrightarrow>
     \<exists>m'. access_all_miss sm_instrumented_access xs m = Some (True, m') \<and> lru_memory pl n m'"
proof (induction xs arbitrary: m)
  case (Cons x xs)
  from lru_access [OF Cons.prems(1), of x] Cons.prems(3) obtain l m1 where
    x: "do_access x 0 m = Some (l, m1)" "lru_memory pl n m1" "l \<noteq> 0" "\<forall>b. in_first m1 b \<longrightarrow> b = x \<or> in_first m b" by auto
  have "\<forall>y \<in> set xs. \<not> in_first m1 y" using x(4) Cons.prems(2,3) by auto
  from Cons.IH [OF x(2) _ this] Cons.prems(2) x(1,3) show ?case by (simp add: sm_instrumented_access_def)
qed simp

lemma safe_test_uncached:
  assumes "lru_memory pl n m" and "target \<notin> set xs" and "distinct xs" and "\<forall>x \<in> insert target (set xs). \<not> in_first m x"
  shows "\<exists>m'. safe_is_eviction_set sm_instrumented_access target xs m =
    Some (Some (n \<le> card (congruent pl target (set xs))), m') \<and> lru_memory pl n m'"
proof -
  from lru_access [OF assms(1), of target] assms(4) obtain l1 m1 where
    1: "do_access target 0 m = Some (l1, m1)" "lru_memory pl n m1" "l1 \<noteq> 0" "\<forall>b. in_first m1 b \<longrightarrow> b = target \<or> in_first m b" by auto
  have "\<forall>x \<in> set xs. \<not> in_first m1 x" using 1(4) assms(2,4) by auto
  from access_all_miss_uncached [OF 1(2) assms(3) this] obtain m2 where
    2: "access_all_miss sm_instrumented_access xs m1 = Some (True, m2)" "lru_memory pl n m2" by blast
  from lru_access [OF 2(2), of target] obtain l3 m3 where 3: "do_access target 0 m2 = Some (l3, m3)" by blast
  have "safe_is_eviction_set sm_instrumented_access target xs m = Some (Some (l3 > 0), m3)"
    using 1 2 3 by (simp add: safe_is_eviction_set_def sm_instrumented_access_def)
  with safe_test_sound [OF assms(1,2)] show ?thesis by auto
qed

lemma access_all_miss_stops:
  "access_all_miss iacc xs m = Some (False, m') \<Longrightarrow> access_all_miss iacc (xs @ ys) m = Some (False, m')"
proof (induction xs arbitrary: m)
  case (Cons x xs)
  then show ?case by (cases "iacc x m") (auto split: if_splits)
qed simp

text \<open>A target among the addresses makes the safe test give up, unless the addresses before it evict it.\<close>

lemma access_all_miss_append:
  "access_all_miss iacc xs m = Some (True, m') \<Longrightarrow> access_all_miss iacc (xs @ ys) m = access_all_miss iacc ys m'"
  by (induction xs arbitrary: m) (auto simp: bind_eq_Some_conv split: if_splits)

lemma safe_test_member:
  assumes m: "lru_memory pl n m" and d: "target \<notin> set pre" and n: "card (congruent pl target (set pre)) < n"
  shows "\<exists>m'. safe_is_eviction_set sm_instrumented_access target (pre @ target # suf) m = Some (None, m') \<and> lru_memory pl n m'"
proof -
  from lru_eviction_test [OF m, of target pre] d n obtain m3 where
    "unsafe_is_eviction_set sm_instrumented_access sm_access target pre m = Some (False, m3)" "lru_memory pl n m3" by auto
  then obtain l1 m1 m2 where u: "do_access target 0 m = Some (l1, m1)" "access_all sm_access pre m1 = Some m2"
    "do_access target 0 m2 = Some (0, m3)" "lru_memory pl n m3"
    by (auto simp: unsafe_is_eviction_set_def sm_access_def sm_instrumented_access_def bind_eq_Some_conv)
  from lru_access [OF m, of target] u(1) have 1: "lru_memory pl n m1" by auto
  from access_all_miss_total [OF 1, of pre] obtain b m2' where
    p: "access_all_miss sm_instrumented_access pre m1 = Some (b, m2')" "lru_memory pl n m2'" by blast
  obtain m4 where m4: "access_all_miss sm_instrumented_access (pre @ target # suf) m1 = Some (False, m4)" "lru_memory pl n m4"
  proof (cases b)
    case True
    with p access_all_miss_access u(2) have "m2' = m2" by fastforce
    with p(1) True have "access_all_miss sm_instrumented_access pre m1 = Some (True, m2)" by simp
    from access_all_miss_append [OF this] u(3,4) that show ?thesis by (simp add: sm_instrumented_access_def)
  next
    case False
    with access_all_miss_stops [of sm_instrumented_access pre m1 m2'] p that show ?thesis by simp
  qed
  have "safe_is_eviction_set sm_instrumented_access target (pre @ target # suf) m = Some (None, if l1 = 0 then m1 else m4)"
    using u(1) m4(1) by (simp add: safe_is_eviction_set_def sm_instrumented_access_def)
  with 1 m4(2) show ?thesis by simp
qed

section \<open>Pollution and reset\<close>

lemma uad_draw_same: "uad_draw rs d g = Some (a, d', g') \<Longrightarrow> d' = d"
  by (auto simp: uad_draw_def bind_eq_Some_conv case_prod_beta Let_def)

lemma blacklisted_draw_same:
  assumes "blacklisted_draw (uad_draw rs) b g = Some (a, b', g')"
  shows "b' = b"
proof -
  have step: "fst s' = fst s" if "(case s of (b, g) \<Rightarrow> do { (address, d, g') \<leftarrow> uad_draw rs (bl_distribution b) g;
      Some (if address \<in> bl_blacklist b then None else Some address, b\<lparr>bl_distribution := d\<rparr>, g') }) = Some (r, s')" for s r s'
    using that uad_draw_same by (cases s) (fastforce simp: bind_eq_Some_conv)
  have "(\<lambda>(a :: uintptr) s. fst s = b) a (b', g')"
    using assms unfolding blacklisted_draw_def curry_def
    by (rule retry_invariant [where I = "\<lambda>s. fst s = b"]) (simp, (drule step, simp)+)
  then show ?thesis by simp
qed

text \<open>Pollution brings no blacklisted address into the first level.\<close>

lemma pollution_ok:
  assumes "cache_pollution rs sm_access pollution X m s = Some (m', s')" and "lru_memory pl n m"
  shows "lru_memory pl n m' \<and> (\<forall>a \<in> X. in_first m' a \<longrightarrow> in_first m a) \<and> ss_distribution s' = ss_distribution s"
proof -
  let ?I = "\<lambda>(i :: nat, m1, s1). lru_memory pl n m1 \<and> (\<forall>a \<in> X. in_first m1 a \<longrightarrow> in_first m a) \<and> ss_distribution s1 = ss_distribution s"
  from assms(1) obtain v i where r: "retry (pollution_step rs sm_access pollution X) (0, m, s) = Some (v, i, m', s')"
    by (auto simp: cache_pollution_def bind_eq_Some_conv)
  have step: "?I st'" if st: "pollution_step rs sm_access pollution X st = Some (r, st')" and I: "?I st" for st r st'
  proof -
    obtain i m1 s1 where s1: "st = (i, m1, s1)" by (cases st)
    show ?thesis
    proof (cases "i < pollution")
      case False
      with st I s1 show ?thesis by (auto simp: pollution_step_def)
    next
      case True
      with st s1 obtain a b g where a: "blacklisted_draw (uad_draw rs) (ss_distribution s1) (ss_generator s1) = Some (a, b, g)"
        by (auto simp: pollution_step_def bind_eq_Some_conv)
      from lru_access [of pl n m1 a] I s1 obtain l m2 where
        m2: "do_access a 0 m1 = Some (l, m2)" "lru_memory pl n m2" "\<forall>b. in_first m2 b \<longrightarrow> b = a \<or> in_first m1 b" by auto
      show ?thesis using st I s1 True a blacklisted_draw_same [OF a] m2
        by (cases "a \<in> X") (auto simp: pollution_step_def sm_access_def)
    qed
  qed
  have "(\<lambda>(_ :: unit) st. ?I st) v (i, m', s')"
    using r by (rule retry_invariant [where I = ?I]) (use assms(2) step in \<open>simp, blast, blast\<close>)
  then show ?thesis by simp
qed

text \<open>The addresses that pollution accesses do not depend on the memory: they can be recorded.\<close>

abbreviation record_access :: "uintptr \<Rightarrow> uintptr list \<Rightarrow> uintptr list option" where
  "record_access a as \<equiv> Some (as @ [a])"

lemma access_all_snoc: "access_all acc (xs @ [a]) m = do { m' \<leftarrow> access_all acc xs m; acc a m' }"
  by (induction xs arbitrary: m) (auto split: bind_splits)

lemma pollution_step_recorded:
  assumes "pollution_step rs record_access pollution X (i, as, s) = Some (r, i', as', s')"
    and "access_all sm_access as m0 = Some m" and "lru_memory pl n m" and "X \<inter> set as = {}"
  shows "\<exists>m'. pollution_step rs sm_access pollution X (i, m, s) = Some (r, i', m', s') \<and> access_all sm_access as' m0 = Some m' \<and>
    lru_memory pl n m' \<and> X \<inter> set as' = {}"
proof (cases "i < pollution")
  case False
  with assms show ?thesis by (auto simp: pollution_step_def)
next
  case True
  with assms(1) obtain a b g where a: "blacklisted_draw (uad_draw rs) (ss_distribution s) (ss_generator s) = Some (a, b, g)"
    by (auto simp: pollution_step_def bind_eq_Some_conv)
  from lru_access [OF assms(3), of a] obtain m' where "sm_access a m = Some m'" "lru_memory pl n m'" by (auto simp: sm_access_def)
  with assms True a show ?thesis
    by (cases "a \<in> X") (auto simp: pollution_step_def access_all_snoc)
qed

lemma pollution_recorded:
  assumes "cache_pollution rs record_access pollution X [] s = Some (as, s')" and "lru_memory pl n m"
  shows "\<exists>m'. cache_pollution rs sm_access pollution X m s = Some (m', s') \<and> access_all sm_access as m = Some m' \<and> X \<inter> set as = {}"
proof -
  have run: "attempts (pollution_step rs record_access pollution X) k (i, as0, s0) = Some (r, i', as, s') \<Longrightarrow>
      access_all sm_access as0 m = Some m0 \<Longrightarrow> lru_memory pl n m0 \<Longrightarrow> X \<inter> set as0 = {} \<Longrightarrow>
      \<exists>m'. attempts (pollution_step rs sm_access pollution X) k (i, m0, s0) = Some (r, i', m', s') \<and>
        access_all sm_access as m = Some m' \<and> X \<inter> set as = {}" for k i as0 s0 r i' m0
  proof (induction k arbitrary: i as0 s0 m0)
    case (Suc k)
    then obtain r1 i1 as1 s1 where 1: "pollution_step rs record_access pollution X (i, as0, s0) = Some (r1, i1, as1, s1)"
      "(case r1 of None \<Rightarrow> attempts (pollution_step rs record_access pollution X) k (i1, as1, s1) | Some v \<Rightarrow> Some (Some v, i1, as1, s1)) =
         Some (r, i', as, s')" by (auto simp: bind_eq_Some_conv)
    from pollution_step_recorded [OF 1(1) Suc.prems(2-4)] obtain m1 where
      m1: "pollution_step rs sm_access pollution X (i, m0, s0) = Some (r1, i1, m1, s1)" "access_all sm_access as1 m = Some m1"
        "lru_memory pl n m1" "X \<inter> set as1 = {}" by blast
    with 1(2) Suc.IH [OF _ m1(2-4)] show ?case by (cases r1) auto
  qed simp
  from assms(1) obtain v i where "retry (pollution_step rs record_access pollution X) (0, [], s) = Some (v, i, as, s')"
    by (auto simp: cache_pollution_def bind_eq_Some_conv)
  then obtain k where "attempts (pollution_step rs record_access pollution X) k (0, [], s) = Some (Some v, i, as, s')"
    by (auto simp: retry_iff)
  from run [OF this, of m] assms(2) obtain m' where
    m': "attempts (pollution_step rs sm_access pollution X) k (0, m, s) = Some (Some v, i, m', s')"
      "access_all sm_access as m = Some m'" "X \<inter> set as = {}" by auto
  then show ?thesis by (auto simp: cache_pollution_def attempts_retry [OF m'(1)])
qed

text \<open>Accesses to as many other lines of the set of an address as there are ways evict it.\<close>

lemma push_all_distinct:
  assumes "0 < n"
  shows "\<exists>S. distinct S \<and> set S = set as \<and> push_all n as [] = take n S"
proof (induction as rule: rev_induct)
  case (snoc a as)
  then obtain S where S: "distinct S" "set S = set as" "push_all n as [] = take n S" by auto
  then have "push_all n (as @ [a]) [] = take n (a # removeAll a S)" using lru_push_take [OF assms S(1), of a] by simp
  moreover have "distinct (a # removeAll a S)" "set (a # removeAll a S) = set (as @ [a])" using S(1,2) by (auto simp: distinct_removeAll)
  ultimately show ?case by blast
qed simp

lemma accesses_evict:
  assumes m: "lru_memory pl n m" and acc: "access_all sm_access as m = Some m'"
    and a: "a \<notin> set as" "n \<le> card (congruent pl a (set as))"
  shows "\<not> in_first m' a"
proof -
  let ?as = "filter (\<lambda>x. pl x = pl a) as"
  from access_all_recent [OF m recent_at_none [OF m], of as a] acc have
    r: "recent_at n (pl a) (push_all n ?as []) m'" and m': "lru_memory pl n m'" by auto
  from push_all_distinct [OF lru_memory_ways_pos [OF m], of ?as] obtain S where
    S: "distinct S" "set S = set ?as" "push_all n ?as [] = take n S" by blast
  have "congruent pl a (set as) = set S" using S(2) by (auto simp: congruent_def)
  then have "n \<le> length S" using a(2) distinct_card [OF S(1)] by simp
  then have "length (push_all n ?as []) = n" using S(3) by simp
  moreover have "a \<notin> set (push_all n ?as [])" using S(2,3) a(1) by (auto dest: in_set_takeD)
  ultimately have "Some a \<notin> set (fst (set_view (pl a) m'))" using r recent_mem(2) by (fastforce simp: recent_at_def)
  moreover have "cache_place (sm_caches m' ! 0) = pl" using m' by (simp add: lru_memory_def first_level_def)
  ultimately show ?thesis by (simp add: cached_def set_view_def)
qed

section \<open>The test in one pass\<close>

text \<open>
  What the memory offers for \<open>reset\<close> may do anything that keeps the LRU first level; on a simulated memory it is \<open>Some\<close>.
\<close>

definition keeps_lru :: "(uintptr \<Rightarrow> nat) \<Rightarrow> nat \<Rightarrow> (simulated_memory \<Rightarrow> simulated_memory option) \<Rightarrow> bool" where
  "keeps_lru pl n f \<longleftrightarrow> (\<forall>m m'. lru_memory pl n m \<longrightarrow> f m = Some m' \<longrightarrow> lru_memory pl n m')"

definition total_lru :: "(uintptr \<Rightarrow> nat) \<Rightarrow> nat \<Rightarrow> (simulated_memory \<Rightarrow> simulated_memory option) \<Rightarrow> bool" where
  "total_lru pl n f \<longleftrightarrow> (\<forall>m. lru_memory pl n m \<longrightarrow> (\<exists>m'. f m = Some m' \<and> lru_memory pl n m'))"

lemma total_lru_keeps: "total_lru pl n f \<Longrightarrow> keeps_lru pl n f"
  by (fastforce simp: total_lru_def keeps_lru_def)

lemma total_lru_Some [simp]: "total_lru pl n Some"
  by (simp add: total_lru_def)

text \<open>
  The condition on the draws: from every state of the generator, \<open>pollution\<close> draws from the distribution \<open>d\<close> of the test that fall outside \<open>X\<close> reach
  \<open>n\<close> different lines of the set of every address in \<open>X\<close>.
\<close>

definition evicting_draws :: "(uintptr \<Rightarrow> nat) \<Rightarrow> nat \<Rightarrow> 'g random_source \<Rightarrow> nat \<Rightarrow> uintptr set \<Rightarrow>
    uniform_address_distribution blacklisted_address_distribution \<Rightarrow> bool" where
  "evicting_draws pl n rs pollution X d \<longleftrightarrow>
     (\<forall>s. ss_distribution s = d \<longrightarrow> (\<exists>as s'. cache_pollution rs record_access pollution X [] s = Some (as, s') \<and>
        (\<forall>a \<in> X. n \<le> card (congruent pl a (set as)))))"

abbreviation lru_single :: "'g random_source \<Rightarrow> (simulated_memory \<Rightarrow> simulated_memory option) \<Rightarrow> nat \<Rightarrow>
    (simulated_memory \<times> 'g search_state) evset_test" where
  "lru_single rs \<equiv> is_eviction_set_single rs sm_instrumented_access sm_access"

lemma single_exact:
  assumes m: "lru_memory pl n m" and reset: "total_lru pl n reset" and xs: "target \<notin> set xs" "distinct xs"
    and draws: "evicting_draws pl n rs pollution (insert target (set xs)) (ss_distribution s)"
  shows "\<exists>m' s'. lru_single rs reset pollution target xs (m, s) = Some (n \<le> card (congruent pl target (set xs)), m', s') \<and>
    lru_memory pl n m' \<and> ss_distribution s' = ss_distribution s"
proof -
  let ?X = "insert target (set xs)"
  from reset m obtain m1 where m1: "reset m = Some m1" "lru_memory pl n m1" by (auto simp: total_lru_def)
  from draws obtain as s2 where as: "cache_pollution rs record_access pollution ?X [] s = Some (as, s2)"
    "\<forall>a \<in> ?X. n \<le> card (congruent pl a (set as))" by (auto simp: evicting_draws_def)
  from pollution_recorded [OF as(1) m1(2)] obtain m2 where
    p: "cache_pollution rs sm_access pollution ?X m1 s = Some (m2, s2)" and acc: "access_all sm_access as m1 = Some m2" and X: "?X \<inter> set as = {}" by blast
  note ok = pollution_ok [OF p m1(2)]
  have "\<forall>x \<in> ?X. \<not> in_first m2 x" using accesses_evict [OF m1(2) acc] X as(2) by blast
  from safe_test_uncached [OF conjunct1 [OF ok] xs this] obtain m3 where
    t: "safe_is_eviction_set sm_instrumented_access target xs m2 = Some (Some (n \<le> card (congruent pl target (set xs))), m3)"
      "lru_memory pl n m3" by auto
  have "single_step rs sm_instrumented_access sm_access reset pollution target xs (0, m, s) =
      Some (Some (n \<le> card (congruent pl target (set xs))), 0, m3, s2)"
    using m1(1) p t(1) by (simp add: single_step_def Let_def)
  then show ?thesis using t(2) ok by (simp add: is_eviction_set_single_def)
qed

lemma repeat_test_exact:
  assumes "\<And>w. I w \<Longrightarrow> \<exists>w'. single target xs w = Some (b, w') \<and> I w'" and "0 < k" and "I w"
  shows "\<exists>w'. repeat_test single k target xs w = Some (b, w') \<and> I w'"
  using assms(2,3)
proof (induction k arbitrary: w)
  case (Suc k)
  from assms(1) [OF Suc.prems(2)] obtain w' where "single target xs w = Some (b, w')" "I w'" by blast
  with Suc.IH [of w'] show ?case by (cases "k = 0"; cases b) auto
qed simp

text \<open>
  The test never ends when the target is one of the given addresses and fewer addresses of its set than there are ways
  come before it, whatever reset and pollution do: every pass then hits one of the addresses, \<open>safe_is_eviction_set\<close> gives up, and the loop starts again.
\<close>

lemma provided_test_never_ends:
  assumes "lru_memory pl n m" and "keeps_lru pl n reset" and "target \<notin> set pre" and "0 < repetitions"
    and "card {x \<in> set pre. pl x = pl target} < n"
  shows "provided_test rs sm_instrumented_access sm_access reset pollution repetitions target (pre @ target # suf) (m, s) = None"
proof -
  let ?xs = "pre @ target # suf"
  let ?step = "single_step rs sm_instrumented_access sm_access reset pollution target ?xs"
  let ?I = "\<lambda>(k :: nat, m, s :: 'a search_state). lru_memory pl n m"
  have step: "r = None \<and> ?I st'" if st: "?step st = Some (r, st')" and I: "?I st" for st r st'
  proof -
    obtain k m1 s1 where s1: "st = (k, m1, s1)" by (cases st)
    with st obtain m2 m3 s3 where m2: "reset m1 = Some m2" and p: "cache_pollution rs sm_access pollution (insert target (set ?xs)) m2 s1 = Some (m3, s3)"
      by (auto simp: single_step_def Let_def bind_eq_Some_conv)
    from assms(2) I s1 m2 have "lru_memory pl n m2" by (auto simp: keeps_lru_def)
    with pollution_ok [OF p] have "lru_memory pl n m3" by auto
    from safe_test_member [OF this assms(3)] assms(5) obtain m4 where
      "safe_is_eviction_set sm_instrumented_access target ?xs m3 = Some (None, m4)" "lru_memory pl n m4" by (auto simp: congruent_def)
    with st s1 m2 p show ?thesis by (auto simp: single_step_def Let_def)
  qed
  have "retry ?step (0, m, s) = None"
  proof (rule ccontr)
    assume "retry ?step (0, m, s) \<noteq> None"
    then obtain v st where "retry ?step (0, m, s) = Some (v, st)" by auto
    then show False by (rule retry_invariant [where I = ?I and Q = "\<lambda>_ _. False"]) (use assms(1) step in fastforce)+
  qed
  with assms(4) show ?thesis by (cases repetitions) (simp_all add: provided_test_def is_eviction_set_single_def)
qed

text \<open>The test keeps the first level LRU, also for a target that is one of the addresses.\<close>

lemma safe_test_keeps:
  assumes "safe_is_eviction_set sm_instrumented_access target xs m = Some (r, m')" and "lru_memory pl n m"
  shows "lru_memory pl n m'"
proof -
  from lru_access [OF assms(2), of target] obtain l1 m1 where
    1: "do_access target 0 m = Some (l1, m1)" "lru_memory pl n m1" by blast
  from access_all_miss_total [OF 1(2), of xs] obtain b m2 where
    2: "access_all_miss sm_instrumented_access xs m1 = Some (b, m2)" "lru_memory pl n m2" by blast
  from lru_access [OF 2(2), of target] obtain l3 m3 where
    3: "do_access target 0 m2 = Some (l3, m3)" "lru_memory pl n m3" by blast
  have "safe_is_eviction_set sm_instrumented_access target xs m =
      Some (if l1 = 0 then (None, m1) else if b then (Some (l3 > 0), m3) else (None, m2))"
    using 1(1) 2(1) 3(1) by (simp add: safe_is_eviction_set_def sm_instrumented_access_def)
  with assms(1) 1(2) 2(2) 3(2) show ?thesis by (auto split: if_splits)
qed

lemma single_keeps:
  assumes "lru_single rs reset pollution target xs (m, s) = Some (b, m', s')" and "lru_memory pl n m" and "keeps_lru pl n reset"
  shows "lru_memory pl n m'"
proof -
  let ?step = "single_step rs sm_instrumented_access sm_access reset pollution target xs"
  let ?I = "\<lambda>(k :: nat, m, s :: 'a search_state). lru_memory pl n m"
  have step: "?I st'" if st: "?step st = Some (r, st')" and I: "?I st" for st r st'
  proof -
    obtain k m1 s1 where s1: "st = (k, m1, s1)" by (cases st)
    with st obtain m2 m3 s3 r' m4 where m2: "reset m1 = Some m2"
      and p: "cache_pollution rs sm_access pollution (insert target (set xs)) m2 s1 = Some (m3, s3)"
      and t: "safe_is_eviction_set sm_instrumented_access target xs m3 = Some (r', m4)"
      by (auto simp: single_step_def Let_def bind_eq_Some_conv)
    from assms(3) I s1 m2 have "lru_memory pl n m2" by (auto simp: keeps_lru_def)
    with pollution_ok [OF p] have "lru_memory pl n m3" by auto
    with safe_test_keeps [OF t] have "lru_memory pl n m4" .
    with st s1 m2 p t show ?thesis by (cases r') (auto simp: single_step_def Let_def)
  qed
  from assms(1) obtain k where r: "retry ?step (0, m, s) = Some (b, k, m', s')"
    by (auto simp: is_eviction_set_single_def bind_eq_Some_conv)
  have "(\<lambda>b st. ?I st) b (k, m', s')"
    using r by (rule retry_invariant [where I = ?I]) (use assms(2) step in \<open>simp, blast, blast\<close>)
  then show ?thesis by simp
qed

lemma provided_test_keeps:
  assumes "keeps_lru pl n reset"
  shows "provided_test rs sm_instrumented_access sm_access reset pollution repetitions target xs w = Some (b, w') \<Longrightarrow>
    lru_memory pl n (fst w) \<Longrightarrow> lru_memory pl n (fst w')"
  unfolding provided_test_def
proof (induction repetitions arbitrary: w)
  case (Suc k)
  then obtain q m1 s1 where
    1: "lru_single rs reset pollution target xs (fst w, snd w) = Some (q, m1, s1)"
      "(if q then repeat_test (lru_single rs reset pollution) k target xs (m1, s1) else Some (False, m1, s1)) = Some (b, w')"
    by (auto simp: bind_eq_Some_conv)
  have "lru_memory pl n m1" using single_keeps [OF 1(1) Suc.prems(2) assms] .
  with Suc.IH [of "(m1, s1)"] 1(2) show ?case by (auto split: if_splits)
qed simp

section \<open>Draws that count\<close>

text \<open>
  An instance of the condition: a source that goes through the lines of a memory one after the other. The default of 10000 polluting accesses then
  reaches every line outside the tested set.
\<close>

definition sixty_four_lines :: "basic_memory_region list" where
  "sixty_four_lines = [\<lparr>region_base = 0x1000, region_size = 0x1000\<rparr>]"

definition line_of :: "nat \<Rightarrow> uintptr" where
  "line_of g = push_bit 6 (0x40 + of_nat (g mod 64))"

definition all_lines :: "uniform_address_distribution" where
  "all_lines = \<lparr>uad_alignment = 6, uad_offset = 0, uad_regions = [0x1000], uad_addresses = [(0x40, 0x7F)]\<rparr>"

lemma sixty_four_lines_uad: "uad_of_memory sixty_four_lines 6 = Some all_lines"
  by (simp add: uad_of_memory_def uad_init_def derive_distributions_def sixty_four_lines_def all_lines_def)

lemma all_lines_draw: "uad_draw counting_source all_lines g = Some (line_of g, all_lines, Suc g)"
  by (simp add: uad_draw_def counting_source_def all_lines_def line_of_def)

abbreviation drawn :: "uintptr set \<Rightarrow> nat \<Rightarrow> nat \<Rightarrow> uintptr list" where
  "drawn X g j \<equiv> filter (\<lambda>a. a \<notin> X) (map line_of [g..<g + j])"

lemma attempts_snoc:
  "attempts step j s = Some (None, s1) \<Longrightarrow> step s1 = Some (None, s2) \<Longrightarrow> attempts step (Suc j) s = Some (None, s2)"
  using attempts_add [of step j s s1 "Suc 0"] by simp

lemma counting_pollution:
  assumes "\<And>i. i < j \<Longrightarrow> length (drawn X g i) < pollution"
    and "ss_distribution s = blacklisted_init all_lines" and "ss_generator s = g"
  shows "attempts (pollution_step counting_source record_access pollution X) j (0, [], s) =
    Some (None, length (drawn X g j), drawn X g j, s\<lparr>ss_generator := g + j\<rparr>)"
  using assms(1)
proof (induction j)
  case 0
  then show ?case using assms(2,3) by (cases s) simp
next
  case (Suc j)
  have "pollution_step counting_source record_access pollution X (length (drawn X g j), drawn X g j, s\<lparr>ss_generator := g + j\<rparr>) =
      Some (None, length (drawn X g (Suc j)), drawn X g (Suc j), s\<lparr>ss_generator := g + Suc j\<rparr>)"
    using Suc.prems [of j] assms(2)
    by (simp add: pollution_step_def blacklisted_draw_def blacklisted_init_def all_lines_draw)
  moreover have "attempts (pollution_step counting_source record_access pollution X) j (0, [], s) =
      Some (None, length (drawn X g j), drawn X g j, s\<lparr>ss_generator := g + j\<rparr>)" using Suc by simp
  ultimately show ?case by (rule attempts_snoc [rotated])
qed

lemma below_64: "r < 64 \<Longrightarrow> unat (0x40 + of_nat r :: uintptr) = 0x40 + r"
  by (simp add: unat_word_ariths unat_of_nat)

lemma line_of_inj: "inj_on line_of {..<64}"
proof (rule inj_onI)
  fix r t assume rt: "r \<in> {..<64}" "t \<in> {..<64}" "line_of r = line_of t"
  have d: "drop_bit 6 (line_of q) = 0x40 + of_nat q" if "q < 64" for q
  proof -
    have "unat (0x40 + of_nat q :: uintptr) < 2 ^ 58" using below_64 [OF that] that by simp
    then have "take_bit 58 (0x40 + of_nat q) = (0x40 + of_nat q :: uintptr)"
      by (intro word_unat_eq_iff [THEN iffD2]) (simp add: unat_take_bit_mod)
    moreover have "drop_bit 6 (push_bit 6 w) = take_bit 58 w" for w :: uintptr
      by (rule bit_word_eqI) (auto simp: bit_simps)
    ultimately show ?thesis using that by (simp add: line_of_def)
  qed
  from rt d [of r] d [of t] have "(0x40 + of_nat r :: uintptr) = 0x40 + of_nat t" by simp
  with below_64 [of r] below_64 [of t] rt(1,2) show "r = t" by (metis add_left_cancel lessThan_iff)
qed

lemma line_of_set: "modular_set 6 2 (line_of r) = r mod 4"
proof -
  have "unat (0x40 + of_nat (r mod 64) :: uintptr) = 0x40 + r mod 64" by (rule below_64) simp
  moreover have "unat (take_bit 2 (drop_bit 6 (line_of r))) = unat (take_bit 2 (0x40 + of_nat (r mod 64) :: uintptr))"
    unfolding line_of_def by (rule arg_cong [where f = unat], rule bit_word_eqI) (auto simp: bit_simps)
  ultimately show ?thesis unfolding unat_take_bit_mod by (simp add: mod_add_left_eq [symmetric] mod_mod_cancel)
qed

lemma line_of_mod: "line_of (r mod 64) = line_of r"
  by (simp add: line_of_def)

lemma set_line_of: "64 \<le> j \<Longrightarrow> set (map line_of [g..<g + j]) = line_of ` {..<64}"
proof
  assume j: "64 \<le> j"
  show "set (map line_of [g..<g + j]) \<subseteq> line_of ` {..<64}"
  proof
    fix a assume "a \<in> set (map line_of [g..<g + j])"
    then obtain i where "a = line_of i" by auto
    then have "a = line_of (i mod 64)" by (simp add: line_of_mod)
    then show "a \<in> line_of ` {..<64}" by simp
  qed
  show "line_of ` {..<64} \<subseteq> set (map line_of [g..<g + j])"
  proof
    fix a assume "a \<in> line_of ` {..<64}"
    then obtain i where i: "i < 64" "a = line_of i" by auto
    define d where "d = (64 - g mod 64 + i) mod 64"
    have "(g + d) mod 64 = (g mod 64 + (64 - g mod 64 + i)) mod 64" unfolding d_def by (simp only: mod_add_left_eq mod_add_right_eq)
    also have "g mod 64 + (64 - g mod 64 + i) = 64 + i" using mod_less_divisor [of 64 g] by linarith
    also have "(64 + i) mod 64 = i" using i(1) by simp
    finally have "a = line_of (g + d)" using i(2) by (metis line_of_mod)
    moreover have "d < 64" unfolding d_def by simp
    then have "g + d \<in> {g..<g + j}" using j by simp
    ultimately show "a \<in> set (map line_of [g..<g + j])" by simp
  qed
qed

text \<open>Every 64 draws bring a line outside of a smaller set.\<close>

lemma drawn_grows:
  assumes "finite X" and "card X < 64"
  shows "q \<le> length (drawn X g (64 * q))"
proof (induction q)
  case (Suc q)
  define B where "B = drawn X (g + 64 * q) 64"
  have "[g..<g + 64 * q + 64] = [g..<g + 64 * q] @ [g + 64 * q..<g + 64 * q + 64]" by (rule upt_add_eq_append) simp
  moreover have "g + 64 * Suc q = g + 64 * q + 64" by simp
  ultimately have eq: "drawn X g (64 * Suc q) = drawn X g (64 * q) @ B" unfolding B_def by (simp only: map_append filter_append)
  have "B \<noteq> []"
  proof
    assume "B = []"
    then have "set (map line_of [g + 64 * q..<g + 64 * q + 64]) \<subseteq> X" unfolding B_def filter_empty_conv by blast
    then have "line_of ` {..<64} \<subseteq> X" unfolding set_line_of [OF order_refl] .
    then have "card (line_of ` {..<64}) \<le> card X" using assms(1) by (rule card_mono [rotated])
    with assms(2) card_image [OF line_of_inj] show False by simp
  qed
  then have "1 \<le> length B" by (cases B) simp_all
  with Suc show ?case unfolding eq length_append by linarith
qed simp

lemma counting_evicting:
  assumes "finite X" and "card X < 16" and "64 \<le> pollution"
  shows "evicting_draws (modular_set 6 2) 1 counting_source pollution X (blacklisted_init all_lines)"
  unfolding evicting_draws_def
proof (intro allI impI)
  fix s :: "nat search_state" assume s: "ss_distribution s = blacklisted_init all_lines"
  let ?g = "ss_generator s"
  let ?f = "\<lambda>j. length (drawn X ?g j)"
  define J where "J = (LEAST j. pollution \<le> ?f j)"
  have "pollution \<le> ?f (64 * pollution)" using assms(1,2) by (intro drawn_grows) simp_all
  then have J: "pollution \<le> ?f J" unfolding J_def by (rule LeastI)
  have less: "?f i < pollution" if "i < J" for i using not_less_Least [of i "\<lambda>j. pollution \<le> ?f j"] that by (simp add: J_def)
  have "?f J \<le> J" by (metis diff_add_inverse length_filter_le length_map length_upt)
  with J assms(3) have j: "64 \<le> J" by simp
  then obtain i where i: "J = Suc i" by (cases J) auto
  have "?f J \<le> Suc (?f i)" unfolding i by simp
  with less [of i] i J have fJ: "?f J = pollution" by simp
  have "attempts (pollution_step counting_source record_access pollution X) J (0, [], s) =
      Some (None, pollution, drawn X ?g J, s\<lparr>ss_generator := ?g + J\<rparr>)"
    using counting_pollution [OF less s refl] fJ by simp
  then have "retry (pollution_step counting_source record_access pollution X) (0, [], s) =
      retry (pollution_step counting_source record_access pollution X) (pollution, drawn X ?g J, s\<lparr>ss_generator := ?g + J\<rparr>)"
    by (rule attempts_skip)
  then have run: "cache_pollution counting_source record_access pollution X [] s = Some (drawn X ?g J, s\<lparr>ss_generator := ?g + J\<rparr>)"
    by (simp add: cache_pollution_def pollution_step_def)
  have "1 \<le> card (congruent (modular_set 6 2) a (set (drawn X ?g J)))" if "a \<in> X" for a
  proof -
    let ?t = "modular_set 6 2 a"
    let ?L = "line_of ` (\<lambda>i. ?t + 4 * i) ` {..<16}"
    have t: "?t < 4" by simp
    have "(\<lambda>i. ?t + 4 * i) ` {..<16} \<subseteq> {..<64}" using t by auto
    from card_image [OF inj_on_subset [OF line_of_inj this]] have "card ?L = card ((\<lambda>i. ?t + 4 * i) ` {..<16 :: nat})" .
    also have "\<dots> = 16" by (subst card_image) (auto intro: inj_onI)
    finally have "\<not> ?L \<subseteq> X" using card_mono [OF assms(1), of ?L] assms(2) by auto
    then obtain i where i: "i < 16" "line_of (?t + 4 * i) \<notin> X" by auto
    have "line_of (?t + 4 * i) \<in> line_of ` {..<64}" using i(1) t by auto
    then have "line_of (?t + 4 * i) \<in> set (drawn X ?g J)" using i(2) set_line_of [OF j, of ?g] by auto
    moreover have "modular_set 6 2 (line_of (?t + 4 * i)) = ?t" by (rule trans [OF line_of_set]) simp
    ultimately have "congruent (modular_set 6 2) a (set (drawn X ?g J)) \<noteq> {}" by (auto simp: congruent_def)
    then have "0 < card (congruent (modular_set 6 2) a (set (drawn X ?g J)))"
      by (simp only: card_gt_0_iff) (simp add: congruent_def)
    then show ?thesis by simp
  qed
  with run show "\<exists>as s'. cache_pollution counting_source record_access pollution X [] s = Some (as, s') \<and>
      (\<forall>a \<in> X. 1 \<le> card (congruent (modular_set 6 2) a (set as)))" by blast
qed

section \<open>Properties\<close>



end
