(* ===== verification/CH_Completion.thy ===== *)
theory CH_Completion
  imports CH_Evset_Test
begin

text \<open>
  The test for an eviction set may never return. Facts about a test that is right whenever it returns (\<open>sound_test\<close>) come
  from facts about its completion, which answers rightly where the test does not return: all algorithms
  are monotone in the test, so what they return with the test they also return with its completion, and the
  completion satisfies the interface \<open>exact_test\<close>.
\<close>

section \<open>Monotonicity in the test\<close>

text \<open>The order on partial results, with rules for the constructs the algorithms are made of.\<close>

definition opt_le :: "'a option \<Rightarrow> 'a option \<Rightarrow> bool" where
  "opt_le x y \<longleftrightarrow> (\<forall>r. x = Some r \<longrightarrow> y = Some r)"

lemma opt_leD: "opt_le x y \<Longrightarrow> x = Some r \<Longrightarrow> y = Some r"
  by (simp add: opt_le_def)

named_theorems opt_mono \<open>monotonicity of partial results\<close>

lemma opt_le_refl [opt_mono]: "opt_le x x"
  by (simp add: opt_le_def)

lemma opt_le_bind [opt_mono]: "opt_le x y \<Longrightarrow> (\<And>v. opt_le (f v) (g v)) \<Longrightarrow> opt_le (x \<bind> f) (y \<bind> g)"
  by (auto simp: opt_le_def bind_eq_Some_conv)

lemma opt_le_if [opt_mono]: "(b \<Longrightarrow> opt_le x y) \<Longrightarrow> (\<not> b \<Longrightarrow> opt_le x' y') \<Longrightarrow> opt_le (if b then x else x') (if b then y else y')"
  by simp

lemma opt_le_prod [opt_mono]: "(\<And>a b. opt_le (f a b) (g a b)) \<Longrightarrow> opt_le (case p of (a, b) \<Rightarrow> f a b) (case p of (a, b) \<Rightarrow> g a b)"
  by (cases p) simp

lemma opt_le_option [opt_mono]:
  "opt_le x y \<Longrightarrow> (\<And>v. opt_le (f v) (g v)) \<Longrightarrow> opt_le (case p of None \<Rightarrow> x | Some v \<Rightarrow> f v) (case p of None \<Rightarrow> y | Some v \<Rightarrow> g v)"
  by (cases p) simp_all

lemma opt_le_sum [opt_mono]:
  "(\<And>v. opt_le (f v) (g v)) \<Longrightarrow> (\<And>v. opt_le (f' v) (g' v)) \<Longrightarrow>
     opt_le (case p of Inl v \<Rightarrow> f v | Inr v \<Rightarrow> f' v) (case p of Inl v \<Rightarrow> g v | Inr v \<Rightarrow> g' v)"
  by (cases p) simp_all

lemma opt_le_Let [opt_mono]: "(\<And>v. opt_le (f v) (g v)) \<Longrightarrow> opt_le (let v = x in f v) (let v = x in g v)"
  by simp

lemma attempts_mono:
  "(\<And>s. opt_le (step s) (step' s)) \<Longrightarrow> opt_le (attempts step k s) (attempts step' k s)"
  by (induction k arbitrary: s) (auto intro!: opt_mono)

lemma retry_mono [opt_mono]:
  assumes "\<And>s. opt_le (step s) (step' s)"
  shows "opt_le (retry step s) (retry step' s)"
  unfolding opt_le_def using opt_leD [OF attempts_mono [of step step', OF assms]] by (metis retry_iff surj_pair)

definition test_le :: "'w evset_test \<Rightarrow> 'w evset_test \<Rightarrow> bool" where
  "test_le t t' \<longleftrightarrow> (\<forall>target xs w. opt_le (t target xs w) (t' target xs w))"

lemma test_mono: "test_le t t' \<Longrightarrow> opt_le (t target xs w) (t' target xs w)"
  by (simp add: test_le_def)

lemma scan_groups_mono [opt_mono]:
  assumes "test_le t t'"
  shows "opt_le (scan_groups t target xs lst gs k b e m) (scan_groups t' target xs lst gs k b e m)"
  by (induction k arbitrary: b e m) (auto intro!: opt_mono test_mono [OF assms])

lemma find_group_mono [opt_mono]:
  "test_le t t' \<Longrightarrow> opt_le (find_group t target xs lst k g g' m) (find_group t' target xs lst k g g' m)"
  unfolding find_group_def by (intro opt_mono)

lemma reduce_loop_mono [opt_mono]:
  assumes "test_le t t'"
  shows "opt_le (reduce_loop t target mx cur lst xs m) (reduce_loop t' target mx cur lst xs m)"
proof (induction cur arbitrary: lst xs m rule: less_induct)
  case (less cur)
  have lt: "mx < cur \<Longrightarrow> cur - cur div (mx + 1) < cur" using group_size_pos [of mx cur] by simp
  show ?case
    unfolding reduce_loop.simps [of _ _ mx cur] Let_def by (intro opt_mono less.IH assms lt)
qed

lemma reduce_eviction_set_mono [opt_mono]:
  "test_le t t' \<Longrightarrow> opt_le (reduce_eviction_set t target mx xs m) (reduce_eviction_set t' target mx xs m)"
  unfolding reduce_eviction_set_def reduce_eviction_set_it_def by (intro opt_mono)

lemma group_loop_mono [opt_mono]:
  assumes "\<And>xs m. opt_le (f xs m) (f' xs m)"
  shows "opt_le (group_loop f xs i j m) (group_loop f' xs i j m)"
proof (induction "j - i" arbitrary: i j m rule: less_induct)
  case less
  have lt: "\<not> j - i \<le> 1 \<Longrightarrow> i + (j - i) div 2 - i < j - i" "\<not> j - i \<le> 1 \<Longrightarrow> j - (i + (j - i) div 2) < j - i" by linarith+
  show ?case
    unfolding group_loop.simps [of _ _ i j] Let_def by (intro opt_mono less.hyps assms lt)
qed

lemma group_test_mono [opt_mono]:
  assumes "\<And>xs m. opt_le (f xs m) (f' xs m)"
  shows "opt_le (group_test f xs m) (group_test f' xs m)"
  unfolding group_test_def by (intro opt_mono assms)

lemma locate_eviction_set_mono [opt_mono]:
  assumes "test_le t t'"
  shows "opt_le (locate_eviction_set t target evsets w) (locate_eviction_set t' target evsets w)"
  unfolding locate_eviction_set_def by (intro opt_mono test_mono [OF assms])

lemma locate_set_mono [opt_mono]:
  assumes "\<And>target ss m. opt_le (f target ss m) (f' target ss m)"
  shows "opt_le (locate_set k f target m) (locate_set k f' target m)"
  unfolding locate_set_def by (intro opt_mono assms)

lemma ess_maps_to_mono [opt_mono]:
  assumes "test_le t t'"
  shows "opt_le (ess_maps_to \<lparr>ess_evsets = evsets, ess_is_eviction_set = t\<rparr> target ss m)
     (ess_maps_to \<lparr>ess_evsets = evsets, ess_is_eviction_set = t'\<rparr> target ss m)"
  unfolding ess_maps_to_def by (auto intro!: opt_mono test_mono [OF assms])

lemma find_attempts_mono [opt_mono]:
  assumes "test_le t t'"
  shows "opt_le (find_attempts t draw reset sz target k d w) (find_attempts t' draw reset sz target k d w)"
  by (induction k arbitrary: d w) (auto intro!: opt_mono test_mono [OF assms])

lemma find_eviction_set_mono [opt_mono]:
  "test_le t t' \<Longrightarrow> opt_le (find_eviction_set t draw reset ways target d w) (find_eviction_set t' draw reset ways target d w)"
  unfolding find_eviction_set_def find_step_def by (intro opt_mono)

lemma find_default_mono [opt_mono]:
  "test_le t t' \<Longrightarrow> opt_le (find_eviction_set_default t draw regions off k ways target w)
     (find_eviction_set_default t' draw regions off k ways target w)"
  unfolding find_eviction_set_default_def by (intro opt_mono)

section \<open>Tests that are right when they return\<close>

locale sound_test =
  fixes test :: "'w evset_test"
    and invar :: "'w \<Rightarrow> bool"
    and pl :: "uintptr \<Rightarrow> nat"
    and n :: nat
  assumes sound_ways: "invar w \<Longrightarrow> 0 < n"
    and test_sound: "invar w \<Longrightarrow> distinct xs \<Longrightarrow> target \<notin> set xs \<Longrightarrow> test target xs w = Some (b, w') \<Longrightarrow>
      b = (n \<le> card (congruent pl target (set xs))) \<and> invar w'"

definition complete_test :: "'w evset_test \<Rightarrow> (uintptr \<Rightarrow> nat) \<Rightarrow> nat \<Rightarrow> 'w evset_test" where
  "complete_test test pl n target xs w =
     (case test target xs w of None \<Rightarrow> Some (n \<le> card (congruent pl target (set xs)), w) | Some r \<Rightarrow> Some r)"

lemma complete_test_le: "test_le test (complete_test test pl n)"
  by (simp add: test_le_def opt_le_def complete_test_def)

lemma distinct_part: "distinct xs \<Longrightarrow> mset ys \<subseteq># mset xs \<Longrightarrow> distinct ys"
proof -
  assume xs: "distinct xs" and le: "mset ys \<subseteq># mset xs"
  have "count (mset ys) a = (if a \<in> set ys then 1 else 0)" for a
  proof -
    have "count (mset xs) a \<le> 1" using xs by (simp add: distinct_count_atmost_1)
    with mset_subset_eq_count [OF le, of a] have "count (mset ys) a \<le> 1" by (rule order_trans)
    moreover have "1 \<le> count (mset ys) a" if "a \<in> set ys" using that by (simp add: Suc_le_eq)
    ultimately have "count (mset ys) a = 1" if "a \<in> set ys" using that by (intro le_antisym) auto
    then show ?thesis by simp
  qed
  then show "distinct ys" by (simp add: distinct_count_atmost_1)
qed

sublocale sound_test \<subseteq> complete: exact_test "complete_test test pl n" invar pl n UNIV distinct
proof
  fix w target and xs :: "uintptr list" assume "invar w" "distinct xs" "target \<notin> set xs"
  with test_sound [of w xs target] show "\<exists>w'. complete_test test pl n target xs w = Some (n \<le> card (congruent pl target (set xs)), w') \<and> invar w'"
    by (cases "test target xs w") (auto simp: complete_test_def)
qed (auto intro: sound_ways distinct_part)

end
