(* ===== verification/CH_Strategy.thy ===== *)
theory CH_Strategy
  imports CH_Completion
begin

text \<open>
  The eviction strategy based on eviction sets (\<open>provide_eviction_set_strategy\<close> in
  \<open>cli/commands/detail/impl/eviction_strategy_command_base.hpp\<close>): after a warm-up, addresses of one set after the other
  are drawn, and for each set that is not covered yet an eviction set is searched, reduced to the number of
  ways, and kept together with its target. The strategy holds the eviction sets ordered by their set.

  What the strategy finds is shown with the completed test of \<open>CH_Completion\<close>, and that it ends with a test that
  always returns; the locales \<open>collection\<close> and \<open>strategy_world\<close> hold the facts for both.
\<close>

section \<open>Definitions\<close>

text \<open>Every tenth pass switches the channel.\<close>

definition switch_when_due :: "('w \<Rightarrow> 'w option) \<Rightarrow> nat \<Rightarrow> 'w \<Rightarrow> (nat \<times> 'w) option" where
  "switch_when_due switch switch_channel_counter w =
     (let counter = switch_channel_counter + 1
      in if counter = 10 then do { w' \<leftarrow> switch w; Some (0, w') } else Some (counter, w))"

text \<open>One pass of the loop; leaving it returns the collected eviction sets.\<close>

definition collect_step :: "'w evset_test \<Rightarrow> ('d \<Rightarrow> 'w \<Rightarrow> (uintptr \<times> 'd \<times> 'w) option) \<Rightarrow> (uintptr \<Rightarrow> 'w \<Rightarrow> (uintptr list \<times> 'w) option) \<Rightarrow>
    ('w \<Rightarrow> 'w option) \<Rightarrow> nat \<Rightarrow> nat \<Rightarrow> uintptr list list \<times> uintptr set \<times> nat \<times> 'd \<times> 'w \<Rightarrow>
    (uintptr list list option \<times> uintptr list list \<times> uintptr set \<times> nat \<times> 'd \<times> 'w) option" where
  "collect_step test draw search switch sets ways = (\<lambda>(evsets, seen_addresses, switch_channel_counter, d, w).
     if length evsets < sets then do {
       (counter1, w1) \<leftarrow> switch_when_due switch switch_channel_counter w;
       (target, d1, w2) \<leftarrow> draw d w1;
       if target \<in> seen_addresses then Some (None, evsets, seen_addresses, counter1, d1, w2)
       else do {
         (it, w3) \<leftarrow> locate_eviction_set test target evsets w2;
         if it \<noteq> length evsets then
           Some (None, evsets[it := evsets ! it @ [target]], insert target seen_addresses, counter1, d1, w3)
         else do {
           (evset, w4) \<leftarrow> search target w3;
           (reduced, evset1, w5) \<leftarrow> reduce_eviction_set test target ways evset w4;
           if \<not> reduced then Some (None, evsets, seen_addresses, counter1, d1, w5)
           else Some (None, evsets @ [evset1 @ [target]], seen_addresses \<union> set (evset1 @ [target]), counter1, d1, w5) } } }
     else Some (Some evsets, evsets, seen_addresses, switch_channel_counter, d, w))"

text \<open>
  The comparison of \<open>std::sort\<close> looks at the set of the first address under modular placement; of eviction sets
  that compare equal the order is not specified.
\<close>

definition sort_evsets :: "nat \<Rightarrow> nat \<Rightarrow> uintptr list list \<Rightarrow> uintptr list list" where
  "sort_evsets offset_bits sets evsets = sort_key (\<lambda>evset. unat (drop_bit offset_bits (hd evset)) mod sets) evsets"

text \<open>Draws from the generator inside the state of the search, and the channel switch of the memory.\<close>

definition extend_source :: "'g random_source \<Rightarrow> 'g search_state random_source" where
  "extend_source rs =
     \<lparr>rs_discrete = (\<lambda>ws s. let (i, g) = rs_discrete rs ws (ss_generator s) in (i, s\<lparr>ss_generator := g\<rparr>)),
      rs_uniform = (\<lambda>lo hi s. let (x, g) = rs_uniform rs lo hi (ss_generator s) in (x, s\<lparr>ss_generator := g\<rparr>))\<rparr>"

definition on_switch :: "('m \<Rightarrow> 'm option) \<Rightarrow> 'm \<times> 'g \<Rightarrow> ('m \<times> 'g) option" where
  "on_switch switch w = do { m' \<leftarrow> switch (fst w); Some (m', snd w) }"

definition collect_eviction_sets :: "'g random_source \<Rightarrow> ('m \<times> 'g search_state) evset_test \<Rightarrow> ('m \<Rightarrow> 'm option) \<Rightarrow>
    'z basic_memory_region_scheme list \<Rightarrow> nat \<Rightarrow> nat \<Rightarrow> nat \<Rightarrow> 'm \<times> 'g search_state \<Rightarrow> (uintptr list list \<times> 'm \<times> 'g search_state) option" where
  "collect_eviction_sets rs test switch regions offset_bits index_bits ways w = do {
     d \<leftarrow> set_cycling_of_memory regions offset_bits index_bits 0;
     (evsets, _, _, _, _, w') \<leftarrow> retry
       (collect_step test (on_generator (set_cycling_draw (extend_source rs)))
         (find_eviction_set_default test (on_generator (uad_draw (extend_source rs))) regions offset_bits index_bits ways)
         (on_switch switch) (2 ^ index_bits) ways) ([], {}, 0, d, w);
     Some (sort_evsets offset_bits (2 ^ index_bits) evsets, w') }"

text \<open>
  The function up to the call of its argument: the strategy and the state it is used in. The constant is the number of
  warm-up accesses. \<open>1 << index_bits\<close> is an \<open>int\<close> shift.
\<close>

definition provide_eviction_set_strategy ::
    "'g random_source \<Rightarrow> (uintptr \<Rightarrow> 'm \<Rightarrow> (nat \<times> 'm) option) \<Rightarrow> (uintptr \<Rightarrow> 'm \<Rightarrow> 'm option) \<Rightarrow> ('m \<Rightarrow> 'm option) \<Rightarrow> ('m \<Rightarrow> 'm option) \<Rightarrow>
     'z basic_memory_region_scheme list \<Rightarrow> nat \<Rightarrow> nat \<Rightarrow> nat \<Rightarrow> nat \<Rightarrow> nat \<Rightarrow> 'm \<Rightarrow> 'g \<Rightarrow>
     (('m \<times> 'g search_state) eviction_set_strategy \<times> 'm \<times> 'g search_state) option" where
  "provide_eviction_set_strategy rs iacc acc reset switch regions offset_bits index_bits ways pollution repetitions m g = do {
     (m1, g1) \<leftarrow> warmup rs regions acc 1000000 m g;
     s \<leftarrow> search_init regions offset_bits g1;
     require (index_bits < 31);
     let test = provided_test rs iacc acc reset pollution repetitions;
     (evsets, w) \<leftarrow> collect_eviction_sets rs test switch regions offset_bits index_bits ways (m1, s);
     Some (\<lparr>ess_evsets = evsets, ess_is_eviction_set = test\<rparr>, w) }"

lemma collect_step_mono [opt_mono]:
  assumes "test_le t t'" and "\<And>target w. opt_le (search target w) (search' target w)"
  shows "opt_le (collect_step t draw search switch sets ways s) (collect_step t' draw search' switch sets ways s)"
  unfolding collect_step_def Let_def by (intro opt_mono assms)

lemma collect_eviction_sets_mono [opt_mono]:
  "test_le t t' \<Longrightarrow> opt_le (collect_eviction_sets rs t switch regions off k ways w) (collect_eviction_sets rs t' switch regions off k ways w)"
  unfolding collect_eviction_sets_def by (intro opt_mono)

section \<open>Collecting eviction sets\<close>

text \<open>Eviction sets of different cache sets, each of more addresses than there are ways.\<close>

definition covering :: "(uintptr \<Rightarrow> nat) \<Rightarrow> nat \<Rightarrow> uintptr list list \<Rightarrow> bool" where
  "covering pl n evsets \<longleftrightarrow> distinct (concat evsets) \<and> distinct (map (\<lambda>es. pl (hd es)) evsets) \<and>
     (\<forall>es \<in> set evsets. n < length es \<and> (\<forall>x \<in> set es. pl x = pl (hd es)))"

lemma covering_Nil: "covering pl n []"
  by (simp add: covering_def)

lemma coveringD:
  assumes "covering pl n evsets"
  shows "distinct (concat evsets)" and "distinct (map (\<lambda>es. pl (hd es)) evsets)"
    and "es \<in> set evsets \<Longrightarrow> n < length es" and "es \<in> set evsets \<Longrightarrow> x \<in> set es \<Longrightarrow> pl x = pl (hd es)"
  using assms unfolding covering_def by blast+

lemma covering_add:
  assumes "covering pl n evsets" and "distinct es" and "length es = n" and "0 < n" and "\<forall>x \<in> set es. pl x = pl t" and "t \<notin> set es"
    and "\<forall>e \<in> set evsets. pl (hd e) \<noteq> pl t"
  shows "covering pl n (evsets @ [es @ [t]])"
proof -
  have h: "pl (hd (es @ [t])) = pl t" using assms(3-5) by (cases es) auto
  have disj: "set (es @ [t]) \<inter> set e = {}" if "e \<in> set evsets" for e
  proof -
    have "pl x = pl t" if "x \<in> set (es @ [t])" for x using that assms(5) by auto
    then show ?thesis using coveringD(4) [OF assms(1) that] assms(7) that by (metis disjoint_iff)
  qed
  have "distinct (concat (evsets @ [es @ [t]]))" using coveringD(1) [OF assms(1)] assms(2,6) disj by auto
  moreover have "distinct (map (\<lambda>es. pl (hd es)) (evsets @ [es @ [t]]))" using coveringD(2) [OF assms(1)] assms(7) h by auto
  moreover have "\<forall>x \<in> set (es @ [t]). pl x = pl (hd (es @ [t]))" unfolding h using assms(5) by simp
  moreover have "n < length (es @ [t])" using assms(3) by simp
  ultimately show ?thesis using coveringD(3,4) [OF assms(1)] unfolding covering_def by (metis Un_iff empty_iff set_append empty_set set_ConsD)
qed

lemma covering_extend:
  assumes "covering pl n evsets" and "i < length evsets" and "pl (hd (evsets ! i)) = pl t" and "t \<notin> set (concat evsets)"
  shows "covering pl n (evsets[i := evsets ! i @ [t]])" and "set (concat (evsets[i := evsets ! i @ [t]])) = insert t (set (concat evsets))"
proof -
  let ?new = "evsets[i := evsets ! i @ [t]]"
  have ne: "evsets ! i \<noteq> []" using coveringD(3) [OF assms(1) nth_mem [OF assms(2)]] by auto
  have split: "evsets = take i evsets @ evsets ! i # drop (Suc i) evsets" using id_take_nth_drop [OF assms(2)] .
  have new: "?new = take i evsets @ (evsets ! i @ [t]) # drop (Suc i) evsets" using upd_conv_take_nth_drop [OF assms(2)] by simp
  have ms: "mset (concat ?new) = add_mset t (mset (concat evsets))"
    using arg_cong [OF split, of "\<lambda>x. mset (concat x)"] unfolding new by simp
  show set: "set (concat ?new) = insert t (set (concat evsets))" using arg_cong [OF ms, of set_mset] by simp
  have "distinct (t # concat evsets)" using coveringD(1) [OF assms(1)] assms(4) by simp
  then have "distinct (concat ?new)" by (rule distinct_part) (simp add: ms)
  moreover have "map (\<lambda>es. pl (hd es)) ?new = map (\<lambda>es. pl (hd es)) evsets"
    using ne assms(2) by (intro nth_equalityI) (auto simp: nth_list_update)
  moreover have "n < length es \<and> (\<forall>x \<in> set es. pl x = pl (hd es))" if "es \<in> set ?new" for es
  proof -
    from that set_update_subset_insert [of evsets i "evsets ! i @ [t]"] have "es \<in> set evsets \<or> es = evsets ! i @ [t]" by blast
    then show ?thesis
    proof
      assume "es \<in> set evsets"
      then show ?thesis using coveringD(3,4) [OF assms(1)] by blast
    next
      assume es: "es = evsets ! i @ [t]"
      then have "hd es = hd (evsets ! i)" using ne by simp
      with es assms(3) coveringD(3,4) [OF assms(1) nth_mem [OF assms(2)]] show ?thesis by auto
    qed
  qed
  ultimately show "covering pl n ?new" using coveringD(2) [OF assms(1)] unfolding covering_def by simp
qed

context exact_test
begin

lemma covering_locate:
  assumes w: "invar w" and c: "covering pl n evsets" and t: "target \<notin> set (concat evsets)" and a: "adm (concat evsets)"
  shows "\<exists>i w'. locate_eviction_set test target evsets w = Some (i, w') \<and> invar w' \<and>
    (if \<exists>es \<in> set evsets. pl (hd es) = pl target then i < length evsets \<and> pl (hd (evsets ! i)) = pl target else i = length evsets)"
proof -
  have cong: "congruent pl target (set es) = (if pl (hd es) = pl target then set es else {})" if "es \<in> set evsets" for es
    using coveringD(4) [OF c that] by (auto simp: congruent_def)
  have card: "card (set es) = length es \<and> n < length es" if "es \<in> set evsets" for es
    using coveringD(1,3) [OF c] that by (auto simp: distinct_concat_iff distinct_card)
  have ev: "evicting pl n target es \<longleftrightarrow> pl (hd es) = pl target" if "es \<in> set evsets" for es
    using cong [OF that] card [OF that] ways_pos [OF w] by auto
  have "decisive pl n target es" if "es \<in> set evsets" for es
    using t cong [OF that] card [OF that] that by (auto simp: decisive_def)
  then have "evsets_ok target evsets" using a by (simp add: evsets_ok_def)
  from locate.group_test_ok [OF w this] obtain i w' where
    g: "group_test (\<lambda>ess. test target (concat ess)) evsets w = Some (i, w')" "invar w'"
    and i: "if \<exists>es \<in> set evsets. evicting pl n target es then i < length evsets \<and> evicting pl n target (evsets ! i) else i = length evsets"
    by blast
  have "(\<exists>es \<in> set evsets. evicting pl n target es) \<longleftrightarrow> (\<exists>es \<in> set evsets. pl (hd es) = pl target)" using ev by auto
  with i ev nth_mem [of i evsets] g show ?thesis by (auto simp: locate_eviction_set_def split: if_splits)
qed

end

locale collection = exact_test test invar pl n UNIV distinct
  for test :: "'w evset_test" and invar pl n +
  fixes draw :: "'d \<Rightarrow> 'w \<Rightarrow> (uintptr \<times> 'd \<times> 'w) option"
    and search :: "uintptr \<Rightarrow> 'w \<Rightarrow> (uintptr list \<times> 'w) option"
    and switch :: "'w \<Rightarrow> 'w option"
  assumes target_keeps: "invar w \<Longrightarrow> draw d w = Some (a, d', w') \<Longrightarrow> invar w'"
    and search_ok: "invar w \<Longrightarrow> search target w = Some (out, w') \<Longrightarrow>
      distinct out \<and> target \<notin> set out \<and> n \<le> card (congruent pl target (set out)) \<and> invar w'"
    and switch_keeps: "invar w \<Longrightarrow> switch w = Some w' \<Longrightarrow> invar w'"
begin

definition collecting :: "uintptr list list \<times> uintptr set \<times> nat \<times> 'd \<times> 'w \<Rightarrow> bool" where
  "collecting = (\<lambda>(evsets, seen, counter, d, w). covering pl n evsets \<and> seen = set (concat evsets) \<and> invar w)"

lemma reduce_found:
  assumes "invar w" and "distinct out" and "target \<notin> set out" and "n \<le> card (congruent pl target (set out))"
  shows "\<exists>ys w'. reduce_eviction_set test target n out w = Some (True, ys, w') \<and> invar w' \<and> distinct ys \<and> length ys = n \<and>
    (\<forall>y \<in> set ys. pl y = pl target) \<and> target \<notin> set ys"
proof -
  have "\<not> n \<le> card (congruent pl target {})" using ways_pos [OF assms(1)] by (simp add: congruent_def)
  from reduction.reduce_succeeds [OF assms(1,2) _ assms(4) this order_refl] assms(3) obtain ys w' where
    "reduce_eviction_set test target n out w = Some (True, ys, w')" "invar w'" "distinct ys" "set ys \<subseteq> set out" "length ys \<le> n"
    "n \<le> card (congruent pl target (set ys))" by auto
  with exact_eviction_set [of ys n pl target] assms(3) show ?thesis by blast
qed

lemma due_keeps: "switch_when_due switch counter w = Some (counter1, w1) \<Longrightarrow> invar w \<Longrightarrow> invar w1"
  using switch_keeps by (auto simp: switch_when_due_def Let_def bind_eq_Some_conv split: if_splits)

text \<open>The pass for a fresh target, in closed form up to the states in between.\<close>

lemma collect_step_fresh:
  assumes s: "collecting (evsets, seen, counter, d, w)" and len: "length evsets < sets"
    and w1: "switch_when_due switch counter w = Some (counter1, w1)"
    and draw: "draw d w1 = Some (target, d1, w2)" and fresh: "target \<notin> seen"
  shows "if \<exists>es \<in> set evsets. pl (hd es) = pl target
    then \<exists>i w3. collect_step test draw search switch sets n (evsets, seen, counter, d, w) =
        Some (None, evsets[i := evsets ! i @ [target]], insert target seen, counter1, d1, w3) \<and>
      collecting (evsets[i := evsets ! i @ [target]], insert target seen, counter1, d1, w3) \<and>
      map (\<lambda>es. pl (hd es)) (evsets[i := evsets ! i @ [target]]) = map (\<lambda>es. pl (hd es)) evsets
    else \<exists>w3. invar w3 \<and> (case search target w3 of
        None \<Rightarrow> collect_step test draw search switch sets n (evsets, seen, counter, d, w) = None
      | Some _ \<Rightarrow> \<exists>es w4. collect_step test draw search switch sets n (evsets, seen, counter, d, w) =
            Some (None, evsets @ [es @ [target]], seen \<union> set (es @ [target]), counter1, d1, w4) \<and>
          collecting (evsets @ [es @ [target]], seen \<union> set (es @ [target]), counter1, d1, w4) \<and> pl (hd (es @ [target])) = pl target)"
proof -
  have c: "covering pl n evsets" "seen = set (concat evsets)" "invar w" using s by (simp_all add: collecting_def)
  have "invar w1" using w1 c(3) by (rule due_keeps)
  then have "invar w2" using target_keeps draw by blast
  from covering_locate [OF this c(1) _ coveringD(1) [OF c(1)], of target] fresh c(2) obtain i w3 where
    l: "locate_eviction_set test target evsets w2 = Some (i, w3)" "invar w3"
    and i: "if \<exists>es \<in> set evsets. pl (hd es) = pl target then i < length evsets \<and> pl (hd (evsets ! i)) = pl target else i = length evsets"
    by auto
  let ?step = "collect_step test draw search switch sets n (evsets, seen, counter, d, w)"
  show ?thesis
  proof (cases "\<exists>es \<in> set evsets. pl (hd es) = pl target")
    case True
    then have i': "i < length evsets" "pl (hd (evsets ! i)) = pl target" using i by auto
    note ext = covering_extend [OF c(1) i', unfolded c(2) [symmetric], OF fresh]
    have "map (\<lambda>es. pl (hd es)) (evsets[i := evsets ! i @ [target]]) = map (\<lambda>es. pl (hd es)) evsets"
      using coveringD(3) [OF c(1) nth_mem [OF i'(1)]] i'(1) by (intro nth_equalityI) (auto simp: nth_list_update hd_append)
    moreover have "?step = Some (None, evsets[i := evsets ! i @ [target]], insert target seen, counter1, d1, w3)"
      unfolding collect_step_def using len w1 draw fresh l(1) i'(1) by (simp add: Let_def)
    ultimately show ?thesis using True ext l(2) by (auto simp: collecting_def)
  next
    case False
    then have i': "i = length evsets" using i by auto
    show ?thesis
    proof (cases "search target w3")
      case None
      then have "?step = None" unfolding collect_step_def using len w1 draw fresh l(1) i' by (simp add: Let_def)
      with None False l(2) show ?thesis by auto
    next
      case (Some r)
      obtain out w4 where r: "r = (out, w4)" by (cases r)
      from search_ok [OF l(2) Some [unfolded r]] have o: "distinct out" "target \<notin> set out" "n \<le> card (congruent pl target (set out))" "invar w4" by auto
      from reduce_found [OF o(4,1,2,3)] obtain ys w5 where
        y: "reduce_eviction_set test target n out w4 = Some (True, ys, w5)" "invar w5" "distinct ys" "length ys = n"
          "\<forall>y \<in> set ys. pl y = pl target" "target \<notin> set ys" by blast
      have "covering pl n (evsets @ [ys @ [target]])"
        using covering_add [OF c(1) y(3,4) ways_pos [OF l(2)] y(5,6)] False by blast
      moreover have "pl (hd (ys @ [target])) = pl target" using y(5) by (cases ys) auto
      moreover have "?step = Some (None, evsets @ [ys @ [target]], seen \<union> set (ys @ [target]), counter1, d1, w5)"
        unfolding collect_step_def using len w1 draw fresh l(1) i' Some r y(1) by (simp add: Let_def)
      ultimately show ?thesis using False l(2) Some y(2) c(2)
        by (simp, intro exI [of _ w3]) (auto simp: collecting_def)
    qed
  qed
qed

lemma collect_step_begins:
  assumes "collect_step test draw search switch sets n (evsets, seen, counter, d, w) = Some r" and "length evsets < sets"
  obtains counter1 w1 target d1 w2 where
    "switch_when_due switch counter w = Some (counter1, w1)" "draw d w1 = Some (target, d1, w2)"
proof (cases "switch_when_due switch counter w")
  case None
  with assms show ?thesis by (simp add: collect_step_def)
next
  case (Some p)
  with assms that show ?thesis by (cases p; cases "draw d (snd p)") (auto simp: collect_step_def)
qed

lemma collect_step_ok:
  assumes "collect_step test draw search switch sets n s = Some (r, s')" and "collecting s"
  shows "collecting s' \<and> (\<forall>v. r = Some v \<longrightarrow> v = fst s' \<and> sets \<le> length v)"
proof -
  obtain evsets seen counter d w where s: "s = (evsets, seen, counter, d, w)" by (cases s)
  show ?thesis
  proof (cases "length evsets < sets")
    case False
    with assms s show ?thesis by (auto simp: collect_step_def)
  next
    case True
    from assms(1) [unfolded s] True obtain counter1 w1 target d1 w2 where
      1: "switch_when_due switch counter w = Some (counter1, w1)"
        "draw d w1 = Some (target, d1, w2)"
      by (rule collect_step_begins)
    show ?thesis
    proof (cases "target \<in> seen")
      case t: True
      have "invar w" using assms(2) s by (simp add: collecting_def)
      then have "invar w2" using due_keeps [OF 1(1)] target_keeps [OF _ 1(2)] by blast
      moreover have "r = None" "s' = (evsets, seen, counter1, d1, w2)"
        using assms(1) s True 1 t by (simp_all add: collect_step_def)
      ultimately show ?thesis using assms(2) s by (simp add: collecting_def)
    next
      case False
      note fresh = collect_step_fresh [OF assms(2) [unfolded s] True 1 False]
      have step: "collect_step test draw search switch sets n (evsets, seen, counter, d, w) = Some (r, s')" using assms(1) s by simp
      show ?thesis
      proof (cases "\<exists>es \<in> set evsets. pl (hd es) = pl target")
        case True
        from fresh [unfolded if_P [OF True] step] show ?thesis by blast
      next
        case False
        from fresh [unfolded if_not_P [OF False] step] obtain w3 where
          "case search target w3 of None \<Rightarrow> Some (r, s') = None
           | Some _ \<Rightarrow> \<exists>es w4. Some (r, s') = Some (None, evsets @ [es @ [target]], seen \<union> set (es @ [target]), counter1, d1, w4) \<and>
               collecting (evsets @ [es @ [target]], seen \<union> set (es @ [target]), counter1, d1, w4) \<and> pl (hd (es @ [target])) = pl target"
          by blast
        then show ?thesis by (cases "search target w3") (simp_all, blast)
      qed
    qed
  qed
qed

text \<open>Whatever the loop returns covers as many sets as were asked for.\<close>

lemma collect_result:
  assumes "retry (collect_step test draw search switch sets n) ([], {}, 0, d, w) = Some (v, s')" and "invar w"
  shows "covering pl n v \<and> sets \<le> length v \<and> collecting s' \<and> v = fst s'"
proof -
  have "(\<lambda>v s. collecting s \<and> v = fst s \<and> sets \<le> length v) v s'"
    using assms(1) by (rule retry_invariant [where I = collecting])
      (use assms(2) collect_step_ok covering_Nil in \<open>simp add: collecting_def, blast, blast\<close>)
  then show ?thesis by (cases s') (auto simp: collecting_def)
qed

end

text \<open>The sorted eviction sets: the one at position \<open>s\<close> belongs to cache set \<open>s\<close>.\<close>

definition one_per_set :: "(uintptr \<Rightarrow> nat) \<Rightarrow> nat \<Rightarrow> nat \<Rightarrow> uintptr list list \<Rightarrow> bool" where
  "one_per_set pl n sets evsets \<longleftrightarrow> length evsets = sets \<and> distinct (concat evsets) \<and>
     (\<forall>s < sets. n < length (evsets ! s) \<and> (\<forall>x \<in> set (evsets ! s). pl x = s))"

lemma one_per_set_evsets:
  assumes "one_per_set pl n sets evsets" and "target \<notin> set (concat evsets)"
  shows "evsets_per_set pl n sets target evsets"
proof -
  have "distinct (evsets ! s)" if "s < sets" for s
    using assms(1) that by (auto simp: one_per_set_def distinct_concat_iff)
  with assms show ?thesis by (auto simp: one_per_set_def evsets_per_set_def less_imp_le)
qed

lemma covering_sorted:
  assumes c: "covering (modular_set off k) n v" and len: "2 ^ k \<le> length v"
  shows "one_per_set (modular_set off k) n (2 ^ k) (sort_evsets off (2 ^ k) v)"
proof -
  let ?f = "\<lambda>es. modular_set off k (hd es)" and ?e = "sort_evsets off (2 ^ k) v"
  have e: "?e = sort_key ?f v" by (simp add: sort_evsets_def)
  have dist: "distinct (map ?f v)" by (rule coveringD(2) [OF c])
  have sub: "set (map ?f v) \<subseteq> {..<2 ^ k}" by auto
  have "card (set (map ?f v)) = length v" using distinct_card [OF dist] by simp
  with card_seteq [OF _ sub] len have all: "set (map ?f v) = {..<2 ^ k}" by simp
  have "map ?f ?e = [0..<2 ^ k]"
  proof (rule sorted_distinct_set_unique)
    show "sorted (map ?f ?e)" unfolding e by simp
    have "mset (map ?f ?e) = mset (map ?f v)" unfolding e by simp
    with dist show "distinct (map ?f ?e)" by (metis mset_eq_imp_distinct_iff)
    show "set (map ?f ?e) = set [0..<2 ^ k]" using all unfolding e by (simp add: atLeast0LessThan)
  qed simp_all
  then have nth: "length ?e = 2 ^ k" "\<And>s. s < 2 ^ k \<Longrightarrow> ?f (?e ! s) = s"
    by (metis length_map length_upt minus_nat.diff_0, metis (no_types, lifting) add_0 length_map length_upt minus_nat.diff_0 nth_map nth_upt)
  have set: "set ?e = set v" unfolding e by simp
  have "mset (concat ?e) = mset (concat v)" unfolding e by (simp add: mset_concat flip: sum_mset_sum_list)
  then have "distinct (concat ?e)" using coveringD(1) [OF c] by (metis mset_eq_imp_distinct_iff)
  moreover have "n < length (?e ! s) \<and> (\<forall>x \<in> set (?e ! s). modular_set off k x = s)" if s: "s < 2 ^ k" for s
  proof -
    have "?e ! s \<in> set v" using nth_mem [of s ?e] nth(1) s set by simp
    with coveringD(3,4) [OF c this] nth(2) [OF s] show ?thesis by simp
  qed
  ultimately show ?thesis using nth(1) by (simp add: one_per_set_def)
qed

section \<open>The strategy over a memory and a generator\<close>

locale strategy_world = world_test test invar pl n UNIV distinct rs
  for test :: "('m \<times> 'g) evset_test" and invar pl n and rs :: "'g random_source" +
  fixes switch :: "'m \<Rightarrow> 'm option"
  assumes channel_keeps: "invar (m, g) \<Longrightarrow> switch m = Some m' \<Longrightarrow> invar (m', g)"
begin

lemma loop_keeps:
  assumes "set_cycling_loop rs f s d g = Some (a, d', g')" and "invar (m, g)"
  shows "invar (m, g')"
proof -
  have step: "invar (m, snd st')"
    if "(case st of (base, g) \<Rightarrow> do { (address, base', g') \<leftarrow> uad_draw rs base g;
        Some (if f address \<noteq> s then None else Some address, base', g') }) = Some (r, st')" "invar (m, snd st)" for st r st'
    using that draws_keep by (cases st) (auto simp: bind_eq_Some_conv)
  have "(\<lambda>(a :: uintptr) st. invar (m, snd st)) a (d', g')"
    using assms(1) unfolding set_cycling_loop_def curry_def
    by (rule retry_invariant [where I = "\<lambda>st. invar (m, snd st)"]) (use assms(2) in simp, (drule step, simp, simp)+)
  then show ?thesis by simp
qed

lemma cycling_keeps:
  assumes "invar w" and "on_generator (set_cycling_draw rs) d w = Some (a, d', w')"
  shows "invar w'"
proof -
  obtain m g where w: "w = (m, g)" by (cases w)
  with assms(2) obtain base g' where "set_cycling_loop rs (sc_index_function d) (sc_next_set d) (sc_base_distribution d) g = Some (a, base, g')"
    "w' = (m, g')" by (auto simp: on_generator_def set_cycling_draw_def bind_eq_Some_conv)
  with loop_keeps assms(1) w show ?thesis by blast
qed

end

sublocale strategy_world \<subseteq> any_draws: set_search "concat_uniform rs" "concat_reset uad_reset uad_reset" "\<lambda>_. True" UNIV test invar pl n UNIV distinct
  by unfold_locales (use search.draw_keeps in blast)+

sublocale strategy_world \<subseteq> targets: collection test invar pl n "on_generator (set_cycling_draw rs)"
    "find_eviction_set_default test (on_generator (uad_draw rs)) regions off k n" "on_switch switch"
  for regions :: "'z basic_memory_region_scheme list" and off k
proof unfold_locales
  show "invar w'" if "invar w" "on_generator (set_cycling_draw rs) d w = Some (a, d', w')" for w d a d' w'
    using that by (rule cycling_keeps)
  show "invar w'" if "invar w" "on_switch switch w = Some w'" for w w'
    using that channel_keeps [of "fst w" "snd w"] by (auto simp: on_switch_def bind_eq_Some_conv)
next
  fix w target out w'
  assume w: "invar w" and f: "find_eviction_set_default test (on_generator (uad_draw rs)) regions off k n target w = Some (out, w')"
  then obtain c where c: "optimistic_distribution regions off k n target = Some c"
    by (auto simp: find_eviction_set_default_def bind_eq_Some_conv)
  from f [unfolded find_default_result [OF c]] obtain c' where
    "find_eviction_set test (concat_uniform rs) (concat_reset uad_reset uad_reset) n target c w = Some (out, c', w')" by auto
  from any_draws.find_sound [OF this TrueI w]
  show "distinct out \<and> target \<notin> set out \<and> n \<le> card (congruent pl target (set out)) \<and> invar w'" by (simp add: any_draws.found_def)
qed

text \<open>
  Draws that let the collection end: the uniform draws reach every set, and among the optimistic draws for a target are
  as many different addresses as there are ways.
\<close>

definition good_draws :: "'g random_source \<Rightarrow> 'z basic_memory_region_scheme list \<Rightarrow> nat \<Rightarrow> nat \<Rightarrow> nat \<Rightarrow> bool" where
  "good_draws rs regions off k n \<longleftrightarrow>
     (\<forall>base s g. uad_of_memory regions off = Some base \<and> s < 2 ^ k \<longrightarrow>
        (\<exists>j as d' g'. draw_n (uad_draw rs) j base g = Some (as, d', g') \<and> (\<exists>a \<in> set as. modular_set off k a = s))) \<and>
     (\<forall>target d g. uad_init regions (off + k) (take_bit (off + k) target) = Some d \<longrightarrow>
        (\<exists>as d' g'. draw_n (uad_draw rs) (k * n) d g = Some (as, d', g') \<and> n \<le> card (set as - {target})))"

lemma set_cycling_start:
  assumes "set_cycling_of_memory regions off k 0 = Some d"
  shows "uad_of_memory regions off = Some (sc_base_distribution d)" and "sc_index_function d = modular_set off k"
    and "sc_sets d = 2 ^ k" and "sc_next_set d = 0"
  using assms
  by (auto simp: set_cycling_of_memory_def set_cycling_init_def modular_init_def modular_place_def [abs_def]
      modular_index_bits_def bind_eq_Some_conv vec_simps)

lemma set_cycling_next:
  assumes "source_ok rs" and "aligned_regions off regions" and "good_draws rs regions off k n"
    and "uad_of_memory regions off = Some base" and "sc_base_distribution d = base" and "sc_index_function d = modular_set off k"
    and "sc_sets d = 2 ^ k" and "sc_next_set d = i mod 2 ^ k" and "i < 2 ^ k"
  shows "\<exists>a g'. set_cycling_draw rs d g = Some (a, d\<lparr>sc_next_set := Suc i mod 2 ^ k\<rparr>, g') \<and> modular_set off k a = i"
proof -
  from assms(3,4,9) obtain j as d' g' where j: "draw_n (uad_draw rs) j base g = Some (as, d', g')" "\<exists>a \<in> set as. modular_set off k a = i"
    unfolding good_draws_def by blast
  from set_cycling_loop_ends [OF this] obtain a base' g' where
    l: "set_cycling_loop rs (modular_set off k) i base g = Some (a, base', g')" by blast
  from set_cycling_loop_result [OF l assms(1,2)] assms(4) have "modular_set off k a = i" "base' = base" by (auto simp: uad_of_memory_def)
  with l assms(5-9) show ?thesis by (simp add: set_cycling_draw_def mod_simps)
qed

section \<open>Tests that return for small collections\<close>

text \<open>
  A test that is right whenever it returns, and that returns for at most \<open>L\<close> addresses. If \<open>L\<close> is large enough for the
  eviction sets of all cache sets together, the collection ends.
\<close>

locale small_world = sound_test test invar pl n
  for test :: "('m \<times> 'g) evset_test" and invar pl n +
  fixes L :: nat and rs :: "'g random_source" and switch :: "'m \<Rightarrow> 'm option"
  assumes small_returns: "invar w \<Longrightarrow> distinct xs \<Longrightarrow> length xs \<le> L \<Longrightarrow> target \<notin> set xs \<Longrightarrow> test target xs w \<noteq> None"
    and small_draws_keep: "invar (m, g) \<Longrightarrow> uad_draw rs d g = Some (a, d', g') \<Longrightarrow> invar (m, g')"
    and small_channel_keeps: "invar (m, g) \<Longrightarrow> switch m = Some m' \<Longrightarrow> invar (m', g)"

sublocale small_world \<subseteq> full: strategy_world "complete_test test pl n" invar pl n rs switch
  by unfold_locales (fact small_draws_keep small_channel_keeps)+

lemma sublist_of_small: "distinct xs \<and> length xs \<le> k \<Longrightarrow> mset ys \<subseteq># mset xs \<Longrightarrow> distinct ys \<and> length ys \<le> k"
  using distinct_part size_mset_mono [of "mset ys" "mset xs"] by (metis order_trans size_mset)

sublocale small_world \<subseteq> small: exact_test test invar pl n "{}" "\<lambda>xs. distinct xs \<and> length xs \<le> L"
proof
  fix w target and xs :: "uintptr list" assume w: "invar w" "distinct xs \<and> length xs \<le> L" "target \<notin> set xs"
  with small_returns [of w xs target] obtain b w' where "test target xs w = Some (b, w')" by auto
  with test_sound [of w xs target b w'] w show "\<exists>w'. test target xs w = Some (n \<le> card (congruent pl target (set xs)), w') \<and> invar w'" by auto
next
  show "distinct ys \<and> length ys \<le> L" if "distinct xs \<and> length xs \<le> L" "mset ys \<subseteq># mset xs" for xs ys :: "uintptr list"
    using that by (rule sublist_of_small)
qed (auto intro: sound_ways)

lemma reduce_nothing: "length xs \<le> k \<Longrightarrow> 0 < length xs \<Longrightarrow> reduce_eviction_set test target k xs w = Some (True, xs, w)"
  by (simp add: reduce_eviction_set_def reduce_eviction_set_it_def reduce_loop.simps)

lemma length_concat_same: "\<forall>es \<in> set evsets. length es = m \<Longrightarrow> length (concat evsets) = length evsets * m"
  by (induction evsets) auto

context small_world
begin

lemma search_small:
  assumes pl: "pl = modular_set off k" and rs: "off + k < 31" "source_ok rs" "aligned_regions (off + k) regions"
    and good: "good_draws rs regions off k n" and w: "invar w" and L: "n \<le> L"
  shows "\<exists>out w'. find_eviction_set_default test (on_generator (uad_draw rs)) regions off k n target w = Some (out, w') \<and>
    length out = n \<and> distinct out \<and> target \<notin> set out \<and> (\<forall>x \<in> set out. pl x = pl target) \<and> invar w'"
proof -
  obtain m g where mg: "w = (m, g)" by (cases w)
  from optimistic_distribution_ok [OF rs, of n target] obtain c d where
    c: "optimistic_distribution regions off k n target = Some c" and d: "uad_init regions (off + k) (take_bit (off + k) target) = Some d" by blast
  from good d obtain as d' g' where as: "draw_n (uad_draw rs) (k * n) d g = Some (as, d', g')" "n \<le> card (set as - {target})"
    unfolding good_draws_def by blast
  note o = optimistic_draws [OF rs d as(1) c]
  from o(1) [of m] obtain c' where
    dr: "draw_n (concat_uniform rs) (k * n) (concat_reset uad_reset uad_reset c) w = Some (as, c', m, g')" using mg by blast
  from fill_ends [OF dr, of "[]" n "{target}"] as(2) obtain out d1 w1 where
    f: "fill_addresses (concat_uniform rs) n target (concat_reset uad_reset uad_reset c) w = Some (out, d1, w1)" and sub: "set out \<subseteq> set as"
    by (auto simp: fill_addresses_def)
  note ok = full.any_draws.fill_addresses_ok [OF f TrueI w]
  have same: "\<forall>x \<in> set out. pl x = pl target" using sub o(2) pl by auto
  then have "congruent pl target (set out) = set out" by (auto simp: congruent_def)
  then have "n \<le> card (congruent pl target (set out))" using ok by (simp add: distinct_card)
  with small.test_exact [of w1 out target] ok L obtain w2 where t: "test target out w1 = Some (True, w2)" "invar w2" by auto
  then have "find_attempts test (concat_uniform rs) (concat_reset uad_reset uad_reset) n target 5 c w = Some (Some out, d1, w2)"
    using f by (simp add: numeral_eq_Suc)
  then have "find_step test (concat_uniform rs) (concat_reset uad_reset uad_reset) target (n, c, w) = Some (Some out, n + n div 2, d1, w2)"
    by (simp add: find_step_def del: find_attempts.simps)
  then have "find_eviction_set test (concat_uniform rs) (concat_reset uad_reset uad_reset) n target c w = Some (out, d1, w2)"
    by (simp add: find_eviction_set_def)
  then show ?thesis using t(2) ok same unfolding find_default_result [OF c] by auto
qed

text \<open>A pass for a set that is not covered yet.\<close>

lemma collect_step_new:
  assumes c: "covering pl n evsets" "length (concat evsets) \<le> L" and len: "length evsets < sets"
    and w1: "switch_when_due sw counter w = Some (counter1, w1)" and draw: "draw d w1 = Some (target, d1, w2)" and w2: "invar w2"
    and new: "\<forall>es \<in> set evsets. pl (hd es) \<noteq> pl target"
    and search: "\<forall>w. invar w \<longrightarrow> (\<exists>out w'. search target w = Some (out, w') \<and> length out = n \<and> distinct out \<and> target \<notin> set out \<and>
      (\<forall>x \<in> set out. pl x = pl target) \<and> invar w')"
  shows "\<exists>es w'. collect_step test draw search sw sets n (evsets, set (concat evsets), counter, d, w) =
      Some (None, evsets @ [es], set (concat (evsets @ [es])), counter1, d1, w') \<and>
    covering pl n (evsets @ [es]) \<and> length es = Suc n \<and> pl (hd es) = pl target \<and> invar w'"
proof -
  have t: "target \<notin> set (concat evsets)"
  proof
    assume "target \<in> set (concat evsets)"
    then obtain es where "es \<in> set evsets" "target \<in> set es" by auto
    with coveringD(4) [OF c(1), of es target] new show False by auto
  qed
  from small.covering_locate [OF w2 c(1) t] coveringD(1) [OF c(1)] c(2) new obtain w3 where
    l: "locate_eviction_set test target evsets w2 = Some (length evsets, w3)" "invar w3" by auto
  from search l(2) obtain out w4 where
    o: "search target w3 = Some (out, w4)" "length out = n" "distinct out" "target \<notin> set out" "\<forall>x \<in> set out. pl x = pl target" "invar w4" by blast
  have n: "0 < n" using sound_ways [OF w2] .
  then have "reduce_eviction_set test target n out w4 = Some (True, out, w4)" using o(2) by (intro reduce_nothing) simp_all
  then have "collect_step test draw search sw sets n (evsets, set (concat evsets), counter, d, w) =
      Some (None, evsets @ [out @ [target]], set (concat (evsets @ [out @ [target]])), counter1, d1, w4)"
    unfolding collect_step_def using len w1 draw t l(1) o(1) by (simp add: Let_def)
  moreover have "covering pl n (evsets @ [out @ [target]])" using covering_add [OF c(1) o(3,2) n o(5,4) new] .
  moreover have "pl (hd (out @ [target])) = pl target" using o(5) by (cases out) auto
  ultimately show ?thesis using o(2,6) by (intro exI [of _ "out @ [target]"] exI [of _ w4]) simp
qed

lemma collection_ends:
  assumes pl: "pl = modular_set off k" and rs: "off + k < 31" "source_ok rs" "aligned_regions (off + k) regions"
    and good: "good_draws rs regions off k n" and w: "invar w" and d: "set_cycling_of_memory regions off k 0 = Some d"
    and switch: "\<And>m g. invar (m, g) \<Longrightarrow> switch m \<noteq> None" and L: "2 ^ k * Suc n \<le> L"
  shows "\<exists>v s'. retry (collect_step test (on_generator (set_cycling_draw rs))
      (find_eviction_set_default test (on_generator (uad_draw rs)) regions off k n) (on_switch switch) (2 ^ k) n) ([], {}, 0, d, w) = Some (v, s') \<and>
    (\<forall>es \<in> set v. length es = Suc n)"
proof -
  let ?draw = "on_generator (set_cycling_draw rs)"
  let ?search = "find_eviction_set_default test (on_generator (uad_draw rs)) regions off k n"
  let ?step = "collect_step test ?draw ?search (on_switch switch) (2 ^ k) n"
  note start = set_cycling_start [OF d]
  let ?dinv = "\<lambda>i e. sc_base_distribution e = sc_base_distribution d \<and> sc_index_function e = modular_set off k \<and> sc_sets e = 2 ^ k \<and>
    sc_next_set e = i mod 2 ^ k"
  have draw: "\<exists>a e' w'. ?draw e w = Some (a, e', w') \<and> pl a = i \<and> ?dinv (Suc i) e' \<and> invar w'"
    if "?dinv i e" "i < 2 ^ k" "invar w" for i e w
  proof -
    from set_cycling_next [OF rs(2) aligned_regions_less [OF rs(3)] good start(1), of e i "snd w"] that(1,2) pl obtain a e' w' where
      a: "?draw e w = Some (a, e', w')" "pl a = i" "?dinv (Suc i) e'" by (auto simp: on_generator_def)
    with full.cycling_keeps [OF that(3) a(1)] show ?thesis by blast
  qed
  have "n \<le> L" using L by (metis One_nat_def Suc_leD le_trans mult_le_mono1 nat_mult_1 one_le_numeral one_le_power)
  note search = search_small [OF pl rs good _ this]
  let ?I = "\<lambda>(evsets, seen, counter :: nat, e :: set_cycling_address_distribution, w). covering pl n evsets \<and> seen = set (concat evsets) \<and> invar w \<and>
    map (\<lambda>es. pl (hd es)) evsets = [0..<length evsets] \<and> ?dinv (length evsets) e \<and> length evsets \<le> 2 ^ k \<and> (\<forall>es \<in> set evsets. length es = Suc n)"
  show ?thesis
  proof (rule retry_progress [where I = ?I and m = "\<lambda>s. 2 ^ k - length (fst s)"])
    show "?I ([], {}, 0, d, w)" using w start covering_Nil by simp
  next
    fix s assume I: "?I s"
    obtain evsets seen counter e w where s: "s = (evsets, seen, counter, e, w)" by (cases s)
    show "(\<exists>s'. ?step s = Some (None, s') \<and> ?I s' \<and> 2 ^ k - length (fst s') < 2 ^ k - length (fst s)) \<or>
      (\<exists>v s'. ?step s = Some (Some v, s') \<and> (\<forall>es \<in> set v. length es = Suc n))"
    proof (cases "length evsets < 2 ^ k")
      case False
      then have "?step s = Some (Some evsets, s)" using s by (simp add: collect_step_def)
      with I s show ?thesis by auto
    next
      case True
      have inv: "covering pl n evsets" "seen = set (concat evsets)" "invar w" "map (\<lambda>es. pl (hd es)) evsets = [0..<length evsets]"
        "?dinv (length evsets) e" "\<forall>es \<in> set evsets. length es = Suc n" using I s by auto
      have "on_switch switch w \<noteq> None" using switch [of "fst w" "snd w"] inv(3) by (auto simp: on_switch_def)
      then obtain counter1 w1 where w1: "switch_when_due (on_switch switch) counter w = Some (counter1, w1)"
        by (cases "counter = 9") (auto simp: switch_when_due_def)
      have "invar w1" using full.targets.due_keeps [OF w1 inv(3)] .
      from draw [OF inv(5) True this] obtain a e1 w2 where
        a: "?draw e w1 = Some (a, e1, w2)" "pl a = length evsets" "?dinv (Suc (length evsets)) e1" "invar w2" by blast
      have new: "\<forall>es \<in> set evsets. pl (hd es) \<noteq> pl a"
      proof
        fix es assume "es \<in> set evsets"
        then have "pl (hd es) \<in> set (map (\<lambda>es. pl (hd es)) evsets)" by auto
        then show "pl (hd es) \<noteq> pl a" unfolding inv(4) a(2) by simp
      qed
      have "length (concat evsets) \<le> 2 ^ k * Suc n" unfolding length_concat_same [OF inv(6)] using True by (intro mult_le_mono1) simp
      then have "length (concat evsets) \<le> L" using L by (rule order_trans)
      from collect_step_new [where draw = ?draw and search = ?search, OF inv(1) this True w1 a(1,4) new] search obtain es w' where
        n: "?step s = Some (None, evsets @ [es], set (concat (evsets @ [es])), counter1, e1, w')"
          "covering pl n (evsets @ [es])" "length es = Suc n" "pl (hd es) = pl a" "invar w'" unfolding s inv(2) by blast
      have "?I (evsets @ [es], set (concat (evsets @ [es])), counter1, e1, w')" using n(2-5) inv(4,6) a(2,3) True by (simp add: Un_commute)
      with n(1) True s show ?thesis by (intro disjI1 exI [of _ "(evsets @ [es], set (concat (evsets @ [es])), counter1, e1, w')"]) simp
    qed
  qed
qed

end

section \<open>The test of the commands\<close>

text \<open>Draws with the generator inside the state of the search.\<close>

lemma extend_draw:
  "uad_draw (extend_source rs) d s = map_option (\<lambda>(a, d', g). (a, d', s\<lparr>ss_generator := g\<rparr>)) (uad_draw rs d (ss_generator s))"
  by (cases "vec_at (uad_addresses d) (fst (rs_discrete rs (uad_regions d) (ss_generator s)))")
    (auto simp: uad_draw_def extend_source_def Let_def case_prod_beta require_def)

lemma extend_draw_n:
  "draw_n (uad_draw rs) j d (ss_generator s) = Some (as, d', g) \<Longrightarrow>
     draw_n (uad_draw (extend_source rs)) j d s = Some (as, d', s\<lparr>ss_generator := g\<rparr>)"
proof (induction j arbitrary: d s as)
  case (Suc j)
  then obtain a d1 g1 as1 where a: "uad_draw rs d (ss_generator s) = Some (a, d1, g1)" "draw_n (uad_draw rs) j d1 g1 = Some (as1, d', g)"
    "as = a # as1" by (auto simp: bind_eq_Some_conv)
  from Suc.IH [of d1 "s\<lparr>ss_generator := g1\<rparr>" as1] a show ?case by (simp add: extend_draw)
qed simp

lemma extend_source_ok: "source_ok rs \<Longrightarrow> source_ok (extend_source rs)"
  by (simp add: source_ok_def extend_source_def Let_def case_prod_beta)

lemma extend_good: "good_draws rs regions off k n \<Longrightarrow> good_draws (extend_source rs) regions off k n"
  unfolding good_draws_def by (meson extend_draw_n)

text \<open>The repeated test is right whenever it returns, with any reset and any pollution.\<close>

lemma single_sound:
  assumes "lru_single rs reset pollution target xs (m, s) = Some (b, m', s')" and "lru_memory pl n m" and "keeps_lru pl n reset"
    and "target \<notin> set xs"
  shows "b = (n \<le> card (congruent pl target (set xs))) \<and> lru_memory pl n m' \<and> ss_distribution s' = ss_distribution s"
proof -
  let ?step = "single_step rs sm_instrumented_access sm_access reset pollution target xs"
  let ?I = "\<lambda>(k :: nat, m, s1 :: 'a search_state). lru_memory pl n m \<and> ss_distribution s1 = ss_distribution s"
  have step: "?I st' \<and> (\<forall>b. r = Some b \<longrightarrow> b = (n \<le> card (congruent pl target (set xs))))"
    if st: "?step st = Some (r, st')" and I: "?I st" for st r st'
  proof -
    obtain k m1 s1 where s1: "st = (k, m1, s1)" by (cases st)
    with st obtain m2 m3 s3 where m2: "reset m1 = Some m2" and p: "cache_pollution rs sm_access pollution (insert target (set xs)) m2 s1 = Some (m3, s3)"
      by (auto simp: single_step_def Let_def bind_eq_Some_conv)
    have "lru_memory pl n m2" using assms(3) I s1 m2 by (auto simp: keeps_lru_def)
    with pollution_ok [OF p] I s1 have "lru_memory pl n m3" "ss_distribution s3 = ss_distribution s" by auto
    moreover from safe_test_sound [OF this(1) assms(4)] obtain r' m4 where
      "safe_is_eviction_set sm_instrumented_access target xs m3 = Some (r', m4)" "lru_memory pl n m4"
      "\<forall>b. r' = Some b \<longrightarrow> b = (n \<le> card (congruent pl target (set xs)))" by blast
    ultimately show ?thesis using st s1 m2 p by (cases r') (auto simp: single_step_def Let_def)
  qed
  from assms(1) obtain k where r: "retry ?step (0, m, s) = Some (b, k, m', s')"
    by (auto simp: is_eviction_set_single_def bind_eq_Some_conv)
  have "(\<lambda>b st. ?I st \<and> b = (n \<le> card (congruent pl target (set xs)))) b (k, m', s')"
    using r by (rule retry_invariant [where I = ?I]) (use assms(2) step in \<open>simp, blast, blast\<close>)
  then show ?thesis by simp
qed

lemma repeat_sound:
  assumes "\<And>w r w'. I w \<Longrightarrow> single target xs w = Some (r, w') \<Longrightarrow> r = b \<and> I w'"
  shows "repeat_test single k target xs w = Some (r, w') \<Longrightarrow> 0 < k \<Longrightarrow> I w \<Longrightarrow> r = b \<and> I w'"
proof (induction k arbitrary: w)
  case (Suc k)
  then obtain q w1 where "single target xs w = Some (q, w1)" "(if q then repeat_test single k target xs w1 else Some (False, w1)) = Some (r, w')"
    by (auto simp: bind_eq_Some_conv)
  with assms [of w q w1] Suc show ?case by (cases "k = 0") (auto split: if_splits)
qed simp

text \<open>What holds while eviction sets are searched, whatever the draws are.\<close>

definition search_invar :: "(uintptr \<Rightarrow> nat) \<Rightarrow> nat \<Rightarrow> (simulated_memory \<Rightarrow> simulated_memory option) \<Rightarrow> (simulated_memory \<Rightarrow> simulated_memory option) \<Rightarrow>
    nat \<Rightarrow> uniform_address_distribution blacklisted_address_distribution \<Rightarrow> simulated_memory \<times> 'g search_state \<Rightarrow> bool" where
  "search_invar pl n reset switch repetitions d w \<longleftrightarrow>
     lru_memory pl n (fst w) \<and> ss_distribution (snd w) = d \<and> keeps_lru pl n reset \<and> keeps_lru pl n switch \<and> 0 < repetitions"

abbreviation lru_provided :: "'g random_source \<Rightarrow> (simulated_memory \<Rightarrow> simulated_memory option) \<Rightarrow> nat \<Rightarrow> nat \<Rightarrow>
    (simulated_memory \<times> 'g search_state) evset_test" where
  "lru_provided rs \<equiv> provided_test rs sm_instrumented_access sm_access"

lemma provided_sound:
  assumes "search_invar pl n reset switch repetitions d w" and "target \<notin> set xs"
    and "lru_provided rs reset pollution repetitions target xs w = Some (b, w')"
  shows "b = (n \<le> card (congruent pl target (set xs))) \<and> search_invar pl n reset switch repetitions d w'"
proof -
  have "r = (n \<le> card (congruent pl target (set xs))) \<and> search_invar pl n reset switch repetitions d w'"
    if "search_invar pl n reset switch repetitions d w" "lru_single rs reset pollution target xs w = Some (r, w')" for w r w'
    using single_sound [of rs reset pollution target xs "fst w" "snd w" r "fst w'" "snd w'" pl n] that assms(2) by (auto simp: search_invar_def)
  from repeat_sound [where I = "search_invar pl n reset switch repetitions d", OF this assms(3) [unfolded provided_test_def]] assms(1)
  show ?thesis by (auto simp: search_invar_def)
qed

lemma search_ways: "search_invar pl n reset switch repetitions d w \<Longrightarrow> 0 < n"
  using lru_memory_ways_pos by (auto simp: search_invar_def)

lemma search_draws: "search_invar pl n reset switch repetitions d (m, s) \<Longrightarrow> uad_draw (extend_source rs) e s = Some (a, e', s') \<Longrightarrow>
    search_invar pl n reset switch repetitions d (m, s')"
  by (auto simp: search_invar_def extend_draw)

lemma search_switches: "search_invar pl n reset switch repetitions d (m, s) \<Longrightarrow> switch m = Some m' \<Longrightarrow>
    search_invar pl n reset switch repetitions d (m', s)"
  unfolding search_invar_def keeps_lru_def fst_conv snd_conv by blast

interpretation provided: sound_test "lru_provided rs reset pollution repetitions" "search_invar pl n reset switch repetitions d" pl n
  for rs reset switch pollution repetitions d pl n
  by unfold_locales (blast intro: search_ways, blast dest: provided_sound)

interpretation provided_world: strategy_world "complete_test (lru_provided rs reset pollution repetitions) pl n"
    "search_invar pl n reset switch repetitions d" pl n "extend_source rs" switch
  for rs reset switch pollution repetitions d pl n
  by unfold_locales (blast intro: search_draws, blast intro: search_switches)

text \<open>
  If moreover the draws of the pollution reach the sets of up to \<open>L + 1\<close> addresses, the test always returns for
  up to \<open>L\<close> of them.
\<close>

definition polluting_invar :: "(uintptr \<Rightarrow> nat) \<Rightarrow> nat \<Rightarrow> 'g random_source \<Rightarrow> (simulated_memory \<Rightarrow> simulated_memory option) \<Rightarrow>
    (simulated_memory \<Rightarrow> simulated_memory option) \<Rightarrow> nat \<Rightarrow> nat \<Rightarrow> nat \<Rightarrow> uniform_address_distribution blacklisted_address_distribution \<Rightarrow>
    simulated_memory \<times> 'g search_state \<Rightarrow> bool" where
  "polluting_invar pl n rs reset switch pollution repetitions L d w \<longleftrightarrow> search_invar pl n reset switch repetitions d w \<and> total_lru pl n reset \<and>
     (\<forall>X. finite X \<and> card X \<le> Suc L \<longrightarrow> evicting_draws pl n rs pollution X d)"

lemma polluting_search: "polluting_invar pl n rs reset switch pollution repetitions L d w \<Longrightarrow> search_invar pl n reset switch repetitions d w"
  by (simp add: polluting_invar_def)

lemma polluting_returns:
  assumes w: "polluting_invar pl n rs reset switch pollution repetitions L d w" and xs: "distinct xs" "length xs \<le> L" "target \<notin> set xs"
  shows "lru_provided rs reset pollution repetitions target xs w \<noteq> None"
proof -
  have "card (insert target (set xs)) \<le> Suc L" using xs by (simp add: distinct_card)
  then have "evicting_draws pl n rs pollution (insert target (set xs)) d" using w by (simp add: polluting_invar_def)
  then have single: "\<exists>w'. lru_single rs reset pollution target xs w = Some (n \<le> card (congruent pl target (set xs)), w') \<and>
      polluting_invar pl n rs reset switch pollution repetitions L d w'"
    if "polluting_invar pl n rs reset switch pollution repetitions L d w" for w
    using single_exact [of pl n "fst w" reset target xs rs pollution "snd w"] that xs by (auto simp: polluting_invar_def search_invar_def)
  have "0 < repetitions" using w by (simp add: polluting_invar_def search_invar_def)
  from repeat_test_exact [where single = "lru_single rs reset pollution" and target = target and xs = xs, OF single this w]
  show ?thesis by (auto simp: provided_test_def)
qed

interpretation polluted_world: small_world "lru_provided rs reset pollution repetitions"
    "polluting_invar pl n rs reset switch pollution repetitions L d" pl n L "extend_source rs" switch
  for rs reset switch pollution repetitions L d pl n
proof unfold_locales
  show "0 < n" if "polluting_invar pl n rs reset switch pollution repetitions L d w" for w :: "simulated_memory \<times> 'a search_state"
    using search_ways [OF polluting_search [OF that]] .
  show "b = (n \<le> card (congruent pl target (set xs))) \<and> polluting_invar pl n rs reset switch pollution repetitions L d w'"
    if "polluting_invar pl n rs reset switch pollution repetitions L d w" "target \<notin> set xs"
      "lru_provided rs reset pollution repetitions target xs w = Some (b, w')" for w xs target b w'
    using provided_sound [OF polluting_search [OF that(1)] that(2,3)] that(1) by (simp add: polluting_invar_def)
  show "polluting_invar pl n rs reset switch pollution repetitions L d (m, g')"
    if "polluting_invar pl n rs reset switch pollution repetitions L d (m, g)" "uad_draw (extend_source rs) e g = Some (a, e', g')" for m g e a e' g'
    using search_draws [OF polluting_search [OF that(1)] that(2)] that(1) by (simp add: polluting_invar_def)
  show "polluting_invar pl n rs reset switch pollution repetitions L d (m', g)"
    if "polluting_invar pl n rs reset switch pollution repetitions L d (m, g)" "switch m = Some m'" for m g m'
    using search_switches [OF polluting_search [OF that(1)] that(2)] that(1) by (simp add: polluting_invar_def)
qed (rule polluting_returns)

section \<open>The strategy as a whole\<close>

lemma warmup_ok:
  assumes "warmup_loop rs sm_access j d m g = Some (m', g')" and "lru_memory pl n m"
  shows "lru_memory pl n m'"
  using assms
proof (induction j arbitrary: d m g)
  case (Suc j)
  then obtain a d1 g1 m1 where a: "uad_draw rs d g = Some (a, d1, g1)" "sm_access a m = Some m1" "warmup_loop rs sm_access j d1 m1 g1 = Some (m', g')"
    by (auto simp: bind_eq_Some_conv)
  with lru_access [OF Suc.prems(2), of a] have "lru_memory pl n m1" by (auto simp: sm_access_def)
  with Suc.IH a(3) show ?case by blast
qed simp

lemma warmup_total:
  assumes "lru_memory pl n m" and "source_ok rs" and "aligned_regions al regions" and "uad_init regions al offset = Some d"
  shows "warmup_loop rs sm_access j d m g \<noteq> None"
  using assms(1)
proof (induction j arbitrary: m g)
  case (Suc j)
  from uad_draw_in [OF assms(2-4), of g] obtain a g1 where a: "uad_draw rs d g = Some (a, d, g1)" by auto
  from lru_access [OF Suc.prems, of a] obtain m1 where "sm_access a m = Some m1" "lru_memory pl n m1" by (auto simp: sm_access_def)
  with Suc.IH [of m1 g1] a show ?case by simp
qed simp

text \<open>What the call goes through.\<close>

lemma provide_strategyD:
  assumes "provide_eviction_set_strategy rs iacc acc reset switch regions off k n pollution repetitions m g = Some (strategy, w)"
  obtains d m1 g1 s where "warmup_loop rs acc 1000000 d m g = Some (m1, g1)" and "search_init regions off g1 = Some s" and "k < 31"
    and "collect_eviction_sets rs (provided_test rs iacc acc reset pollution repetitions) switch regions off k n (m1, s) = Some (ess_evsets strategy, w)"
    and "strategy = \<lparr>ess_evsets = ess_evsets strategy, ess_is_eviction_set = provided_test rs iacc acc reset pollution repetitions\<rparr>"
  using assms that by (auto simp: provide_eviction_set_strategy_def warmup_def bind_eq_Some_conv require_def Let_def split: if_splits)

lemma provide_strategy_draws:
  assumes "provide_eviction_set_strategy rs iacc acc reset switch regions off k n pollution repetitions m g = Some (strategy, w)"
  obtains d where "uad_of_memory regions off = Some d"
  using assms that by (auto simp: provide_eviction_set_strategy_def search_init_def bind_eq_Some_conv require_def Let_def split: if_splits)

lemma collected_one_per_set:
  assumes "collect_eviction_sets rs (lru_provided rs reset pollution repetitions) switch regions off k n w = Some (evsets, w')"
    and "search_invar (modular_set off k) n reset switch repetitions d w"
  shows "one_per_set (modular_set off k) n (2 ^ k) evsets \<and> search_invar (modular_set off k) n reset switch repetitions d w'"
proof -
  let ?test = "complete_test (lru_provided rs reset pollution repetitions) (modular_set off k) n"
  have "collect_eviction_sets rs ?test switch regions off k n w = Some (evsets, w')"
    using opt_leD [OF collect_eviction_sets_mono [OF complete_test_le] assms(1)] .
  then obtain e v s' where
    r: "retry (collect_step ?test (on_generator (set_cycling_draw (extend_source rs)))
         (find_eviction_set_default ?test (on_generator (uad_draw (extend_source rs))) regions off k n)
         (on_switch switch) (2 ^ k) n) ([], {}, 0, e, w) = Some (v, s')"
    and e: "evsets = sort_evsets off (2 ^ k) v" "w' = snd (snd (snd (snd s')))"
    by (auto simp: collect_eviction_sets_def bind_eq_Some_conv)
  from provided_world.targets.collect_result [OF r assms(2)]
  have "covering (modular_set off k) n v" "2 ^ k \<le> length v" "search_invar (modular_set off k) n reset switch repetitions d w'"
    unfolding provided_world.targets.collecting_def e(2) by (auto simp: case_prod_beta)
  with covering_sorted e(1) show ?thesis by blast
qed

lemma provided_one_per_set:
  assumes "provide_eviction_set_strategy rs sm_instrumented_access sm_access reset switch regions off k n pollution repetitions m g = Some (strategy, w)"
    and "lru_memory (modular_set off k) n m" and "keeps_lru (modular_set off k) n reset" and "keeps_lru (modular_set off k) n switch"
    and "0 < repetitions" and "uad_of_memory regions off = Some d"
  shows "k < 31" and "strategy = \<lparr>ess_evsets = ess_evsets strategy, ess_is_eviction_set = lru_provided rs reset pollution repetitions\<rparr>"
    and "one_per_set (modular_set off k) n (2 ^ k) (ess_evsets strategy)"
    and "search_invar (modular_set off k) n reset switch repetitions (blacklisted_init d) w"
proof -
  from provide_strategyD [OF assms(1)] obtain d0 m1 g1 s where
    p: "warmup_loop rs sm_access 1000000 d0 m g = Some (m1, g1)" "search_init regions off g1 = Some s" "k < 31"
      "collect_eviction_sets rs (lru_provided rs reset pollution repetitions) switch regions off k n (m1, s) = Some (ess_evsets strategy, w)"
      "strategy = \<lparr>ess_evsets = ess_evsets strategy, ess_is_eviction_set = lru_provided rs reset pollution repetitions\<rparr>" .
  have "search_invar (modular_set off k) n reset switch repetitions (blacklisted_init d) (m1, s)"
    using warmup_ok [OF p(1) assms(2)] assms(3-6) p(2) by (auto simp: search_invar_def search_init_def)
  from collected_one_per_set [OF p(4) this] p(3,5)
  show "k < 31" "strategy = \<lparr>ess_evsets = ess_evsets strategy, ess_is_eviction_set = lru_provided rs reset pollution repetitions\<rparr>"
    "one_per_set (modular_set off k) n (2 ^ k) (ess_evsets strategy)"
    "search_invar (modular_set off k) n reset switch repetitions (blacklisted_init d) w" by blast+
qed

text \<open>The call returns when the draws are good and the pollution reaches the sets of every small collection.\<close>

lemma provide_strategy_returns:
  assumes "lru_memory (modular_set off k) n m" and "total_lru (modular_set off k) n reset" and "keeps_lru (modular_set off k) n switch"
    and "\<And>m. lru_memory (modular_set off k) n m \<Longrightarrow> switch m \<noteq> None" and "0 < repetitions"
    and rs: "off + k < 31" "source_ok rs" "aligned_regions (off + k) regions" and good: "good_draws rs regions off k n"
    and d1: "uad_of_memory regions off = Some d1"
    and draws: "\<And>X. finite X \<Longrightarrow> card X \<le> 2 ^ k * Suc n + 1 \<Longrightarrow> evicting_draws (modular_set off k) n rs pollution X (blacklisted_init d1)"
  shows "\<exists>strategy w. provide_eviction_set_strategy rs sm_instrumented_access sm_access reset switch regions off k n pollution repetitions m g =
      Some (strategy, w) \<and> (\<forall>es \<in> set (ess_evsets strategy). length es = Suc n) \<and>
    polluting_invar (modular_set off k) n rs reset switch pollution repetitions (2 ^ k * Suc n) (blacklisted_init d1) w"
proof -
  let ?pl = "modular_set off k"
  have "k < 31" using rs(1) by simp
  have off: "aligned_regions 0 regions" using aligned_regions_less [of 0 "off + k" regions] rs(3) by simp
  obtain d0 where d0: "uad_init regions 0 0 = Some d0" by (simp add: uad_init_def derive_distributions_def)
  from warmup_total [OF assms(1) rs(2) off d0, of 1000000 g] obtain m1 g1 where
    w: "warmup_loop rs sm_access 1000000 d0 m g = Some (m1, g1)" by auto
  let ?s = "\<lparr>ss_generator = g1, ss_distribution = blacklisted_init d1, ss_global_fails = 0\<rparr>"
  have "modular_init off (2 ^ k) = Some \<lparr>mp_offset_bits = off, mp_sets = 2 ^ k\<rparr>"
    using is_power_of_two_power [of k] by (simp add: modular_init_def is_power_of_two_def)
  then obtain d where d: "set_cycling_of_memory regions off k 0 = Some d"
    using d1 \<open>k < 31\<close> by (simp add: set_cycling_of_memory_def set_cycling_init_def modular_index_bits_def)
  have keep: "keeps_lru ?pl n reset" by (rule total_lru_keeps [OF assms(2)])
  have inv: "polluting_invar ?pl n rs reset switch pollution repetitions (2 ^ k * Suc n) (blacklisted_init d1) (m1, ?s)"
    using warmup_ok [OF w assms(1)] keep assms(2,3,5) draws by (simp add: polluting_invar_def search_invar_def)
  have "\<exists>v s'. retry (collect_step (lru_provided rs reset pollution repetitions) (on_generator (set_cycling_draw (extend_source rs)))
      (find_eviction_set_default (lru_provided rs reset pollution repetitions) (on_generator (uad_draw (extend_source rs))) regions off k n)
      (on_switch switch) (2 ^ k) n) ([], {}, 0, d, m1, ?s) = Some (v, s') \<and> (\<forall>es \<in> set v. length es = Suc n)"
    by (rule polluted_world.collection_ends [OF refl rs(1) extend_source_ok [OF rs(2)] rs(3) extend_good [OF good] inv d])
      (use assms(4) in \<open>auto simp: polluting_invar_def search_invar_def\<close>)
  then obtain v e' b' where
    r: "retry (collect_step (lru_provided rs reset pollution repetitions) (on_generator (set_cycling_draw (extend_source rs)))
      (find_eviction_set_default (lru_provided rs reset pollution repetitions) (on_generator (uad_draw (extend_source rs))) regions off k n)
      (on_switch switch) (2 ^ k) n) ([], {}, 0, d, m1, ?s) = Some (v, e', b')" "\<forall>es \<in> set v. length es = Suc n" by auto
  define strategy where "strategy = \<lparr>ess_evsets = sort_evsets off (2 ^ k) v, ess_is_eviction_set = lru_provided rs reset pollution repetitions\<rparr>"
  from w d0 d1 d r(1) \<open>k < 31\<close> obtain w' where
    p: "provide_eviction_set_strategy rs sm_instrumented_access sm_access reset switch regions off k n pollution repetitions m g = Some (strategy, w')"
    unfolding strategy_def
    by (cases b') (simp add: provide_eviction_set_strategy_def warmup_def search_init_def collect_eviction_sets_def Let_def case_prod_beta)
  have "\<forall>es \<in> set (ess_evsets strategy). length es = Suc n" using r(2) by (simp add: strategy_def sort_evsets_def)
  moreover have "polluting_invar ?pl n rs reset switch pollution repetitions (2 ^ k * Suc n) (blacklisted_init d1) w'"
    using provided_one_per_set(4) [OF p assms(1) keep assms(3,5) d1] assms(2) draws by (simp add: polluting_invar_def)
  ultimately show ?thesis using p by blast
qed

text \<open>The strategy then locates every address outside of the eviction sets.\<close>

lemma polluting_locate:
  assumes w: "polluting_invar pl n rs reset switch pollution repetitions L d w" and one: "one_per_set pl n (2 ^ k) evsets"
    and L: "length (concat evsets) \<le> L" and t: "target \<notin> set (concat evsets)" and k: "k < 31" and pl: "pl target < 2 ^ k"
  shows "\<exists>w'. locate_set k (ess_maps_to \<lparr>ess_evsets = evsets, ess_is_eviction_set = lru_provided rs reset pollution repetitions\<rparr>) target w =
    Some (Some (pl target), w') \<and> polluting_invar pl n rs reset switch pollution repetitions L d w'"
proof -
  have "distinct (concat evsets)" using one by (simp add: one_per_set_def)
  with polluted_world.small.locate_set_finds [OF w k pl one_per_set_evsets [OF one t]] L show ?thesis by blast
qed

section \<open>Properties\<close>



text \<open>
  The witnesses collect the eviction sets of a simulated direct-mapped cache with four sets from 64 lines of memory, drawn one after
  the other, with the default numbers of polluting accesses and repetitions.
\<close>

lemma sixty_four_lines_aligned: "aligned_regions (6 + 2) sixty_four_lines"
  by (simp add: aligned_regions_def sixty_four_lines_def virtual_span_def span_ok_def)

lemma below_16: "r < (16 :: nat) \<Longrightarrow> r \<in> {0, 1, 2, 3, 4, 5, 6, 7, 8, 9, 10, 11, 12, 13, 14, 15}"
  unfolding insert_iff empty_iff by presburger

lemma next_line_differs: "push_bit 8 (0x10 + of_nat (g mod 16)) \<noteq> (push_bit 8 (0x10 + of_nat (Suc g mod 16)) :: uintptr)"
proof -
  have "Suc g mod 16 = Suc (g mod 16) mod 16" by (simp add: mod_Suc_eq)
  with below_16 [of "g mod 16"] show ?thesis by auto
qed

lemma counting_good_draws: "good_draws counting_source sixty_four_lines 6 2 1"
proof -
  have each: "\<exists>j as d' g'. draw_n (uad_draw counting_source) j all_lines g = Some (as, d', g') \<and> (\<exists>a \<in> set as. modular_set 6 2 a = s)"
    if s: "s < 2 ^ 2" for s g
  proof -
    let ?i = "(s + 3 * g) mod 4"
    have "\<exists>as d' g'. draw_n (uad_draw counting_source) (Suc j) all_lines g = Some (as, d', g') \<and> line_of (g + j) \<in> set as" for j g
    proof (induction j arbitrary: g)
      case (Suc j)
      from Suc [of "Suc g"] show ?case by (subst draw_n.simps) (auto simp: all_lines_draw simp del: draw_n.simps)
    qed (simp add: all_lines_draw)
    moreover have "modular_set 6 2 (line_of (g + ?i)) = s"
      by (rule trans [OF line_of_set]) (use s in \<open>simp, presburger\<close>)
    ultimately show ?thesis by blast
  qed
  have optimistic: "\<exists>as d' g'. draw_n (uad_draw counting_source) (2 * 1) d g = Some (as, d', g') \<and> 1 \<le> card (set as - {target})"
    if "uad_init sixty_four_lines (6 + 2) (take_bit (6 + 2) target) = Some d" for target d g
  proof -
    let ?a = "\<lambda>g :: nat. push_bit 8 (0x10 + of_nat (g mod 16)) + take_bit 8 target"
    from that have d: "d = \<lparr>uad_alignment = 8, uad_offset = take_bit 8 target, uad_regions = [0x1000], uad_addresses = [(0x10, 0x1F)]\<rparr>"
      by (auto simp: uad_init_def derive_distributions_def sixty_four_lines_def bind_eq_Some_conv)
    then have "draw_n (uad_draw counting_source) (Suc (Suc 0)) d g = Some ([?a g, ?a (Suc g)], d, g + 2)"
      by (simp add: uad_draw_def counting_source_def)
    moreover have "{?a g, ?a (Suc g)} - {target} \<noteq> {}" using next_line_differs [of g]
      by (metis Diff_eq_empty_iff add_right_cancel insert_subset singletonD)
    then have "0 < card ({?a g, ?a (Suc g)} - {target})" by (simp only: card_gt_0_iff) simp
    ultimately show ?thesis by (intro exI [of _ "[?a g, ?a (Suc g)]"]) (simp add: numeral_2_eq_2 Suc_le_eq)
  qed
  from each optimistic show ?thesis unfolding good_draws_def sixty_four_lines_uad by blast
qed

lemma counting_evicting_small:
  "\<forall>X. finite X \<and> card X \<le> 2 ^ 2 * Suc 1 + 1 \<longrightarrow> evicting_draws (modular_set 6 2) 1 counting_source 10000 X (blacklisted_init all_lines)"
  by (intro allI impI counting_evicting) simp_all

lemma simulated_first_level:
  "\<exists>c. command_cache 2 6 1 = Some c \<and> lru_memory (modular_set 6 2) 1 (sm_init 0x1000 0x1000 6 [c])"
  using one_level_lru [of 2 1 6 "0x1000" "0x1000"] by (simp, blast)



end
