(* ===== verification/CH_Formula.thy ===== *)
theory CH_Formula
  imports CH_Affine CH_Registry "HOL-Library.Product_Lexorder" "HOL-Library.Multiset"
begin

text \<open>
  The formula that \<open>affine_placement_policy::to_string\<close> prints, the main result of \<open>reverse placement\<close>
  (\<open>policies/placement/affine_placement_policy.hpp\<close>). The code looks for diagonals of ones in the matrix; each of them
  copies a range of address bits to a range of index bits. Ranges with the same shift are joined.

  The notation of formulas is given by \<open>render\<close>. What a range \<open>a[first:last]\<close> means is nowhere documented for the user. A comment in
  the code calls the first bit inclusive and the last one exclusive (\<open>documented_value\<close>); the code computes the numbers so that
  the first bit is excluded and the last one included (\<open>formula_value\<close>). The theorem says what the printed text is under either reading: the
  placement function in the latter, the placement function of the address shifted by one bit in the former.
\<close>

section \<open>Definitions\<close>

subsection \<open>find_groups\<close>

definition read_matrix :: "affine_placement_policy \<Rightarrow> nat \<Rightarrow> nat \<Rightarrow> bool" where
  "read_matrix q r c = bit (ap_matrix q ! r) (64 - c - 1)"

function trace_diagonal :: "affine_placement_policy \<Rightarrow> nat \<Rightarrow> nat \<Rightarrow> nat \<Rightarrow> nat \<times> nat \<times> nat" where
  "trace_diagonal q len temp_r temp_c =
     (if temp_r < length (ap_matrix q) \<and> temp_c < 64 \<and> read_matrix q temp_r temp_c
      then trace_diagonal q (len + 1) (temp_r + 1) (temp_c + 1)
      else (len, temp_r, temp_c))"
  by pat_completeness auto
termination
  by (relation "measure (\<lambda>(q, _, r, _). length (ap_matrix q) - r)") auto

declare trace_diagonal.simps [simp del]

text \<open>A group is a shift, the first bit and the last bit of a range. The shift is a difference of \<open>std::size_t\<close> values.\<close>

type_synonym bit_group = "uintptr \<times> nat \<times> nat"

definition cell_groups :: "affine_placement_policy \<Rightarrow> nat \<Rightarrow> nat \<Rightarrow> bit_group list" where
  "cell_groups q r c =
     (if read_matrix q r c \<and> (r = 0 \<or> c = 0 \<or> \<not> read_matrix q (r - 1) (c - 1)) then
        (let (len, temp_r, temp_c) = trace_diagonal q 1 r c
         in [(of_nat (affine_index_bits q) - of_nat temp_r, 64 - temp_c + len - 1, 64 - temp_c)])
      else [])"

definition find_groups :: "affine_placement_policy \<Rightarrow> bit_group list" where
  "find_groups q = concat (map (\<lambda>r. concat (map (cell_groups q r) [0..<64])) [0..<length (ap_matrix q)])"

subsection \<open>Strings\<close>

fun binary_digits :: "nat \<Rightarrow> string" where
  "binary_digits n = (if n < 2 then [char_of (48 + n)] else binary_digits (n div 2) @ [char_of (48 + n mod 2)])"

declare binary_digits.simps [simp del]

text \<open>\<open>fmt::join\<close> and the format \<open>{:#b}\<close>.\<close>

fun fmt_join :: "string \<Rightarrow> string list \<Rightarrow> string" where
  "fmt_join sep [] = []"
| "fmt_join sep [x] = x"
| "fmt_join sep (x # y # xs) = x @ sep @ fmt_join sep (y # xs)"

definition fmt_binary :: "uintptr \<Rightarrow> string" where
  "fmt_binary w = ''0b'' @ binary_digits (unat w)"

definition matrix_string :: "affine_placement_policy \<Rightarrow> string" where
  "matrix_string q = ''['' @ fmt_join '', '' (map fmt_binary (ap_matrix q)) @ '']''"

definition vector_string :: "affine_placement_policy \<Rightarrow> string" where
  "vector_string q = fmt_binary (ap_vector q)"

definition range_string :: "nat \<times> nat \<Rightarrow> string" where
  "range_string = (\<lambda>(first, lst). ''a['' @ nat_to_string first @ '':'' @ nat_to_string lst @ '']'')"

definition close_group :: "uintptr \<Rightarrow> string \<Rightarrow> string" where
  "close_group shift current =
     (if shift \<noteq> 0 then ''(('' @ current @ '') << '' @ nat_to_string (unat shift) @ '')'' else ''('' @ current @ '')'')"

text \<open>The loop over the groups; \<open>prev\<close> is the shift of the group before, \<open>None\<close> for the first one.\<close>

fun format_loop :: "uintptr option \<Rightarrow> string list \<Rightarrow> string \<Rightarrow> bit_group list \<Rightarrow> string list \<times> string" where
  "format_loop prev group_strings current [] = (group_strings, current)"
| "format_loop prev group_strings current (g # groups) =
     (let (group_strings', current') =
        (if prev = None \<or> prev = Some (fst g) then (group_strings, if current \<noteq> [] then current @ '' ^ '' else current)
         else (group_strings @ [close_group (the prev) current], []))
      in format_loop (Some (fst g)) group_strings' (current' @ range_string (snd g)) groups)"

text \<open>\<open>std::sort\<close> on the reversed range sorts in descending order; \<open>back\<close> of an empty vector is undefined.\<close>

definition affine_to_string :: "affine_placement_policy \<Rightarrow> string option" where
  "affine_to_string q = do {
     let groups = rev (sort (find_groups q));
     let (group_strings, current) = format_loop None [] [] groups;
     require (groups \<noteq> []);
     let strings = group_strings @ [close_group (fst (last groups)) current];
     let extra = (if ap_vector q \<noteq> 0 then '' ^ '' @ fmt_binary (drop_bit (ap_offset_bits q) (ap_vector q)) else []);
     Some (''I(a) = '' @ fmt_join '' ^ '' strings @ extra) }"

section \<open>Formulas\<close>

text \<open>Shifted terms, each a list of ranges of address bits, and a constant.\<close>

record formula =
  f_terms :: "(uintptr \<times> (nat \<times> nat) list) list"
  f_constant :: "uintptr option"

definition xor_list :: "uintptr list \<Rightarrow> uintptr" where
  "xor_list ws = foldr (XOR) ws 0"

definition range_value :: "uintptr \<Rightarrow> nat \<times> nat \<Rightarrow> uintptr" where
  "range_value a = (\<lambda>(hi, lo). take_bit (hi - lo) (drop_bit lo a))"

definition term_value :: "uintptr \<Rightarrow> uintptr \<times> (nat \<times> nat) list \<Rightarrow> uintptr" where
  "term_value a = (\<lambda>(shift, ranges). push_bit (unat shift) (xor_list (map (range_value a) ranges)))"

definition formula_value :: "formula \<Rightarrow> uintptr \<Rightarrow> uintptr" where
  "formula_value f a = xor_list (map (term_value a) (f_terms f)) XOR (case f_constant f of None \<Rightarrow> 0 | Some v \<Rightarrow> v)"

text \<open>The reading of the comment at \<open>find_groups\<close>: from the bit after \<open>last\<close> to \<open>first\<close>.\<close>

definition documented_range :: "uintptr \<Rightarrow> nat \<times> nat \<Rightarrow> uintptr" where
  "documented_range a = (\<lambda>(first, lst). take_bit (first - lst) (drop_bit (lst + 1) a))"

definition documented_value :: "formula \<Rightarrow> uintptr \<Rightarrow> uintptr" where
  "documented_value f a =
     xor_list (map (\<lambda>(shift, ranges). push_bit (unat shift) (xor_list (map (documented_range a) ranges))) (f_terms f)) XOR
     (case f_constant f of None \<Rightarrow> 0 | Some v \<Rightarrow> v)"

definition render_term :: "uintptr \<times> (nat \<times> nat) list \<Rightarrow> string" where
  "render_term = (\<lambda>(shift, ranges). close_group shift (fmt_join '' ^ '' (map range_string ranges)))"

definition render :: "formula \<Rightarrow> string" where
  "render f = ''I(a) = '' @ fmt_join '' ^ '' (map render_term (f_terms f)) @
     (case f_constant f of None \<Rightarrow> [] | Some v \<Rightarrow> '' ^ '' @ fmt_binary v)"

section \<open>Exclusive or of many words\<close>

lemma xor_list_simps [simp]: "xor_list [] = 0" "xor_list (w # ws) = w XOR xor_list ws"
  by (simp_all add: xor_list_def)

lemma xor_list_append [simp]: "xor_list (vs @ ws) = xor_list vs XOR xor_list ws"
  by (induction vs) (simp_all add: xor.assoc)

lemma bit_xor_list: "bit (xor_list ws) n \<longleftrightarrow> odd (length (filter (\<lambda>w. bit w n) ws))"
  by (induction ws) (auto simp: bit_xor_iff)

lemma xor_list_perm: "mset vs = mset ws \<Longrightarrow> xor_list vs = xor_list ws"
proof (rule bit_eqI)
  fix n assume "mset vs = mset ws"
  then have "size (filter_mset (\<lambda>w. bit w n) (mset vs)) = size (filter_mset (\<lambda>w. bit w n) (mset ws))" by simp
  then show "bit (xor_list vs) n = bit (xor_list ws) n" by (metis bit_xor_list mset_filter size_mset)
qed

lemma push_xor_list: "push_bit k (xor_list ws) = xor_list (map (push_bit k) ws)"
  by (induction ws) (simp_all add: push_bit_xor)

section \<open>Joining the groups\<close>

abbreviation ungroup :: "(uintptr \<times> (nat \<times> nat) list) list \<Rightarrow> bit_group list" where
  "ungroup ts \<equiv> concat (map (\<lambda>(s, fs). map (Pair s) fs) ts)"

definition group_value :: "uintptr \<Rightarrow> bit_group \<Rightarrow> uintptr" where
  "group_value a g = push_bit (unat (fst g)) (range_value a (snd g))"

lemma terms_value: "xor_list (map (term_value a) ts) = xor_list (map (group_value a) (ungroup ts))"
proof (induction ts)
  case (Cons t ts)
  then show ?case by (cases t) (simp add: term_value_def push_xor_list group_value_def comp_def)
qed simp

lemma fmt_join_snoc: "xs \<noteq> [] \<Longrightarrow> fmt_join sep (xs @ [x]) = fmt_join sep xs @ sep @ x"
  by (induction sep xs rule: fmt_join.induct) auto

lemma ranges_nonempty: "fs \<noteq> [] \<Longrightarrow> fmt_join '' ^ '' (map range_string fs) \<noteq> []"
  by (cases fs rule: list.exhaust, simp, cases "tl fs") (auto simp: range_string_def split: prod.splits)

lemma format_loop_terms:
  "fs \<noteq> [] \<Longrightarrow> \<exists>ts s' fs'. format_loop (Some s) gs (fmt_join '' ^ '' (map range_string fs)) groups =
      (gs @ map render_term ts, fmt_join '' ^ '' (map range_string fs')) \<and>
    map (Pair s) fs @ groups = ungroup (ts @ [(s', fs')]) \<and> fst (last (map (Pair s) fs @ groups)) = s' \<and> fs' \<noteq> [] \<and> list_all (\<lambda>t. snd t \<noteq> []) ts"
proof (induction groups arbitrary: s gs fs)
  case Nil
  then show ?case by (intro exI [of _ "[]"] exI [of _ s] exI [of _ fs]) (simp add: last_map)
next
  case (Cons g groups)
  obtain t f where g: "g = (t, f)" by (cases g)
  note ne = ranges_nonempty [OF Cons.prems]
  show ?case
  proof (cases "t = s")
    case True
    have "fs @ [f] \<noteq> []" by simp
    from Cons.IH [OF this, of s gs] obtain ts s' fs' where
      "format_loop (Some s) gs (fmt_join '' ^ '' (map range_string (fs @ [f]))) groups = (gs @ map render_term ts, fmt_join '' ^ '' (map range_string fs'))"
      "map (Pair s) (fs @ [f]) @ groups = ungroup (ts @ [(s', fs')])" "fst (last (map (Pair s) (fs @ [f]) @ groups)) = s'"
      "fs' \<noteq> []" "list_all (\<lambda>t. snd t \<noteq> []) ts" by blast
    then show ?thesis using True g ne Cons.prems
      by (intro exI [of _ ts] exI [of _ s'] exI [of _ fs']) (simp add: fmt_join_snoc)
  next
    case False
    have "[f] \<noteq> []" by simp
    from Cons.IH [OF this, of t "gs @ [close_group s (fmt_join '' ^ '' (map range_string fs))]"] obtain ts s' fs' where
      i: "format_loop (Some t) (gs @ [close_group s (fmt_join '' ^ '' (map range_string fs))]) (range_string f) groups =
        ((gs @ [close_group s (fmt_join '' ^ '' (map range_string fs))]) @ map render_term ts, fmt_join '' ^ '' (map range_string fs'))"
      "(t, f) # groups = ungroup (ts @ [(s', fs')])" "fst (last ((t, f) # groups)) = s'" "fs' \<noteq> []" "list_all (\<lambda>t. snd t \<noteq> []) ts"
      unfolding list.map fmt_join.simps append.simps by blast
    show ?thesis
    proof (intro exI conjI)
      show "format_loop (Some s) gs (fmt_join '' ^ '' (map range_string fs)) (g # groups) =
        (gs @ map render_term ((s, fs) # ts), fmt_join '' ^ '' (map range_string fs'))"
        using False g i(1) by (simp add: render_term_def)
      show "map (Pair s) fs @ g # groups = ungroup (((s, fs) # ts) @ [(s', fs')])" using g i(2) by simp
      show "fst (last (map (Pair s) fs @ g # groups)) = s'" using g i(3) by simp
      show "fs' \<noteq> []" by (rule i(4))
      show "list_all (\<lambda>t. snd t \<noteq> []) ((s, fs) # ts)" using i(5) Cons.prems by simp
    qed
  qed
qed

lemma format_groups:
  assumes "groups \<noteq> []"
  shows "\<exists>ts. (\<exists>gs cur. format_loop None [] [] groups = (gs, cur) \<and> gs @ [close_group (fst (last groups)) cur] = map render_term ts) \<and>
    ungroup ts = groups \<and> list_all (\<lambda>t. snd t \<noteq> []) ts"
proof -
  obtain s f rest where g: "groups = (s, f) # rest" using assms by (cases groups) auto
  have "[f] \<noteq> []" by simp
  from format_loop_terms [OF this, of s "[]" rest] obtain ts s' fs' where
    i: "format_loop (Some s) [] (range_string f) rest = (map render_term ts, fmt_join '' ^ '' (map range_string fs'))"
    "(s, f) # rest = ungroup (ts @ [(s', fs')])" "fst (last ((s, f) # rest)) = s'" "fs' \<noteq> []" "list_all (\<lambda>t. snd t \<noteq> []) ts"
    unfolding list.map fmt_join.simps append.simps by blast
  have "format_loop None [] [] groups = (map render_term ts, fmt_join '' ^ '' (map range_string fs'))" using i(1) by (simp add: g)
  moreover have "close_group (fst (last groups)) (fmt_join '' ^ '' (map range_string fs')) = render_term (s', fs')"
    using i(3) by (simp only: g render_term_def prod.case)
  ultimately show ?thesis using i(2,4,5) g by (intro exI [of _ "ts @ [(s', fs')]"]) simp
qed

section \<open>Diagonals\<close>

definition one :: "affine_placement_policy \<Rightarrow> nat \<Rightarrow> nat \<Rightarrow> bool" where
  "one q r c \<longleftrightarrow> r < length (ap_matrix q) \<and> c < 64 \<and> read_matrix q r c"

definition run :: "affine_placement_policy \<Rightarrow> nat \<Rightarrow> nat \<Rightarrow> nat" where
  "run q r c = fst (trace_diagonal q 0 r c)"

lemma trace_shift: "trace_diagonal q (len + k) r c = (let (l, r', c') = trace_diagonal q len r c in (l + k, r', c'))"
proof (induction q len r c rule: trace_diagonal.induct)
  case (1 q len r c)
  then show ?case by (subst (1 2) trace_diagonal.simps) (simp add: Let_def split: prod.splits)
qed

lemma run_rec: "run q r c = (if one q r c then Suc (run q (Suc r) (Suc c)) else 0)"
  using trace_shift [of q 0 1 "r + 1" "c + 1"]
  by (subst run_def, subst trace_diagonal.simps) (auto simp: run_def one_def split: prod.splits)

lemma trace_run: "trace_diagonal q len r c = (len + run q r c, r + run q r c, c + run q r c)"
proof (induction q len r c rule: trace_diagonal.induct)
  case (1 q len r c)
  then show ?case by (subst trace_diagonal.simps, subst (1 2 3) run_rec) (auto simp: one_def)
qed

lemma run_ones: "i < run q r c \<Longrightarrow> one q (r + i) (c + i)"
proof (induction i arbitrary: r c)
  case 0
  then show ?case by (subst (asm) run_rec) (simp split: if_splits)
next
  case (Suc i)
  from Suc.prems have "i < run q (Suc r) (Suc c)" by (subst (asm) run_rec) (simp split: if_splits)
  from Suc.IH [OF this] show ?case by simp
qed

lemma run_stops: "\<not> one q (r + run q r c) (c + run q r c)"
proof (induction "length (ap_matrix q) - r" arbitrary: r c)
  case 0
  then show ?case by (simp add: one_def)
next
  case (Suc n)
  show ?case
  proof (cases "one q r c")
    case True
    have "n = length (ap_matrix q) - Suc r" using Suc.hyps(2) by simp
    from Suc.hyps(1) [OF this, of "Suc c"] True show ?thesis by (simp add: run_rec [of q r c])
  next
    case False
    then show ?thesis by (simp add: run_rec [of q r c])
  qed
qed

text \<open>The cells where a diagonal starts.\<close>

definition start :: "affine_placement_policy \<Rightarrow> nat \<Rightarrow> nat \<Rightarrow> bool" where
  "start q r c \<longleftrightarrow> one q r c \<and> (r = 0 \<or> c = 0 \<or> \<not> one q (r - 1) (c - 1))"

text \<open>Every one lies on the diagonal of exactly one start.\<close>

lemma start_exists:
  "one q r c \<Longrightarrow> \<exists>r0 c0. start q r0 c0 \<and> r0 \<le> r \<and> c0 + (r - r0) = c \<and> r < r0 + run q r0 c0"
proof (induction r arbitrary: c)
  case 0
  then show ?case by (intro exI [of _ 0] exI [of _ c]) (simp add: start_def run_rec)
next
  case (Suc r)
  show ?case
  proof (cases "start q (Suc r) c")
    case True
    then show ?thesis using Suc.prems by (intro exI [of _ "Suc r"] exI [of _ c]) (simp add: run_rec)
  next
    case False
    with Suc.prems have c: "c \<noteq> 0" "one q r (c - 1)" by (auto simp: start_def)
    from Suc.IH [OF c(2)] obtain r0 c0 where s: "start q r0 c0" "r0 \<le> r" "c0 + (r - r0) = c - 1" "r < r0 + run q r0 c0" by blast
    have "Suc r \<noteq> r0 + run q r0 c0"
    proof
      assume e: "Suc r = r0 + run q r0 c0"
      then have "c = c0 + run q r0 c0" using s(2,3) c(1) by linarith
      with e run_stops [of q r0 c0] Suc.prems show False by simp
    qed
    with s c(1) show ?thesis by (intro exI [of _ r0] exI [of _ c0]) linarith
  qed
qed

lemma start_unique_below:
  assumes "start q r' c'" and "r < r'" and "r' - 1 < r + run q r c" and "c + (r' - r) = c'"
  shows False
proof -
  have "one q (r + (r' - 1 - r)) (c + (r' - 1 - r))" using assms(2,3) by (intro run_ones) linarith
  moreover have "r + (r' - 1 - r) = r' - 1" "c + (r' - 1 - r) = c' - 1" "r' \<noteq> 0" "c' \<noteq> 0" using assms(2,4) by linarith+
  ultimately show False using assms(1) by (simp add: start_def)
qed

lemma start_unique:
  assumes "start q r c" and "start q r' c'" and "r \<le> p" and "r' \<le> p" and "p < r + run q r c" and "p < r' + run q r' c'"
    and "c + (p - r) = c' + (p - r')"
  shows "r = r' \<and> c = c'"
proof -
  have "r' - 1 < r + run q r c" "r - 1 < r' + run q r' c'" using assms(3-6) by linarith+
  moreover have "r < r' \<Longrightarrow> c + (r' - r) = c'" "r' < r \<Longrightarrow> c' + (r - r') = c" using assms(3,4,7) by linarith+
  ultimately have "\<not> r < r'" "\<not> r' < r" using start_unique_below [OF assms(2), of r c] start_unique_below [OF assms(1), of r' c'] by blast+
  then show ?thesis using assms(7) by simp
qed

section \<open>The value of the groups\<close>

definition starts :: "affine_placement_policy \<Rightarrow> (nat \<times> nat) list" where
  "starts q = filter (\<lambda>(r, c). start q r c) (List.product [0..<length (ap_matrix q)] [0..<64])"

definition diagonal_group :: "affine_placement_policy \<Rightarrow> nat \<times> nat \<Rightarrow> bit_group" where
  "diagonal_group q = (\<lambda>(r, c). (of_nat (affine_index_bits q) - of_nat (r + run q r c), 64 - (c + run q r c) + run q r c, 64 - (c + run q r c)))"

lemma concat_cells:
  "concat (map (\<lambda>r. concat (map (\<lambda>c. if P r c then [f (r, c)] else []) cs)) rs) = map f (filter (\<lambda>(r, c). P r c) (List.product rs cs))"
proof (induction rs)
  case (Cons r rs)
  have "concat (map (\<lambda>c. if P r c then [f (r, c)] else []) cs) = map f (filter (\<lambda>(r, c). P r c) (map (Pair r) cs))"
    by (induction cs) auto
  with Cons show ?case by simp
qed simp

lemma find_groups_starts: "find_groups q = map (diagonal_group q) (starts q)"
proof -
  have "cell_groups q r c = (if start q r c then [diagonal_group q (r, c)] else [])" if "r < length (ap_matrix q)" "c < 64" for r c
  proof -
    have "read_matrix q r c \<and> (r = 0 \<or> c = 0 \<or> \<not> read_matrix q (r - 1) (c - 1)) \<longleftrightarrow> start q r c"
      using that by (auto simp: start_def one_def)
    then show ?thesis by (simp add: cell_groups_def trace_run diagonal_group_def)
  qed
  then have "find_groups q = concat (map (\<lambda>r. concat (map (\<lambda>c. if start q r c then [diagonal_group q (r, c)] else []) [0..<64])) [0..<length (ap_matrix q)])"
    unfolding find_groups_def by (intro arg_cong [where f = concat] map_cong refl) auto
  then show ?thesis by (simp only: concat_cells starts_def)
qed

lemma set_starts: "(r, c) \<in> set (starts q) \<longleftrightarrow> start q r c"
  by (auto simp: starts_def start_def one_def)

lemma distinct_starts: "distinct (starts q)"
  by (simp add: starts_def distinct_product)

text \<open>The policies that the reverser builds: the rows for the offset bits come last and are zero.\<close>

definition offset_rows_zero :: "affine_placement_policy \<Rightarrow> bool" where
  "offset_rows_zero q \<longleftrightarrow> (\<forall>i. affine_index_bits q \<le> i \<longrightarrow> i < length (ap_matrix q) \<longrightarrow> ap_matrix q ! i = 0)"

lemma index_bits_rows: "affine_wf q \<Longrightarrow> affine_index_bits q + ap_offset_bits q = length (ap_matrix q) \<and> length (ap_matrix q) < 31"
  unfolding affine_index_bits_def affine_wf_def by (auto simp: nat_diff_distrib')

lemma one_index_row: "offset_rows_zero q \<Longrightarrow> one q r c \<Longrightarrow> r < affine_index_bits q"
  unfolding offset_rows_zero_def one_def read_matrix_def by (metis bit_0_eq bot_apply bot_bool_def not_le)

lemma flip_bit_index:
  fixes k :: nat
  assumes "k - (r + n) \<le> m" and "m - (k - (r + n)) < n" and "r + n \<le> k" and "c + n \<le> 64" and "0 < n"
  shows "64 - (c + n) + (m - (k - (r + n))) = 63 - (c + (k - 1 - m - r))"
  using assms by linarith

lemma flip_bit_bounds:
  fixes k :: nat
  assumes "r + n \<le> k" and "0 < n" and "k < 31"
  shows "m < 64 \<and> k - (r + n) \<le> m \<and> m - (k - (r + n)) < n \<longleftrightarrow> m < k \<and> r \<le> k - 1 - m \<and> k - 1 - m < r + n"
proof (cases "m < k")
  case True
  then obtain d where "k = m + 1 + d" by (auto simp: less_iff_Suc_add)
  then show ?thesis using assms by auto
qed (use assms in auto)

lemma start_run:
  assumes "offset_rows_zero q" and "start q r c"
  shows "0 < run q r c" and "r + run q r c \<le> affine_index_bits q" and "c + run q r c \<le> 64"
proof -
  have "one q r c" using assms(2) by (simp add: start_def)
  then have n: "run q r c = Suc (run q (Suc r) (Suc c))" by (simp only: run_rec [of q r c] if_True)
  then have o: "one q (r + run q (Suc r) (Suc c)) (c + run q (Suc r) (Suc c))" by (intro run_ones) simp
  show "0 < run q r c" by (simp only: n zero_less_Suc)
  show "r + run q r c \<le> affine_index_bits q" using one_index_row [OF assms(1) o] by (simp only: n)
  show "c + run q r c \<le> 64" using o unfolding n one_def by linarith
qed

lemma group_bit:
  assumes wf: "affine_wf q" "offset_rows_zero q" and st: "start q r c"
  shows "bit (group_value a (diagonal_group q (r, c))) m \<longleftrightarrow> m < affine_index_bits q \<and>
    r \<le> affine_index_bits q - 1 - m \<and> affine_index_bits q - 1 - m < r + run q r c \<and> bit a (63 - (c + (affine_index_bits q - 1 - m - r)))"
proof -
  define k n where "k = affine_index_bits q" and "n = run q r c"
  note le = start_run [OF wf(2) st, folded k_def n_def]
  have k: "k < 31" using index_bits_rows [OF wf(1)] by (simp add: k_def)
  have "of_nat k - of_nat (r + n) = (of_nat (k - (r + n)) :: uintptr)" using le(2) by (simp only: of_nat_diff)
  then have "unat (of_nat k - of_nat (r + n) :: uintptr) = k - (r + n)" using k by (simp add: unat_of_nat take_bit_nat_eq_self del: of_nat_diff)
  then have "bit (group_value a (diagonal_group q (r, c))) m \<longleftrightarrow>
      m < 64 \<and> k - (r + n) \<le> m \<and> m - (k - (r + n)) < n \<and> bit a (64 - (c + n) + (m - (k - (r + n))))"
    unfolding group_value_def diagonal_group_def range_value_def prod.case fst_conv snd_conv k_def [symmetric] n_def [symmetric]
    by (simp add: bit_push_bit_iff bit_take_bit_iff bit_drop_bit_eq conj_ac)
  moreover have "k - (r + n) \<le> m \<Longrightarrow> m - (k - (r + n)) < n \<Longrightarrow> 64 - (c + n) + (m - (k - (r + n))) = 63 - (c + (k - 1 - m - r))"
    using le by (intro flip_bit_index)
  moreover note flip_bit_bounds [OF le(2,1) k, of m]
  ultimately show ?thesis unfolding k_def [symmetric] n_def [symmetric] by metis
qed

text \<open>The starts that contribute to an index bit correspond to the ones in its row.\<close>

lemma row_ones:
  assumes "p < length (ap_matrix q)"
  shows "card {(r, c). start q r c \<and> r \<le> p \<and> p < r + run q r c \<and> bit a (63 - (c + (p - r)))} = popcount (ap_matrix q ! p AND a)"
proof -
  let ?T = "{(r, c). start q r c \<and> r \<le> p \<and> p < r + run q r c \<and> bit a (63 - (c + (p - r)))}"
  let ?C = "{n. n < 64 \<and> bit (ap_matrix q ! p AND a) n}"
  have "inj_on (\<lambda>(r, c). 63 - (c + (p - r))) ?T"
  proof (rule inj_onI, clarify)
    fix r c r' c'
    assume s: "start q r c" "r \<le> p" "p < r + run q r c" "start q r' c'" "r' \<le> p" "p < r' + run q r' c'"
      "63 - (c + (p - r)) = 63 - (c' + (p - r'))"
    have "c + (p - r) < 64" "c' + (p - r') < 64"
      using run_ones [of "p - r" q r c] run_ones [of "p - r'" q r' c'] s by (simp_all add: one_def)
    with s(7) have "c + (p - r) = c' + (p - r')" by linarith
    with start_unique [OF s(1,4,2,5,3,6)] show "r = r' \<and> c = c'" by blast
  qed
  moreover have "(\<lambda>(r, c). 63 - (c + (p - r))) ` ?T = ?C"
  proof (intro subset_antisym subsetI)
    fix x assume "x \<in> (\<lambda>(r, c). 63 - (c + (p - r))) ` ?T"
    then obtain r c where s: "x = 63 - (c + (p - r))" "r \<le> p" "p < r + run q r c" "bit a x" by auto
    from run_ones [of "p - r" q r c] s have "one q p (c + (p - r))" by simp
    then show "x \<in> ?C" using s(1,4) by (auto simp: one_def read_matrix_def bit_and_iff)
  next
    fix x assume x: "x \<in> ?C"
    then have "one q p (63 - x)" using assms by (auto simp: one_def read_matrix_def bit_and_iff)
    from start_exists [OF this] obtain r c where s: "start q r c" "r \<le> p" "c + (p - r) = 63 - x" "p < r + run q r c" by blast
    moreover have "63 - (c + (p - r)) = x" using s(3) x by auto
    ultimately show "x \<in> (\<lambda>(r, c). 63 - (c + (p - r))) ` ?T"
      using x by (intro image_eqI [of _ _ "(r, c)"]) (simp_all add: bit_and_iff del: diff_diff_left diff_diff_right)
  qed
  ultimately have "bij_betw (\<lambda>(r, c). 63 - (c + (p - r))) ?T ?C" by (simp add: bij_betw_def)
  then show ?thesis unfolding popcount_card by (rule bij_betw_same_card)
qed

lemma groups_bit:
  assumes wf: "affine_wf q" "offset_rows_zero q"
  shows "bit (xor_list (map (group_value a) (find_groups q))) m \<longleftrightarrow>
    m < affine_index_bits q \<and> odd (popcount (ap_matrix q ! (affine_index_bits q - 1 - m) AND a))"
proof -
  let ?k = "affine_index_bits q"
  let ?P = "\<lambda>x. bit (group_value a (diagonal_group q x)) m"
  let ?T = "{(r, c). start q r c \<and> r \<le> ?k - 1 - m \<and> ?k - 1 - m < r + run q r c \<and> bit a (63 - (c + (?k - 1 - m - r)))}"
  have "length (filter ?P (starts q)) = card {x \<in> set (starts q). ?P x}"
    using distinct_card [OF distinct_filter [OF distinct_starts], of ?P q] by simp
  moreover have "{x \<in> set (starts q). ?P x} = (if m < ?k then ?T else {})"
    using group_bit [OF wf] by (auto simp: set_starts)
  moreover have "m < ?k \<Longrightarrow> ?k - 1 - m < length (ap_matrix q)" using index_bits_rows [OF wf(1)] by linarith
  ultimately show ?thesis
    using row_ones [of "?k - 1 - m" q a] by (auto simp: bit_xor_list find_groups_starts filter_map comp_def)
qed

lemma groups_value:
  assumes wf: "affine_wf q" "offset_rows_zero q"
  shows "unat (xor_list (map (group_value a) (find_groups q)) XOR drop_bit (ap_offset_bits q) (ap_vector q)) = affine_place q a"
proof -
  have len: "affine_index_bits q + ap_offset_bits q = length (ap_matrix q)" "length (ap_matrix q) < 31" using index_bits_rows [OF wf(1)] by auto
  have "bit (xor_list (map (group_value a) (find_groups q))) m = bit (affine_loop (ap_matrix q) a 0) (ap_offset_bits q + m)" for m
  proof -
    have "m < affine_index_bits q \<Longrightarrow> length (ap_matrix q) - 1 - (ap_offset_bits q + m) = affine_index_bits q - 1 - m" using len(1) by linarith
    then show ?thesis unfolding groups_bit [OF wf] affine_loop_bit using len by auto
  qed
  then have "xor_list (map (group_value a) (find_groups q)) XOR drop_bit (ap_offset_bits q) (ap_vector q) =
      drop_bit (ap_offset_bits q) (affine_loop (ap_matrix q) a 0 XOR ap_vector q)"
    by (intro bit_eqI) (simp add: bit_xor_iff bit_drop_bit_eq)
  then show ?thesis by (simp add: affine_place_def)
qed

section \<open>The text has one reading\<close>

text \<open>Formulas with at least one term and at least one range in each.\<close>

definition formula_ok :: "formula \<Rightarrow> bool" where
  "formula_ok f \<longleftrightarrow> f_terms f \<noteq> [] \<and> list_all (\<lambda>t. snd t \<noteq> []) (f_terms f)"

lemma nat_to_string_cancel:
  assumes "nat_to_string m @ x # s = nat_to_string n @ y # t" and "\<not> is_digit x" and "\<not> is_digit y"
  shows "m = n \<and> x = y \<and> s = t"
proof -
  have take: "takeWhile is_digit (nat_to_string k @ z # u) = nat_to_string k" if "\<not> is_digit z" for k z u
    using that nat_to_string_digits [of k] by (simp add: takeWhile_append)
  have "nat_to_string m = nat_to_string n" using arg_cong [OF assms(1), of "takeWhile is_digit"] assms(2,3) by (simp add: take)
  then show ?thesis using assms(1) by (metis append_same_eq digits_value_nat_to_string list.inject same_append_eq)
qed

lemma punctuation_no_digit: "\<not> is_digit CHR '':''" "\<not> is_digit CHR '']''" "\<not> is_digit CHR '')''"
  by (simp_all add: is_digit_def)

lemma range_string_cancel: "range_string f @ s = range_string g @ t \<Longrightarrow> f = g \<and> s = t"
  by (cases f; cases g) (auto simp: range_string_def dest!: nat_to_string_cancel simp: punctuation_no_digit)

lemma ranges_cancel:
  "fs \<noteq> [] \<Longrightarrow> gs \<noteq> [] \<Longrightarrow>
    fmt_join '' ^ '' (map range_string fs) @ CHR '')'' # s = fmt_join '' ^ '' (map range_string gs) @ CHR '')'' # t \<Longrightarrow> fs = gs \<and> s = t"
proof (induction fs arbitrary: gs)
  case (Cons f fs)
  obtain g gs' where gs: "gs = g # gs'" using Cons.prems(2) by (cases gs) auto
  have eq: "fmt_join '' ^ '' (map range_string (f # fs)) @ CHR '')'' # s = fmt_join '' ^ '' (map range_string (g # gs')) @ CHR '')'' # t"
    using Cons.prems(3) gs by simp
  show ?case
  proof (cases fs)
    case Nil
    then show ?thesis using eq gs by (cases gs') (auto dest: range_string_cancel)
  next
    case (Cons f' fs')
    show ?thesis
    proof (cases gs')
      case Nil
      then show ?thesis using eq Cons by (auto dest: range_string_cancel)
    next
      case (Cons g' gs'')
      then show ?thesis using eq \<open>fs = f' # fs'\<close> Cons.IH [of gs'] gs by (auto dest: range_string_cancel)
    qed
  qed
qed simp

lemma ranges_start: "fs \<noteq> [] \<Longrightarrow> \<exists>u. fmt_join '' ^ '' (map range_string fs) = CHR ''a'' # u"
  by (cases fs rule: list.exhaust, simp, cases "tl fs") (auto simp: range_string_def split: prod.splits)

lemma render_term_cancel:
  assumes "snd t \<noteq> []" and "snd u \<noteq> []" and "render_term t @ x = render_term u @ y"
  shows "t = u \<and> x = y"
proof -
  obtain k fs l gs where tu: "t = (k, fs)" "u = (l, gs)" by (cases t, cases u)
  obtain v w where v: "fmt_join '' ^ '' (map range_string fs) = CHR ''a'' # v" "fmt_join '' ^ '' (map range_string gs) = CHR ''a'' # w"
    using ranges_start assms(1,2) tu by fastforce
  have z: "k = 0 \<longleftrightarrow> l = 0" using assms(3) v by (simp add: tu render_term_def close_group_def split: if_splits)
  then have "fmt_join '' ^ '' (map range_string fs) @ CHR '')'' # (if k = 0 then x else '' << '' @ nat_to_string (unat k) @ CHR '')'' # x) =
      fmt_join '' ^ '' (map range_string gs) @ CHR '')'' # (if l = 0 then y else '' << '' @ nat_to_string (unat l) @ CHR '')'' # y)"
    using assms(3) by (simp add: tu render_term_def close_group_def split: if_splits)
  from ranges_cancel [OF _ _ this] assms(1,2) have "fs = gs"
    "(if k = 0 then x else '' << '' @ nat_to_string (unat k) @ CHR '')'' # x) = (if l = 0 then y else '' << '' @ nat_to_string (unat l) @ CHR '')'' # y)"
    by (simp_all add: tu)
  then show ?thesis using z by (auto simp: tu word_unat_eq_iff dest!: nat_to_string_cancel simp: punctuation_no_digit split: if_splits)
qed

text \<open>What can follow the terms: nothing, or a constant.\<close>

abbreviation constant_string :: "uintptr option \<Rightarrow> string" where
  "constant_string k \<equiv> (case k of None \<Rightarrow> [] | Some v \<Rightarrow> '' ^ '' @ fmt_binary v)"

lemma term_start: "\<exists>u. fmt_join '' ^ '' (map render_term (t # ts)) = CHR ''('' # u"
  by (cases t; cases ts) (auto simp: render_term_def close_group_def)

lemma terms_cancel:
  "ts \<noteq> [] \<Longrightarrow> us \<noteq> [] \<Longrightarrow> list_all (\<lambda>t. snd t \<noteq> []) ts \<Longrightarrow> list_all (\<lambda>t. snd t \<noteq> []) us \<Longrightarrow>
    fmt_join '' ^ '' (map render_term ts) @ constant_string k = fmt_join '' ^ '' (map render_term us) @ constant_string l \<Longrightarrow>
    ts = us \<and> constant_string k = constant_string l"
proof (induction ts arbitrary: us)
  case (Cons t ts)
  obtain u us' where us: "us = u # us'" using Cons.prems(2) by (cases us) auto
  define rest where "rest = (\<lambda>ts k. (if ts = [] then constant_string k else '' ^ '' @ fmt_join '' ^ '' (map render_term ts) @ constant_string k))"
  have split: "fmt_join '' ^ '' (map render_term (t # ts)) @ constant_string k = render_term t @ rest ts k" for t ts k
    by (cases ts) (simp_all add: rest_def)
  have tu: "t = u" "rest ts k = rest us' l"
    using render_term_cancel [of t u "rest ts k" "rest us' l"] Cons.prems(3-5) unfolding us split by simp_all
  have rest_empty: "rest xs k \<noteq> constant_string l" if "xs \<noteq> []" for xs k l
    using that term_start [of "hd xs" "tl xs"] by (auto simp: rest_def fmt_binary_def split: option.splits)
  then have e: "ts = [] \<longleftrightarrow> us' = []" using tu(2) rest_def by metis
  show ?case
  proof (cases "ts = []")
    case True
    then show ?thesis using tu us e by (simp add: rest_def)
  next
    case False
    then have "fmt_join '' ^ '' (map render_term ts) @ constant_string k = fmt_join '' ^ '' (map render_term us') @ constant_string l"
      using tu(2) e by (simp add: rest_def)
    then show ?thesis using Cons.IH [of us'] Cons.prems(3,4) False e us tu(1) by simp
  qed
qed simp

definition binary_value :: "string \<Rightarrow> nat" where
  "binary_value s = foldl (\<lambda>acc c. acc * 2 + (of_char c - 48)) 0 s"

lemma binary_value_digits: "binary_value (binary_digits n) = n"
proof (induction n rule: binary_digits.induct)
  case (1 n)
  show ?case
  proof (cases "n < 2")
    case True
    then show ?thesis by (subst binary_digits.simps) (simp add: binary_value_def of_char_of)
  next
    case False
    then have "binary_value (binary_digits n) = n div 2 * 2 + n mod 2"
      using 1 by (subst binary_digits.simps) (simp add: binary_value_def of_char_of)
    then show ?thesis by simp
  qed
qed

lemma fmt_binary_inject: "fmt_binary v = fmt_binary w \<longleftrightarrow> v = w"
  unfolding fmt_binary_def same_append_eq by (metis binary_value_digits word_unat_eq_iff)

lemma render_inject:
  assumes "formula_ok f" and "formula_ok g" and "render f = render g"
  shows "f = g"
proof -
  have "f_terms f = f_terms g \<and> constant_string (f_constant f) = constant_string (f_constant g)"
    using assms by (intro terms_cancel) (simp_all add: formula_ok_def render_def)
  then show ?thesis by (cases f; cases g) (auto simp: fmt_binary_inject split: option.splits)
qed

section \<open>The printed formula\<close>

lemma no_groups: "find_groups q = [] \<longleftrightarrow> (\<forall>w \<in> set (ap_matrix q). w = 0)"
proof -
  have cell: "(\<exists>c. one q r c) \<longleftrightarrow> r < length (ap_matrix q) \<and> ap_matrix q ! r \<noteq> 0" for r
  proof
    assume "r < length (ap_matrix q) \<and> ap_matrix q ! r \<noteq> 0"
    moreover then obtain n where n: "bit (ap_matrix q ! r) n" by (auto simp: bit_eq_iff)
    moreover have "n < 64" using bit_imp_le_length [OF n] by simp
    then have "63 - n < 64" "64 - (63 - n) - 1 = n" by linarith+
    ultimately show "\<exists>c. one q r c" unfolding one_def read_matrix_def by metis
  qed (auto simp: one_def read_matrix_def)
  have "find_groups q \<noteq> [] \<longleftrightarrow> (\<exists>x. x \<in> set (starts q))" unfolding find_groups_starts by (metis list.map_disc_iff ex_in_conv set_empty)
  also have "\<dots> \<longleftrightarrow> (\<exists>r c. start q r c)" by (simp add: set_starts)
  also have "\<dots> \<longleftrightarrow> (\<exists>r c. one q r c)" using start_exists unfolding start_def by blast
  also have "\<dots> \<longleftrightarrow> (\<exists>w \<in> set (ap_matrix q). w \<noteq> 0)" unfolding cell by (metis in_set_conv_nth)
  finally show ?thesis by blast
qed

lemma printed_groups:
  assumes "find_groups q \<noteq> []"
  shows "\<exists>f. formula_ok f \<and> affine_to_string q = Some (render f) \<and>
    (\<forall>a. formula_value f a = xor_list (map (group_value a) (find_groups q)) XOR drop_bit (ap_offset_bits q) (ap_vector q))"
proof -
  define groups where "groups = rev (sort (find_groups q))"
  have ne: "groups \<noteq> []" using assms unfolding groups_def by (metis length_0_conv length_rev length_sort)
  from format_groups [OF ne] obtain ts gs cur where ts: "format_loop None [] [] groups = (gs, cur)"
    "gs @ [close_group (fst (last groups)) cur] = map render_term ts" "ungroup ts = groups" "list_all (\<lambda>t. snd t \<noteq> []) ts" by blast
  let ?f = "\<lparr>f_terms = ts, f_constant = if ap_vector q \<noteq> 0 then Some (drop_bit (ap_offset_bits q) (ap_vector q)) else None\<rparr>"
  have "formula_ok ?f" using ts(3,4) ne by (auto simp: formula_ok_def)
  moreover have "affine_to_string q = Some (render ?f)"
    unfolding affine_to_string_def Let_def groups_def [symmetric] ts(1) prod.case ts(2) using ne by (simp add: render_def)
  moreover have "formula_value ?f a = xor_list (map (group_value a) (find_groups q)) XOR drop_bit (ap_offset_bits q) (ap_vector q)" for a
  proof -
    have "xor_list (map (group_value a) groups) = xor_list (map (group_value a) (find_groups q))"
      by (rule xor_list_perm) (simp add: groups_def)
    then show ?thesis by (simp add: formula_value_def terms_value ts(3))
  qed
  ultimately show ?thesis by blast
qed

lemma no_formula: "find_groups q = [] \<Longrightarrow> affine_to_string q = None"
  by (simp add: affine_to_string_def)

text \<open>The result of \<open>reverse\<close> has the form that the formula needs.\<close>

lemma coefficient_policy_printable:
  assumes "off + m < 31"
  shows "affine_wf (coefficient_policy off n m g) \<and> offset_rows_zero (coefficient_policy off n m g)"
proof -
  let ?q = "coefficient_policy off n m g"
  have len: "length (ap_matrix ?q) = m + off" "ap_offset_bits ?q = off"
    by (simp_all add: coefficient_policy_def bit_vectors_to_uints_def adjust_matrix_def index_shapes)
  have wf: "affine_wf ?q" using coefficient_policy_init [OF assms, of n g] len assms
    by (auto simp: affine_init_def affine_wf_def coefficient_policy_def bind_eq_Some_conv vec_simps)
  have "ap_matrix ?q ! i = 0" if "m \<le> i" "i < m + off" for i
    using that by (intro bit_eqI) (simp add: coefficient_policy_def bit_vectors_to_uints_def adjust_matrix_def index_shapes nth_append bit_vector_to_uint_bit zero_bit_t_def)
  moreover have "affine_index_bits ?q = m" using index_bits_rows [OF wf] len by simp
  ultimately show ?thesis using wf len(1) by (simp add: offset_rows_zero_def)
qed

lemma printed_formula:
  assumes "affine_wf q" and "offset_rows_zero q" and "find_groups q \<noteq> []"
  shows "\<exists>f. affine_to_string q = Some (render f) \<and> formula_ok f \<and> (\<forall>a. unat (formula_value f a) = affine_place q a)"
proof -
  from printed_groups [OF assms(3)] obtain f where f: "formula_ok f" "affine_to_string q = Some (render f)"
    "\<And>a. formula_value f a = xor_list (map (group_value a) (find_groups q)) XOR drop_bit (ap_offset_bits q) (ap_vector q)" by blast
  have "unat (formula_value f a) = affine_place q a" for a unfolding f(3) by (rule groups_value [OF assms(1,2)])
  with f(1,2) show ?thesis by blast
qed

text \<open>A policy without groups is constant.\<close>

lemma groups_of_varying:
  assumes "affine_wf q" and "offset_rows_zero q" and "affine_place q a \<noteq> affine_place q b"
  shows "find_groups q \<noteq> []"
  using assms(3) groups_value [OF assms(1,2), of a] groups_value [OF assms(1,2), of b] by auto

lemma documented_range: "documented_range a r = range_value (drop_bit 1 a) r"
  by (cases r) (simp add: documented_range_def range_value_def drop_bit_drop_bit)

lemma documented_value: "documented_value f a = formula_value f (drop_bit 1 a)"
proof -
  have "documented_range a = range_value (drop_bit 1 a)" by (rule ext) (rule documented_range)
  then show ?thesis by (simp only: documented_value_def formula_value_def term_value_def)
qed


definition xor_example :: affine_placement_policy where
  "xor_example = \<lparr>ap_matrix = [0b101000, 0b010100, 0, 0], ap_vector = 0b0100, ap_offset_bits = 2\<rparr>"


end
