(* ===== verification/CH_Reverse_Placement.thy ===== *)
theory CH_Reverse_Placement
  imports CH_Strategy CH_Formula "HOL-Library.AList"
begin

text \<open>
  The command that reverses a placement policy (\<open>cli/commands/impl/reverse_placement_command.hpp\<close>): random addresses are
  drawn, the eviction strategy locates their sets, the mappings are fed to the reverser of \<open>CH_Affine\<close>, and the
  policy it returns is checked against all mappings that were collected.

  The locale \<open>set_locator\<close> is what the command relies on: the search for the set of an address returns the right
  set for the addresses in \<open>A\<close>. It is interpreted on the eviction sets of \<open>CH_Strategy\<close>, for addresses that are not
  part of an eviction set.
\<close>

section \<open>Definitions\<close>

text \<open>
  \<open>address_set\<close> is an association list with one entry per address. The number of bits to reverse, \<open>target_reversed_bits_\<close>,
  is always 64.
\<close>

definition reverse_step :: "(rat list list \<Rightarrow> rat) \<Rightarrow> ('d \<Rightarrow> 'g \<Rightarrow> (uintptr \<times> 'd \<times> 'g) option) \<Rightarrow> (uintptr \<Rightarrow> 'w \<Rightarrow> (nat option \<times> 'w) option) \<Rightarrow>
    nat \<Rightarrow> (uintptr \<times> nat) list \<times> affine_placement_reverser \<times> 'd \<times> 'g \<times> 'w \<Rightarrow>
    (unit option \<times> (uintptr \<times> nat) list \<times> affine_placement_reverser \<times> 'd \<times> 'g \<times> 'w) option" where
  "reverse_step eigen_det draw locate target_mappings = (\<lambda>(address_set, reverser, d, g, w).
     if reversed_bits reverser = 0 \<or> (reversed_bits reverser < 64 \<and> length address_set < target_mappings) then do {
       (target, d', g') \<leftarrow> draw d g;
       (st, w') \<leftarrow> locate target w;
       case st of
         None \<Rightarrow> Some (None, address_set, reverser, d', g', w')
       | Some s \<Rightarrow>
           if map_of address_set target = None then do {
             (fed, reverser') \<leftarrow> feed_mapping eigen_det target (of_nat s) reverser;
             Some (None, AList.update target s address_set, reverser', d', g', w') }
           else Some (None, address_set, reverser, d', g', w') }
     else Some (Some (), address_set, reverser, d, g, w))"

text \<open>The loop that collects more mappings tests its condition at the end.\<close>

definition more_step :: "('d \<Rightarrow> 'g \<Rightarrow> (uintptr \<times> 'd \<times> 'g) option) \<Rightarrow> (uintptr \<Rightarrow> 'w \<Rightarrow> (nat option \<times> 'w) option) \<Rightarrow>
    nat \<Rightarrow> (uintptr \<times> nat) list \<times> 'd \<times> 'g \<times> 'w \<Rightarrow> (unit option \<times> (uintptr \<times> nat) list \<times> 'd \<times> 'g \<times> 'w) option" where
  "more_step draw locate target_mappings = (\<lambda>(address_set, d, g, w). do {
     (target, d', g') \<leftarrow> draw d g;
     (st, w') \<leftarrow> locate target w;
     let address_set' = (case st of None \<Rightarrow> address_set | Some s \<Rightarrow> AList.update target s address_set);
     Some (if length address_set' < target_mappings then None else Some (), address_set', d', g', w') })"

text \<open>What the command reports.\<close>

record placement_report =
  pr_policy :: affine_placement_policy
  pr_index_function :: string
  pr_bits :: nat
  pr_mappings :: "(uintptr \<times> nat) list"
  pr_matches :: nat
  pr_low_confidence :: bool

definition reverse_placement_policy :: "(rat list list \<Rightarrow> rat) \<Rightarrow> 'g random_source \<Rightarrow> (uintptr \<Rightarrow> 'w \<Rightarrow> (nat option \<times> 'w) option) \<Rightarrow>
    'z basic_memory_region_scheme list \<Rightarrow> nat \<Rightarrow> nat \<Rightarrow> nat \<Rightarrow> 'w \<Rightarrow> 'g \<Rightarrow> (placement_report \<times> 'w) option" where
  "reverse_placement_policy eigen_det rs locate regions offset_bits index_bits target_mappings w g = do {
     uad \<leftarrow> uad_of_memory regions offset_bits;
     (_, address_set, reverser, uad1, g1, w1) \<leftarrow>
       retry (reverse_step eigen_det (uad_draw rs) locate target_mappings) ([], reverser_init offset_bits index_bits, uad, g, w);
     placement_policy \<leftarrow> reverse eigen_det reverser;
     index_function \<leftarrow> affine_to_string placement_policy;
     (address_set', w2) \<leftarrow>
       (if length address_set < target_mappings then do {
          (_, address_set', _, _, w2) \<leftarrow> retry (more_step (uad_draw rs) locate target_mappings) (address_set, uad1, g1, w1);
          Some (address_set', w2) }
        else Some (address_set, w1));
     let matches = length (filter (\<lambda>(address, s). affine_place placement_policy address = s) address_set');
     Some (\<lparr>pr_policy = placement_policy, pr_index_function = index_function, pr_bits = reversed_bits reverser, pr_mappings = address_set', pr_matches = matches,
       pr_low_confidence = (matches \<le> target_mappings div 5 * 4)\<rparr>, w2) }"

text \<open>
  The command on a memory without instructions by set and way, where the strategy has to be based on eviction sets. The
  generator \<open>g'\<close> of the reversal is seeded anew.
\<close>

definition reverse_placement_main :: "(rat list list \<Rightarrow> rat) \<Rightarrow> 'g random_source \<Rightarrow> (uintptr \<Rightarrow> 'm \<Rightarrow> (nat \<times> 'm) option) \<Rightarrow>
    (uintptr \<Rightarrow> 'm \<Rightarrow> 'm option) \<Rightarrow> ('m \<Rightarrow> 'm option) \<Rightarrow> ('m \<Rightarrow> 'm option) \<Rightarrow> 'z basic_memory_region_scheme list \<Rightarrow> nat \<Rightarrow> nat \<Rightarrow> nat \<Rightarrow>
    strategy_command \<Rightarrow> nat \<Rightarrow> 'm \<Rightarrow> 'g \<Rightarrow> 'g \<Rightarrow> (cli_error + placement_report) option" where
  "reverse_placement_main eigen_det rs iacc acc reset switch regions offset_bits index_bits ways st target_mappings m g g' =
     (case provide_eviction_strategy (st_strategy st) False True of
        Inl e \<Rightarrow> Some (Inl e)
      | Inr _ \<Rightarrow> do {
          (strategy, w) \<leftarrow> provide_eviction_set_strategy rs iacc acc reset switch regions offset_bits index_bits ways
            (st_pollution st) (st_repetitions st) m g;
          (report, _) \<leftarrow> reverse_placement_policy eigen_det rs (locate_set index_bits (ess_maps_to strategy)) regions offset_bits index_bits
            target_mappings w g';
          Some (Inr report) })"

text \<open>The printed index function is the text of a formula for the placement function.\<close>

definition prints_function :: "placement_report \<Rightarrow> (uintptr \<Rightarrow> nat) \<Rightarrow> bool" where
  "prints_function report pl \<longleftrightarrow> (\<exists>f. pr_index_function report = render f \<and> formula_ok f \<and> (\<forall>a. unat (formula_value f a) = pl a))"

section \<open>Bits that can be reversed\<close>

text \<open>No more bits are reversed than there are above the offset.\<close>

lemma feed_mapping_bits:
  assumes "feed_mapping eigen_det a s r = Some (fed, r')" and "ar_offset_bits r + reversed_bits r \<le> 64"
  shows "ar_offset_bits r' = ar_offset_bits r \<and> ar_offset_bits r' + reversed_bits r' \<le> 64"
  using assms
  by (auto simp: feed_mapping_def dependent_mapping_def reversed_bits_def uints_to_bit_vectors_def bind_eq_Some_conv vec_simps Let_def
      split: if_splits)

text \<open>The addresses of a list that are met for the first time.\<close>

fun unseen :: "'a set \<Rightarrow> 'a list \<Rightarrow> 'a list" where
  "unseen seen [] = []"
| "unseen seen (x # xs) = (if x \<in> seen then unseen seen xs else x # unseen (insert x seen) xs)"

lemma set_unseen [simp]: "set (unseen seen xs) = set xs - seen"
  by (induction xs arbitrary: seen) auto

lemma distinct_unseen [simp]: "distinct (unseen seen xs)"
  by (induction xs arbitrary: seen) auto

section \<open>The loop\<close>

locale set_locator =
  fixes locate :: "uintptr \<Rightarrow> 'w \<Rightarrow> (nat option \<times> 'w) option"
    and invar :: "'w \<Rightarrow> bool"
    and pl :: "uintptr \<Rightarrow> nat"
    and A :: "uintptr set"
  assumes locate_ok: "invar w \<Longrightarrow> target \<in> A \<Longrightarrow> \<exists>w'. locate target w = Some (Some (pl target), w') \<and> invar w'"
begin

text \<open>The mappings that were found are mappings of \<open>pl\<close>, and the reverser was fed with them.\<close>

definition mapped :: "(rat list list \<Rightarrow> rat) \<Rightarrow> nat \<Rightarrow> nat \<Rightarrow> (uintptr \<times> nat) list \<Rightarrow> affine_placement_reverser \<Rightarrow> bool" where
  "mapped eigen_det off k l r \<longleftrightarrow> distinct (map fst l) \<and> (\<forall>(a, s) \<in> set l. s = pl a) \<and>
     (\<exists>as. set as = fst ` set l \<and> feed_all eigen_det (map (\<lambda>a. (a, of_nat (pl a))) as) (reverser_init off k) = Some r) \<and>
     ar_offset_bits r = off \<and> off + reversed_bits r \<le> 64"

lemma feed_all_append:
  "feed_all eigen_det (xs @ ys) r = do { r' \<leftarrow> feed_all eigen_det xs r; feed_all eigen_det ys r' }"
  by (induction xs arbitrary: r) (auto split: bind_splits)

lemma mapped_add:
  assumes "mapped eigen_det off k l r" and "map_of l a = None" and "feed_mapping eigen_det a (of_nat (pl a)) r = Some (fed, r')"
  shows "mapped eigen_det off k (AList.update a (pl a) l) r' \<and> length (AList.update a (pl a) l) = Suc (length l) \<and>
    fst ` set (AList.update a (pl a) l) = insert a (fst ` set l)"
proof -
  have new: "a \<notin> fst ` set l" using assms(2) by (simp add: map_of_eq_None_iff)
  then have upd: "AList.update a (pl a) l = l @ [(a, pl a)]" by (induction l) auto
  from assms(1) obtain as where "set as = fst ` set l" "feed_all eigen_det (map (\<lambda>a. (a, of_nat (pl a))) as) (reverser_init off k) = Some r"
    by (auto simp: mapped_def)
  then have "set (as @ [a]) = fst ` set (l @ [(a, pl a)])"
    "feed_all eigen_det (map (\<lambda>a. (a, of_nat (pl a))) (as @ [a])) (reverser_init off k) = Some r'"
    using assms(3) by (simp_all add: feed_all_append)
  then show ?thesis using assms(1) new feed_mapping_bits [OF assms(3)] unfolding upd mapped_def
    by (auto intro!: exI [of _ "as @ [a]"])
qed

text \<open>
  The loop ends when the given draws are used up or before. Since at most the bits above the offset can be reversed, it goes
  on until there are enough mappings, for lines of more than one byte.
\<close>

lemma reverse_loop_ends:
  assumes "draw_n draw j d g = Some (as, dj, gj)" and "set as \<subseteq> A" and "invar w" and "mapped eigen_det off k l r"
    and "feed_all eigen_det (map (\<lambda>a. (a, of_nat (pl a))) (unseen (fst ` set l) as)) r = Some rj"
    and "0 < reversed_bits rj" and "target_mappings = length l + length (unseen (fst ` set l) as)" and "0 < off"
  shows "\<exists>l' d' g' w'. retry (reverse_step eigen_det draw locate target_mappings) (l, r, d, g, w) = Some ((), l', rj, d', g', w') \<and>
    invar w' \<and> mapped eigen_det off k l' rj \<and> length l' = target_mappings"
  using assms
proof (induction j arbitrary: d g as w l r)
  case 0
  then have "reverse_step eigen_det draw locate target_mappings (l, r, d, g, w) = Some (Some (), l, r, d, g, w)"
    by (auto simp: reverse_step_def)
  with 0 show ?case by auto
next
  case (Suc j)
  let ?step = "reverse_step eigen_det draw locate target_mappings"
  show ?case
  proof (cases "reversed_bits r = 0 \<or> (reversed_bits r < 64 \<and> length l < target_mappings)")
    case False
    then have "?step (l, r, d, g, w) = Some (Some (), l, r, d, g, w)"
      by (simp only: reverse_step_def prod.case if_False)
    moreover have "reversed_bits r < 64" using Suc.prems(4,8) by (simp add: mapped_def)
    with False Suc.prems(7) have "length l = target_mappings" "unseen (fst ` set l) as = []" by auto
    ultimately show ?thesis using Suc.prems(3-5) by simp
  next
    case True
    from Suc.prems(1) obtain a d1 g1 as1 where a: "draw d g = Some (a, d1, g1)" "draw_n draw j d1 g1 = Some (as1, dj, gj)" "as = a # as1"
      by (auto simp: bind_eq_Some_conv)
    from locate_ok [OF Suc.prems(3), of a] Suc.prems(2) a(3) obtain w1 where
      w1: "locate a w = Some (Some (pl a), w1)" "invar w1" by auto
    have A: "set as1 \<subseteq> A" using Suc.prems(2) a(3) by simp
    show ?thesis
    proof (cases "map_of l a")
      case (Some s)
      then have "a \<in> fst ` set l" by (metis map_of_eq_None_iff option.distinct(1))
      moreover have "?step (l, r, d, g, w) = Some (None, l, r, d1, g1, w1)"
        using True a(1) w1(1) Some by (simp add: reverse_step_def)
      ultimately show ?thesis using Suc.IH [OF a(2) A w1(2) Suc.prems(4)] Suc.prems(5-8) a(3) by simp
    next
      case None
      then have new: "a \<notin> fst ` set l" by (simp add: map_of_eq_None_iff)
      with Suc.prems(5) a(3) obtain fed r1 where r1: "feed_mapping eigen_det a (of_nat (pl a)) r = Some (fed, r1)"
        "feed_all eigen_det (map (\<lambda>a. (a, of_nat (pl a))) (unseen (insert a (fst ` set l)) as1)) r1 = Some rj"
        by (auto simp: bind_eq_Some_conv)
      note add = mapped_add [OF Suc.prems(4) None r1(1)]
      have "?step (l, r, d, g, w) = Some (None, AList.update a (pl a) l, r1, d1, g1, w1)"
        using True a(1) w1(1) None r1(1) by (simp add: reverse_step_def)
      then show ?thesis using Suc.IH [OF a(2) A w1(2) conjunct1 [OF add]] add r1(2) Suc.prems(6-8) a(3) new by simp
    qed
  qed
qed

lemma reverse_placement_returns:
  assumes eigen: "exact_determinant eigen_det" and h: "\<And>a. pl a = unat (h a)" and off: "0 < off" "off + k < 31"
    and d: "uad_of_memory regions off = Some d" "draw_n (uad_draw rs) j d g = Some (as, dj, gj)" and as: "set as \<subseteq> A" and w: "invar w"
    and feed: "feed_all eigen_det (map (\<lambda>a. (a, h a)) (unseen {} as)) (reverser_init off k) = Some r"
    and bits: "affine_index off n k h" "0 < n" "n \<le> reversed_bits r" and varies: "pl x \<noteq> pl y"
  shows "\<exists>report w'. reverse_placement_policy eigen_det rs locate regions off k (card (set as)) w g = Some (report, w') \<and>
    (\<forall>a. affine_place (pr_policy report) a = pl a) \<and> prints_function report pl \<and> pr_matches report = card (set as) \<and> \<not> pr_low_confidence report"
proof -
  have card: "length (unseen {} as) = card (set as)" using distinct_card [of "unseen {} as"] by simp
  have h': "of_nat (pl a) = h a" for a using h by simp
  have m: "mapped eigen_det off k [] (reverser_init off k)"
    using off by (auto simp: mapped_def reverser_init_def reversed_bits_def intro: exI [of _ "[]"])
  have r: "0 < reversed_bits r" using bits(2,3) by simp
  from reverse_loop_ends [OF d(2) as w m _ r _ off(1), of "card (set as)"] feed card obtain l' d' g' w' where
    l: "retry (reverse_step eigen_det (uad_draw rs) locate (card (set as))) ([], reverser_init off k, d, g, w) = Some ((), l', r, d', g', w')"
      "mapped eigen_det off k l' r" "length l' = card (set as)" by (auto simp: h')
  have inv: "reverser_inv eigen_det h r" "ar_offset_bits r = off" "ar_index_bits r = k"
    using feed_all_inv [OF feed reverser_init_inv] by (simp_all add: reverser_init_def)
  note q = reverser_recovers [OF eigen inv(1), unfolded inv(2,3), OF affine_index_more [OF bits(1,3)] r off(2)]
  let ?q = "coefficient_policy off (reversed_bits r) k h"
  have place: "affine_place ?q a = pl a" for a using q(2) h by simp
  have wf: "affine_wf ?q" "offset_rows_zero ?q" using coefficient_policy_printable [OF off(2)] by simp_all
  from printed_formula [OF wf groups_of_varying [OF wf, of x y]] varies obtain f where
    f: "affine_to_string ?q = Some (render f)" "formula_ok f" "\<forall>a. unat (formula_value f a) = pl a" by (auto simp: place)
  have "filter (\<lambda>(a, s). affine_place ?q a = s) l' = l'"
    using l(2) by (intro filter_True) (auto simp: mapped_def place)
  moreover have "0 < card (set as)" using feed r by (cases as) (auto simp: reversed_bits_def reverser_init_def card_gt_0_iff)
  then have "\<not> card (set as) \<le> card (set as) div 5 * 4" by presburger
  ultimately show ?thesis using d(1) l(1,3) q(1) place f by (auto simp: reverse_placement_policy_def Let_def prints_function_def)
qed

end

section \<open>Locating sets by eviction sets\<close>

definition locator_invar :: "(uintptr \<Rightarrow> nat) \<Rightarrow> nat \<Rightarrow> 'g random_source \<Rightarrow> (simulated_memory \<Rightarrow> simulated_memory option) \<Rightarrow> nat \<Rightarrow> nat \<Rightarrow>
    uniform_address_distribution blacklisted_address_distribution \<Rightarrow> uintptr list list \<Rightarrow> nat \<Rightarrow> simulated_memory \<times> 'g search_state \<Rightarrow> bool" where
  "locator_invar pl n rs reset pollution repetitions d evsets k w \<longleftrightarrow>
     polluting_invar pl n rs reset Some pollution repetitions (length (concat evsets)) d w \<and> one_per_set pl n (2 ^ k) evsets \<and> k < 31 \<and>
     (\<forall>a. pl a < 2 ^ k)"

interpretation evset_locator: set_locator
    "locate_set k (ess_maps_to \<lparr>ess_evsets = evsets, ess_is_eviction_set = lru_provided rs reset pollution repetitions\<rparr>)"
    "locator_invar pl n rs reset pollution repetitions d evsets k" pl "- set (concat evsets)"
  for k evsets rs reset pollution repetitions d pl n
proof
  fix w :: "simulated_memory \<times> 'a search_state" and target
  assume w: "locator_invar pl n rs reset pollution repetitions d evsets k w" and t: "target \<in> - set (concat evsets)"
  then show "\<exists>w'. locate_set k (ess_maps_to \<lparr>ess_evsets = evsets, ess_is_eviction_set = lru_provided rs reset pollution repetitions\<rparr>) target w =
      Some (Some (pl target), w') \<and> locator_invar pl n rs reset pollution repetitions d evsets k w'"
    using polluting_locate [OF _ _ order_refl, of pl n rs reset Some pollution repetitions evsets d w k target]
    unfolding locator_invar_def by blast
qed

lemma modular_affine:
  assumes "off + k \<le> 64"
  shows "affine_index off k k (\<lambda>a. take_bit k (drop_bit off a))"
  unfolding affine_index_def using assms by (auto intro!: bit_eqI simp: bit_simps)

section \<open>Draws from the eviction sets\<close>

text \<open>The addresses in front of a member of an eviction set.\<close>

lemma concat_split_member:
  assumes "st < length evsets" and "i < length (evsets ! st)"
  shows "concat evsets = (concat (take st evsets) @ take i (evsets ! st)) @ evsets ! st ! i # (drop (Suc i) (evsets ! st) @ concat (drop (Suc st) evsets))"
proof -
  have "concat evsets = concat (take st evsets) @ evsets ! st @ concat (drop (Suc st) evsets)"
    using arg_cong [OF id_take_nth_drop [OF assms(1)], of concat] by simp
  also have "evsets ! st = take i (evsets ! st) @ evsets ! st ! i # drop (Suc i) (evsets ! st)" using id_take_nth_drop [OF assms(2)] .
  finally show ?thesis by simp
qed

lemma congruent_before_member:
  assumes "one_per_set pl n sets evsets" and "st < sets" and "i < length (evsets ! st)"
  shows "card {x \<in> set (concat (take st evsets) @ take i (evsets ! st)). pl x = pl (evsets ! st ! i)} \<le> i"
proof -
  have len: "length evsets = sets" and pl: "\<And>s x. s < sets \<Longrightarrow> x \<in> set (evsets ! s) \<Longrightarrow> pl x = s" using assms(1) by (auto simp: one_per_set_def)
  have "pl x \<noteq> st" if "x \<in> set (concat (take st evsets))" for x
  proof -
    from that obtain es where "es \<in> set (take st evsets)" "x \<in> set es" by auto
    then obtain s where "s < st" "x \<in> set (evsets ! s)" by (auto simp: in_set_conv_nth [of es])
    with pl [of s x] assms(2) show ?thesis by simp
  qed
  moreover have "pl (evsets ! st ! i) = st" using pl [OF assms(2)] assms(3) by simp
  ultimately have "{x \<in> set (concat (take st evsets) @ take i (evsets ! st)). pl x = pl (evsets ! st ! i)} \<subseteq> set (take i (evsets ! st))" by auto
  then have "card {x \<in> set (concat (take st evsets) @ take i (evsets ! st)). pl x = pl (evsets ! st ! i)} \<le> card (set (take i (evsets ! st)))"
    by (intro card_mono) simp_all
  also have "\<dots> \<le> i" using card_length [of "take i (evsets ! st)"] by simp
  finally show ?thesis .
qed

text \<open>Searching a set keeps the first level LRU, for every target.\<close>

lemma group_loop_keeps:
  assumes "\<And>xs m b m'. test_func xs m = Some (b, m') \<Longrightarrow> P m \<Longrightarrow> P m'"
  shows "group_loop test_func xs i j m = Some (r, m') \<Longrightarrow> P m \<Longrightarrow> P m'"
proof (induction "j - i" arbitrary: i j m rule: less_induct)
  case less
  show ?case
  proof (cases "j - i \<le> 1")
    case True
    with less.prems show ?thesis by (subst (asm) group_loop.simps) (auto simp: Let_def bind_eq_Some_conv)
  next
    case False
    let ?mid = "i + (j - i) div 2"
    from False less.prems(1) obtain b m1 where
      b: "test_func (take (?mid - i) (drop i xs)) m = Some (b, m1)"
        "(if b then group_loop test_func xs i ?mid m1 else group_loop test_func xs ?mid j m1) = Some (r, m')"
      by (subst (asm) group_loop.simps) (auto simp: Let_def bind_eq_Some_conv)
    have "P m1" using assms [OF b(1) less.prems(2)] .
    have lt: "?mid - i < j - i" "j - ?mid < j - i" using False by linarith+
    show ?thesis
    proof (cases b)
      case True
      then have "group_loop test_func xs i ?mid m1 = Some (r, m')" using b(2) by simp
      then show ?thesis using \<open>P m1\<close> by (rule less.hyps [OF lt(1)])
    next
      case False
      then have "group_loop test_func xs ?mid j m1 = Some (r, m')" using b(2) by simp
      then show ?thesis using \<open>P m1\<close> by (rule less.hyps [OF lt(2)])
    qed
  qed
qed

lemma locate_set_keeps:
  assumes "\<And>ss m b m'. maps_to target ss m = Some (b, m') \<Longrightarrow> P m \<Longrightarrow> P m'"
    and "locate_set k maps_to target m = Some (r, m')" and "P m"
  shows "P m'"
proof -
  from assms(2) obtain b m1 q where t: "maps_to target [0..<2 ^ k] m = Some (b, m1)"
    "(if \<not> b then Some (length [0..<2 ^ k :: nat], m1) else group_loop (maps_to target) [0..<2 ^ k] 0 (length [0..<2 ^ k :: nat]) m1) = Some (q, m')"
    by (auto simp: locate_set_def group_test_def Let_def bind_eq_Some_conv)
  have "P m1" using assms(1) [OF t(1) assms(3)] .
  with t(2) group_loop_keeps [of "maps_to target" P, OF assms(1)] show ?thesis by (auto split: if_splits)
qed

text \<open>The search for the set of one of the first \<open>n\<close> addresses of an eviction set never ends.\<close>

lemma locate_member_stuck:
  assumes "lru_memory pl n m" and "keeps_lru pl n reset" and "0 < repetitions"
    and one: "one_per_set pl n (2 ^ k) evsets" and st: "st < 2 ^ k" and t: "target \<in> set (take n (evsets ! st))"
  shows "locate_set k (ess_maps_to \<lparr>ess_evsets = evsets, ess_is_eviction_set = lru_provided rs reset pollution repetitions\<rparr>) target (m, s) = None"
proof -
  let ?test = "lru_provided rs reset pollution repetitions"
  have len: "length evsets = 2 ^ k" "distinct (concat evsets)" using one by (simp_all add: one_per_set_def)
  from t obtain i where i: "i < n" "i < length (evsets ! st)" "target = evsets ! st ! i" by (auto simp: in_set_conv_nth)
  note split = concat_split_member [of st evsets, unfolded len(1), OF st i(2), folded i(3)]
  have pre: "target \<notin> set (concat (take st evsets) @ take i (evsets ! st))" using len(2) unfolding split by simp
  have "card {x \<in> set (concat (take st evsets) @ take i (evsets ! st)). pl x = pl target} < n"
    using congruent_before_member [OF one st i(2)] i(1,3) by simp
  from provided_test_never_ends [OF assms(1,2) pre assms(3) this] have "?test target (concat evsets) (m, s) = None" unfolding split .
  moreover have "concat (map ((!) evsets) [0..<2 ^ k]) = concat evsets" using len(1) by (metis map_nth)
  ultimately show ?thesis using len(1) by (simp add: locate_set_def group_test_def ess_maps_to_def collect_evsets_concat)
qed

text \<open>As long as fewer addresses were drawn than mappings are asked for, the loop draws another one.\<close>

lemma reverse_loop_stuck:
  assumes "draw_n draw j d g = Some (as, dj, gj)" and "target \<in> set as" and "\<And>w. invar w \<Longrightarrow> locate target w = None"
    and "\<And>a w r w'. locate a w = Some (r, w') \<Longrightarrow> invar w \<Longrightarrow> invar w'" and "invar w"
    and "ar_offset_bits r + reversed_bits r \<le> 64" and "0 < ar_offset_bits r" and "length l + j \<le> target_mappings"
  shows "retry (reverse_step eigen_det draw locate target_mappings) (l, r, d, g, w) = None"
  using assms(1,2,5-8)
proof (induction j arbitrary: d g as w l r)
  case (Suc j)
  let ?step = "reverse_step eigen_det draw locate target_mappings"
  from Suc.prems(1) obtain a d1 g1 as1 where a: "draw d g = Some (a, d1, g1)" "draw_n draw j d1 g1 = Some (as1, dj, gj)" "as = a # as1"
    by (auto simp: bind_eq_Some_conv)
  have on: "reversed_bits r = 0 \<or> (reversed_bits r < 64 \<and> length l < target_mappings)" using Suc.prems(4-6) by auto
  show ?case
  proof (cases "locate a w")
    case None
    then have "?step (l, r, d, g, w) = None" using on a(1) by (simp add: reverse_step_def)
    then show ?thesis by (simp add: retry_step)
  next
    case (Some p)
    then obtain q w1 where p: "locate a w = Some (q, w1)" by (cases p) auto
    have w1: "invar w1" using assms(4) [OF p Suc.prems(3)] .
    have "a \<noteq> target" using p assms(3) [OF Suc.prems(3)] by auto
    then have t: "target \<in> set as1" using Suc.prems(2) a(3) by simp
    show ?thesis
    proof (cases "\<exists>s. q = Some s \<and> map_of l a = None")
      case False
      then have "?step (l, r, d, g, w) = Some (None, l, r, d1, g1, w1)"
        using on a(1) p by (auto simp: reverse_step_def split: option.split)
      with Suc.IH [OF a(2) t w1 Suc.prems(4,5)] Suc.prems(6) show ?thesis by (simp add: retry_step)
    next
      case True
      then obtain s where s: "q = Some s" "map_of l a = None" by blast
      show ?thesis
      proof (cases "feed_mapping eigen_det a (of_nat s) r")
        case None
        then have "?step (l, r, d, g, w) = None" using on a(1) p s by (simp add: reverse_step_def)
        then show ?thesis by (simp add: retry_step)
      next
        case (Some f)
        then obtain fed r1 where f: "feed_mapping eigen_det a (of_nat s) r = Some (fed, r1)" by (cases f) auto
        have step: "?step (l, r, d, g, w) = Some (None, AList.update a s l, r1, d1, g1, w1)"
          using on a(1) p s f by (simp add: reverse_step_def)
        have "length (AList.update a s l) \<le> Suc (length l)" by (induction l) auto
        with Suc.IH [OF a(2) t w1, of r1 "AList.update a s l"] feed_mapping_bits [OF f Suc.prems(4)] Suc.prems(5,6) step
        show ?thesis by (simp add: retry_step)
      qed
    qed
  qed
qed simp

section \<open>Properties\<close>


text \<open>
  C16. The command never returns once it draws one of the first \<open>n\<close> addresses of one of its own eviction sets, which stay in the memory
  it draws from, as any of its first \<open>target_mappings\<close> draws: the search for
  the set then tests the address against a collection of addresses that contains it, and that test repeats
  itself forever, over an LRU first level and with any reset and any amount of pollution. The eviction sets are one for each set of the
  cache, as \<open>strategy_covers_sets\<close> has them for modular placement.
\<close>

theorem reverse_placement_never_returns:
  assumes "lru_memory pl n m" and "keeps_lru pl n reset" and "0 < repetitions"
    and "one_per_set pl n (2 ^ index_bits) evsets" and "st < 2 ^ index_bits" and "target \<in> set (take n (evsets ! st))"
    and "0 < offset_bits" and "offset_bits \<le> 64" and "uad_of_memory regions offset_bits = Some d"
    and "draw_n (uad_draw rs) target_mappings d g = Some (as, d', g')" and "target \<in> set as"
  shows "reverse_placement_policy eigen_det rs
      (locate_set index_bits (ess_maps_to \<lparr>ess_evsets = evsets, ess_is_eviction_set =
         provided_test rs' sm_instrumented_access sm_access reset pollution repetitions\<rparr>))
      regions offset_bits index_bits target_mappings (m, s) g = None"
proof -
  let ?strategy = "\<lparr>ess_evsets = evsets, ess_is_eviction_set = lru_provided rs' reset pollution repetitions\<rparr>"
  let ?invar = "\<lambda>w :: simulated_memory \<times> 'c search_state. lru_memory pl n (fst w)"
  have stuck: "locate_set index_bits (ess_maps_to ?strategy) target w = None" if "?invar w" for w
    using locate_member_stuck [OF that assms(2-6), of rs' pollution "snd w"] by simp
  have test: "?invar w'" if "ess_maps_to ?strategy a ss w = Some (b, w')" "?invar w" for a ss w b w'
  proof -
    from that(1) obtain xs where "lru_provided rs' reset pollution repetitions a xs w = Some (b, w')"
      by (auto simp: ess_maps_to_def bind_eq_Some_conv)
    then show ?thesis using that(2) by (rule provided_test_keeps [OF assms(2)])
  qed
  have keeps: "?invar w'" if "locate_set index_bits (ess_maps_to ?strategy) a w = Some (r, w')" "?invar w" for a w r w'
    using locate_set_keeps [where P = ?invar and maps_to = "ess_maps_to ?strategy" and target = a, OF test that] .
  have "retry (reverse_step eigen_det (uad_draw rs) (locate_set index_bits (ess_maps_to ?strategy)) target_mappings)
      ([], reverser_init offset_bits index_bits, d, g, m, s) = None"
    by (rule reverse_loop_stuck [where invar = ?invar, OF assms(10,11)])
      (use stuck keeps assms(1,7,8) in \<open>auto simp: reverser_init_def reversed_bits_def\<close>)
  then show ?thesis using assms(9) by (simp add: reverse_placement_policy_def)
qed

text \<open>
  The witnesses: a simulated direct-mapped cache with four sets over 64 lines of memory, with the defaults of the command line. Of the 16 aligned groups of
  four lines at least eight hold no address of an eviction set; the second generator starts at one of them, and the
  mappings of its lines determine the placement function.
\<close>

lemma group_mappings_fed:
  "\<forall>q \<in> set [0..<16]. case feed_all (\<lambda>M. laplace M [0..<length M]) (map (\<lambda>a. (a, take_bit 2 (drop_bit 6 a)))
     (unseen {} (map line_of [4 * q, 4 * q + 1, 4 * q + 2, 4 * q + 3]))) (reverser_init 6 2) of
     None \<Rightarrow> False | Some r \<Rightarrow> 2 \<le> reversed_bits r"
  by code_simp

lemma free_group:
  assumes "finite X" and "card X < 16"
  shows "\<exists>q < 16. {line_of (4 * q), line_of (4 * q + 1), line_of (4 * q + 2), line_of (4 * q + 3)} \<inter> X = {}"
proof (rule ccontr)
  assume "\<not> ?thesis"
  then have hit: "\<exists>i. i < 4 \<and> line_of (4 * q + i) \<in> X" if "q < 16" for q
    using that by (fastforce intro: exI [of _ "0 :: nat"] exI [of _ "1 :: nat"] exI [of _ "2 :: nat"] exI [of _ "3 :: nat"])
  then have "\<forall>q \<in> {..<16}. \<exists>i. i < 4 \<and> line_of (4 * q + i) \<in> X" by simp
  then obtain f where f: "\<And>q. q < 16 \<Longrightarrow> f q < 4 \<and> line_of (4 * q + f q) \<in> X" by (metis lessThan_iff)
  have "inj_on (\<lambda>q. line_of (4 * q + f q)) {..<16}"
  proof (rule inj_onI)
    fix q q' assume q: "q \<in> {..<16}" "q' \<in> {..<16}" "line_of (4 * q + f q) = line_of (4 * q' + f q')"
    then have "4 * q + f q = 4 * q' + f q'" using f [of q] f [of q'] by (intro inj_onD [OF line_of_inj q(3)]) auto
    then have "(4 * q + f q) div 4 = (4 * q' + f q') div 4" by simp
    then show "q = q'" using f [of q] f [of q'] q(1,2) by simp
  qed
  from card_inj_on_le [OF this _ assms(1)] f have "card {..<16 :: nat} \<le> card X" by auto
  with assms(2) show False by simp
qed


lemma four_eviction_sets:
  "one_per_set (modular_set 6 2) 1 (2 ^ 2) [[0x1000, 0x1100], [0x1040, 0x1140], [0x1080, 0x1180], [0x10C0, 0x11C0]]"
proof -
  let ?e = "[[0x1000, 0x1100], [0x1040, 0x1140], [0x1080, 0x1180], [0x10C0, 0x11C0]] :: uintptr list list"
  have "1 < length (?e ! s) \<and> (\<forall>x \<in> set (?e ! s). modular_set 6 2 x = s)" if s: "s < 2 ^ 2" for s
  proof -
    have "s = 0 \<or> s = 1 \<or> s = 2 \<or> s = 3" using s by simp presburger
    then show ?thesis by auto
  qed
  then show ?thesis by (simp add: one_per_set_def)
qed

theorem reverse_placement_never_returns_witness:
  "\<exists>c. command_cache 2 6 1 = Some c \<and> (\<forall>eigen_det s. reverse_placement_policy eigen_det counting_source
      (locate_set 2 (ess_maps_to \<lparr>ess_evsets = [[0x1000, 0x1100], [0x1040, 0x1140], [0x1080, 0x1180], [0x10C0, 0x11C0]],
         ess_is_eviction_set = provided_test counting_source sm_instrumented_access sm_access Some 10000 1\<rparr>))
      sixty_four_lines 6 2 1000 (sm_init 0x1000 0x1000 6 [c], s) 8 = None)"
proof -
  from simulated_first_level obtain c where c: "command_cache 2 6 1 = Some c" "lru_memory (modular_set 6 2) 1 (sm_init 0x1000 0x1000 6 [c])"
    by blast
  have "\<exists>as. draw_n (uad_draw counting_source) j all_lines g = Some (as, all_lines, g + j) \<and> as = map line_of [g..<g + j]" for j g
  proof (induction j arbitrary: g)
    case (Suc j)
    have "[g..<g + Suc j] = g # [Suc g..<Suc g + j]" by (simp add: upt_conv_Cons)
    with Suc [of "Suc g"] show ?case by (auto simp: all_lines_draw)
  qed simp
  then have draws: "draw_n (uad_draw counting_source) 1000 all_lines 8 = Some (map line_of [8..<8 + 1000], all_lines, 8 + 1000)" by blast
  have "line_of 64 \<in> set (map line_of [8..<8 + 1000])" by simp
  moreover have "line_of 64 = 0x1000" by (simp add: line_of_def)
  ultimately have hit: "0x1000 \<in> set (map line_of [8..<8 + 1000])" by (simp only:)
  have one: "(0 :: nat) < 2 ^ 2" "(0 :: nat) < 6" "6 \<le> (64 :: nat)"
    "0x1000 \<in> set (take 1 ([[0x1000, 0x1100], [0x1040, 0x1140], [0x1080, 0x1180], [0x10C0, 0x11C0 :: uintptr]] ! 0))" by simp_all
  have same: "keeps_lru (modular_set 6 2) 1 Some" by (simp add: keeps_lru_def)
  from reverse_placement_never_returns [OF c(2) same zero_less_one four_eviction_sets one(1,4,2,3) sixty_four_lines_uad draws hit] c(1)
  show ?thesis by blast
qed

end
