(* ===== verification/CH_Self_Tests.thy ===== *)
theory CH_Self_Tests
  imports CH_Sequence CH_Affine CH_Loops
begin

text \<open>
  The two commands that test parts of the tool on themselves, \<open>cycle-test\<close>
  (\<open>cli/commands/impl/cycle_test_command.ipp\<close>) and \<open>affine-test\<close> (\<open>cli/commands/impl/affine_test_command.ipp\<close>). What they
  write to the log is their result here.
\<close>

section \<open>cycle-test\<close>

definition initially_cyclic :: "nat \<Rightarrow> string \<Rightarrow> bool option" where
  "initially_cyclic associativity policy_name = do {
     policy \<leftarrow> make_replacement_policy policy_name associativity;
     p \<leftarrow> policy;
     (b, _) \<leftarrow> check_cyclic_eviction any_ways any_miss p;
     Some b }"

text \<open>The attempts with random sequences; \<open>k\<close> of them are left.\<close>

fun cyclic_attempts :: "(nat \<Rightarrow> nat \<Rightarrow> 'g \<Rightarrow> nat \<times> 'g) \<Rightarrow> nat \<Rightarrow> bool \<Rightarrow> any_replacement_policy \<Rightarrow> 'g \<Rightarrow> (bool \<times> 'g) option" where
  "cyclic_attempts draw 0 cyclic p g = Some (cyclic, g)"
| "cyclic_attempts draw (Suc k) cyclic p g =
     (if cyclic then do {
        (sequence, g1) \<leftarrow> generate_sequence draw 30 30 g;
        (_, p1) \<leftarrow> simulate_sequence any_ways any_hit any_miss sequence p;
        (b, p2) \<leftarrow> check_cyclic_eviction any_ways any_miss p1;
        cyclic_attempts draw k (cyclic \<and> b) p2 g1 }
      else Some (cyclic, g))"

definition generally_cyclic :: "(nat \<Rightarrow> nat \<Rightarrow> 'g \<Rightarrow> nat \<times> 'g) \<Rightarrow> nat \<Rightarrow> string \<Rightarrow> 'g \<Rightarrow> (bool \<times> 'g) option" where
  "generally_cyclic draw associativity policy_name g = do {
     policy \<leftarrow> make_replacement_policy policy_name associativity;
     p \<leftarrow> policy;
     cyclic_attempts draw 1000 True p g }"

fun initial_reports :: "nat \<Rightarrow> string list \<Rightarrow> (string \<times> bool) list option" where
  "initial_reports associativity [] = Some []"
| "initial_reports associativity (name # names) = do {
     b \<leftarrow> initially_cyclic associativity name;
     bs \<leftarrow> initial_reports associativity names;
     Some ((name, b) # bs) }"

fun general_reports :: "(nat \<Rightarrow> nat \<Rightarrow> 'g \<Rightarrow> nat \<times> 'g) \<Rightarrow> nat \<Rightarrow> string list \<Rightarrow> 'g \<Rightarrow> ((string \<times> bool) list \<times> 'g) option" where
  "general_reports draw associativity [] g = Some ([], g)"
| "general_reports draw associativity (name # names) g = do {
     (b, g1) \<leftarrow> generally_cyclic draw associativity name g;
     (bs, g2) \<leftarrow> general_reports draw associativity names g1;
     Some ((name, b) # bs, g2) }"

text \<open>The loop over the associativities, which are powers of two up to 16.\<close>

record cycle_report =
  cr_associativity :: nat
  cr_initially :: "(string \<times> bool) list"
  cr_generally :: "(string \<times> bool) list"

definition cycle_test_round :: "(nat \<Rightarrow> nat \<Rightarrow> 'g \<Rightarrow> nat \<times> 'g) \<Rightarrow> nat \<Rightarrow> 'g \<Rightarrow> (cycle_report \<times> 'g) option" where
  "cycle_test_round draw associativity g = do {
     policies \<leftarrow> get_replacement_policies associativity;
     initial \<leftarrow> initial_reports associativity policies;
     policies' \<leftarrow> get_replacement_policies associativity;
     (general, g') \<leftarrow> general_reports draw associativity policies' g;
     Some (\<lparr>cr_associativity = associativity, cr_initially = initial, cr_generally = general\<rparr>, g') }"

definition cycle_test_step :: "(nat \<Rightarrow> nat \<Rightarrow> 'g \<Rightarrow> nat \<times> 'g) \<Rightarrow> nat \<times> cycle_report list \<times> 'g \<Rightarrow>
    (cycle_report list option \<times> nat \<times> cycle_report list \<times> 'g) option" where
  "cycle_test_step draw = (\<lambda>(associativity, reports, g).
     if associativity \<le> 16 then do {
       (report, g') \<leftarrow> cycle_test_round draw associativity g;
       Some (None, associativity * 2, reports @ [report], g') }
     else Some (Some reports, associativity, reports, g))"

definition cycle_test_main :: "(nat \<Rightarrow> nat \<Rightarrow> 'g \<Rightarrow> nat \<times> 'g) \<Rightarrow> 'g \<Rightarrow> cycle_report list option" where
  "cycle_test_main draw g = do {
     (reports, _) \<leftarrow> retry (cycle_test_step draw) (2, [], g);
     Some reports }"

section \<open>affine-test\<close>

text \<open>\<open>uid\<close> draws any word.\<close>

definition affine_test_step :: "(rat list list \<Rightarrow> rat) \<Rightarrow> ('g \<Rightarrow> uintptr \<times> 'g) \<Rightarrow> affine_placement_reverser \<times> 'g \<Rightarrow>
    (unit option \<times> affine_placement_reverser \<times> 'g) option" where
  "affine_test_step eigen_det uid = (\<lambda>(reverser, g).
     if reversed_bits reverser < 40 then do {
       let (addr, g') = uid g;
       let st = generic_place make_a64fx_placement_policy addr;
       (_, reverser') \<leftarrow> feed_mapping eigen_det (addr AND NOT (push_bit 8 1 - 1)) (of_nat st) reverser;
       Some (None, reverser', g') }
     else Some (Some (), reverser, g))"

definition affine_test_main :: "(rat list list \<Rightarrow> rat) \<Rightarrow> ('g \<Rightarrow> uintptr \<times> 'g) \<Rightarrow> 'g \<Rightarrow> affine_placement_policy option" where
  "affine_test_main eigen_det uid g = do {
     (_, reverser, _) \<leftarrow> retry (affine_test_step eigen_det uid) (reverser_init 8 11, g);
     reverse eigen_det reverser }"

section \<open>Sequences and cyclic eviction\<close>

context replacement_policy
begin

lemma simulate_keeps:
  assumes "invar p" and "\<forall>a \<in> set as. a < dirty"
  shows "\<exists>n q. simulate_sequence ways hit miss as p = Some (n, q) \<and> invar q \<and> ways q = ways p"
proof -
  have "set_wf (replicate (ways p) None) p" using assms(1) by (auto simp: set_wf_def)
  from ref_run_ok [OF this, of as] simulate_sequence_ref [OF assms] show ?thesis by (auto simp: set_wf_def)
qed

end

lemma cyclic_kind_hit: "any_hit w p = Some q \<Longrightarrow> always_cyclic q = always_cyclic p"
  by (cases p) (auto split: option.splits)

lemma cyclic_kind_miss: "any_miss p = Some (w, q) \<Longrightarrow> always_cyclic q = always_cyclic p"
  by (cases p) (auto split: option.splits)

interpretation ordered: replacement_policy any_ways any_hit any_miss "\<lambda>p. any_wf p \<and> always_cyclic p" "\<lambda>p. {..<any_ways p}"
proof
  fix p w p' assume p: "any_wf p \<and> always_cyclic p" and w: "w \<in> {..<any_ways p}"
  show "\<exists>p'. any_hit w p = Some p'" using any.hit_total [of p w] p w by blast
  assume h: "any_hit w p = Some p'"
  show "(any_wf p' \<and> always_cyclic p') \<and> any_ways p' = any_ways p \<and> {..<any_ways p} \<subseteq> {..<any_ways p'}"
    using any.hit_wf [of p w p'] cyclic_kind_hit [OF h] p w h by blast
next
  fix p w p' assume p: "any_wf p \<and> always_cyclic p"
  show "\<exists>w p'. any_miss p = Some (w, p')" using any.miss_total [of p] p by blast
  assume m: "any_miss p = Some (w, p')"
  show "(any_wf p' \<and> always_cyclic p') \<and> any_ways p' = any_ways p \<and> insert w {..<any_ways p} \<subseteq> {..<any_ways p'}"
    using any.miss_wf [of p w p'] cyclic_kind_miss [OF m] p m by blast
qed simp

text \<open>Random sequences of numbers below 30.\<close>

definition draws_in_range :: "(nat \<Rightarrow> nat \<Rightarrow> 'g \<Rightarrow> nat \<times> 'g) \<Rightarrow> bool" where
  "draws_in_range draw \<longleftrightarrow> (\<forall>lo hi g. lo \<le> hi \<longrightarrow> lo \<le> fst (draw lo hi g) \<and> fst (draw lo hi g) \<le> hi)"

lemma generate_loop_below:
  assumes "draws_in_range draw" and "0 < mx" and "\<forall>x \<in> set out. x < mx"
  shows "\<forall>x \<in> set (fst (generate_loop draw mx n out g)). x < mx"
  using assms(3)
proof (induction n arbitrary: out g)
  case (Suc n)
  have "fst (draw 0 (mx - 1) g) \<le> mx - 1" using assms(1) by (simp add: draws_in_range_def)
  then have "\<forall>x \<in> set (out @ [fst (draw 0 (mx - 1) g)]). x < mx" using Suc.prems assms(2) by auto
  from Suc.IH [OF this] show ?case by (simp add: case_prod_beta Let_def)
qed simp

lemma attempts_return:
  assumes draw: "draws_in_range draw" and p: "any_wf p"
  shows "\<exists>b g'. cyclic_attempts draw k cyclic p g = Some (b, g') \<and> (cyclic \<and> always_cyclic p \<longrightarrow> b)"
  using p
proof (induction k arbitrary: cyclic p g)
  case (Suc k)
  show ?case
  proof (cases cyclic)
    case True
    obtain sequence g1 where s: "generate_sequence draw 30 30 g = Some (sequence, g1)" "sequence = fst (generate_loop draw 30 30 [] g)"
      by (cases "generate_loop draw 30 30 [] g") (simp add: generate_sequence_def)
    have "\<forall>x \<in> set sequence. x < 30" unfolding s(2) by (rule generate_loop_below [OF draw]) simp_all
    then have below: "\<forall>x \<in> set sequence. x < dirty" by (fastforce simp: dirty_def)
    from any.simulate_keeps [OF Suc.prems below] obtain n p1 where
      p1: "simulate_sequence any_ways any_hit any_miss sequence p = Some (n, p1)" "any_wf p1" by blast
    from any.run_misses_total [OF p1(2), of "any_ways p1"] obtain ws p2 where m: "run_misses any_miss (any_ways p1) p1 = Some (ws, p2)" by blast
    have p2: "any_wf p2" using any.run_misses_wf [OF p1(2) m] by blast
    have c: "check_cyclic_eviction any_ways any_miss p1 = Some (distinct ws, p2)" by (rule check_cyclic_eviction_distinct [of any_miss any_ways p1, OF m])
    have kind: "distinct ws \<and> always_cyclic p2" if cyc: "always_cyclic p"
    proof -
      from ordered.simulate_keeps [OF _ below, of p] cyc Suc.prems p1(1) have "any_wf p1 \<and> always_cyclic p1" by auto
      with always_cyclic_misses [of p1] m ordered.run_misses_wf [OF _ m] show ?thesis by auto
    qed
    from Suc.IH [OF p2, of "cyclic \<and> distinct ws" g1] s(1) p1(1) c kind True show ?thesis by auto
  next
    case False
    then show ?thesis by (intro exI [of _ False] exI [of _ g]) simp
  qed
qed simp

lemma candidate_kind:
  assumes "make_replacement_policy name a = Some (Some p)" and "name \<in> {''FIFO'', ''LRU'', ''PLRU'', ''PLRUl''}"
  shows "always_cyclic p"
proof -
  from assms(2) consider "name = ''FIFO''" | "name = ''LRU''" | "name = ''PLRU''" | "name = ''PLRUl''" by blast
  then show ?thesis using assms(1) by cases (auto simp: make_replacement_policy_def starts_with_def split: if_splits)
qed

lemma general_reports_ok:
  assumes "draws_in_range draw" and "0 < a" and "a < 2 ^ 31" and "get_replacement_policies a = Some cs" and "set names \<subseteq> set cs"
  shows "\<exists>bs g'. general_reports draw a names g = Some (bs, g') \<and> map fst bs = names \<and>
    (\<forall>(name, b) \<in> set bs. name \<in> {''FIFO'', ''LRU'', ''PLRU'', ''PLRUl''} \<longrightarrow> b)"
  using assms(5)
proof (induction names arbitrary: g)
  case (Cons name names)
  from make_candidate [OF assms(2-4), of name] Cons.prems obtain p where p: "make_replacement_policy name a = Some (Some p)" "any_wf p" by auto
  from attempts_return [OF assms(1) p(2), of 1000 True g] obtain b g1 where
    b: "cyclic_attempts draw 1000 True p g = Some (b, g1)" "always_cyclic p \<longrightarrow> b" by auto
  then have "generally_cyclic draw a name g = Some (b, g1)" using p(1) by (simp add: generally_cyclic_def)
  moreover have "name \<in> {''FIFO'', ''LRU'', ''PLRU'', ''PLRUl''} \<longrightarrow> b" using candidate_kind [OF p(1)] b(2) by blast
  ultimately show ?case using Cons.IH [of g1] Cons.prems by auto
qed simp

lemma initial_reports_ok:
  assumes "0 < a" and "a < 2 ^ 31" and "get_replacement_policies a = Some cs" and "set names \<subseteq> set cs"
  shows "initial_reports a names = Some (map (\<lambda>name. (name, True)) names)"
  using assms(4)
proof (induction names)
  case (Cons name names)
  from make_candidate [OF assms(1-3), of name] Cons.prems obtain p ws q where
    "make_replacement_policy name a = Some (Some p)" "any_ways p = a" "run_misses any_miss a p = Some (ws, q)" "distinct ws" by auto
  then have "initially_cyclic a name = Some True"
    using check_cyclic_eviction_distinct [of any_miss any_ways p ws q] by (simp add: initially_cyclic_def)
  with Cons show ?case by simp
qed simp

text \<open>What a report says: about each candidate in turn, that it is initially cyclic, and for the ordered ones that it always is.\<close>

definition cycle_report_ok :: "cycle_report \<Rightarrow> bool" where
  "cycle_report_ok r \<longleftrightarrow> get_replacement_policies (cr_associativity r) = Some (map fst (cr_initially r)) \<and>
     get_replacement_policies (cr_associativity r) = Some (map fst (cr_generally r)) \<and>
     (\<forall>(name, b) \<in> set (cr_initially r). b) \<and>
     (\<forall>(name, b) \<in> set (cr_generally r). name \<in> {''FIFO'', ''LRU'', ''PLRU'', ''PLRUl''} \<longrightarrow> b)"

lemma cycle_test_round_ok:
  assumes "draws_in_range draw" and "0 < a" and "a < 2 ^ 31"
  shows "\<exists>report g'. cycle_test_round draw a g = Some (report, g') \<and> cr_associativity report = a \<and> cycle_report_ok report"
proof -
  obtain cs where cs: "get_replacement_policies a = Some cs" using assms(2) by (simp add: get_replacement_policies_def)
  from general_reports_ok [OF assms cs order_refl, of g] obtain bs g' where "general_reports draw a cs g = Some (bs, g')" "map fst bs = cs"
    "\<forall>(name, b) \<in> set bs. name \<in> {''FIFO'', ''LRU'', ''PLRU'', ''PLRUl''} \<longrightarrow> b" by blast
  with cs initial_reports_ok [OF assms(2,3) cs order_refl] show ?thesis by (simp add: cycle_test_round_def cycle_report_ok_def comp_def)
qed

section \<open>The A64FX placement function\<close>

abbreviation a64fx_set :: "uintptr \<Rightarrow> uintptr" where
  "a64fx_set a \<equiv> of_nat (generic_place make_a64fx_placement_policy a)"

lemma a64fx_set_word:
  "a64fx_set a = push_bit 8 ((drop_bit 34 a AND mask 3) XOR (drop_bit 30 a AND mask 3) XOR
       (drop_bit 29 a AND mask 3) XOR (drop_bit 25 a AND mask 3) XOR (drop_bit 21 a AND mask 3)) XOR (drop_bit 8 a AND mask 11)"
  by (simp add: generic_place_def make_a64fx_placement_policy_def generic_init_def a64fx_index_def mask_eq_exp_minus_1)

lemma xor3_field: "drop_bit k (a XOR b XOR c) AND mask m = (drop_bit k a AND mask m) XOR (drop_bit k b AND mask m) XOR (drop_bit k c AND mask m)"
  for a b c :: uintptr
  by (rule bit_eqI) (auto simp: bit_simps)

lemma field_inside:
  assumes "off \<le> k" and "k + m \<le> off + n" and "off + n \<le> 64"
  shows "drop_bit k (a AND push_bit off (mask n)) AND mask m = drop_bit k a AND (mask m :: uintptr)"
  using assms by (intro bit_eqI) (auto simp: bit_simps)

lemma a64fx_affine: "affine_index 8 29 11 a64fx_set"
  unfolding affine_index_def
proof (intro conjI allI impI)
  show "a64fx_set (a XOR b XOR c) = a64fx_set a XOR a64fx_set b XOR a64fx_set c" for a b c
    unfolding a64fx_set_word xor3_field push_bit_xor by (simp only: xor.assoc xor.left_commute xor.commute)
  show "a64fx_set (a AND push_bit 8 (mask 29)) = a64fx_set a" for a
  proof -
    note field = field_inside [of 8 _ _ 29 a]
    have "drop_bit k (a AND push_bit 8 (mask 29)) AND mask 3 = drop_bit k a AND mask 3" if "k \<in> {34, 30, 29, 25, 21}" for k
      using that by (intro field) auto
    moreover have "drop_bit 8 (a AND push_bit 8 (mask 29)) AND mask 11 = drop_bit 8 a AND mask 11" by (intro field) simp_all
    ultimately show ?thesis unfolding a64fx_set_word by (simp only: insert_iff simp_thms)
  qed
  show "i < 11" if "bit (a64fx_set a) i" for a i
    using that a64fx_bit [of a i]
    by (simp add: generic_place_def make_a64fx_placement_policy_def generic_init_def a64fx_index_def)
qed

text \<open>Whenever \<open>affine-test\<close> has reversed 40 bits, the policy that it reports is the A64FX placement function.\<close>

lemma affine_test_recovers:
  assumes eigen: "exact_determinant eigen_det"
    and loop: "retry (affine_test_step eigen_det uid) (reverser_init 8 11, g) = Some (u, r, g')"
  shows "\<exists>q. affine_test_main eigen_det uid g = Some q \<and> (\<forall>a. affine_place q a = generic_place make_a64fx_placement_policy a)"
proof -
  let ?I = "\<lambda>(r, g). reverser_inv eigen_det a64fx_set r \<and> ar_offset_bits r = 8 \<and> ar_index_bits r = 11"
  have same: "a64fx_set (a AND NOT (push_bit 8 1 - 1)) = a64fx_set a" for a
  proof -
    have "(a AND NOT (push_bit 8 1 - 1)) AND push_bit 8 (mask 29) = a AND push_bit 8 (mask 29)"
      unfolding push_bit_1_minus_1_mask by (rule bit_eqI) (auto simp: bit_simps)
    then show ?thesis using a64fx_affine unfolding affine_index_def by metis
  qed
  have step: "?I st' \<and> (x \<noteq> None \<longrightarrow> 40 \<le> reversed_bits (fst st'))"
    if "affine_test_step eigen_det uid st = Some (x, st')" "?I st" for st x st'
  proof -
    obtain r g where st: "st = (r, g)" by (cases st)
    show ?thesis
    proof (cases "reversed_bits r < 40")
      case False
      with that st show ?thesis by (auto simp: affine_test_step_def)
    next
      case True
      obtain a g1 where a: "uid g = (a, g1)" by fastforce
      let ?a = "a AND NOT (push_bit 8 1 - 1)"
      from that(1) st True a obtain fed r1 where "feed_mapping eigen_det ?a (a64fx_set ?a) r = Some (fed, r1)" "x = None" "st' = (r1, g1)"
        unfolding same by (auto simp: affine_test_step_def Let_def bind_eq_Some_conv)
      with feed_mapping_inv [of eigen_det a64fx_set r ?a fed r1] that(2) st show ?thesis by simp
    qed
  qed
  have "(\<lambda>(_ :: unit) st. ?I st \<and> 40 \<le> reversed_bits (fst st)) u (r, g')"
    using loop by (rule retry_invariant [where I = ?I]) (use reverser_init_inv step in \<open>fastforce simp: reverser_init_def\<close>)+
  then have r: "reverser_inv eigen_det a64fx_set r" "ar_offset_bits r = 8" "ar_index_bits r = 11" "40 \<le> reversed_bits r" by auto
  have "affine_index 8 (reversed_bits r) 11 a64fx_set" using affine_index_more [OF a64fx_affine] r(4) by simp
  moreover have "unat (a64fx_set a) = generic_place make_a64fx_placement_policy a" for a
    by (simp add: generic_place_def make_a64fx_placement_policy_def generic_init_def a64fx_index_def)
  ultimately show ?thesis using reverser_recovers [OF eigen r(1), unfolded r(2,3)] r(4) loop
    by (simp add: affine_test_main_def)
qed

section \<open>Properties\<close>

text \<open>
  C39. \<open>cycle-test\<close> returns, and reports for the associativities 2, 4, 8 and 16 that every candidate policy evicts cyclically
  when it is new, and that FIFO, LRU and tree-PLRU still do after any sequence of accesses.
\<close>

theorem cycle_test_reports:
  assumes "draws_in_range draw"
  shows "\<exists>reports. cycle_test_main draw g = Some reports \<and> map cr_associativity reports = [2, 4, 8, 16] \<and>
    (\<forall>r \<in> set reports. cycle_report_ok r)"
proof -
  note round = cycle_test_round_ok [OF assms]
  from round [of 2 g] obtain r1 g1 where 1: "cycle_test_round draw 2 g = Some (r1, g1)" "cr_associativity r1 = 2" "cycle_report_ok r1" by auto
  from round [of 4 g1] obtain r2 g2 where 2: "cycle_test_round draw 4 g1 = Some (r2, g2)" "cr_associativity r2 = 4" "cycle_report_ok r2" by auto
  from round [of 8 g2] obtain r3 g3 where 3: "cycle_test_round draw 8 g2 = Some (r3, g3)" "cr_associativity r3 = 8" "cycle_report_ok r3" by auto
  from round [of 16 g3] obtain r4 g4 where 4: "cycle_test_round draw 16 g3 = Some (r4, g4)" "cr_associativity r4 = 16" "cycle_report_ok r4" by auto
  have "cycle_test_main draw g = Some [r1, r2, r3, r4]"
    using 1(1) 2(1) 3(1) 4(1) by (simp add: cycle_test_main_def retry_step cycle_test_step_def)
  then show ?thesis using 1(2,3) 2(2,3) 3(2,3) 4(2,3) by simp
qed

theorem cycle_test_reports_witness:
  "\<exists>reports. cycle_test_main (\<lambda>lo hi (g :: nat). (lo + g mod (hi - lo + 1), g + 1)) 0 = Some reports \<and> length reports = 4"
proof -
  have "draws_in_range (\<lambda>lo hi (g :: nat). (lo + g mod (hi - lo + 1), g + 1))"
  proof -
    have "lo + g mod (hi - lo + 1) \<le> hi" if "lo \<le> hi" for lo hi g :: nat
      using mod_less_divisor [of "hi - lo + 1" g] that by linarith
    then show ?thesis by (simp add: draws_in_range_def)
  qed
  from cycle_test_reports [OF this, of 0] show ?thesis
  proof (elim exE conjE)
    fix reports assume "cycle_test_main (\<lambda>lo hi (g :: nat). (lo + g mod (hi - lo + 1), g + 1)) 0 = Some reports"
      and "map cr_associativity reports = [2, 4, 8, 16]"
    from this(1) arg_cong [OF this(2), of length] show ?thesis by simp
  qed
qed

end
