(* ===== verification/CH_Cli.thy ===== *)
theory CH_Cli
  imports CH_Commands
begin

text \<open>
  The program \<open>cachehound\<close> from the command line to the exit code (\<open>cli/src/main.cpp\<close>, \<open>commands/root_command.hpp\<close>,
  \<open>commands/detail/command_base.hpp\<close>, \<open>multicommand_base.hpp\<close> and the option declarations of the commands).

  argparse is a parameter: the record \<open>cli_arguments\<close> has, for each parser, the values that \<open>get\<close> finds and the
  subcommands it has seen. What is relied on is documented: an option that is not on the command line has the
  declared default (\<open>defaults_hold\<close>), and \<open>get\<close> of another type than that of the value throws \<open>std::bad_any_cast\<close>.
  The theorems say what reaches the user when arguments are wrong, and that \<open>reverse replacement\<close> cannot be used without
  \<open>--index\<close>, whose declared default has the wrong type.
\<close>

section \<open>Options\<close>

datatype any_value = Any_bool bool | Any_int int | Any_unsigned nat | Any_size_t nat | Any_string string

datatype scan_shape = Scan_unsigned | Scan_size_t

record option_decl =
  od_names :: "string list"
  od_default :: "any_value option"
  od_implicit :: "any_value option"
  od_scan :: "scan_shape option"
  od_choices :: "string list"

definition add_argument :: "string list \<Rightarrow> option_decl" where
  "add_argument names = \<lparr>od_names = names, od_default = None, od_implicit = None, od_scan = None, od_choices = []\<rparr>"

text \<open>\<open>flag()\<close> declares the default \<open>false\<close> and the implicit value \<open>true\<close>.\<close>

definition flag :: "option_decl \<Rightarrow> option_decl" where
  "flag d = d\<lparr>od_default := Some (Any_bool False), od_implicit := Some (Any_bool True)\<rparr>"

text \<open>The \<open>setup_arguments\<close> of the commands.\<close>

definition root_setup :: "option_decl list" where
  "root_setup = [(add_argument [''-V'', ''--verbose''])\<lparr>od_default := Some (Any_bool False), od_implicit := Some (Any_bool True)\<rparr>]"

definition reverse_setup :: "option_decl list" where
  "reverse_setup =
     [(add_argument [''--level'', ''-L''])\<lparr>od_default := Some (Any_unsigned 1), od_scan := Some Scan_unsigned\<rparr>,
      (add_argument [''--physical''])\<lparr>od_default := Some (Any_bool False), od_implicit := Some (Any_bool True)\<rparr>,
      (add_argument [''--memory-size'', ''-m''])\<lparr>od_default := Some (Any_size_t (2 ^ 20)), od_scan := Some Scan_size_t\<rparr>,
      flag (add_argument [''--kernel'']),
      (add_argument [''--kernel-cpu''])\<lparr>od_scan := Some Scan_unsigned\<rparr>,
      (add_argument [''--kernel-isolation''])\<lparr>od_default := Some (Any_string ''no-preempt''),
         od_choices := [''off'', ''no-preempt'', ''disable-irq'']\<rparr>,
      flag (add_argument [''--simulate'']),
      (add_argument [''--pmu''])\<lparr>od_choices := [''intel'', ''amd-zen2'', ''rpi5'', ''a64fx'']\<rparr>]"

definition strategy_setup :: "option_decl list" where
  "strategy_setup =
     [(add_argument [''--eviction-strategy'', ''-S''])\<lparr>od_choices := [''auto'', ''eviction-set'', ''cisw''],
         od_default := Some (Any_string ''auto'')\<rparr>,
      (add_argument [''--pollution'', ''-P''])\<lparr>od_default := Some (Any_size_t 10000), od_scan := Some Scan_size_t\<rparr>,
      (add_argument [''--repetitions'', ''-R''])\<lparr>od_default := Some (Any_size_t 1), od_scan := Some Scan_size_t\<rparr>]"

definition placement_setup :: "option_decl list" where
  "placement_setup = strategy_setup @
     [(add_argument [''--mappings'', ''-M''])\<lparr>od_default := Some (Any_size_t 1000), od_scan := Some Scan_size_t\<rparr>]"

definition replacement_setup :: "option_decl list" where
  "replacement_setup =
     [(add_argument [''-i'', ''--index''])\<lparr>od_default := Some (Any_int 0), od_scan := Some Scan_size_t\<rparr>,
      (add_argument [''--pollution'', ''-P''])\<lparr>od_default := Some (Any_size_t 10000), od_scan := Some Scan_size_t\<rparr>,
      (add_argument [''--repetitions'', ''-R''])\<lparr>od_default := Some (Any_size_t 10), od_scan := Some Scan_size_t\<rparr>,
      (add_argument [''--length'', ''-l''])\<lparr>od_default := Some (Any_size_t 30), od_scan := Some Scan_size_t\<rparr>,
      (add_argument [''--rounds'', ''-r''])\<lparr>od_default := Some (Any_size_t 10), od_scan := Some Scan_size_t\<rparr>]"

section \<open>Reading values\<close>

type_synonym argument_values = "string \<Rightarrow> any_value option"

datatype parse_error = Cli_error cli_error | Bad_any_cast string | No_value string | Rejected string

definition and_then :: "'e + 'a \<Rightarrow> ('a \<Rightarrow> 'e + 'b) \<Rightarrow> 'e + 'b" where
  "and_then r f = (case r of Inl e \<Rightarrow> Inl e | Inr x \<Rightarrow> f x)"

definition get_value :: "(any_value \<Rightarrow> 'a option) \<Rightarrow> argument_values \<Rightarrow> string \<Rightarrow> parse_error + 'a" where
  "get_value cast args name =
     (case args name of None \<Rightarrow> Inl (No_value name)
      | Some v \<Rightarrow> (case cast v of None \<Rightarrow> Inl (Bad_any_cast name) | Some x \<Rightarrow> Inr x))"

fun cast_bool :: "any_value \<Rightarrow> bool option" where
  "cast_bool (Any_bool b) = Some b" | "cast_bool _ = None"

fun cast_unsigned :: "any_value \<Rightarrow> nat option" where
  "cast_unsigned (Any_unsigned n) = Some n" | "cast_unsigned _ = None"

fun cast_size_t :: "any_value \<Rightarrow> nat option" where
  "cast_size_t (Any_size_t n) = Some n" | "cast_size_t _ = None"

fun cast_string :: "any_value \<Rightarrow> string option" where
  "cast_string (Any_string s) = Some s" | "cast_string _ = None"

subsection \<open>reverse\<close>

text \<open>
  The values are read in the order of the code; \<open>reverse_parse\<close> then fills the fields of the command. Nothing is read when no
  subcommand is used.
\<close>

definition reverse_values :: "argument_values \<Rightarrow> parse_error + reverse_args" where
  "reverse_values args =
     and_then (get_value cast_unsigned args ''--level'') (\<lambda>level.
     if level = 0 then Inl (Cli_error Level_zero) else
     and_then (get_value cast_bool args ''--physical'') (\<lambda>physical.
     and_then (get_value cast_size_t args ''--memory-size'') (\<lambda>memory_size.
     and_then (get_value cast_bool args ''--simulate'') (\<lambda>simulate.
     let r = \<lparr>arg_level = level, arg_physical = physical, arg_memory_size = memory_size, arg_simulate = simulate,
              arg_kernel_cpu = None, arg_kernel_isolation = [], arg_pmu = None\<rparr> in
     if simulate then Inr r else
     and_then (get_value cast_unsigned args ''--kernel-cpu'') (\<lambda>cpu.
     and_then (get_value cast_string args ''--kernel-isolation'') (\<lambda>isolation_str.
     and_then (get_value cast_string args ''--pmu'') (\<lambda>pmu_str.
     Inr (r\<lparr>arg_kernel_cpu := Some cpu, arg_kernel_isolation := isolation_str, arg_pmu := Some pmu_str\<rparr>))))))))"

definition reverse_parse_arguments ::
    "bool \<Rightarrow> argument_values \<Rightarrow> reverse_command \<Rightarrow> (parse_error + reverse_command) option" where
  "reverse_parse_arguments uses_subcommand args c =
     (if uses_subcommand then
        case reverse_values args of
          Inl e \<Rightarrow> Some (Inl e)
        | Inr r \<Rightarrow> map_option (map_sum Cli_error id) (reverse_parse r c)
      else Some (Inr c))"

subsection \<open>reverse placement and reverse replacement\<close>

record placement_command = strategy_command +
  pl_target_mappings :: nat

definition placement_parse_arguments :: "argument_values \<Rightarrow> (parse_error + placement_command) option" where
  "placement_parse_arguments args =
     (case get_value cast_string args ''--eviction-strategy'' of
        Inl e \<Rightarrow> Some (Inl e)
      | Inr strategy_str \<Rightarrow> do {
          require (strategy_str \<in> {''auto'', ''eviction-set'', ''cisw''});
          case and_then (get_value cast_size_t args ''--pollution'') (\<lambda>pollution.
               and_then (get_value cast_size_t args ''--repetitions'') (\<lambda>repetitions. Inr (pollution, repetitions))) of
            Inl e \<Rightarrow> Some (Inl e)
          | Inr (pollution, repetitions) \<Rightarrow> do {
              st \<leftarrow> strategy_parse strategy_str pollution repetitions;
              Some (and_then (map_sum Cli_error id st) (\<lambda>s.
                and_then (get_value cast_size_t args ''--mappings'') (\<lambda>mappings.
                  Inr (strategy_command.extend s \<lparr>pl_target_mappings = mappings\<rparr>)))) } })"

text \<open>\<open>index_\<close> is an \<open>int\<close> that is assigned a \<open>std::size_t\<close>.\<close>

record replacement_command =
  rp_index :: int
  rp_pollution :: nat
  rp_repetitions :: nat
  rp_length :: nat
  rp_minimum_rounds :: nat

definition replacement_parse_arguments :: "argument_values \<Rightarrow> parse_error + replacement_command" where
  "replacement_parse_arguments args =
     and_then (get_value cast_size_t args ''-i'') (\<lambda>index.
     and_then (get_value cast_size_t args ''--pollution'') (\<lambda>pollution.
     and_then (get_value cast_size_t args ''--repetitions'') (\<lambda>repetitions.
     if repetitions = 0 then Inl (Cli_error Repetitions_zero) else
     and_then (get_value cast_size_t args ''--length'') (\<lambda>len.
     and_then (get_value cast_size_t args ''--rounds'') (\<lambda>minimum_rounds.
     Inr \<lparr>rp_index = signed_take_bit 31 (int index), rp_pollution = pollution, rp_repetitions = repetitions,
          rp_length = len, rp_minimum_rounds = minimum_rounds\<rparr>)))))"

section \<open>Commands\<close>

text \<open>
  The state of the process: what it has written and the log level; \<open>cli_world\<close> is all else, like the device. Help texts are
  named by their command.
\<close>

datatype log_level = Level_info | Level_debug | Level_trace

record info_report =
  ir_memory_size :: nat
  ir_line_size :: nat
  ir_features :: "string list"
  ir_levels :: "(nat \<times> nat) list"

datatype cli_message = What parse_error | Help string | Log_error cli_error | Info info_report

record 'w cli_state =
  cli_world :: 'w
  cli_output :: "cli_message list"
  cli_level :: log_level

definition emit :: "cli_message list \<Rightarrow> 'w cli_state \<Rightarrow> 'w cli_state" where
  "emit os s = s\<lparr>cli_output := cli_output s @ os\<rparr>"

type_synonym 'w main_function = "'w cli_state \<Rightarrow> (int \<times> 'w cli_state) option"

text \<open>
  \<open>command_base\<close>: \<open>parse\<close> keeps the exception of \<open>parse_arguments\<close>, here the left value, and \<open>run\<close> prints it with the
  help text of the command.
\<close>

definition command_run :: "string \<Rightarrow> parse_error + 'c \<Rightarrow> ('c \<Rightarrow> 'w main_function) \<Rightarrow> 'w main_function" where
  "command_run name parsed main s =
     (case parsed of Inl e \<Rightarrow> Some (1, emit [What e, Help name] s) | Inr c \<Rightarrow> main c s)"

definition run_fallback :: "string \<Rightarrow> 'w main_function" where
  "run_fallback name s = Some (1, emit [Help name] s)"

subsection \<open>reverse\<close>

text \<open>
  \<open>run_subcommand\<close>: the memory is built first (\<open>base\<close>, with an effect on the world), then the adapters, and then the
  subcommand runs. Too many levels and missing physical addresses are logged and give exit code 1.
\<close>

definition run_subcommand ::
    "(reverse_command \<Rightarrow> 'w \<Rightarrow> (('m, 'z) provided \<times> 'w) option) \<Rightarrow> (('m, 'z) provided \<Rightarrow> ('m, 'z) provided option) \<Rightarrow>
     (bool \<Rightarrow> ('m, 'z) provided \<Rightarrow> cli_error + 'mem) \<Rightarrow> reverse_command \<Rightarrow> ('mem \<Rightarrow> 'w main_function) \<Rightarrow> 'w main_function" where
  "run_subcommand base adapt indexing c subcommand s = do {
     let built = base c (cli_world s);
     r \<leftarrow> provide_memory 4 adapt (map_option fst built) (rc_level c);
     case r of
       Inl e \<Rightarrow> Some (1, emit [Log_error e] s)
     | Inr mem \<Rightarrow> do {
         (_, w) \<leftarrow> built;
         let s' = s\<lparr>cli_world := w\<rparr>;
         case indexing (rc_physical c) mem of
           Inl e \<Rightarrow> Some (1, emit [Log_error e] s')
         | Inr mem' \<Rightarrow> subcommand mem' s' } }"

text \<open>\<open>reverse info\<close>; which features a memory has is known from its type.\<close>

fun level_reports :: "(nat \<Rightarrow> nat option) \<Rightarrow> (nat \<Rightarrow> nat option) \<Rightarrow> nat list \<Rightarrow> (nat \<times> nat) list option" where
  "level_reports ways index_bits [] = Some []"
| "level_reports ways index_bits (level # levels) = do {
     w \<leftarrow> ways level;
     b \<leftarrow> index_bits level;
     rest \<leftarrow> level_reports ways index_bits levels;
     Some ((w, 2 ^ b) # rest) }"

definition info_main :: "bool \<Rightarrow> bool \<Rightarrow> bool \<Rightarrow> ('m, 'z) provided \<Rightarrow> 'w main_function" where
  "info_main switch_channel x86 armv8 = (\<lambda>(ops, regions) s. do {
     levels \<leftarrow> level_reports (mo_ways ops) (mo_index_bits ops) [0..<mo_levels ops];
     Some (0, emit [Info \<lparr>ir_memory_size = memory_size regions, ir_line_size = 2 ^ mo_offset_bits ops,
         ir_features = (if switch_channel then [''switch-channel''] else []) @ (if x86 then [''clflush'', ''wbinvd''] else []) @
           (if armv8 then [''cisw''] else []),
         ir_levels = levels\<rparr>] s) })"

subsection \<open>The program\<close>

record cli_arguments =
  ca_rejected :: "parse_error option"
  ca_verbose :: nat
  ca_root_used :: "string \<Rightarrow> bool"
  ca_reverse_used :: "string \<Rightarrow> bool"
  ca_reverse :: argument_values
  ca_placement :: argument_values
  ca_replacement :: argument_values

record ('w, 'mem) leaf_mains =
  lm_cycle_test :: "'w main_function"
  lm_affine_test :: "'w main_function"
  lm_placement :: "placement_command \<Rightarrow> 'mem \<Rightarrow> 'w main_function"
  lm_replacement :: "replacement_command \<Rightarrow> 'mem \<Rightarrow> 'w main_function"
  lm_info :: "'mem \<Rightarrow> 'w main_function"

abbreviation root_names :: "string list" where
  "root_names \<equiv> [''cycle-test'', ''affine-test'', ''reverse'']"

abbreviation reverse_names :: "string list" where
  "reverse_names \<equiv> [''placement'', ''replacement'', ''info'']"

definition run_reverse_leaf :: "cli_arguments \<Rightarrow> ('w, 'mem) leaf_mains \<Rightarrow> string \<Rightarrow> 'mem \<Rightarrow> 'w main_function" where
  "run_reverse_leaf a mains name mem s =
     (if name = ''placement'' then do {
        parsed \<leftarrow> placement_parse_arguments (ca_placement a);
        command_run name parsed (\<lambda>c. lm_placement mains c mem) s }
      else if name = ''replacement''
      then command_run name (replacement_parse_arguments (ca_replacement a)) (\<lambda>c. lm_replacement mains c mem) s
      else command_run name (Inr ()) (\<lambda>_. lm_info mains mem) s)"

definition run_reverse ::
    "(reverse_command \<Rightarrow> ('mem \<Rightarrow> 'w main_function) \<Rightarrow> 'w main_function) \<Rightarrow> reverse_command \<Rightarrow> cli_arguments \<Rightarrow> ('w, 'mem) leaf_mains \<Rightarrow>
     'w main_function" where
  "run_reverse with_memory c a mains s = do {
     let selected = select_subcommand (ca_reverse_used a) reverse_names;
     parsed \<leftarrow> reverse_parse_arguments (selected \<noteq> 0) (ca_reverse a) c;
     command_run ''reverse'' parsed
       (\<lambda>c. multicommand_main (run_fallback ''reverse'') (\<lambda>name. with_memory c (run_reverse_leaf a mains name)) selected reverse_names) s }"

fun verbosity_level :: "nat \<Rightarrow> log_level" where
  "verbosity_level 0 = Level_info"
| "verbosity_level (Suc 0) = Level_debug"
| "verbosity_level _ = Level_trace"

definition main_program ::
    "(reverse_command \<Rightarrow> ('mem \<Rightarrow> 'w main_function) \<Rightarrow> 'w main_function) \<Rightarrow> reverse_command \<Rightarrow> cli_arguments \<Rightarrow> ('w, 'mem) leaf_mains \<Rightarrow>
     'w main_function" where
  "main_program with_memory c a mains s =
     (case ca_rejected a of
        Some e \<Rightarrow> Some (1, emit [What e] s)
      | None \<Rightarrow> command_run ''cachehound'' (Inr ())
          (\<lambda>_. multicommand_main (run_fallback ''cachehound'')
             (\<lambda>name. if name = ''cycle-test'' then command_run name (Inr ()) (\<lambda>_. lm_cycle_test mains)
                else if name = ''affine-test'' then command_run name (Inr ()) (\<lambda>_. lm_affine_test mains)
                else run_reverse with_memory c a mains)
             (select_subcommand (ca_root_used a) root_names) root_names)
          (s\<lparr>cli_level := verbosity_level (ca_verbose a)\<rparr>))"

section \<open>Lemmas\<close>

text \<open>What is relied on of argparse: options that are not given have their declared default.\<close>

definition defaults_hold :: "option_decl list \<Rightarrow> string set \<Rightarrow> argument_values \<Rightarrow> bool" where
  "defaults_hold decls given args \<longleftrightarrow>
     (\<forall>d \<in> set decls. set (od_names d) \<inter> given = {} \<longrightarrow> (\<forall>name \<in> set (od_names d). args name = od_default d))"

lemma and_then_simps [simp]: "and_then (Inl e) f = Inl e" "and_then (Inr x) f = f x"
  by (simp_all add: and_then_def)

lemma get_value_Some: "args name = Some v \<Longrightarrow>
    get_value cast args name = (case cast v of None \<Rightarrow> Inl (Bad_any_cast name) | Some x \<Rightarrow> Inr x)"
  by (simp add: get_value_def)

lemma default_value:
  assumes "defaults_hold decls given args" and "d \<in> set decls" and "set (od_names d) \<inter> given = {}" and "name \<in> set (od_names d)"
  shows "args name = od_default d"
  using assms by (auto simp: defaults_hold_def)

lemma command_run_simps [simp]:
  "command_run name (Inl e) main s = Some (1, emit [What e, Help name] s)" "command_run name (Inr c) main s = main c s"
  by (simp_all add: command_run_def)

text \<open>One subcommand is used.\<close>

lemma one_used:
  assumes "used = (\<lambda>n. n = name)" and "name \<in> set names"
  shows "multicommand_main fallback run (select_subcommand used names) names = run name" and "select_subcommand used names \<noteq> 0"
proof -
  have i: "std_find_if used names < length names" "names ! std_find_if used names = name"
    using assms(2) by (induction names) (auto simp: assms(1))
  have "\<exists>n \<in> set names. used n" using assms by auto
  with i(2) show "multicommand_main fallback run (select_subcommand used names) names = run name"
    by (simp add: fun_eq_iff multicommand_first)
  show "select_subcommand used names \<noteq> 0" using i(1) by (simp add: select_subcommand_def select_loop_first)
qed

lemma root_reverse:
  assumes "ca_rejected a = None" and "ca_root_used a = (\<lambda>n. n = ''reverse'')"
  shows "main_program with_memory c a mains s = run_reverse with_memory c a mains (s\<lparr>cli_level := verbosity_level (ca_verbose a)\<rparr>)"
proof -
  have "''reverse'' \<in> set root_names" by simp
  show ?thesis unfolding main_program_def one_used(1) [OF assms(2) \<open>''reverse'' \<in> set root_names\<close>] using assms(1) by simp
qed

lemma reverse_selected:
  assumes "ca_reverse_used a = (\<lambda>n. n = name)" and "name \<in> set reverse_names"
  shows "run_reverse with_memory c a mains s = do {
    parsed \<leftarrow> reverse_parse_arguments True (ca_reverse a) c;
    command_run ''reverse'' parsed (\<lambda>c. with_memory c (run_reverse_leaf a mains name)) s }"
  unfolding run_reverse_def Let_def one_used(1) [OF assms] using one_used(2) [OF assms] by simp

text \<open>\<open>reverse replacement\<close>: the default of \<open>-i\<close> is an \<open>int\<close>, read as a \<open>std::size_t\<close>.\<close>

lemma replacement_without_index:
  assumes "defaults_hold replacement_setup given args" and "given \<inter> {''-i'', ''--index''} = {}"
  shows "replacement_parse_arguments args = Inl (Bad_any_cast ''-i'')"
proof -
  have "args ''-i'' = Some (Any_int 0)"
    using default_value [OF assms(1), of "hd replacement_setup" "''-i''"] assms(2)
    by (auto simp: replacement_setup_def add_argument_def)
  then show ?thesis by (simp add: replacement_parse_arguments_def get_value_Some)
qed

lemma replacement_with_index:
  assumes "defaults_hold replacement_setup given args" and "given \<subseteq> {''-i'', ''--index''}" and "args ''-i'' = Some (Any_size_t n)"
  shows "replacement_parse_arguments args = Inr \<lparr>rp_index = signed_take_bit 31 (int n), rp_pollution = 10000, rp_repetitions = 10,
    rp_length = 30, rp_minimum_rounds = 10\<rparr>"
proof -
  have given: "\<And>name. name \<notin> {''-i'', ''--index''} \<Longrightarrow> name \<notin> given" using assms(2) by blast
  have "args ''--pollution'' = Some (Any_size_t 10000)" "args ''--repetitions'' = Some (Any_size_t 10)"
    "args ''--length'' = Some (Any_size_t 30)" "args ''--rounds'' = Some (Any_size_t 10)"
    using default_value [OF assms(1), of "replacement_setup ! 1" "''--pollution''"] default_value [OF assms(1), of "replacement_setup ! 2" "''--repetitions''"]
      default_value [OF assms(1), of "replacement_setup ! 3" "''--length''"] default_value [OF assms(1), of "replacement_setup ! 4" "''--rounds''"]
    by (simp_all add: replacement_setup_def add_argument_def given)
  then show ?thesis using assms(3) by (simp add: replacement_parse_arguments_def get_value_Some)
qed

text \<open>\<open>reverse --simulate\<close> needs no other option.\<close>

lemma reverse_simulate_values:
  assumes "defaults_hold reverse_setup given args" and "given \<subseteq> {''--simulate'', ''--level'', ''-L''}"
    and "args ''--simulate'' = Some (Any_bool True)" and "args ''--level'' = Some (Any_unsigned n)"
  shows "reverse_values args = (if n = 0 then Inl (Cli_error Level_zero) else Inr \<lparr>arg_level = n, arg_physical = False,
    arg_memory_size = 2 ^ 20, arg_simulate = True, arg_kernel_cpu = None, arg_kernel_isolation = [], arg_pmu = None\<rparr>)"
proof -
  have given: "\<And>name. name \<notin> {''--simulate'', ''--level'', ''-L''} \<Longrightarrow> name \<notin> given" using assms(2) by blast
  have "args ''--physical'' = Some (Any_bool False)" "args ''--memory-size'' = Some (Any_size_t (2 ^ 20))"
    using default_value [OF assms(1), of "reverse_setup ! 1" "''--physical''"] default_value [OF assms(1), of "reverse_setup ! 2" "''--memory-size''"]
    by (simp_all add: reverse_setup_def add_argument_def given)
  then show ?thesis using assms(3,4) by (simp add: reverse_values_def get_value_Some)
qed

lemma level_reports_map:
  "\<forall>l \<in> set ls. ways l = Some (w l) \<and> bits l = Some (b l) \<Longrightarrow> level_reports ways bits ls = Some (map (\<lambda>l. (w l, 2 ^ b l)) ls)"
  by (induction ls) auto

section \<open>The simulated memory of --simulate\<close>

text \<open>Operations that a simulated memory does not have are never called; they are \<open>None\<close> here.\<close>

definition simulated_ops :: "simulated_memory \<Rightarrow> simulated_memory memory_ops" where
  "simulated_ops m = \<lparr>mo_offset_bits = sm_offset_bits m, mo_levels = sm_levels m, mo_index_bits = sm_index_bits m, mo_ways = sm_ways m,
     mo_access = sm_access, mo_instrumented_access = sm_instrumented_access,
     mo_cisw = (\<lambda>_ _ _ _. None), mo_csw = (\<lambda>_ _ _ _. None), mo_isw = (\<lambda>_ _ _ _. None), mo_clflush = (\<lambda>_ _. None),
     mo_wbinvd = (\<lambda>_. None), mo_flush = (\<lambda>_. None), mo_reset = (\<lambda>_. None), mo_switch_channel = (\<lambda>_. None)\<rparr>"

definition simulated_base :: "reverse_command \<Rightarrow> simulated_memory option \<Rightarrow>
    ((simulated_memory, unit) provided \<times> simulated_memory option) option" where
  "simulated_base c w = do {
     m \<leftarrow> command_simulated_memory (rc_memory_size c);
     Some ((simulated_ops m, sm_regions m), Some m) }"

abbreviation run_simulated :: "reverse_command \<Rightarrow> ((simulated_memory, unit) provided \<Rightarrow> simulated_memory option main_function) \<Rightarrow>
    simulated_memory option main_function" where
  "run_simulated \<equiv> run_subcommand simulated_base (adapt_level rest_basic False) adapt_indexing_basic"

lemma command_cache_sets:
  assumes "command_cache k off n = Some c" and "k < 31" and "off < 64"
  shows "sac_sets c = Some (2 ^ k)"
  using assms by (auto simp: command_cache_def sac_sets_def sac_init_def basic_sap_init_def modular_init_def bind_eq_Some_conv vec_simps
    basic_sap_index_bits_def modular_index_bits_def countr_zero_power)

lemma command_memory_geometry:
  "\<exists>m. command_simulated_memory sz = Some m \<and> sm_regions m = [\<lparr>region_base = 0, region_size = sz\<rparr>] \<and> sm_offset_bits m = 6 \<and> sm_levels m = 2 \<and>
    sm_ways m 0 = Some 4 \<and> sm_ways m 1 = Some 8 \<and> sm_index_bits m 0 = Some 6 \<and> sm_index_bits m 1 = Some 7"
proof -
  from command_cache_lru [of 6 4 6] obtain c1 where c1: "command_cache 6 6 4 = Some c1" "sac_ways c1 = 4" by auto
  from command_cache_lru [of 7 8 6] obtain c2 where c2: "command_cache 7 6 8 = Some c2" "sac_ways c2 = 8" by auto
  have "sac_sets c1 = Some (2 ^ 6)" "sac_sets c2 = Some (2 ^ 7)"
    using command_cache_sets [OF c1(1)] command_cache_sets [OF c2(1)] by simp_all
  moreover have "countr_zero 64 = 6" "countr_zero 128 = 7" using countr_zero_power [of 6] countr_zero_power [of 7] by simp_all
  moreover have "command_simulated_memory sz = Some (sm_init 0 sz 6 [c1, c2])" using c1(1) c2(1) by (simp add: command_simulated_memory_def)
  ultimately show ?thesis using c1(2) c2(2) by (simp add: sm_init_def sm_levels_def sm_ways_def sm_index_bits_def vec_at_def)
qed

section \<open>Properties\<close>

lemma provide_memory_first: "provide_memory 4 adapt (Some mem) 0 = Some (Inr mem)"
  by (simp add: numeral_eq_Suc)

lemma run_subcommand_provided:
  assumes "base c (cli_world s) = Some (m0, w)" and "provide_memory 4 adapt (Some m0) (rc_level c) = Some (Inr m)"
    and "indexing (rc_physical c) m = Inr mem"
  shows "run_subcommand base adapt indexing c subcommand s = subcommand mem (s\<lparr>cli_world := w\<rparr>)"
  using assms by (simp add: run_subcommand_def)

text \<open>
  Wrong arguments end the program with exit code 1 and a message, and nothing is run: what argparse rejects is printed alone, no
  subcommand gives the usage, and when \<open>reverse\<close> cannot read its own arguments no memory is allocated. Only the log level may have
  been set.
\<close>

theorem argument_errors_exit:
  "(ca_rejected a = Some e \<longrightarrow> main_program with_memory c a mains s = Some (1, emit [What e] s)) \<and>
   (ca_rejected a = None \<and> (\<forall>n \<in> set root_names. \<not> ca_root_used a n) \<longrightarrow>
      main_program with_memory c a mains s = Some (1, emit [Help ''cachehound''] (s\<lparr>cli_level := verbosity_level (ca_verbose a)\<rparr>))) \<and>
   (ca_rejected a = None \<and> ca_root_used a = (\<lambda>n. n = ''reverse'') \<and> (\<forall>n \<in> set reverse_names. \<not> ca_reverse_used a n) \<longrightarrow>
      main_program with_memory c a mains s = Some (1, emit [Help ''reverse''] (s\<lparr>cli_level := verbosity_level (ca_verbose a)\<rparr>))) \<and>
   (ca_rejected a = None \<and> ca_root_used a = (\<lambda>n. n = ''reverse'') \<and> ca_reverse_used a = (\<lambda>n. n = name) \<and> name \<in> set reverse_names \<and>
      reverse_values (ca_reverse a) = Inl e \<longrightarrow>
      main_program with_memory c a mains s = Some (1, emit [What e, Help ''reverse''] (s\<lparr>cli_level := verbosity_level (ca_verbose a)\<rparr>)))"
proof (intro conjI impI; (elim conjE)?)
  show "main_program with_memory c a mains s = Some (1, emit [What e] s)" if "ca_rejected a = Some e"
    using that by (simp add: main_program_def)
next
  assume r: "ca_rejected a = None" "\<forall>n \<in> set root_names. \<not> ca_root_used a n"
  show "main_program with_memory c a mains s = Some (1, emit [Help ''cachehound''] (s\<lparr>cli_level := verbosity_level (ca_verbose a)\<rparr>))"
    unfolding main_program_def multicommand_none [OF r(2)] by (simp add: r(1) run_fallback_def)
next
  assume r: "ca_rejected a = None" "ca_root_used a = (\<lambda>n. n = ''reverse'')" and none: "\<forall>n \<in> set reverse_names. \<not> ca_reverse_used a n"
  have "select_subcommand (ca_reverse_used a) reverse_names = 0" using none by (simp add: select_subcommand_def)
  then show "main_program with_memory c a mains s = Some (1, emit [Help ''reverse''] (s\<lparr>cli_level := verbosity_level (ca_verbose a)\<rparr>))"
    unfolding root_reverse [OF r] run_reverse_def by (simp add: reverse_parse_arguments_def multicommand_main_def run_fallback_def)
next
  assume r: "ca_rejected a = None" "ca_root_used a = (\<lambda>n. n = ''reverse'')"
    and u: "ca_reverse_used a = (\<lambda>n. n = name)" "name \<in> set reverse_names" and e: "reverse_values (ca_reverse a) = Inl e"
  show "main_program with_memory c a mains s = Some (1, emit [What e, Help ''reverse''] (s\<lparr>cli_level := verbosity_level (ca_verbose a)\<rparr>))"
    unfolding root_reverse [OF r] reverse_selected [OF u] by (simp add: reverse_parse_arguments_def e)
qed

text \<open>
  C24. \<open>reverse replacement\<close> needs the option \<open>--index\<close> although it declares a default: without it the program builds the memory, prints
  the failed cast and exits with 1, and the reversal does not run. With \<open>-i n\<close> and nothing else it runs with the other defaults.
\<close>

theorem replacement_needs_index:
  assumes used: "ca_rejected a = None" "ca_root_used a = (\<lambda>n. n = ''reverse'')" "ca_reverse_used a = (\<lambda>n. n = ''replacement'')"
    and parsed: "reverse_parse_arguments True (ca_reverse a) c = Some (Inr c')"
    and mem: "base c' (cli_world s) = Some (m0, w)" "provide_memory 4 adapt (Some m0) (rc_level c') = Some (Inr m)"
      "indexing (rc_physical c') m = Inr mem"
    and args: "defaults_hold replacement_setup given (ca_replacement a)"
    and s': "s' = s\<lparr>cli_level := verbosity_level (ca_verbose a), cli_world := w\<rparr>"
  shows "(given \<inter> {''-i'', ''--index''} = {} \<longrightarrow>
      main_program (run_subcommand base adapt indexing) c a mains s = Some (1, emit [What (Bad_any_cast ''-i''), Help ''replacement''] s')) \<and>
    (given \<subseteq> {''-i'', ''--index''} \<and> ca_replacement a ''-i'' = Some (Any_size_t n) \<longrightarrow>
      main_program (run_subcommand base adapt indexing) c a mains s =
        lm_replacement mains \<lparr>rp_index = signed_take_bit 31 (int n), rp_pollution = 10000, rp_repetitions = 10, rp_length = 30, rp_minimum_rounds = 10\<rparr>
          mem s')"
proof -
  have run: "main_program (run_subcommand base adapt indexing) c a mains s =
      command_run ''replacement'' (replacement_parse_arguments (ca_replacement a)) (\<lambda>c. lm_replacement mains c mem) s'"
    unfolding root_reverse [OF used(1,2)] reverse_selected [OF used(3), simplified] using parsed mem
    by (simp add: run_subcommand_provided run_reverse_leaf_def s')
  show ?thesis unfolding run using replacement_without_index [OF args] replacement_with_index [OF args] by simp
qed

text \<open>
  \<open>cachehound reverse --simulate --level n info\<close>: level 1 exits with 0 and reports the simulated hierarchy, level 0
  is an error of the arguments and a level above 4 one of the memory, both with exit code 1.
\<close>

theorem simulated_info:
  assumes used: "ca_rejected a = None" "ca_root_used a = (\<lambda>n. n = ''reverse'')" "ca_reverse_used a = (\<lambda>n. n = ''info'')"
    and args: "defaults_hold reverse_setup given (ca_reverse a)" "given \<subseteq> {''--simulate'', ''--level'', ''-L''}"
      "ca_reverse a ''--simulate'' = Some (Any_bool True)" "ca_reverse a ''--level'' = Some (Any_unsigned n)"
    and mains: "lm_info mains = info_main False False False"
  shows "\<exists>code s'. (n \<le> 1 \<or> 4 < n \<longrightarrow> main_program run_simulated c a mains s = Some (code, s')) \<and>
    (n = 0 \<longrightarrow> code = 1 \<and> cli_output s' = cli_output s @ [What (Cli_error Level_zero), Help ''reverse'']) \<and>
    (n = 1 \<longrightarrow> code = 0 \<and> cli_output s' = cli_output s @
       [Info \<lparr>ir_memory_size = 2 ^ 20, ir_line_size = 64, ir_features = [], ir_levels = [(4, 64), (8, 128)]\<rparr>]) \<and>
    (4 < n \<longrightarrow> code = 1 \<and> cli_output s' = cli_output s @ [Log_error Bypass_depth])"
proof -
  let ?s = "s\<lparr>cli_level := verbosity_level (ca_verbose a)\<rparr>"
  note vals = reverse_simulate_values [OF args]
  note main = root_reverse [OF used(1,2), of run_simulated c mains s] reverse_selected [OF used(3), of run_simulated c mains ?s, simplified]
  consider "n = 0" | "n = 1" | "4 < n" | "1 < n" "n \<le> 4" by linarith
  then show ?thesis
  proof cases
    case 1
    then have "main_program run_simulated c a mains s = Some (1, emit [What (Cli_error Level_zero), Help ''reverse''] ?s)"
      unfolding main using vals by (simp add: reverse_parse_arguments_def)
    then show ?thesis using 1 by (auto simp: emit_def)
  next
    case 2
    obtain m where m: "command_simulated_memory (2 ^ 20) = Some m" "sm_regions m = [\<lparr>region_base = 0, region_size = 2 ^ 20\<rparr>]"
      "sm_offset_bits m = 6" "sm_levels m = 2" "sm_ways m 0 = Some 4" "sm_ways m 1 = Some 8" "sm_index_bits m 0 = Some 6" "sm_index_bits m 1 = Some 7"
      using command_memory_geometry by blast
    let ?i = "\<lparr>ir_memory_size = 2 ^ 20, ir_line_size = 64, ir_features = [], ir_levels = [(4, 64), (8, 128)]\<rparr>"
    have "info_main False False False (simulated_ops m, sm_regions m) s' = Some (0, emit [Info ?i] s')" for s' :: "simulated_memory option cli_state"
      using m by (simp add: info_main_def simulated_ops_def memory_size_def upt_conv_Cons)
    then have "main_program run_simulated c a mains s = Some (0, emit [Info ?i] (?s\<lparr>cli_world := Some m\<rparr>))"
      unfolding main using vals 2 m(1) mains
      by (simp add: reverse_parse_arguments_def reverse_parse_def run_subcommand_def simulated_base_def provide_memory_first
        adapt_indexing_basic_def run_reverse_leaf_def)
    then show ?thesis using 2 by (auto simp: emit_def)
  next
    case 3
    then have "main_program run_simulated c a mains s = Some (1, emit [Log_error Bypass_depth] ?s)"
      unfolding main using vals by (simp add: reverse_parse_arguments_def reverse_parse_def run_subcommand_def provide_memory_depth)
    then show ?thesis using 3 by (auto simp: emit_def)
  qed auto
qed

section \<open>Witnesses\<close>

text \<open>A command line without options but \<open>--simulate\<close>.\<close>

definition declared_default :: "option_decl list \<Rightarrow> argument_values" where
  "declared_default decls name = (case find (\<lambda>d. name \<in> set (od_names d)) decls of None \<Rightarrow> None | Some d \<Rightarrow> od_default d)"

definition simulate_arguments :: "string \<Rightarrow> nat \<Rightarrow> cli_arguments" where
  "simulate_arguments name n = \<lparr>ca_rejected = None, ca_verbose = 0, ca_root_used = (\<lambda>n. n = ''reverse''), ca_reverse_used = (\<lambda>n. n = name),
     ca_reverse = (declared_default reverse_setup)(''--simulate'' := Some (Any_bool True), ''--level'' := Some (Any_unsigned n)),
     ca_placement = declared_default placement_setup, ca_replacement = declared_default replacement_setup\<rparr>"

definition info_only :: "(simulated_memory option, (simulated_memory, unit) provided) leaf_mains" where
  "info_only = \<lparr>lm_cycle_test = (\<lambda>_. None), lm_affine_test = (\<lambda>_. None), lm_placement = (\<lambda>_ _ _. None), lm_replacement = (\<lambda>_ _ _. None),
     lm_info = info_main False False False\<rparr>"

definition fresh_process :: "simulated_memory option cli_state" where
  "fresh_process = \<lparr>cli_world = None, cli_output = [], cli_level = Level_info\<rparr>"

lemmas declared_simps = declared_default_def reverse_setup_def replacement_setup_def add_argument_def flag_def

lemma simulate_defaults:
  "defaults_hold reverse_setup {''--simulate'', ''--level'', ''-L''} (ca_reverse (simulate_arguments name n))"
  "defaults_hold replacement_setup {} (ca_replacement (simulate_arguments name n))"
  by (simp_all add: defaults_hold_def simulate_arguments_def declared_simps)

theorem argument_errors_exit_witness:
  "main_program run_simulated unset_command (simulate_arguments ''info'' 0) info_only fresh_process =
     Some (1, emit [What (Cli_error Level_zero), Help ''reverse''] fresh_process)"
proof -
  have "reverse_values (ca_reverse (simulate_arguments ''info'' 0)) = Inl (Cli_error Level_zero)"
    by (simp add: reverse_values_def simulate_arguments_def get_value_def)
  then show ?thesis
    using argument_errors_exit [of "simulate_arguments ''info'' 0" _ run_simulated unset_command info_only fresh_process "''info''"]
    by (simp add: simulate_arguments_def fresh_process_def)
qed

theorem replacement_needs_index_witness:
  "\<exists>s'. main_program run_simulated unset_command (simulate_arguments ''replacement'' 1) info_only fresh_process = Some (1, s') \<and>
     cli_output s' = [What (Bad_any_cast ''-i''), Help ''replacement''] \<and> cli_world s' \<noteq> None"
proof -
  let ?a = "simulate_arguments ''replacement'' 1"
  have u: "ca_rejected ?a = None" "ca_root_used ?a = (\<lambda>n. n = ''reverse'')" "ca_reverse_used ?a = (\<lambda>n. n = ''replacement'')"
    by (simp_all add: simulate_arguments_def)
  have "ca_reverse ?a ''--simulate'' = Some (Any_bool True)" "ca_reverse ?a ''--level'' = Some (Any_unsigned 1)"
    by (simp_all add: simulate_arguments_def)
  from reverse_simulate_values [OF simulate_defaults(1) order_refl this]
  have "reverse_values (ca_reverse ?a) = Inr (second_level\<lparr>arg_level := 1, arg_kernel_isolation := []\<rparr>)"
    by (simp add: second_level_def)
  then have p: "reverse_parse_arguments True (ca_reverse ?a) unset_command =
      Some (Inr (unset_command\<lparr>rc_level := 0, rc_physical := False, rc_memory_size := 0x100000, rc_simulate := True\<rparr>))"
    by (simp add: reverse_parse_arguments_def reverse_parse_def second_level_def unset_command_def)
  obtain m where "command_simulated_memory 0x100000 = Some m" using command_memory_geometry by blast
  then have b: "simulated_base (unset_command\<lparr>rc_level := 0, rc_physical := False, rc_memory_size := 0x100000, rc_simulate := True\<rparr>) (cli_world fresh_process) =
      Some ((simulated_ops m, sm_regions m), Some m)"
    by (simp add: simulated_base_def)
  show ?thesis
    using replacement_needs_index [where base = simulated_base and s = fresh_process and adapt = "adapt_level rest_basic False" and
        indexing = adapt_indexing_basic and mains = info_only, OF u p b _ _ simulate_defaults(2) refl]
    by (simp add: provide_memory_first adapt_indexing_basic_def emit_def fresh_process_def)
qed

theorem simulated_info_witness:
  "\<exists>s'. main_program run_simulated unset_command (simulate_arguments ''info'' 1) info_only fresh_process = Some (0, s') \<and>
     cli_output s' = [Info \<lparr>ir_memory_size = 2 ^ 20, ir_line_size = 64, ir_features = [], ir_levels = [(4, 64), (8, 128)]\<rparr>]"
proof -
  let ?a = "simulate_arguments ''info'' 1"
  have "ca_rejected ?a = None" "ca_root_used ?a = (\<lambda>n. n = ''reverse'')" "ca_reverse_used ?a = (\<lambda>n. n = ''info'')"
    "ca_reverse ?a ''--simulate'' = Some (Any_bool True)" "ca_reverse ?a ''--level'' = Some (Any_unsigned 1)"
    by (simp_all add: simulate_arguments_def)
  from simulated_info [OF this(1,2,3) simulate_defaults(1) order_refl this(4,5), of info_only unset_command fresh_process]
  show ?thesis by (simp add: info_only_def) (auto simp: fresh_process_def)
qed

end
