(* ===== verification/CH_Agent_Thread.thy ===== *)
theory CH_Agent_Thread
  imports CH_Device_Safety CH_Agent CH_Loops
begin

text \<open>
  The rest of \<open>kernel/cachehound.c\<close>: the thread around the polling loop of the agent, the mapping of the channels into a process,
  and loading and unloading of the module. The thread disables preemption and interrupts as requested, programs the performance
  counters, polls, and undoes it all before it drops its reference of the state.

  The loop (\<open>CH_Agent\<close>) is an argument: it runs in the context that the thread has prepared and cannot change it.
\<close>

section \<open>The context of the processor\<close>

text \<open>
  The depth of disabled preemption, whether interrupts are enabled, and the performance monitor. \<open>get_cpu\<close> and
  \<open>put_cpu\<close> disable and enable preemption.
\<close>

record 'p cpu_context =
  cx_preempt :: nat
  cx_irqs :: bool
  cx_pmu :: 'p

definition preempt_disable :: "'p cpu_context \<Rightarrow> 'p cpu_context" where
  "preempt_disable c = c\<lparr>cx_preempt := cx_preempt c + 1\<rparr>"

definition preempt_enable :: "'p cpu_context \<Rightarrow> 'p cpu_context option" where
  "preempt_enable c = do { require (0 < cx_preempt c); Some (c\<lparr>cx_preempt := cx_preempt c - 1\<rparr>) }"

abbreviation get_cpu :: "'p cpu_context \<Rightarrow> 'p cpu_context" where "get_cpu \<equiv> preempt_disable"
abbreviation put_cpu :: "'p cpu_context \<Rightarrow> 'p cpu_context option" where "put_cpu \<equiv> preempt_enable"

definition CH_ISOLATION_NO_PREEMPT :: nat where "CH_ISOLATION_NO_PREEMPT = 1"
definition CH_ISOLATION_DISABLE_IRQ :: nat where "CH_ISOLATION_DISABLE_IRQ = 2"

lemmas isolation_simps = CH_ISOLATION_NO_PREEMPT_def CH_ISOLATION_DISABLE_IRQ_def

text \<open>The functions of \<open>ch_pmc.h\<close> for the platform.\<close>

record ('p, 'k) local_pmc =
  pmc_save :: "'p \<Rightarrow> ('k \<times> 'p) option"
  pmc_configure :: "64 word \<Rightarrow> 64 word \<Rightarrow> 'p \<Rightarrow> 'p"
  pmc_restore :: "'k \<Rightarrow> 'p \<Rightarrow> 'p option"

text \<open>\<open>ch_local_pmc_init\<close> sets the base of the registers by the vendor of the processor.\<close>

definition x86_local_pmc :: "cpuid \<Rightarrow> (msrs, 32 word list) local_pmc" where
  "x86_local_pmc cpuid = (let base = x86_pmc_init cpuid in
     \<lparr>pmc_save = (\<lambda>r. Some (x86_pmc_save base r)), pmc_configure = x86_pmc_configure base,
      pmc_restore = (\<lambda>counters r. Some (x86_pmc_restore base counters r))\<rparr>)"

definition arm_local_pmc :: "(arm_pmu, 64 word list) local_pmc" where
  "arm_local_pmc = \<lparr>pmc_save = (\<lambda>s. map_option (\<lambda>counters. (counters, s)) (arm_pmc_save s)), pmc_configure = arm_pmc_configure,
     pmc_restore = arm_pmc_restore\<rparr>"

section \<open>The thread of the agent\<close>

text \<open>What is kept for the way back: the interrupt flags, if they were saved, and the counters.\<close>

definition agent_enter :: "('p, 'k) local_pmc \<Rightarrow> ch_state \<Rightarrow> 'p cpu_context \<Rightarrow> (bool option \<times> 'k \<times> 'p cpu_context) option" where
  "agent_enter pmc st c = do {
     let c1 = get_cpu c;
     let (flags, c2) =
       (if cs_isolation_level st \<ge> CH_ISOLATION_NO_PREEMPT then
          (let c2 = preempt_disable c1
           in if cs_isolation_level st \<ge> CH_ISOLATION_DISABLE_IRQ then (Some (cx_irqs c2), c2\<lparr>cx_irqs := False\<rparr>) else (None, c2))
        else (None, c1));
     (counters, pmu) \<leftarrow> pmc_save pmc (cx_pmu c2);
     Some (flags, counters, c2\<lparr>cx_pmu := agent_configure (pmc_configure pmc) 0 (take 3 (cs_evts st)) pmu\<rparr>) }"

definition agent_leave :: "('p, 'k) local_pmc \<Rightarrow> bool option \<Rightarrow> 'k \<Rightarrow> ch_state \<Rightarrow> 'p cpu_context \<Rightarrow> kernel_world \<Rightarrow>
    ('p cpu_context \<times> ch_state option \<times> kernel_world) option" where
  "agent_leave pmc flags counters st c w = do {
     pmu \<leftarrow> pmc_restore pmc counters (cx_pmu c);
     let c1 = c\<lparr>cx_pmu := pmu\<rparr>;
     c2 \<leftarrow> (if cs_isolation_level st \<ge> CH_ISOLATION_NO_PREEMPT then do {
              c2 \<leftarrow> (if cs_isolation_level st \<ge> CH_ISOLATION_DISABLE_IRQ then do { f \<leftarrow> flags; Some (c1\<lparr>cx_irqs := f\<rparr>) } else Some c1);
              preempt_enable c2 }
            else Some c1);
     c3 \<leftarrow> put_cpu c2;
     (st', w') \<leftarrow> ch_state_put st w;
     Some (c3, st', w') }"

definition agent_thread :: "('p, 'k) local_pmc \<Rightarrow> ('p cpu_context \<Rightarrow> 's \<Rightarrow> 's option) \<Rightarrow> ch_state \<Rightarrow> 'p cpu_context \<Rightarrow> kernel_world \<Rightarrow> 's \<Rightarrow>
    ('p cpu_context \<times> ch_state option \<times> kernel_world \<times> 's) option" where
  "agent_thread pmc body st c w s = do {
     (flags, counters, c1) \<leftarrow> agent_enter pmc st c;
     s' \<leftarrow> body c1 s;
     (c2, st', w') \<leftarrow> agent_leave pmc flags counters st c1 w;
     Some (c2, st', w', s') }"

text \<open>The polling loop on a machine whose channels nobody else writes.\<close>

definition poll_until_exit :: "('h machine \<Rightarrow> 'h machine option) \<Rightarrow> 'p cpu_context \<Rightarrow> 'h machine \<Rightarrow> 'h machine option" where
  "poll_until_exit poll c m = map_option snd (retry (\<lambda>m. if ms_exited m then Some (Some (), m) else do { m' \<leftarrow> poll m; Some (None, m') }) m)"

definition ch_state_stop :: "ch_state \<Rightarrow> ch_state" where
  "ch_state_stop st = st\<lparr>cs_started := 0\<rparr>"

section \<open>Mapping the channels\<close>

text \<open>
  \<open>remap_pfn_range\<close> maps the frames from \<open>pfn\<close> on to the pages of the area, \<open>len\<close> bytes in whole pages; the result
  is the frame of each page of the area. It can also fail.
\<close>

record vm_area =
  vm_start :: nat
  vm_end :: nat

definition remap_pfn_range :: "bool \<Rightarrow> nat \<Rightarrow> nat \<Rightarrow> nat list option" where
  "remap_pfn_range ok pfn len = (if ok then Some [pfn..<pfn + (len + PAGE_SIZE - 1) div PAGE_SIZE] else None)"

definition device_mmap :: "bool \<Rightarrow> nat \<Rightarrow> vm_area \<Rightarrow> errno + nat list" where
  "device_mmap ok channels_pfn vma =
     (let len = vm_end vma - vm_start vma
      in case remap_pfn_range ok channels_pfn len of None \<Rightarrow> Inl EIO | Some frames \<Rightarrow> Inr frames)"

section \<open>The module\<close>

record module_state =
  mod_major :: int
  mod_chrdev :: bool
  mod_class :: bool
  mod_device :: bool

text \<open>
  \<open>register_chrdev\<close> answers with a major number or an error. A class that could not be created is passed on to
  \<open>device_create\<close>, which has no defined result.
\<close>

definition mod_init :: "int \<Rightarrow> bool \<Rightarrow> module_state \<Rightarrow> (int \<times> module_state) option" where
  "mod_init major cls_ok s =
     (if major < 0 then Some (major, s\<lparr>mod_major := major\<rparr>)
      else do {
        require cls_ok;
        Some (0, s\<lparr>mod_major := major, mod_chrdev := True, mod_class := True, mod_device := True\<rparr>) })"

definition mod_exit :: "module_state \<Rightarrow> module_state" where
  "mod_exit s = s\<lparr>mod_device := False, mod_class := False, mod_chrdev := False\<rparr>"

section \<open>Lemmas\<close>

lemma module_unloads: "mod_init major cls_ok s = Some (0, s') \<Longrightarrow>
    \<not> mod_chrdev (mod_exit s') \<and> \<not> mod_class (mod_exit s') \<and> \<not> mod_device (mod_exit s') \<and> mod_major s' = major"
  by (auto simp: mod_init_def mod_exit_def bind_eq_Some_conv split: if_splits)

text \<open>
  A mapping of at most one page shows the process the page of the channels only. A longer one, which the code does not reject, also shows
  the frames behind it.
\<close>

lemma mmap_frames: "device_mmap True pfn vma = Inr frames \<Longrightarrow>
    (set frames \<subseteq> {pfn}) = (vm_end vma - vm_start vma \<le> PAGE_SIZE)"
proof -
  assume m: "device_mmap True pfn vma = Inr frames"
  have one: "set [p..<p + n] \<subseteq> {p} \<longleftrightarrow> n \<le> 1" for p n :: nat
  proof
    assume "set [p..<p + n] \<subseteq> {p}"
    then have "p + 1 \<notin> set [p..<p + n]" by (metis add_cancel_right_right empty_iff insert_iff one_neq_zero subsetD)
    then show "n \<le> 1" by simp
  qed auto
  have "frames = [pfn..<pfn + (vm_end vma - vm_start vma + PAGE_SIZE - 1) div PAGE_SIZE]"
    using m by (simp add: device_mmap_def remap_pfn_range_def Let_def)
  moreover have "(x + PAGE_SIZE - 1) div PAGE_SIZE \<le> 1 \<longleftrightarrow> x \<le> PAGE_SIZE" for x
    unfolding PAGE_SIZE_def by linarith
  ultimately show ?thesis by (simp only: one)
qed

subsection \<open>What the loop finds\<close>

lemma wrmsr_configure: "x86_pmc_configure base reg evt r = r(base + reg := evt)"
proof -
  have "push_bit 32 (ucast (ucast (drop_bit 32 evt) :: 32 word)) OR ucast (ucast (evt AND (push_bit 32 1 - 1)) :: 32 word) = evt"
    unfolding push_bit_1_minus_1_mask by (rule bit_eqI) (auto simp: bit_simps)
  then show ?thesis by (simp add: x86_pmc_configure_def wrmsr_def)
qed

lemma configured_outside:
  "(\<forall>j. i \<le> j \<and> j < i + length evts \<longrightarrow> reg \<noteq> base + of_nat j) \<Longrightarrow> agent_configure (x86_pmc_configure base) i evts r reg = r reg"
  using configure_outside [of i evts reg base r] by blast

text \<open>The registers from \<open>i\<close> on get the events before the first zero.\<close>

lemma all_le_Suc: "(\<forall>j \<le> Suc k. P j) \<longleftrightarrow> P 0 \<and> (\<forall>j \<le> k. P (Suc j))"
proof
  show "\<forall>j \<le> Suc k. P j" if "P 0 \<and> (\<forall>j \<le> k. P (Suc j))"
  proof (intro allI impI)
    fix j assume "j \<le> Suc k"
    with that show "P j" by (cases j) simp_all
  qed
qed auto

lemma configured_events:
  "i + length evts < 2 ^ 64 \<Longrightarrow> k < length evts \<Longrightarrow>
    agent_configure (x86_pmc_configure base) i evts r (base + of_nat (i + k)) =
      (if \<forall>j \<le> k. evts ! j \<noteq> 0 then evts ! k else r (base + of_nat (i + k)))"
proof (induction evts arbitrary: i k r)
  case (Cons evt evts)
  show ?case
  proof (cases "evt = 0")
    case True
    then have "\<not> (\<forall>j \<le> k. (evt # evts) ! j \<noteq> 0)" by (metis nth_Cons_0 zero_le)
    with True show ?thesis by (simp only: agent_configure.simps if_True if_False refl)
  next
    case False
    have step: "agent_configure (x86_pmc_configure base) i (evt # evts) r =
        agent_configure (x86_pmc_configure base) (Suc i) evts (r(base + of_nat i := evt))"
      using False by (simp only: agent_configure.simps if_False wrmsr_configure)
    show ?thesis
    proof (cases k)
      case 0
      have "\<forall>j. Suc i \<le> j \<and> j < Suc i + length evts \<longrightarrow> base + of_nat i \<noteq> base + of_nat j"
        using Cons.prems(1) by (intro allI impI reg_neq) auto
      from configured_outside [OF this, of "r(base + of_nat i := evt)"] show ?thesis
        unfolding step 0 using False by (simp only: add_0_right fun_upd_same le_zero_eq simp_thms nth_Cons_0 if_True)
    next
      case (Suc k')
      have "base + of_nat (i + Suc k') \<noteq> base + of_nat i" using Cons.prems Suc by (intro reg_neq) auto
      moreover have "Suc i + length evts < 2 ^ 64" "k' < length evts" using Cons.prems Suc by simp_all
      from Cons.IH [OF this, of "r(base + of_nat i := evt)"]
      have "agent_configure (x86_pmc_configure base) (Suc i) evts (r(base + of_nat i := evt)) (base + of_nat (i + Suc k')) =
          (if \<forall>j \<le> k'. evts ! j \<noteq> 0 then evts ! k' else (r(base + of_nat i := evt)) (base + of_nat (i + Suc k')))"
        by (simp only: add_Suc add_Suc_right)
      ultimately show ?thesis unfolding step Suc all_le_Suc nth_Cons_0 nth_Cons_Suc
        using False by (cases "\<forall>j \<le> k'. evts ! j \<noteq> 0") (simp_all only: fun_upd_other simp_thms if_True if_False)
    qed
  qed
qed simp

lemma saved_cleared:
  "i + n < 2 ^ 64 \<Longrightarrow> k < n \<Longrightarrow> snd (x86_pmc_save_loop base i n r) (base + of_nat (i + k)) = 0"
proof (induction n arbitrary: i k r)
  case (Suc n)
  show ?case
  proof (cases k)
    case 0
    have "\<And>j. Suc i \<le> j \<Longrightarrow> j < Suc i + n \<Longrightarrow> base + of_nat i \<noteq> base + of_nat j" using Suc.prems(1) by (intro reg_neq) auto
    from save_loop_outside [OF this, of "Suc i" n] show ?thesis using 0 by (simp add: wrmsr_def split_beta Let_def)
  next
    case (Suc k')
    then show ?thesis using Suc.IH [of "Suc i" k'] Suc.prems by (simp add: split_beta Let_def)
  qed
qed simp

lemma programmed:
  assumes "length evts \<le> 3" and "k < 4"
  shows "agent_configure (x86_pmc_configure base) 0 evts (snd (x86_pmc_save base r)) (base + of_nat k) =
    (if k < length evts \<and> (\<forall>j \<le> k. evts ! j \<noteq> 0) then evts ! k else 0)"
proof -
  have z: "snd (x86_pmc_save base r) (base + of_nat k) = 0" using saved_cleared [of 0 4 k base r] assms(2) by (simp add: x86_pmc_save_def)
  show ?thesis
  proof (cases "k < length evts")
    case True
    then show ?thesis using configured_events [of 0 evts k base "snd (x86_pmc_save base r)"] assms(1) z by simp
  next
    case False
    then have "\<forall>j. 0 \<le> j \<and> j < 0 + length evts \<longrightarrow> base + of_nat k \<noteq> base + of_nat j" using assms by (intro allI impI reg_neq) auto
    from configured_outside [OF this] show ?thesis using False z by simp
  qed
qed

section \<open>Properties\<close>


text \<open>With the events 5, 0 and 7 the loop finds the first one programmed and the other registers cleared.\<close>

definition busy_state :: ch_state where
  "busy_state = \<lparr>cs_self = 1, cs_ref_counter = 2, cs_channels_page = 2, cs_channels = 3, cs_active_channel = 0, cs_started = 1,
     cs_isolation_level = 0, cs_evts = [5, 0, 7], cs_regions = []\<rparr>"


text \<open>The loop leaves when it is told to, and the thread with it.\<close>

lemma terminate_request_exits:
  assumes "\<not> ms_exited m" and "\<not> ms_switching m" and "vec_at (ms_channels m) (x86_channel_index (ms_active_channel m)) = Some ch"
    and "ch_control ch \<noteq> 0" and "drop_bit 1 (ch_control ch) = 0"
  shows "poll_until_exit (x86_agent_poll p) c m = Some (m\<lparr>ms_exited := True\<rparr>)"
  using assms by (simp add: poll_until_exit_def x86_agent_poll_def Let_def)

end
