(* ===== verification/CH_Any_Cache.thy ===== *)
theory CH_Any_Cache
  imports CH_Cache
begin

text \<open>
  The type-erased cache (\<open>sim/util/any_cache.hpp\<close>): a pointer to an object on the heap that forwards every operation. The heap is
  explicit, because the copy constructor copies the pointer: two objects that own the same cache.
\<close>

section \<open>Objects on the heap\<close>

type_synonym cache_heap = "nat \<Rightarrow> set_associative_cache option"

datatype any_cache = Any_cache (base_ptr: nat)

text \<open>\<open>std::make_unique\<close> answers with an address that is not in use.\<close>

definition any_cache_make :: "nat \<Rightarrow> set_associative_cache \<Rightarrow> cache_heap \<Rightarrow> (any_cache \<times> cache_heap) option" where
  "any_cache_make ptr cache heap = do { require (heap ptr = None); Some (Any_cache ptr, heap(ptr \<mapsto> cache)) }"

definition any_cache_copy :: "any_cache \<Rightarrow> any_cache" where
  "any_cache_copy other = Any_cache (base_ptr other)"

text \<open>The destructor of \<open>base_\<close>; deleting an object twice has no defined result.\<close>

definition any_cache_destroy :: "any_cache \<Rightarrow> cache_heap \<Rightarrow> cache_heap option" where
  "any_cache_destroy c heap = do { _ \<leftarrow> heap (base_ptr c); Some (heap(base_ptr c := None)) }"

definition any_cache_lookup :: "any_cache \<Rightarrow> uintptr \<Rightarrow> cache_heap \<Rightarrow> nat option option" where
  "any_cache_lookup c address heap = do { cache \<leftarrow> heap (base_ptr c); sac_lookup cache address }"

definition any_cache_hit :: "any_cache \<Rightarrow> nat option \<Rightarrow> cache_heap \<Rightarrow> cache_heap option" where
  "any_cache_hit c handle heap = do {
     cache \<leftarrow> heap (base_ptr c);
     cache' \<leftarrow> sac_hit handle cache;
     Some (heap(base_ptr c \<mapsto> cache')) }"

definition any_cache_invalidate :: "any_cache \<Rightarrow> nat option \<Rightarrow> cache_heap \<Rightarrow> cache_heap option" where
  "any_cache_invalidate c handle heap = do {
     cache \<leftarrow> heap (base_ptr c);
     cache' \<leftarrow> sac_invalidate handle cache;
     Some (heap(base_ptr c \<mapsto> cache')) }"

definition any_cache_fill :: "any_cache \<Rightarrow> uintptr \<Rightarrow> cache_heap \<Rightarrow> (uintptr option \<times> cache_heap) option" where
  "any_cache_fill c address heap = do {
     cache \<leftarrow> heap (base_ptr c);
     (victim, cache') \<leftarrow> sac_fill address cache;
     Some (victim, heap(base_ptr c \<mapsto> cache')) }"

section \<open>Forwarding and copies\<close>

text \<open>On its own object every operation does what the cache does, and other objects keep their cache.\<close>

lemma any_cache_forwards:
  assumes "heap (base_ptr c) = Some cache"
  shows "any_cache_lookup c address heap = sac_lookup cache address"
    and "any_cache_hit c handle heap = map_option (\<lambda>k. heap(base_ptr c \<mapsto> k)) (sac_hit handle cache)"
    and "any_cache_invalidate c handle heap = map_option (\<lambda>k. heap(base_ptr c \<mapsto> k)) (sac_invalidate handle cache)"
    and "any_cache_fill c address heap = map_option (\<lambda>(v, k). (v, heap(base_ptr c \<mapsto> k))) (sac_fill address cache)"
  using assms
  by (auto simp: any_cache_lookup_def any_cache_hit_def any_cache_invalidate_def any_cache_fill_def map_option_case
      split: option.splits bind_splits)

text \<open>
  A copy is not a cache of its own: what is filled through it is found in the original, and when one of the two has been destroyed the other one
  dangles, so that every use of it, its destructor included, has no defined result.
\<close>

theorem any_cache_copy_shares:
  assumes make: "any_cache_make ptr cache heap = Some (c, heap1)" and wf: "cache_wf cache" "\<not> cached cache address"
  shows "any_cache_lookup c address heap1 = Some None \<and>
    (\<exists>victim heap2 handle. any_cache_fill (any_cache_copy c) address heap1 = Some (victim, heap2) \<and>
       any_cache_lookup c address heap2 = Some (Some handle) \<and>
       (\<exists>heap3. any_cache_destroy (any_cache_copy c) heap2 = Some heap3 \<and>
          any_cache_destroy c heap3 = None \<and> any_cache_lookup c address heap3 = None))"
proof -
  have c: "c = Any_cache ptr" "heap1 = heap(ptr \<mapsto> cache)" using make by (auto simp: any_cache_make_def bind_eq_Some_conv)
  from sac_fill_effect [OF wf] obtain v cache' where f: "sac_fill address cache = Some (v, cache')" "cache_wf cache'" "cached cache' address" by blast
  show ?thesis using f wf
    by (simp add: c any_cache_copy_def any_cache_forwards any_cache_fill_def any_cache_lookup_def any_cache_destroy_def sac_lookup_set)
qed

theorem any_cache_copy_shares_witness:
  "\<exists>cache c heap1. any_cache_make 0 cache (\<lambda>_. None) = Some (c, heap1) \<and> any_cache_lookup c 0x40 heap1 = Some None"
proof -
  from small_cache obtain cache where k: "cache_wf cache" "\<not> cached cache 0x40" by blast
  have "any_cache_make 0 cache (\<lambda>_. None) = Some (Any_cache 0, [0 \<mapsto> cache])" by (simp add: any_cache_make_def)
  with any_cache_copy_shares [OF this k] show ?thesis by blast
qed

end
