(* ===== verification/CH_Unit_Test.thy ===== *)
theory CH_Unit_Test
  imports CH_Sequence
begin

text \<open>
  The unit test of the replacement policies (\<open>lib/test/src/replacement.cpp\<close>): for every item of the data file, hit counters from uops.info, the
  sequence is simulated and the counter of each known policy is compared. The parsed file is a list of items.
\<close>

record test_item =
  ti_sequence :: "nat list"
  ti_associativity :: nat
  ti_hit_counters :: "(string \<times> nat) list"

text \<open>Associativity, sequence and expected hit counter.\<close>

type_synonym test_case = "nat \<times> nat list \<times> nat"

text \<open>\<open>tests[policy_name].emplace_back\<close>; the map of the code is unordered, here it has the order of insertion.\<close>

fun add_test_case :: "string \<Rightarrow> test_case \<Rightarrow> (string \<times> test_case list) list \<Rightarrow> (string \<times> test_case list) list" where
  "add_test_case policy_name tc [] = [(policy_name, [tc])]"
| "add_test_case policy_name tc ((name, tcs) # tests) =
     (if name = policy_name then (name, tcs @ [tc]) # tests else (name, tcs) # add_test_case policy_name tc tests)"

definition collect_item :: "test_item \<Rightarrow> (string \<times> test_case list) list \<Rightarrow> (string \<times> test_case list) list" where
  "collect_item item tests =
     fold (\<lambda>(policy_name, hit_counter). add_test_case policy_name (ti_associativity item, ti_sequence item, hit_counter)) (ti_hit_counters item) tests"

definition collect_tests :: "test_item list \<Rightarrow> (string \<times> test_case list) list" where
  "collect_tests data = fold collect_item data []"

text \<open>One comparison: unknown policies are skipped, and a failed assertion is \<open>None\<close>.\<close>

definition run_test_case :: "string \<Rightarrow> test_case \<Rightarrow> bool option" where
  "run_test_case policy_name = (\<lambda>(associativity, seq, expected). do {
     pol \<leftarrow> make_replacement_policy policy_name associativity;
     case pol of
       None \<Rightarrow> Some True
     | Some p \<Rightarrow> do {
         require (any_ways p = associativity);
         (hits, _) \<leftarrow> simulate_sequence any_ways any_hit any_miss seq p;
         Some (hits = expected) } })"

text \<open>All comparisons are made; the test passes when all of them are right.\<close>

definition replacement_test :: "test_item list \<Rightarrow> bool" where
  "replacement_test data = list_all (\<lambda>(policy_name, tcs). list_all (\<lambda>tc. run_test_case policy_name tc = Some True) tcs) (collect_tests data)"

section \<open>What the test says\<close>

definition in_tests :: "string \<Rightarrow> test_case \<Rightarrow> (string \<times> test_case list) list \<Rightarrow> bool" where
  "in_tests name tc tests \<longleftrightarrow> (\<exists>tcs. (name, tcs) \<in> set tests \<and> tc \<in> set tcs)"

lemma in_add_test_case: "in_tests name tc (add_test_case policy_name tc' tests) \<longleftrightarrow> in_tests name tc tests \<or> name = policy_name \<and> tc = tc'"
  by (induction policy_name tc' tests rule: add_test_case.induct) (auto simp: in_tests_def)

lemma in_collect_item: "in_tests name tc (collect_item item tests) \<longleftrightarrow>
    in_tests name tc tests \<or> (\<exists>h. (name, h) \<in> set (ti_hit_counters item) \<and> tc = (ti_associativity item, ti_sequence item, h))"
proof -
  have "in_tests name tc (fold (\<lambda>(policy_name, hit_counter). add_test_case policy_name (a, s, hit_counter)) counters tests) \<longleftrightarrow>
      in_tests name tc tests \<or> (\<exists>h. (name, h) \<in> set counters \<and> tc = (a, s, h))" for a s counters
    by (induction counters arbitrary: tests) (auto simp: in_add_test_case)
  then show ?thesis by (simp add: collect_item_def)
qed

lemma in_collect_tests: "in_tests name tc (collect_tests data) \<longleftrightarrow>
    (\<exists>item \<in> set data. \<exists>h. (name, h) \<in> set (ti_hit_counters item) \<and> tc = (ti_associativity item, ti_sequence item, h))"
proof -
  have "in_tests name tc (fold collect_item data tests) \<longleftrightarrow> in_tests name tc tests \<or>
      (\<exists>item \<in> set data. \<exists>h. (name, h) \<in> set (ti_hit_counters item) \<and> tc = (ti_associativity item, ti_sequence item, h))" for tests
    by (induction data arbitrary: tests) (auto simp: in_collect_item)
  then show ?thesis by (simp add: collect_tests_def in_tests_def [of _ _ "[]"])
qed

text \<open>The test passes exactly when every listed counter of a policy that can be built is the number of hits of its simulation.\<close>

lemma replacement_test_iff: "replacement_test items \<longleftrightarrow>
    (\<forall>item \<in> set items. \<forall>(name, h) \<in> set (ti_hit_counters item). run_test_case name (ti_associativity item, ti_sequence item, h) = Some True)"
proof -
  have "replacement_test items \<longleftrightarrow> (\<forall>name tc. in_tests name tc (collect_tests items) \<longrightarrow> run_test_case name tc = Some True)"
    unfolding replacement_test_def list_all_iff in_tests_def by blast
  then show ?thesis by (fastforce simp: in_collect_tests)
qed

end
