(* ===== verification/Spec2Isabelle.thy ===== *)
theory Spec2Isabelle
  imports CH_Lru_Stack CH_Group_Test CH_Regions CH_Kernel_Arm CH_Device_Safety CH_Refcount CH_Kernel_Setup
    CH_Affine CH_Reverse_Replacement CH_Reverse_Placement CH_Self_Tests CH_Formula CH_Cli CH_Agent_Thread CH_Any_Cache CH_Unit_Test
begin

text \<open>
  A verification of CacheHound, a tool that finds out how the caches of a processor work: which function places an
  address in a cache set, and which policy replaces the lines of a set.

  \<^bold>\<open>The program.\<close> The library (\<open>src/lib\<close>) holds replacement and placement policies, algorithms on eviction sets and on
  access sequences, memories and adapters. The simulator (\<open>src/sim\<close>) is a memory made of simulated caches. A kernel
  module (\<open>src/kernel\<close>) executes accesses next to performance counters on a processor of its own; the library's
  \<open>kernel_memory\<close> talks to it through channels, cache lines shared by both. The command line tool (\<open>src/cli\<close>) builds a
  memory, stacks adapters on it, and runs a command: \<open>reverse replacement\<close> measures random sequences on one cache set and
  drops the candidate policies whose simulation disagrees, \<open>reverse placement\<close> locates the sets of random addresses
  with an eviction strategy and solves for an affine placement function.

  \<^bold>\<open>Conventions\<close> (\<open>CH_Prelude\<close>). Classes are records, type-erased classes are datatypes, addresses are 64-bit words, and
  operations pass their state explicitly. The value \<open>None\<close> of an operation is a run without a defined result: a failing
  assertion, an index out of range, an undefined shift. Exceptions and error codes that the program handles are
  left values of sums or values of datatypes.

  \<^bold>\<open>Loops.\<close> Loops with a bound in the source are structural recursions or functions with a measure. A loop that ends only
  with luck or not at all is a partial function, which has the value \<open>None\<close> when it never ends: the search loop of SRRIP, the
  loops of \<open>reverse replacement\<close>, and the iterator \<open>retry\<close> of \<open>CH_Loops\<close>, of which the loops over random addresses
  are instances. There is no fuel: the theorems either say that a loop returns, with its result, or that it does not
  return, and the invariant rule \<open>retry_invariant\<close> gives what holds of every result.

  \<^bold>\<open>Parameters.\<close> Code outside the sources is an argument of the definitions: the number distributions and generators of the
  C++ library (\<open>random_source\<close> with the documented ranges \<open>source_ok\<close>, and \<open>draw\<close> arguments), the determinant of Eigen
  (\<open>eigen_det\<close> with \<open>exact_determinant\<close>), the processor with its counters and registers (\<open>processor\<close>), the answers of the
  kernel's allocators, and what argparse delivers to a command.

  \<^bold>\<open>Replacement policies\<close> (\<open>lib/policies/replacement\<close>, \<open>lib/util/*replacement_policy.hpp\<close>). The locale
  \<open>replacement_policy\<close> of \<open>CH_Replacement\<close> is the concept of that name with the laws its clients rely on; it is interpreted
  on FIFO and LRU there, on tree-PLRU in \<open>CH_Plru\<close>, on SRRIP and its aliases in \<open>CH_Srrip\<close>, on the wrapping policies in
  \<open>CH_Composite\<close> (sublocales of \<open>nested_policy\<close>) and on the type-erased policy in \<open>CH_Registry\<close>, which also has the
  candidate names. Shown: no operation faults, which way each policy evicts, and that every candidate can be built.

  \<^bold>\<open>Sequences\<close> (\<open>lib/algo/simulate_sequence.hpp\<close>, \<open>lib/util/sequence.hpp\<close>, \<open>lib/algo/measure_sequence.hpp\<close>).
  \<open>CH_Sequence\<close>: the table-driven simulation equals the plain cache set, and the in-place filter keeps the matching
  candidates. \<open>CH_Lru_Stack\<close>: LRU hits by stack distance. \<open>CH_Measure\<close>: measuring a sequence on a memory that meets
  \<open>instrumented_set\<close> gives the simulated hit counter.

  \<^bold>\<open>Simulated memories\<close> (\<open>sim\<close>). \<open>CH_Placement\<close> has the placement policies, \<open>CH_Cache\<close> the set associative cache, refined to
  the plain set, and \<open>CH_Sim_Memory\<close> the hierarchy, with the behaviour of its first level. \<open>CH_Any_Cache\<close> is the type-erased
  cache on an explicit heap, where a copy shares the object of the original.

  \<^bold>\<open>Eviction sets\<close> (\<open>lib/algo/*eviction_set*\<close>, \<open>lib/util/locate_set.hpp\<close>, \<open>lib/strategies\<close>). The algorithms get the test for
  an eviction set as an argument. Its contract is the locale \<open>exact_test\<close> of \<open>CH_Eviction_Sets\<close>, from which the contracts
  of the single algorithms follow by sublocales: \<open>bounded_oracle\<close> for reduction and minimisation, \<open>group_oracle\<close>
  (\<open>CH_Group_Test\<close>) for the binary searches, \<open>set_search\<close> (\<open>CH_Find_Eviction_Set\<close>) for the search with random addresses.
  \<open>CH_Lru_Eviction\<close> shows that the library's test is exact over an LRU first level, from every state of the memory.

  \<^bold>\<open>Random addresses\<close> (\<open>lib/util/*address_distribution*\<close>, \<open>lib/util/warmup.hpp\<close>). \<open>CH_Distributions\<close> with the locale
  \<open>address_distribution\<close>: drawn addresses lie in the memory, and the set-cycling distribution visits set after set.

  \<^bold>\<open>Placement reversal\<close> (\<open>cli/placement\<close>, \<open>cli/commands/impl/reverse_placement_command.hpp\<close>). \<open>CH_Gf2\<close> is the linear algebra
  over bits, \<open>CH_Affine\<close> the reverser, which recovers every affine function. \<open>CH_Evset_Test\<close> is the repeated test with reset
  and cache pollution that the commands use, \<open>CH_Completion\<close> relates a test that may run forever to a total one by
  monotonicity, \<open>CH_Strategy\<close> collects one eviction set per cache set, and \<open>CH_Reverse_Placement\<close> is the command: its result
  is the placement function, if it never draws an address of its own eviction sets, and otherwise it may never return.
  \<open>CH_Formula\<close> is the text that the command prints for the policy, \<open>affine_to_string\<close>: it is the rendering of one formula, and the
  value of this formula is the placement function.

  \<^bold>\<open>Replacement reversal\<close> (\<open>cli/commands/impl/reverse_replacement_command.hpp\<close>). \<open>CH_Reverse_Replacement\<close>: with mostly right
  measurements and sequences that tell the candidates apart the true policy is left; for tree-PLRU, which has two names, the
  command never ends.

  \<^bold>\<open>Kernel module and kernel memory\<close> (\<open>kernel\<close>, \<open>lib/backends\<close>). \<open>CH_Channel\<close> has the channels, \<open>CH_Agent\<close> the polling loops of
  the agent on both architectures (locale \<open>channel_agent\<close>), \<open>CH_Protocol\<close> the chain of channel switches. The agent runs next to
  the process: a wait of the process (\<open>waits_for_idle\<close>) ends after some number of the agent's polls, and the theorems hold
  for every such number. \<open>CH_Kernel_Memory\<close> and \<open>CH_Kernel_Setup\<close> are the library's side. \<open>CH_Kernel_Refinement\<close> and
  \<open>CH_Kernel_Arm\<close> show that programs on a kernel memory refine programs on the processor. \<open>CH_Hw_Info\<close> reads geometry and
  counters from registers. \<open>CH_Device\<close>, \<open>CH_Device_Safety\<close> and \<open>CH_Refcount\<close> are the file operations, with a step relation for
  their order and for the threads that drop the last references: everything is freed once. \<open>CH_Agent_Thread\<close> is the thread
  around the polling loop, which leaves the processor as it found it, the mapping of the channels and the loading of the module.

  \<^bold>\<open>Regions, adapters, commands.\<close> \<open>CH_Regions\<close>: regions, address checker, translation of physical addresses. \<open>CH_Bypass\<close>:
  the adapters that hide a cache level. \<open>CH_Commands\<close>: arguments, counters and levels, the memory of a command, dispatch.
  \<open>CH_Self_Tests\<close>: \<open>cycle-test\<close> and \<open>affine-test\<close>. \<open>CH_Cli\<close>: the options with their defaults, the values read from argparse, and
  the program from its arguments to the exit code, with what happens when arguments are wrong. \<open>CH_Unit_Test\<close>: the
  repository's test of the policies against published hit counters.

  \<^bold>\<open>Assumed of a memory.\<close> Theorems about algorithms on a memory hold for the simulated memory with a well-formed hierarchy and an
  LRU first level (\<open>lru_memory\<close>); a reset that empties the first level is \<open>clean_reset\<close>.

  \<^bold>\<open>Not modelled.\<close> The wording of log messages and help texts.
  The fast variant \<open>minimize_eviction_set\<close>, which reads an uninitialised iterator and does not compile when instantiated.
  Memory barriers: the model executes in program order. The manual client of the kernel module, which does not
  compile against the current interface. C++ concepts have no behaviour of their own;
  those that carry laws are the locales named above. The strategy by set-and-way instructions is defined, but the effect of
  these instructions on a cache is the processor's, which has no definition in the sources, so its search is not
  shown to be exact.
\<close>

end
